(* ===== verification/Prelude.thy ===== *)
theory Prelude
  imports Main "HOL-Library.Word"
begin

text \<open>
  Shared vocabulary of the development: the machine integer types of
  \<^verbatim>\<open>kernel/types.h\<close>, the outcome of a piece of kernel code, the state
  monad every kernel function is written in, the loop combinators, and the collections of
  lemmas the component theories rely on.

  A kernel function is a function from the state to an \<open>outcome\<close>:
  \<^item> \<open>Ok x s\<close>: the function returned \<open>x\<close> in the state \<open>s\<close>;
  \<^item> \<open>Panic msg\<close>: the code called \<^verbatim>\<open>panic(msg)\<close>, which never returns;
  \<^item> \<open>Fault what\<close>: the code did something C leaves undefined (an access outside an
    object, a null pointer dereference);
  \<^item> \<open>Blocked s\<close>: the thread has to wait for another one (it spins on a lock of another
    hart, or it has gone to sleep), in the state \<open>s\<close>;
  \<^item> \<open>Diverge\<close>: a loop ran out of the fuel given to it.
\<close>

unbundle bit_operations_syntax

subsection \<open>Machine integers (types.h)\<close>

type_synonym u8 = "8 word"
type_synonym u16 = "16 word"
type_synonym u32 = "32 word"
type_synonym u64 = "64 word"

subsection \<open>Collections of lemmas\<close>

named_theorems kmonad \<open>unfolding of the monad's combinators at a state\<close>
named_theorems kinv_intro \<open>introduction rules for preservation of a state predicate\<close>
named_theorems page_simps \<open>page arithmetic on addresses\<close>

subsection \<open>Outcomes and the kernel monad\<close>

datatype ('a, 's) outcome =
    Ok 'a 's
  | Panic string
  | Fault string
  | Blocked 's
  | Diverge

type_synonym ('s, 'a) km = "'s \<Rightarrow> ('a, 's) outcome"

definition kret :: "'a \<Rightarrow> ('s, 'a) km" where
  "kret x = (\<lambda>s. Ok x s)"

definition kbind :: "('s, 'a) km \<Rightarrow> ('a \<Rightarrow> ('s, 'b) km) \<Rightarrow> ('s, 'b) km" where
  "kbind m f = (\<lambda>s. case m s of
       Ok x s' \<Rightarrow> f x s'
     | Panic e \<Rightarrow> Panic e
     | Fault e \<Rightarrow> Fault e
     | Blocked s' \<Rightarrow> Blocked s'
     | Diverge \<Rightarrow> Diverge)"

definition kthen :: "('s, 'a) km \<Rightarrow> ('s, 'b) km \<Rightarrow> ('s, 'b) km" where
  "kthen m n = kbind m (\<lambda>_. n)"

text \<open>A block of statements, run in order.\<close>

primrec kdo :: "('s, unit) km list \<Rightarrow> ('s, unit) km" where
  "kdo [] = kret ()"
| "kdo (m # ms) = kthen m (kdo ms)"

definition kget :: "('s \<Rightarrow> 'a) \<Rightarrow> ('s, 'a) km" where
  "kget f = (\<lambda>s. Ok (f s) s)"

definition kmodify :: "('s \<Rightarrow> 's) \<Rightarrow> ('s, unit) km" where
  "kmodify f = (\<lambda>s. Ok () (f s))"

definition kpanic :: "string \<Rightarrow> ('s, 'a) km" where
  "kpanic e = (\<lambda>s. Panic e)"

definition kfault :: "string \<Rightarrow> ('s, 'a) km" where
  "kfault e = (\<lambda>s. Fault e)"

definition kpanic_if :: "bool \<Rightarrow> string \<Rightarrow> ('s, unit) km" where
  "kpanic_if c e = (if c then kpanic e else kret ())"

definition kwhen :: "bool \<Rightarrow> ('s, unit) km \<Rightarrow> ('s, unit) km" where
  "kwhen c m = (if c then m else kret ())"

lemma kret_apply [kmonad]: "kret x s = Ok x s"
  by (simp add: kret_def)

lemma kget_apply [kmonad]: "kget f s = Ok (f s) s"
  by (simp add: kget_def)

lemma kmodify_apply [kmonad]: "kmodify f s = Ok () (f s)"
  by (simp add: kmodify_def)

lemma kpanic_apply [kmonad]: "kpanic e s = Panic e"
  by (simp add: kpanic_def)

lemma kfault_apply [kmonad]: "kfault e s = Fault e"
  by (simp add: kfault_def)

lemma kpanic_if_apply [kmonad]: "kpanic_if c e s = (if c then Panic e else Ok () s)"
  by (simp add: kpanic_if_def kpanic_def kret_def)

lemma kwhen_apply [kmonad]: "kwhen c m s = (if c then m s else Ok () s)"
  by (simp add: kwhen_def kret_def)

lemma kbind_apply [kmonad]:
  "kbind m f s = (case m s of
       Ok x s' \<Rightarrow> f x s' | Panic e \<Rightarrow> Panic e | Fault e \<Rightarrow> Fault e
     | Blocked s' \<Rightarrow> Blocked s' | Diverge \<Rightarrow> Diverge)"
  by (simp add: kbind_def)

text \<open>One step of a sequence, once the outcome of its first part is known.\<close>

lemma kbind_Ok: "m s = Ok x s' \<Longrightarrow> kbind m f s = f x s'"
  by (simp add: kbind_def)

lemma kthen_Ok: "m s = Ok x s' \<Longrightarrow> kthen m n s = n s'"
  by (simp add: kthen_def kbind_def)

lemma kthen_apply [kmonad]: "kthen m n s = kbind m (\<lambda>_. n) s"
  by (simp add: kthen_def)

lemma kbind_assoc: "kbind (kbind m f) g = kbind m (\<lambda>x. kbind (f x) g)"
  by (auto simp: fun_eq_iff kbind_def split: outcome.splits)

lemma kbind_eq_Ok:
  "kbind m f s = Ok y s'' \<longleftrightarrow> (\<exists>x s'. m s = Ok x s' \<and> f x s' = Ok y s'')"
  by (auto simp: kbind_def split: outcome.splits)

lemma kbind_OkE:
  assumes "kbind m f s = Ok y s''"
  obtains x s' where "m s = Ok x s'" and "f x s' = Ok y s''"
  using assms by (auto simp: kbind_eq_Ok)

lemma kthen_eq_Ok:
  "kthen m n s = Ok y s'' \<longleftrightarrow> (\<exists>x s'. m s = Ok x s' \<and> n s' = Ok y s'')"
  by (simp add: kthen_def kbind_eq_Ok)

lemma kbind_cong [fundef_cong]:
  "m = m' \<Longrightarrow> (\<And>x. f x = f' x) \<Longrightarrow> kbind m f = kbind m' f'"
  by presburger

subsection \<open>Loops\<close>

text \<open>
  \<open>kfor body xs\<close> runs the body over the elements of \<open>xs\<close> in order; the body answers
  \<open>None\<close> to go on and \<open>Some r\<close> to leave the loop (a \<^verbatim>\<open>break\<close>, a
  \<^verbatim>\<open>return\<close> or a \<^verbatim>\<open>goto\<close> out of it).
\<close>

fun kfor :: "('i \<Rightarrow> ('s, 'r option) km) \<Rightarrow> 'i list \<Rightarrow> ('s, 'r option) km" where
  "kfor body [] = kret None"
| "kfor body (x # xs) =
     kbind (body x) (\<lambda>r. case r of None \<Rightarrow> kfor body xs | Some v \<Rightarrow> kret (Some v))"

text \<open>
  \<open>kwhile n cond body v\<close> is \<^verbatim>\<open>while(cond) body\<close> on the loop variables \<open>v\<close>, with
  fuel for \<open>n\<close> tests of the condition.
\<close>

fun kwhile :: "nat \<Rightarrow> ('v \<Rightarrow> bool) \<Rightarrow> ('v \<Rightarrow> ('s, 'v) km) \<Rightarrow> 'v \<Rightarrow> ('s, 'v) km" where
  "kwhile 0 cond body v = (\<lambda>s. Diverge)"
| "kwhile (Suc n) cond body v =
     (if cond v then kbind (body v) (\<lambda>v'. kwhile n cond body v') else kret v)"

text \<open>The same for a loop on the state: the condition is read anew before every round.\<close>

fun kloop :: "nat \<Rightarrow> ('s, bool) km \<Rightarrow> ('s, unit) km \<Rightarrow> ('s, unit) km" where
  "kloop 0 cond body = (\<lambda>s. Diverge)"
| "kloop (Suc n) cond body =
     kbind cond (\<lambda>b. if b then kthen body (kloop n cond body) else kret ())"

lemma kwhile_panic:
  "0 < n \<Longrightarrow> cond v \<Longrightarrow> body v s = Panic e \<Longrightarrow> kwhile n cond body v s = Panic e"
  by (cases n) (simp_all add: kbind_apply)

text \<open>Loops over the parts of a list, and over elements that change nothing.\<close>

lemma kfor_append:
  "kfor body (xs @ ys) = kbind (kfor body xs) (\<lambda>r. case r of None \<Rightarrow> kfor body ys | Some v \<Rightarrow> kret (Some v))"
proof (induction xs)
  case (Cons x xs)
  have "kbind (body x) (\<lambda>r. case r of None \<Rightarrow> kbind (kfor body xs) f | Some v \<Rightarrow> kret (Some v)) =
      kbind (kbind (body x) (\<lambda>r. case r of None \<Rightarrow> kfor body xs | Some v \<Rightarrow> kret (Some v))) f"
    if "\<And>v. f (Some v) = kret (Some v)" for f
    using that by (auto simp: kbind_def kret_def fun_eq_iff split: outcome.splits option.splits)
  with Cons show ?case by simp
qed (simp add: kbind_def kret_def)

lemma kfor_skip: "\<forall>x \<in> set xs. body x s = Ok None s \<Longrightarrow> kfor body xs s = Ok None s"
  by (induction xs) (simp_all add: kmonad)

text \<open>A loop over the elements of a list keeps what every round of its body keeps.\<close>

lemma kfor_induct:
  assumes "kfor body xs s = Ok r s'"
    and "P s"
    and "\<And>x s r s'. x \<in> set xs \<Longrightarrow> P s \<Longrightarrow> body x s = Ok r s' \<Longrightarrow> P s'"
  shows "P s'"
  using assms
proof (induction xs arbitrary: s)
  case Nil
  then show ?case by (simp add: kret_def)
next
  case (Cons x xs)
  from Cons.prems(1) obtain r1 s1 where b: "body x s = Ok r1 s1"
    and k: "(case r1 of None \<Rightarrow> kfor body xs | Some v \<Rightarrow> kret (Some v)) s1 = Ok r s'"
    by (auto elim: kbind_OkE)
  have P1: "P s1" using Cons.prems(2,3) b by (meson list.set_intros(1))
  show ?case
  proof (cases r1)
    case None
    with k have "kfor body xs s1 = Ok r s'" by simp
    then show ?thesis using P1 Cons.prems(3) Cons.IH by (meson list.set_intros(2))
  next
    case (Some v)
    with k P1 show ?thesis by (simp add: kret_def)
  qed
qed

subsection \<open>Preservation of a state predicate\<close>

text \<open>
  \<open>kkeeps I m\<close>: whenever \<open>m\<close> returns, it has kept \<open>I\<close>. The rules follow the shape of
  the code, so that a frame condition of a function is proved from those of its calls.
\<close>

definition kkeeps :: "('s \<Rightarrow> bool) \<Rightarrow> ('s, 'a) km \<Rightarrow> bool" where
  "kkeeps I m \<longleftrightarrow> (\<forall>s x s'. I s \<longrightarrow> m s = Ok x s' \<longrightarrow> I s')"

lemma kkeepsI: "(\<And>s x s'. I s \<Longrightarrow> m s = Ok x s' \<Longrightarrow> I s') \<Longrightarrow> kkeeps I m"
  by (simp add: kkeeps_def)

lemma kkeepsD: "kkeeps I m \<Longrightarrow> m s = Ok x s' \<Longrightarrow> I s \<Longrightarrow> I s'"
  by (auto simp: kkeeps_def)

lemma kkeeps_kret [kinv_intro]: "kkeeps I (kret x)"
  by (simp add: kkeeps_def kret_def)

lemma kkeeps_kget [kinv_intro]: "kkeeps I (kget f)"
  by (simp add: kkeeps_def kget_def)

lemma kkeeps_kpanic [kinv_intro]: "kkeeps I (kpanic e)"
  by (simp add: kkeeps_def kpanic_def)

lemma kkeeps_kfault [kinv_intro]: "kkeeps I (kfault e)"
  by (simp add: kkeeps_def kfault_def)

lemma kkeeps_kpanic_if [kinv_intro]: "kkeeps I (kpanic_if c e)"
  by (simp add: kkeeps_def kpanic_if_def kpanic_def kret_def)

lemma kkeeps_kbind [kinv_intro]:
  "kkeeps I m \<Longrightarrow> (\<And>x. kkeeps I (f x)) \<Longrightarrow> kkeeps I (kbind m f)"
  by (rule kkeepsI, erule kbind_OkE) (blast dest: kkeepsD)

lemma kkeeps_kthen [kinv_intro]: "kkeeps I m \<Longrightarrow> kkeeps I n \<Longrightarrow> kkeeps I (kthen m n)"
  by (simp add: kthen_def kkeeps_kbind)

lemma kkeeps_kdo [kinv_intro]: "(\<And>m. m \<in> set ms \<Longrightarrow> kkeeps I m) \<Longrightarrow> kkeeps I (kdo ms)"
  by (induction ms) (auto intro: kkeeps_kret kkeeps_kthen)

lemma kkeeps_if [kinv_intro]:
  "(c \<Longrightarrow> kkeeps I m) \<Longrightarrow> (\<not> c \<Longrightarrow> kkeeps I n) \<Longrightarrow> kkeeps I (if c then m else n)"
  by simp

lemma kkeeps_kwhen [kinv_intro]: "(c \<Longrightarrow> kkeeps I m) \<Longrightarrow> kkeeps I (kwhen c m)"
  by (simp add: kwhen_def kkeeps_kret)

lemma kkeeps_kfor [kinv_intro]:
  "(\<And>x. x \<in> set xs \<Longrightarrow> kkeeps I (body x)) \<Longrightarrow> kkeeps I (kfor body xs)"
  by (rule kkeepsI, erule kfor_induct, assumption) (auto dest: kkeepsD)

lemma kkeeps_kmodify: "(\<And>s. I s \<Longrightarrow> I (f s)) \<Longrightarrow> kkeeps I (kmodify f)"
  by (simp add: kkeeps_def kmodify_def)

lemma kkeeps_option [kinv_intro]:
  "kkeeps I m \<Longrightarrow> (\<And>x. kkeeps I (f x)) \<Longrightarrow> kkeeps I (case z of None \<Rightarrow> m | Some x \<Rightarrow> f x)"
  by (cases z) auto

end
