(* ===== verification/Riscv.thy ===== *)
theory Riscv
  imports Prelude
begin

text \<open>
  The Sv39 page-table macros of \<^verbatim>\<open>kernel/riscv.h\<close>, the memory layout of
  \<^verbatim>\<open>kernel/memlayout.h\<close> and the limits of \<^verbatim>\<open>kernel/param.h\<close>, at
  their 64-bit width, with the arithmetic the rest of the development uses.
\<close>

subsection \<open>Limits (param.h)\<close>

abbreviation (input) NPROC :: nat where "NPROC \<equiv> 64"
abbreviation (input) NCPU :: nat where "NCPU \<equiv> 8"
abbreviation (input) NOFILE :: nat where "NOFILE \<equiv> 16"
abbreviation (input) NFILE :: nat where "NFILE \<equiv> 100"
abbreviation (input) NINODE :: nat where "NINODE \<equiv> 50"
abbreviation (input) NDEV :: nat where "NDEV \<equiv> 10"
abbreviation (input) ROOTDEV :: u32 where "ROOTDEV \<equiv> 1"
abbreviation (input) MAXARG :: nat where "MAXARG \<equiv> 32"
abbreviation (input) MAXOPBLOCKS :: nat where "MAXOPBLOCKS \<equiv> 10"
abbreviation (input) LOGBLOCKS :: nat where "LOGBLOCKS \<equiv> MAXOPBLOCKS * 3"
abbreviation (input) NBUF :: nat where "NBUF \<equiv> MAXOPBLOCKS * 3"
abbreviation (input) FSSIZE :: u32 where "FSSIZE \<equiv> 2000"
abbreviation (input) MAXPATH :: nat where "MAXPATH \<equiv> 128"
abbreviation (input) USERSTACK :: u64 where "USERSTACK \<equiv> 1"

subsection \<open>Pages and page-table entries (riscv.h)\<close>

abbreviation (input) PGSIZE :: u64 where "PGSIZE \<equiv> 4096"
abbreviation (input) PGSHIFT :: nat where "PGSHIFT \<equiv> 12"

definition PGROUNDUP :: "u64 \<Rightarrow> u64" where
  "PGROUNDUP sz = (sz + PGSIZE - 1) AND NOT (PGSIZE - 1)"

definition PGROUNDDOWN :: "u64 \<Rightarrow> u64" where
  "PGROUNDDOWN a = a AND NOT (PGSIZE - 1)"

abbreviation (input) PTE_V :: u64 where "PTE_V \<equiv> 1"
abbreviation (input) PTE_R :: u64 where "PTE_R \<equiv> 2"
abbreviation (input) PTE_W :: u64 where "PTE_W \<equiv> 4"
abbreviation (input) PTE_X :: u64 where "PTE_X \<equiv> 8"
abbreviation (input) PTE_U :: u64 where "PTE_U \<equiv> 16"
abbreviation (input) PTE_COW :: u64 where "PTE_COW \<equiv> 256"
abbreviation (input) PTE_SWAPPED :: u64 where "PTE_SWAPPED \<equiv> 512"

definition PA2PTE :: "u64 \<Rightarrow> u64" where
  "PA2PTE pa = push_bit 10 (drop_bit 12 pa)"

definition PTE2PA :: "u64 \<Rightarrow> u64" where
  "PTE2PA pte = push_bit 12 (drop_bit 10 pte)"

definition PTE_FLAGS :: "u64 \<Rightarrow> u64" where
  "PTE_FLAGS pte = pte AND 0x3FF"

abbreviation (input) PXMASK :: u64 where "PXMASK \<equiv> 0x1FF"

definition PXSHIFT :: "nat \<Rightarrow> nat" where
  "PXSHIFT level = PGSHIFT + 9 * level"

definition PX :: "nat \<Rightarrow> u64 \<Rightarrow> u64" where
  "PX level va = drop_bit (PXSHIFT level) va AND PXMASK"

abbreviation (input) MAXVA :: u64 where "MAXVA \<equiv> 0x4000000000"

abbreviation (input) SATP_SV39 :: u64 where "SATP_SV39 \<equiv> 0x8000000000000000"

definition MAKE_SATP :: "u64 \<Rightarrow> u64" where
  "MAKE_SATP pagetable = SATP_SV39 OR drop_bit 12 pagetable"

text \<open>Does the entry have this flag?\<close>

abbreviation has_flag :: "u64 \<Rightarrow> u64 \<Rightarrow> bool" where
  "has_flag pte f \<equiv> pte AND f \<noteq> 0"

subsection \<open>Memory layout (memlayout.h)\<close>

abbreviation (input) UART0 :: u64 where "UART0 \<equiv> 0x10000000"
abbreviation (input) VIRTIO0 :: u64 where "VIRTIO0 \<equiv> 0x10001000"
abbreviation (input) PLIC :: u64 where "PLIC \<equiv> 0x0c000000"
abbreviation (input) KERNBASE :: u64 where "KERNBASE \<equiv> 0x80000000"
abbreviation (input) PHYSTOP :: u64 where "PHYSTOP \<equiv> 0x88000000"
abbreviation (input) TRAMPOLINE :: u64 where "TRAMPOLINE \<equiv> MAXVA - PGSIZE"
abbreviation (input) TRAPFRAME :: u64 where "TRAPFRAME \<equiv> TRAMPOLINE - PGSIZE"

definition KSTACK :: "nat \<Rightarrow> u64" where
  "KSTACK p = TRAMPOLINE - (of_nat p + 1) * 2 * PGSIZE"

subsection \<open>Masks\<close>

lemma mask_12: "(4095 :: u64) = mask 12"
  by (simp add: mask_eq_exp_minus_1)

lemma mask_10: "(1023 :: u64) = mask 10"
  by (simp add: mask_eq_exp_minus_1)

lemma mask_9: "(511 :: u64) = mask 9"
  by (simp add: mask_eq_exp_minus_1)

lemma mask_3: "(7 :: u64) = mask 3"
  by (simp add: mask_eq_exp_minus_1)

lemma bit_4095 [simp]: "bit (4095 :: int) n \<longleftrightarrow> n < 12"
proof -
  have "(4095 :: int) = mask 12" by (simp add: mask_eq_exp_minus_1)
  then show ?thesis by (simp only: bit_mask_iff) simp
qed

lemma bit_1023 [simp]: "bit (1023 :: int) n \<longleftrightarrow> n < 10"
proof -
  have "(1023 :: int) = mask 10" by (simp add: mask_eq_exp_minus_1)
  then show ?thesis by (simp only: bit_mask_iff) simp
qed

lemma bit_511 [simp]: "bit (511 :: int) n \<longleftrightarrow> n < 9"
proof -
  have "(511 :: int) = mask 9" by (simp add: mask_eq_exp_minus_1)
  then show ?thesis by (simp only: bit_mask_iff) simp
qed

lemma bit_7 [simp]: "bit (7 :: int) n \<longleftrightarrow> n < 3"
proof -
  have "(7 :: int) = mask 3" by (simp add: mask_eq_exp_minus_1)
  then show ?thesis by (simp only: bit_mask_iff) simp
qed

lemma mod_PGSIZE: "(x :: u64) mod PGSIZE = x AND 4095"
proof -
  have "x mod 2 ^ 12 = take_bit 12 x" by (simp add: take_bit_eq_mod)
  then show ?thesis by (simp add: mask_12 take_bit_eq_mask)
qed

lemma mod_8: "(x :: u64) mod 8 = x AND 7"
proof -
  have "x mod 2 ^ 3 = take_bit 3 x" by (simp add: take_bit_eq_mod)
  then show ?thesis by (simp add: mask_3 take_bit_eq_mask)
qed

lemma aligned_bits: "(x :: u64) mod PGSIZE = 0 \<longleftrightarrow> (\<forall>n < 12. \<not> bit x n)"
proof -
  have "x mod PGSIZE = 0 \<longleftrightarrow> take_bit 12 x = 0"
    by (simp add: mod_PGSIZE mask_12 take_bit_eq_mask)
  also have "\<dots> \<longleftrightarrow> (\<forall>n < 12. \<not> bit x n)"
    using bit_imp_le_length [of x] by (auto simp: bit_eq_iff bit_simps)
  finally show ?thesis .
qed

lemma aligned8_bits: "(x :: u64) mod 8 = 0 \<longleftrightarrow> (\<forall>n < 3. \<not> bit x n)"
proof -
  have "x mod 8 = 0 \<longleftrightarrow> take_bit 3 x = 0"
    by (simp add: mod_8 mask_3 take_bit_eq_mask)
  also have "\<dots> \<longleftrightarrow> (\<forall>n < 3. \<not> bit x n)"
    using bit_imp_le_length [of x] by (auto simp: bit_eq_iff bit_simps)
  finally show ?thesis .
qed

lemma small_bits: "(i :: u64) < 2 ^ k \<Longrightarrow> k \<le> n \<Longrightarrow> \<not> bit i n"
proof
  assume a: "i < 2 ^ k" "k \<le> n" "bit i n"
  then have "bit (i AND mask k) n" by (simp add: less_mask_eq)
  with a(2) show False by (simp add: bit_simps)
qed

lemma small12_bits: "(i :: u64) < 4096 \<Longrightarrow> 12 \<le> n \<Longrightarrow> \<not> bit i n"
  using small_bits [of i 12 n] by simp

lemma small3_bits: "(i :: u64) < 8 \<Longrightarrow> 3 \<le> n \<Longrightarrow> \<not> bit i n"
  using small_bits [of i 3 n] by simp

text \<open>An aligned base plus a small offset is their union bit by bit.\<close>

lemma aligned_plus: "p mod PGSIZE = 0 \<Longrightarrow> i < PGSIZE \<Longrightarrow> p + i = p OR i"
  for p i :: u64
proof (rule disjunctive_add_eq_or, rule bit_eqI)
  fix n
  assume "p mod PGSIZE = 0" "i < PGSIZE"
  then show "bit (p AND i) n = bit 0 n"
    using small12_bits [of i n] by (cases "n < 12") (simp_all add: aligned_bits bit_simps)
qed

lemma aligned8_plus: "a mod 8 = 0 \<Longrightarrow> i < 8 \<Longrightarrow> a + i = a OR i"
  for a i :: u64
proof (rule disjunctive_add_eq_or, rule bit_eqI)
  fix n
  assume "a mod 8 = 0" "i < 8"
  then show "bit (a AND i) n = bit 0 n"
    using small3_bits [of i n] by (cases "n < 3") (simp_all add: aligned8_bits bit_simps)
qed

subsection \<open>Page arithmetic\<close>

lemma bit_PGROUNDDOWN: "bit (PGROUNDDOWN x) n \<longleftrightarrow> 12 \<le> n \<and> bit x n"
  using bit_imp_le_length [of x n] by (auto simp: PGROUNDDOWN_def bit_simps)

lemma PGROUNDDOWN_aligned [simp]: "PGROUNDDOWN x mod PGSIZE = 0"
  by (simp add: aligned_bits bit_PGROUNDDOWN)

lemma PGROUNDDOWN_id [simp]: "x mod PGSIZE = 0 \<Longrightarrow> PGROUNDDOWN x = x"
  by (rule bit_eqI) (meson bit_PGROUNDDOWN aligned_bits not_le)

lemma PGROUNDDOWN_idem [simp]: "PGROUNDDOWN (PGROUNDDOWN x) = PGROUNDDOWN x"
  by simp

lemma PGROUNDDOWN_plus [page_simps]:
  "p mod PGSIZE = 0 \<Longrightarrow> i < PGSIZE \<Longrightarrow> PGROUNDDOWN (p + i) = p"
proof (rule bit_eqI)
  fix n
  assume "p mod PGSIZE = 0" "i < PGSIZE"
  then show "bit (PGROUNDDOWN (p + i)) n = bit p n"
    using small12_bits [of i n]
    by (cases "n < 12") (simp_all add: aligned_plus bit_PGROUNDDOWN bit_simps aligned_bits)
qed

lemma PGROUNDDOWN_plus8 [page_simps]:
  "a mod 8 = 0 \<Longrightarrow> i < 8 \<Longrightarrow> PGROUNDDOWN (a + i) = PGROUNDDOWN a"
proof (rule bit_eqI)
  fix n
  assume "a mod 8 = 0" "i < 8"
  then show "bit (PGROUNDDOWN (a + i)) n = bit (PGROUNDDOWN a) n"
    using small3_bits [of i n] by (cases "n < 12") (simp_all add: aligned8_plus bit_PGROUNDDOWN bit_simps)
qed

lemma PGROUNDDOWN_le: "PGROUNDDOWN x \<le> x"
  by (simp add: PGROUNDDOWN_def word_and_le2)

lemma PGROUNDDOWN_split: "PGROUNDDOWN x + (x AND 4095) = x"
proof -
  have "PGROUNDDOWN x + (x AND 4095) = PGROUNDDOWN x OR (x AND 4095)"
    by (rule disjunctive_add_eq_or) (auto simp: bit_eq_iff bit_simps bit_PGROUNDDOWN)
  also have "\<dots> = x"
    by (rule bit_eqI) (auto simp: bit_simps bit_PGROUNDDOWN)
  finally show ?thesis .
qed

lemma page_offset: "x - PGROUNDDOWN x = x AND 4095"
  using PGROUNDDOWN_split [of x] by (metis add_diff_cancel_left')

lemma page_offset_less: "x - PGROUNDDOWN x < PGSIZE"
proof -
  have "x AND mask 12 < 2 ^ 12" by (rule and_mask_less_size) (simp add: word_size)
  then show ?thesis by (simp add: page_offset mask_12)
qed

text \<open>Rounding up covers the address and stays within a page of it.\<close>

lemma PGROUNDUP_via: "PGROUNDUP x = PGROUNDDOWN (x + 4095)"
  by (simp add: PGROUNDUP_def PGROUNDDOWN_def add.commute)

lemma PGROUNDUP_aligned [simp]: "PGROUNDUP x mod PGSIZE = 0"
  by (simp add: PGROUNDUP_via)

lemma PGROUNDUP_ge: "x \<le> x + 4095 \<Longrightarrow> x \<le> PGROUNDUP x"
proof -
  assume ov: "x \<le> x + 4095"
  have lt: "(x + 4095) - PGROUNDUP x < PGSIZE"
    by (metis PGROUNDUP_via page_offset_less)
  have le: "PGROUNDUP x \<le> x + 4095"
    by (metis PGROUNDUP_via PGROUNDDOWN_le)
  have "unat (x + 4095) = unat x + 4095"
    using ov by (simp add: no_olen_add_nat unat_word_ariths)
  moreover have "unat ((x + 4095) - PGROUNDUP x) = unat (x + 4095) - unat (PGROUNDUP x)"
    using le by (simp add: unat_sub)
  moreover have "unat ((x + 4095) - PGROUNDUP x) < 4096"
    using lt by (simp add: word_less_nat_alt)
  ultimately have "unat x \<le> unat (PGROUNDUP x)" by linarith
  then show ?thesis by (simp add: word_le_nat_alt)
qed

subsection \<open>Page-table entries\<close>

lemma bit_PTE2PA: "bit (PTE2PA pte) n \<longleftrightarrow> 12 \<le> n \<and> n < 64 \<and> bit pte (n - 2)"
  by (auto simp: PTE2PA_def bit_simps possible_bit_def)

lemma PTE2PA_aligned [simp]: "PTE2PA pte mod PGSIZE = 0"
  by (simp add: aligned_bits bit_PTE2PA)

lemma PTE2PA_PA2PTE [simp]:
  "pa mod PGSIZE = 0 \<Longrightarrow> f AND NOT 0x3FF = 0 \<Longrightarrow> PTE2PA (PA2PTE pa OR f) = pa"
proof (rule bit_eqI)
  fix n
  assume pa: "pa mod PGSIZE = 0" and f: "f AND NOT 0x3FF = 0"
  from f have nf: "\<not> bit f n" if "10 \<le> n" for n
  proof -
    have "bit (f AND NOT 0x3FF) n = False" using f by simp
    with that show ?thesis using bit_imp_le_length [of f n] by (auto simp: bit_simps)
  qed
  show "bit (PTE2PA (PA2PTE pa OR f)) n = bit pa n"
  proof (cases "n < 12")
    case True
    with pa show ?thesis by (simp add: bit_PTE2PA aligned_bits)
  next
    case False
    then have "10 \<le> n - 2" "12 + (n - 2 - 10) = n" by auto
    with False nf [of "n - 2"] bit_imp_le_length [of pa n] show ?thesis
      by (auto simp: bit_PTE2PA bit_simps PA2PTE_def)
  qed
qed

lemma PTE_FLAGS_PA2PTE [simp]:
  "f AND NOT 0x3FF = 0 \<Longrightarrow> PTE_FLAGS (PA2PTE pa OR f) = f"
proof (rule bit_eqI)
  fix n
  assume f: "f AND NOT 0x3FF = 0"
  have "bit (f AND NOT 0x3FF) n = False" using f by simp
  then show "bit (PTE_FLAGS (PA2PTE pa OR f)) n = bit f n"
    using bit_imp_le_length [of f n] by (auto simp: PTE_FLAGS_def PA2PTE_def bit_simps)
qed

lemma PX_less: "PX level va < 512"
proof -
  have "drop_bit (PXSHIFT level) va AND mask 9 < 2 ^ 9"
    by (rule and_mask_less_size) (simp add: word_size)
  then show ?thesis by (simp add: PX_def mask_9)
qed

end
