(* ===== verification/Memory.thy ===== *)
theory Memory
  imports Riscv
begin

text \<open>
  Physical memory: a byte per 64-bit address, as the RISC-V machine has it. Page-table
  entries and the links of the allocator's free list are 64-bit little-endian words in it
  (\<open>load64\<close>, \<open>store64\<close>), user data is bytes. The frame lemmas say what a store, a
  \<open>memset\<close> or a copy leaves alone, page by page.
\<close>

type_synonym pmem = "u64 \<Rightarrow> u8"

definition load64 :: "pmem \<Rightarrow> u64 \<Rightarrow> u64" where
  "load64 m a =
     ucast (m a) OR push_bit 8 (ucast (m (a + 1))) OR push_bit 16 (ucast (m (a + 2))) OR
     push_bit 24 (ucast (m (a + 3))) OR push_bit 32 (ucast (m (a + 4))) OR
     push_bit 40 (ucast (m (a + 5))) OR push_bit 48 (ucast (m (a + 6))) OR
     push_bit 56 (ucast (m (a + 7)))"

definition store64 :: "pmem \<Rightarrow> u64 \<Rightarrow> u64 \<Rightarrow> pmem" where
  "store64 m a v = m(a := ucast v, a + 1 := ucast (drop_bit 8 v),
     a + 2 := ucast (drop_bit 16 v), a + 3 := ucast (drop_bit 24 v),
     a + 4 := ucast (drop_bit 32 v), a + 5 := ucast (drop_bit 40 v),
     a + 6 := ucast (drop_bit 48 v), a + 7 := ucast (drop_bit 56 v))"

text \<open>The bytes at an address, and writing a string of bytes there.\<close>

definition mem_read :: "pmem \<Rightarrow> u64 \<Rightarrow> nat \<Rightarrow> u8 list" where
  "mem_read m a n = map (\<lambda>i. m (a + of_nat i)) [0..<n]"

definition mem_write :: "pmem \<Rightarrow> u64 \<Rightarrow> u8 list \<Rightarrow> pmem" where
  "mem_write m a bs = (\<lambda>x. if unat (x - a) < length bs then bs ! unat (x - a) else m x)"

text \<open>Two memories agree on a page.\<close>

definition same_page :: "pmem \<Rightarrow> pmem \<Rightarrow> u64 \<Rightarrow> bool" where
  "same_page m m' p \<longleftrightarrow> (\<forall>x. PGROUNDDOWN x = p \<longrightarrow> m x = m' x)"

subsection \<open>Words in memory\<close>

lemma load64_store64_same [simp]: "load64 (store64 m a v) a = v"
proof -
  have "ucast (ucast v :: u8) OR push_bit 8 (ucast (ucast (drop_bit 8 v) :: u8)) OR
     push_bit 16 (ucast (ucast (drop_bit 16 v) :: u8)) OR
     push_bit 24 (ucast (ucast (drop_bit 24 v) :: u8)) OR
     push_bit 32 (ucast (ucast (drop_bit 32 v) :: u8)) OR
     push_bit 40 (ucast (ucast (drop_bit 40 v) :: u8)) OR
     push_bit 48 (ucast (ucast (drop_bit 48 v) :: u8)) OR
     push_bit 56 (ucast (ucast (drop_bit 56 v) :: u8)) = v" (is "?w = v")
  proof (rule bit_eqI)
    fix n
    assume "possible_bit TYPE(u64) n"
    then have "n < 64" by (simp add: possible_bit_def)
    then consider "n < 8" | "8 \<le> n" "n < 16" | "16 \<le> n" "n < 24" | "24 \<le> n" "n < 32"
      | "32 \<le> n" "n < 40" | "40 \<le> n" "n < 48" | "48 \<le> n" "n < 56" | "56 \<le> n" "n < 64"
      by linarith
    then show "bit ?w n = bit v n"
      by cases (simp_all add: bit_simps less_diff_conv2)
  qed
  then show ?thesis by (simp add: load64_def store64_def)
qed

lemma load64_cong:
  assumes "\<And>i. i < 8 \<Longrightarrow> m (a + i) = m' (a + i)"
  shows "load64 m a = load64 m' a"
  using assms [of 0] assms [of 1] assms [of 2] assms [of 3] assms [of 4] assms [of 5]
    assms [of 6] assms [of 7]
  by (simp add: load64_def)

lemma load64_same_page:
  assumes "same_page m m' (PGROUNDDOWN a)" and "a mod 8 = 0"
  shows "load64 m a = load64 m' a"
proof (rule load64_cong)
  fix i :: u64
  assume "i < 8"
  then show "m (a + i) = m' (a + i)"
    using assms by (simp add: same_page_def PGROUNDDOWN_plus8)
qed

text \<open>A store writes the eight bytes from its address on.\<close>

lemma store64_cases:
  assumes "store64 m a v x \<noteq> m x"
  obtains i where "i < 8" and "x = a + i"
proof -
  have "\<exists>i \<in> {0, 1, 2, 3, 4, 5, 6, 7}. x = a + i"
    using assms by (auto simp: store64_def split: if_splits)
  then obtain i where "i \<in> {0, 1, 2, 3, 4, 5, 6, 7}" and x: "x = a + i" ..
  then have "i < 8" by auto
  from this x show thesis by (rule that)
qed

lemma same_page_store64:
  assumes "PGROUNDDOWN a \<noteq> p" and "a mod 8 = 0"
  shows "same_page (store64 m a v) m p"
proof (unfold same_page_def, intro allI impI)
  fix x
  assume x: "PGROUNDDOWN x = p"
  show "store64 m a v x = m x"
  proof (rule ccontr)
    assume "store64 m a v x \<noteq> m x"
    then obtain i where "i < 8" "x = a + i" by (rule store64_cases)
    with x assms show False by (simp add: PGROUNDDOWN_plus8)
  qed
qed

lemma aligned8_disjoint:
  fixes a b i j :: u64
  assumes "a mod 8 = 0" "b mod 8 = 0" "i < 8" "j < 8" "a + i = b + j"
  shows "a = b"
proof (rule bit_eqI)
  fix n
  have "bit (a OR i) n = bit (b OR j) n"
    using assms by (simp flip: aligned8_plus)
  then show "bit a n = bit b n"
    using assms small3_bits [of i n] small3_bits [of j n]
    by (cases "n < 3") (simp_all add: aligned8_bits bit_simps)
qed

lemma load64_store64_other [simp]:
  assumes "a mod 8 = 0" "b mod 8 = 0" "a \<noteq> b"
  shows "load64 (store64 m a v) b = load64 m b"
proof (rule load64_cong, rule ccontr)
  fix i :: u64
  assume i: "i < 8" and "store64 m a v (b + i) \<noteq> m (b + i)"
  then obtain j where "j < 8" "b + i = a + j" by (elim store64_cases)
  with i assms have "b = a" by (intro aligned8_disjoint [of b a i j])
  with assms(3) show False by simp
qed

subsection \<open>Slots of a page-table page\<close>

text \<open>The address of the entry with index \<open>i\<close> of the page-table page \<open>pt\<close>.\<close>

definition pte_addr :: "u64 \<Rightarrow> u64 \<Rightarrow> u64" where
  "pte_addr pt i = pt + 8 * i"

lemma slot_offset:
  fixes i :: u64
  assumes "i < 512"
  shows "8 * i < PGSIZE" and "unat (8 * i) = 8 * unat i"
proof -
  from assms have "unat i < 512" by (simp add: word_less_nat_alt)
  then show "unat (8 * i) = 8 * unat i" by (simp add: unat_word_ariths)
  then show "8 * i < PGSIZE" using \<open>unat i < 512\<close> by (simp add: word_less_nat_alt)
qed

lemma pte_addr_page [simp]:
  "pt mod PGSIZE = 0 \<Longrightarrow> i < 512 \<Longrightarrow> PGROUNDDOWN (pte_addr pt i) = pt"
  by (simp add: pte_addr_def PGROUNDDOWN_plus slot_offset)

lemma mult8_aligned: "(8 * i :: u64) mod 8 = 0"
proof -
  have "8 * i = push_bit 3 i" by (simp add: push_bit_eq_mult)
  then show ?thesis by (simp add: aligned8_bits bit_simps)
qed

lemma pte_addr_aligned [simp]:
  assumes "pt mod PGSIZE = 0" and "i < 512"
  shows "pte_addr pt i mod 8 = 0"
proof -
  have o: "8 * i < PGSIZE" using assms(2) by (rule slot_offset)
  have "\<not> bit (pte_addr pt i) n" if n: "n < 3" for n
    using assms(1) mult8_aligned [of i] n
    by (simp add: pte_addr_def aligned_plus [OF assms(1) o] bit_simps aligned_bits aligned8_bits)
  then show ?thesis by (simp add: aligned8_bits)
qed

lemma pte_addr_inj:
  assumes "p mod PGSIZE = 0" "q mod PGSIZE = 0" "i < 512" "j < 512"
  shows "pte_addr p i = pte_addr q j \<longleftrightarrow> p = q \<and> i = j"
proof
  assume eq: "pte_addr p i = pte_addr q j"
  then have pq: "p = q" using assms pte_addr_page by metis
  with eq have "8 * i = 8 * j" by (simp add: pte_addr_def)
  then have "8 * unat i = 8 * unat j" using assms slot_offset(2) by metis
  then show "p = q \<and> i = j" using pq by (simp add: word_unat_eq_iff)
qed simp

subsection \<open>Strings of bytes\<close>

lemma length_mem_read [simp]: "length (mem_read m a n) = n"
  by (simp add: mem_read_def)

lemma mem_read_nth [simp]: "i < n \<Longrightarrow> mem_read m a n ! i = m (a + of_nat i)"
  by (simp add: mem_read_def)

lemma mem_write_in [simp]:
  assumes "i < length bs" and "length bs \<le> 2 ^ 64"
  shows "mem_write m a bs (a + of_nat i) = bs ! i"
proof -
  have "unat (of_nat i :: u64) = i" using assms by (simp add: unat_of_nat)
  then show ?thesis using assms by (simp add: mem_write_def)
qed

lemma mem_read_write [simp]:
  "length bs \<le> 2 ^ 64 \<Longrightarrow> mem_read (mem_write m a bs) a (length bs) = bs"
  by (rule nth_equalityI) simp_all

text \<open>A write that stays inside one page leaves every other page alone.\<close>

lemma same_page_mem_write:
  assumes "p mod PGSIZE = 0" "q mod PGSIZE = 0" "p \<noteq> q"
    and "unat off + length bs \<le> 4096"
  shows "same_page (mem_write m (p + off) bs) m q"
proof (unfold same_page_def, intro allI impI)
  fix x
  assume x: "PGROUNDDOWN x = q"
  show "mem_write m (p + off) bs x = m x"
  proof (rule ccontr)
    assume "mem_write m (p + off) bs x \<noteq> m x"
    then have lt: "unat (x - (p + off)) < length bs"
      by (auto simp: mem_write_def split: if_splits)
    define k where "k = off + (x - (p + off))"
    have "unat k = unat off + unat (x - (p + off))"
      unfolding k_def by (rule unat_add_lem [THEN iffD1]) (use lt assms(4) in simp)
    then have "k < PGSIZE" using lt assms(4) by (simp add: word_less_nat_alt)
    moreover have "x = p + k" by (simp add: k_def)
    ultimately have "PGROUNDDOWN x = p" using assms(1) by (simp add: PGROUNDDOWN_plus)
    with x assms(3) show False by simp
  qed
qed

lemma same_page_refl [simp]: "same_page m m p"
  by (simp add: same_page_def)

lemma same_page_sym: "same_page m m' p \<Longrightarrow> same_page m' m p"
  by (simp add: same_page_def)

lemma same_page_trans: "same_page m m' p \<Longrightarrow> same_page m' m'' p \<Longrightarrow> same_page m m'' p"
  by (simp add: same_page_def)

end
