(* ===== verification/Kstate.thy ===== *)
theory Kstate
  imports Memory
begin

text \<open>
  The kernel's data structures, one \<open>record\<close> or \<open>datatype\<close> per C struct or enum of the
  headers and of the static structs at the top of the C files, and the state of the whole
  kernel as seen by one hart. Pointers to elements of a static array (\<open>struct proc *\<close>,
  \<open>struct buf *\<close>) are indices of the array, \<open>None\<close> being the null pointer; page tables,
  trapframes and the free list live in physical memory and are addresses. C's
  \<^verbatim>\<open>int\<close> is \<open>int\<close>, unsigned types are words of their width.
\<close>

subsection \<open>Locks (spinlock.h, sleeplock.h)\<close>

record spinlock =
  l_locked :: bool
  l_cpu :: "nat option"

definition free_lock :: spinlock where
  "free_lock = \<lparr>l_locked = False, l_cpu = None\<rparr>"

definition held_by :: "nat \<Rightarrow> spinlock" where
  "held_by c = \<lparr>l_locked = True, l_cpu = Some c\<rparr>"

text \<open>The sleep locks, named by the buffer or the inode that has them.\<close>

datatype slid = BufSL nat | InodeSL nat

text \<open>
  The spinlocks of the kernel, named by the object that has them; a pipe is named by the
  address of its page.
\<close>

datatype lockid =
    KmemLock | RefcountLock | SwapLock | MemstatsLock | PidLock | WaitLock | ProcLock nat
  | BcacheLock | SleepSpin slid | VdiskLock | TicksLock | LogLock | ItableLock | FtableLock
  | PipeLock u64 | ConsLock | UartLock | PrLock

text \<open>The channels processes sleep on: an address in C, here the object it is the address of.\<close>

datatype chan =
    NoChan | ChanTicks | ChanProc nat | ChanSleep slid | ChanBuf nat | ChanDiskFree
  | ChanLog | ChanPipeRead u64 | ChanPipeWrite u64 | ChanCons | ChanUart

record sleeplock =
  sl_locked :: bool
  sl_pid :: int

subsection \<open>CPUs and processes (proc.h)\<close>

text \<open>
  The state of this hart: its \<^verbatim>\<open>struct cpu\<close>, its number, and the supervisor registers
  the kernel reads and writes; \<open>c_intr\<close>, \<open>c_spp\<close> and \<open>c_spie\<close> are the bits SIE, SPP and
  SPIE of sstatus.
\<close>

record cpu =
  c_id :: nat
  c_proc :: "nat option"
  c_noff :: nat
  c_intena :: bool
  c_intr :: bool
  c_spp :: bool
  c_spie :: bool
  c_sepc :: u64
  c_scause :: u64
  c_stval :: u64
  c_stvec :: u64
  c_satp :: u64

datatype procstate = UNUSED | USED | SLEEPING | RUNNABLE | RUNNING | ZOMBIE

record kcontext =
  ctx_ra :: u64
  ctx_sp :: u64
  ctx_s :: "nat \<Rightarrow> u64"

record proc =
  p_state :: procstate
  p_chan :: chan
  p_killed :: int
  p_xstate :: int
  p_pid :: int
  p_parent :: "nat option"
  p_kstack :: u64
  p_sz :: u64
  p_pagetable :: u64
  p_trapframe :: u64
  p_context :: kcontext
  p_ofile :: "nat \<Rightarrow> nat option"
  p_cwd :: "nat option"
  p_name :: "nat \<Rightarrow> u8"

subsection \<open>Memory statistics (memstats.c)\<close>

record memstats =
  cow_faults :: u64
  cow_pages_shared :: u64
  swap_outs :: u64
  swap_ins :: u64
  swap_blocks_used :: u64
  page_faults :: u64
  load_faults :: u64
  store_faults :: u64
  lazy_alloc_faults :: u64
  pages_allocated :: u64
  pages_freed :: u64
  current_pages :: u64

subsection \<open>Swap space (swap.c)\<close>

record swapspace =
  sw_inuse :: "nat \<Rightarrow> u8"
  sw_nfree :: u32

subsection \<open>Buffer cache (buf.h, bio.c)\<close>

abbreviation (input) BSIZE :: nat where "BSIZE \<equiv> 1024"

text \<open>A node of the cache's doubly linked list: the list head or a buffer.\<close>

datatype bufref = BHead | BBuf nat

record buf =
  b_valid :: bool
  b_disk :: bool
  b_dev :: u32
  b_blockno :: u32
  b_refcnt :: u32
  b_data :: "u8 list"

record bcache =
  bc_buf :: "nat \<Rightarrow> buf"
  bc_next :: "bufref \<Rightarrow> bufref"
  bc_prev :: "bufref \<Rightarrow> bufref"

subsection \<open>Virtio disk (virtio.h, virtio\_disk.c)\<close>

abbreviation (input) NUM :: nat where "NUM \<equiv> 8"
abbreviation (input) VRING_DESC_F_NEXT :: u16 where "VRING_DESC_F_NEXT \<equiv> 1"
abbreviation (input) VRING_DESC_F_WRITE :: u16 where "VRING_DESC_F_WRITE \<equiv> 2"
abbreviation (input) VIRTIO_BLK_T_IN :: u32 where "VIRTIO_BLK_T_IN \<equiv> 0"
abbreviation (input) VIRTIO_BLK_T_OUT :: u32 where "VIRTIO_BLK_T_OUT \<equiv> 1"

text \<open>What a descriptor's address field points to.\<close>

datatype descaddr = DNull | DReq nat | DData nat | DStatus nat

record virtq_desc =
  vd_addr :: descaddr
  vd_len :: u32
  vd_flags :: u16
  vd_next :: u16

record virtio_blk_req =
  rq_type :: u32
  rq_reserved :: u32
  rq_sector :: u64

text \<open>
  The driver's state and the three rings it shares with the device. \<open>d_used_idx\<close> is the
  driver's own index, \<open>d_used_ridx\<close> and \<open>d_used_ring\<close> are the used ring the device writes.
\<close>

record vdisk =
  d_desc :: "nat \<Rightarrow> virtq_desc"
  d_avail_idx :: u16
  d_avail_ring :: "nat \<Rightarrow> u16"
  d_used_ridx :: u16
  d_used_ring :: "nat \<Rightarrow> u32"
  d_free :: "nat \<Rightarrow> bool"
  d_used_idx :: u16
  d_info_b :: "nat \<Rightarrow> nat option"
  d_info_status :: "nat \<Rightarrow> u8"
  d_ops :: "nat \<Rightarrow> virtio_blk_req"

subsection \<open>File system (fs.h, file.h, log.c, pipe.c)\<close>

abbreviation (input) NDIRECT :: nat where "NDIRECT \<equiv> 12"
abbreviation (input) NINDIRECT :: nat where "NINDIRECT \<equiv> 256"
abbreviation (input) DIRSIZ :: nat where "DIRSIZ \<equiv> 14"
abbreviation (input) PIPESIZE :: nat where "PIPESIZE \<equiv> 512"
abbreviation (input) INPUT_BUF_SIZE :: nat where "INPUT_BUF_SIZE \<equiv> 128"

record superblock =
  sb_magic :: u32
  sb_size :: u32
  sb_nblocks :: u32
  sb_ninodes :: u32
  sb_nlog :: u32
  sb_logstart :: u32
  sb_inodestart :: u32
  sb_bmapstart :: u32

record dinode =
  di_type :: int
  di_major :: int
  di_minor :: int
  di_nlink :: int
  di_size :: u32
  di_addrs :: "nat \<Rightarrow> u32"

record inode =
  i_dev :: u32
  i_inum :: u32
  i_ref :: int
  i_valid :: bool
  i_type :: int
  i_major :: int
  i_minor :: int
  i_nlink :: int
  i_size :: u32
  i_addrs :: "nat \<Rightarrow> u32"

record logstate =
  lg_start :: int
  lg_outstanding :: int
  lg_committing :: bool
  lg_dev :: u32
  lg_n :: int
  lg_block :: "nat \<Rightarrow> u32"

datatype filetype = FD_NONE | FD_PIPE | FD_INODE | FD_DEVICE

record kfile =
  f_type :: filetype
  f_ref :: int
  f_readable :: bool
  f_writable :: bool
  f_pipe :: u64
  f_ip :: "nat option"
  f_off :: u32
  f_major :: int

record pipe =
  pi_data :: "nat \<Rightarrow> u8"
  pi_nread :: u32
  pi_nwrite :: u32
  pi_readopen :: bool
  pi_writeopen :: bool

record fsstate =
  sb :: superblock
  fs_log :: logstate
  itable :: "nat \<Rightarrow> inode"
  ftable :: "nat \<Rightarrow> kfile"
  pipes :: "u64 \<Rightarrow> pipe"

subsection \<open>Console and UART (console.c, uart.c)\<close>

text \<open>
  \<open>u_out\<close> is what has been written to the transmit register, the latest byte first;
  \<open>u_in\<close> the bytes waiting in the receive register.
\<close>

record console =
  cons_buf :: "nat \<Rightarrow> u8"
  cons_r :: u32
  cons_w :: u32
  cons_e :: u32
  tx_busy :: bool
  u_out :: "u8 list"
  u_in :: "u8 list"

subsection \<open>Linker symbols\<close>

record symbols =
  sym_end :: u64
  sym_etext :: u64
  sym_trampoline :: u64
  sym_uservec :: u64
  sym_userret :: u64
  sym_usertrap :: u64
  sym_kernelvec :: u64
  sym_forkret :: u64

subsection \<open>The state of the kernel\<close>

text \<open>
  \<open>disk_dev\<close> is the block device behind the virtio interface, which is not part of the
  sources: given the rings and the driver's structures it reads, the contents of the
  buffers and the contents of the disk, it answers with what they are when it raises its
  interrupt. \<open>disk_hist\<close> is not part of the kernel: it collects the contents the disk has had
  before every answer of the device, the latest first, so that a theorem can speak of a crash
  in the middle of an operation.
\<close>

type_synonym blocks = "u64 \<Rightarrow> u8 list"

type_synonym device =
  "vdisk \<Rightarrow> (nat \<Rightarrow> u8 list) \<Rightarrow> blocks \<Rightarrow> vdisk \<times> (nat \<Rightarrow> u8 list) \<times> blocks"

record kstate =
  syms :: symbols
  mem :: pmem
  locks :: "lockid \<Rightarrow> spinlock"
  sleeplocks :: "slid \<Rightarrow> sleeplock"
  cpu :: cpu
  procs :: "nat \<Rightarrow> proc"
  initproc :: "nat option"
  nextpid :: int
  kernel_pagetable :: u64
  kmem_freelist :: u64
  refcount :: "nat \<Rightarrow> int"
  stats :: memstats
  swap :: swapspace
  bcache :: bcache
  vdisk :: vdisk
  disk :: blocks
  disk_hist :: "blocks list"
  disk_dev :: device
  fs :: fsstate
  cons :: console
  ticks :: u32

type_synonym 'a k = "(kstate, 'a) km"

subsection \<open>The state a kernel starts from\<close>

text \<open>
  Every static variable is zero, as the C runtime leaves it; hart 0 runs with interrupts
  off; the linker has put the end of the kernel at \<open>e\<close>, and the disk and its device are
  given.
\<close>

definition zero_proc :: proc where
  "zero_proc = \<lparr>p_state = UNUSED, p_chan = NoChan, p_killed = 0, p_xstate = 0, p_pid = 0,
     p_parent = None, p_kstack = 0, p_sz = 0, p_pagetable = 0, p_trapframe = 0,
     p_context = \<lparr>ctx_ra = 0, ctx_sp = 0, ctx_s = (\<lambda>_. 0)\<rparr>,
     p_ofile = (\<lambda>_. None), p_cwd = None, p_name = (\<lambda>_. 0)\<rparr>"

definition zero_cpu :: cpu where
  "zero_cpu = \<lparr>c_id = 0, c_proc = None, c_noff = 0, c_intena = False, c_intr = False,
     c_spp = False, c_spie = False, c_sepc = 0, c_scause = 0, c_stval = 0, c_stvec = 0, c_satp = 0\<rparr>"

definition zero_stats :: memstats where
  "zero_stats = \<lparr>cow_faults = 0, cow_pages_shared = 0, swap_outs = 0, swap_ins = 0,
     swap_blocks_used = 0, page_faults = 0, load_faults = 0, store_faults = 0,
     lazy_alloc_faults = 0, pages_allocated = 0, pages_freed = 0, current_pages = 0\<rparr>"

definition zero_buf :: buf where
  "zero_buf = \<lparr>b_valid = False, b_disk = False, b_dev = 0, b_blockno = 0, b_refcnt = 0,
     b_data = replicate BSIZE 0\<rparr>"

definition zero_vdisk :: vdisk where
  "zero_vdisk = \<lparr>d_desc = (\<lambda>_. \<lparr>vd_addr = DNull, vd_len = 0, vd_flags = 0, vd_next = 0\<rparr>),
     d_avail_idx = 0, d_avail_ring = (\<lambda>_. 0), d_used_ridx = 0, d_used_ring = (\<lambda>_. 0),
     d_free = (\<lambda>_. False), d_used_idx = 0, d_info_b = (\<lambda>_. None), d_info_status = (\<lambda>_. 0),
     d_ops = (\<lambda>_. \<lparr>rq_type = 0, rq_reserved = 0, rq_sector = 0\<rparr>)\<rparr>"

definition zero_fs :: fsstate where
  "zero_fs = \<lparr>
     sb = \<lparr>sb_magic = 0, sb_size = 0, sb_nblocks = 0, sb_ninodes = 0, sb_nlog = 0,
       sb_logstart = 0, sb_inodestart = 0, sb_bmapstart = 0\<rparr>,
     fs_log = \<lparr>lg_start = 0, lg_outstanding = 0, lg_committing = False, lg_dev = 0, lg_n = 0,
       lg_block = (\<lambda>_. 0)\<rparr>,
     itable = (\<lambda>_. \<lparr>i_dev = 0, i_inum = 0, i_ref = 0, i_valid = False, i_type = 0, i_major = 0,
       i_minor = 0, i_nlink = 0, i_size = 0, i_addrs = (\<lambda>_. 0)\<rparr>),
     ftable = (\<lambda>_. \<lparr>f_type = FD_NONE, f_ref = 0, f_readable = False, f_writable = False,
       f_pipe = 0, f_ip = None, f_off = 0, f_major = 0\<rparr>),
     pipes = (\<lambda>_. \<lparr>pi_data = (\<lambda>_. 0), pi_nread = 0, pi_nwrite = 0, pi_readopen = False,
       pi_writeopen = False\<rparr>)\<rparr>"

definition zero_state :: "u64 \<Rightarrow> blocks \<Rightarrow> device \<Rightarrow> kstate" where
  "zero_state e blk dev = \<lparr>
     syms = \<lparr>sym_end = e, sym_etext = 0x80008000, sym_trampoline = 0x80007000,
       sym_uservec = 0x80007000, sym_userret = 0x8000709c, sym_usertrap = 0x80002000,
       sym_kernelvec = 0x80005000, sym_forkret = 0x80001900\<rparr>,
     mem = (\<lambda>_. 0),
     locks = (\<lambda>_. free_lock),
     sleeplocks = (\<lambda>_. \<lparr>sl_locked = False, sl_pid = 0\<rparr>),
     cpu = zero_cpu,
     procs = (\<lambda>_. zero_proc),
     initproc = None,
     nextpid = 1,
     kernel_pagetable = 0,
     kmem_freelist = 0,
     refcount = (\<lambda>_. 0),
     stats = zero_stats,
     swap = \<lparr>sw_inuse = (\<lambda>_. 0), sw_nfree = 0\<rparr>,
     bcache = \<lparr>bc_buf = (\<lambda>_. zero_buf), bc_next = (\<lambda>_. BHead), bc_prev = (\<lambda>_. BHead)\<rparr>,
     vdisk = zero_vdisk,
     disk = blk,
     disk_hist = [],
     disk_dev = dev,
     fs = zero_fs,
     cons = \<lparr>cons_buf = (\<lambda>_. 0), cons_r = 0, cons_w = 0, cons_e = 0, tx_busy = False,
       u_out = [], u_in = []\<rparr>,
     ticks = 0\<rparr>"

text \<open>A concrete instance for the examples: an empty disk behind a device that never answers.\<close>

definition demo_state :: kstate where
  "demo_state = zero_state 0x80020000 (\<lambda>_. replicate 512 0) (\<lambda>v d blk. (v, d, blk))"

lemmas demo_simps = demo_state_def zero_state_def zero_cpu_def zero_proc_def

subsection \<open>Small updates the components share\<close>

definition upd_proc :: "nat \<Rightarrow> (proc \<Rightarrow> proc) \<Rightarrow> kstate \<Rightarrow> kstate" where
  "upd_proc i f s = s\<lparr>procs := (procs s)(i := f (procs s i))\<rparr>"

definition upd_buf :: "nat \<Rightarrow> (buf \<Rightarrow> buf) \<Rightarrow> kstate \<Rightarrow> kstate" where
  "upd_buf i f s =
     s\<lparr>bcache := (bcache s)\<lparr>bc_buf := (bc_buf (bcache s))(i := f (bc_buf (bcache s) i))\<rparr>\<rparr>"

text \<open>Loads and stores of the kernel, through its direct map.\<close>

definition rd64 :: "u64 \<Rightarrow> u64 k" where
  "rd64 a = kget (\<lambda>s. load64 (mem s) a)"

definition wr64 :: "u64 \<Rightarrow> u64 \<Rightarrow> unit k" where
  "wr64 a v = kmodify (\<lambda>s. s\<lparr>mem := store64 (mem s) a v\<rparr>)"

lemma rd64_apply [kmonad]: "rd64 a s = Ok (load64 (mem s) a) s"
  by (simp add: rd64_def kget_def)

lemma wr64_apply [kmonad]: "wr64 a v s = Ok () (s\<lparr>mem := store64 (mem s) a v\<rparr>)"
  by (simp add: wr64_def kmodify_def)

lemma upd_proc_simps [simp]:
  "syms (upd_proc i f s) = syms s" "mem (upd_proc i f s) = mem s"
  "locks (upd_proc i f s) = locks s" "cpu (upd_proc i f s) = cpu s"
  "kmem_freelist (upd_proc i f s) = kmem_freelist s" "refcount (upd_proc i f s) = refcount s"
  "procs (upd_proc i f s) = (procs s)(i := f (procs s i))"
  by (simp_all add: upd_proc_def)

lemma upd_buf_simps [simp]:
  "syms (upd_buf i f s) = syms s" "mem (upd_buf i f s) = mem s"
  "locks (upd_buf i f s) = locks s" "cpu (upd_buf i f s) = cpu s"
  "procs (upd_buf i f s) = procs s"
  "kmem_freelist (upd_buf i f s) = kmem_freelist s" "refcount (upd_buf i f s) = refcount s"
  by (simp_all add: upd_buf_def)

end
