(* ===== verification/Spinlock.thy ===== *)
theory Spinlock
  imports Kstate
begin

text \<open>
  \<^verbatim>\<open>kernel/spinlock.c\<close>: spinlocks and the nesting of interrupt disabling, as run by
  one hart (first part), and the lock word as it is contended by several harts, one atomic
  swap at a time (second part).
\<close>

subsection \<open>Interrupt nesting\<close>

definition intr_get :: "bool k" where
  "intr_get = kget (\<lambda>s. c_intr (cpu s))"

definition intr_off :: "unit k" where
  "intr_off = kmodify (cpu_update (c_intr_update (\<lambda>_. False)))"

definition intr_on :: "unit k" where
  "intr_on = kmodify (cpu_update (c_intr_update (\<lambda>_. True)))"

definition push_off :: "unit k" where
  "push_off =
     kbind intr_get (\<lambda>old.
     kthen intr_off
    (kbind (kget (\<lambda>s. c_noff (cpu s))) (\<lambda>n.
     kthen (kwhen (n = 0) (kmodify (cpu_update (c_intena_update (\<lambda>_. old)))))
    (kmodify (cpu_update (c_noff_update (\<lambda>x. x + 1)))))))"

definition pop_off :: "unit k" where
  "pop_off =
     kbind intr_get (\<lambda>on.
     kthen (kpanic_if on ''pop_off - interruptible'')
    (kbind (kget (\<lambda>s. c_noff (cpu s))) (\<lambda>n.
     kthen (kpanic_if (n < 1) ''pop_off'')
    (kthen (kmodify (cpu_update (c_noff_update (\<lambda>x. x - 1))))
    (kbind (kget cpu) (\<lambda>c.
     kwhen (c_noff c = 0 \<and> c_intena c) intr_on))))))"

subsection \<open>Spinlocks on one hart\<close>

definition initlock :: "lockid \<Rightarrow> unit k" where
  "initlock l = kmodify (\<lambda>s. s\<lparr>locks := (locks s)(l := \<lparr>l_locked = False, l_cpu = None\<rparr>)\<rparr>)"

definition holding :: "lockid \<Rightarrow> bool k" where
  "holding l = kget (\<lambda>s. l_locked (locks s l) \<and> l_cpu (locks s l) = Some (c_id (cpu s)))"

text \<open>
  The loop on \<^verbatim>\<open>__sync_lock_test_and_set\<close> ends at once when the lock word is 0. When it
  is 1, another hart holds the lock (\<open>holding\<close> was false) and this one spins.
\<close>

definition acquire :: "lockid \<Rightarrow> unit k" where
  "acquire l =
     kthen push_off
    (kbind (holding l) (\<lambda>h.
     kthen (kpanic_if h ''acquire'')
    (kbind (kget (\<lambda>s. l_locked (locks s l))) (\<lambda>old.
     kthen (if old then Blocked else kret ())
    (kmodify (\<lambda>s. s\<lparr>locks := (locks s)(l := \<lparr>l_locked = True, l_cpu = Some (c_id (cpu s))\<rparr>)\<rparr>))))))"

definition release :: "lockid \<Rightarrow> unit k" where
  "release l =
     kbind (holding l) (\<lambda>h.
     kthen (kpanic_if (\<not> h) ''release'')
    (kthen (kmodify (locks_update (\<lambda>f. f(l := \<lparr>l_locked = False, l_cpu = None\<rparr>))))
     pop_off))"

subsection \<open>What they do to the hart\<close>

definition push_cpu :: "cpu \<Rightarrow> cpu" where
  "push_cpu c = c\<lparr>c_intr := False,
     c_intena := (if c_noff c = 0 then c_intr c else c_intena c), c_noff := c_noff c + 1\<rparr>"

definition pop_cpu :: "cpu \<Rightarrow> cpu" where
  "pop_cpu c = c\<lparr>c_noff := c_noff c - 1,
     c_intr := (c_noff c = 1 \<and> c_intena c)\<rparr>"

text \<open>What a balanced pair leaves of the hart's state.\<close>

definition settle :: "cpu \<Rightarrow> cpu" where
  "settle c = (if c_noff c = 0 then c\<lparr>c_intena := c_intr c\<rparr> else c\<lparr>c_intr := False\<rparr>)"

lemma intr_apply:
  "intr_off s = Ok () (s\<lparr>cpu := (cpu s)\<lparr>c_intr := False\<rparr>\<rparr>)"
  "intr_on s = Ok () (s\<lparr>cpu := (cpu s)\<lparr>c_intr := True\<rparr>\<rparr>)"
  by (cases s; simp add: intr_off_def intr_on_def kmonad)+

lemma push_off_apply: "push_off s = Ok () (s\<lparr>cpu := push_cpu (cpu s)\<rparr>)"
  by (simp add: push_off_def intr_get_def intr_off_def push_cpu_def kmonad)

lemma pop_off_apply:
  "\<not> c_intr (cpu s) \<Longrightarrow> 0 < c_noff (cpu s) \<Longrightarrow> pop_off s = Ok () (s\<lparr>cpu := pop_cpu (cpu s)\<rparr>)"
  by (cases "c_noff (cpu s) = Suc 0")
    (simp_all add: pop_off_def intr_get_def intr_on_def pop_cpu_def kmonad)

lemma pop_push_cpu [simp]: "pop_cpu (push_cpu c) = settle c"
  by (simp add: pop_cpu_def push_cpu_def settle_def)

lemma push_cpu_simps [simp]:
  "c_intr (push_cpu c) = False" "c_noff (push_cpu c) = Suc (c_noff c)"
  "c_id (push_cpu c) = c_id c" "c_proc (push_cpu c) = c_proc c"
  by (simp_all add: push_cpu_def)

lemma pop_cpu_simps [simp]:
  "c_noff (pop_cpu c) = c_noff c - 1" "c_id (pop_cpu c) = c_id c" "c_proc (pop_cpu c) = c_proc c"
  by (simp_all add: pop_cpu_def)

lemma settle_simps [simp]:
  "c_noff (settle c) = c_noff c" "c_id (settle c) = c_id c" "c_proc (settle c) = c_proc c"
  "settle (settle c) = settle c" "push_cpu (settle c) = push_cpu c"
  "settle (push_cpu c) = push_cpu c"
  by (simp_all add: settle_def push_cpu_def)

lemma initlock_apply [kmonad]: "initlock l s = Ok () (s\<lparr>locks := (locks s)(l := free_lock)\<rparr>)"
  by (simp add: initlock_def free_lock_def kmonad)

lemma acquire_free:
  assumes "locks s l = free_lock"
  shows "acquire l s =
    Ok () (s\<lparr>cpu := push_cpu (cpu s), locks := (locks s)(l := held_by (c_id (cpu s)))\<rparr>)"
  using assms
  by (simp add: acquire_def push_off_apply holding_def free_lock_def held_by_def kmonad)

lemma acquire_held:
  assumes "locks s l = held_by (c_id (cpu s))"
  shows "acquire l s = Panic ''acquire''"
  using assms by (simp add: acquire_def push_off_apply holding_def held_by_def kmonad)

lemma release_held:
  assumes "locks s l = held_by (c_id (cpu s))" "\<not> c_intr (cpu s)" "0 < c_noff (cpu s)"
  shows "release l s = Ok () (s\<lparr>cpu := pop_cpu (cpu s), locks := (locks s)(l := free_lock)\<rparr>)"
  using assms by (simp add: release_def pop_off_apply holding_def free_lock_def held_by_def kmonad)

lemma release_not_held:
  "\<not> (l_locked (locks s l) \<and> l_cpu (locks s l) = Some (c_id (cpu s))) \<Longrightarrow>
   release l s = Panic ''release''"
  by (auto simp: release_def holding_def kmonad)

text \<open>A lock that is free is the same after it has been taken and given back.\<close>

lemma fun_upd_free [simp]: "f l = v \<Longrightarrow> f(l := v) = f"
  by (simp add: fun_upd_idem)

lemma kstate_upd_id [simp]:
  "s\<lparr>locks := locks s\<rparr> = s" "s\<lparr>cpu := cpu s\<rparr> = s" "s\<lparr>procs := procs s\<rparr> = s"
  "s\<lparr>mem := mem s\<rparr> = s"
  by simp_all

lemma acquire_release:
  assumes "locks s l = free_lock"
  shows "kthen (acquire l) (release l) s = Ok () (s\<lparr>cpu := settle (cpu s)\<rparr>)"
  using assms by (simp add: acquire_free release_held kmonad)

subsection \<open>Spinlocks contended by several harts\<close>

text \<open>
  The lock word and the \<^verbatim>\<open>cpu\<close> field of one spinlock, and where each hart is in
  \<^verbatim>\<open>acquire\<close> or \<^verbatim>\<open>release\<close> of it. Every access to the lock's memory is one step:
  the test-and-set and the release of the word are single atomic swaps, the writes of
  \<^verbatim>\<open>lk->cpu\<close> are single stores. A hart that finds \<open>holding\<close> false in \<^verbatim>\<open>release\<close> or
  true in \<^verbatim>\<open>acquire\<close> goes to \<open>Panicked\<close>.
\<close>

datatype hart_pc =
    Outside
  | Swapping
  | Got
  | Critical
  | Clearing
  | Panicked

record lockword =
  w_lk :: spinlock
  w_pc :: "nat \<Rightarrow> hart_pc"

definition w_holding :: "lockword \<Rightarrow> nat \<Rightarrow> bool" where
  "w_holding w h \<longleftrightarrow> l_locked (w_lk w) \<and> l_cpu (w_lk w) = Some h"

definition w_init :: lockword where
  "w_init = \<lparr>w_lk = \<lparr>l_locked = False, l_cpu = None\<rparr>, w_pc = (\<lambda>_. Outside)\<rparr>"

inductive lock_step :: "lockword \<Rightarrow> lockword \<Rightarrow> bool" where
  acquire_check: "w_pc w h = Outside \<Longrightarrow> \<not> w_holding w h \<Longrightarrow>
     lock_step w (w\<lparr>w_pc := (w_pc w)(h := Swapping)\<rparr>)"
| acquire_panic: "w_pc w h = Outside \<Longrightarrow> w_holding w h \<Longrightarrow>
     lock_step w (w\<lparr>w_pc := (w_pc w)(h := Panicked)\<rparr>)"
| swap_taken: "w_pc w h = Swapping \<Longrightarrow> l_locked (w_lk w) \<Longrightarrow>
     lock_step w (w\<lparr>w_lk := (w_lk w)\<lparr>l_locked := True\<rparr>\<rparr>)"
| swap_free: "w_pc w h = Swapping \<Longrightarrow> \<not> l_locked (w_lk w) \<Longrightarrow>
     lock_step w (w\<lparr>w_lk := (w_lk w)\<lparr>l_locked := True\<rparr>, w_pc := (w_pc w)(h := Got)\<rparr>)"
| set_owner: "w_pc w h = Got \<Longrightarrow>
     lock_step w (w\<lparr>w_lk := (w_lk w)\<lparr>l_cpu := Some h\<rparr>, w_pc := (w_pc w)(h := Critical)\<rparr>)"
| release_panic: "w_pc w h = Critical \<Longrightarrow> \<not> w_holding w h \<Longrightarrow>
     lock_step w (w\<lparr>w_pc := (w_pc w)(h := Panicked)\<rparr>)"
| clear_owner: "w_pc w h = Critical \<Longrightarrow> w_holding w h \<Longrightarrow>
     lock_step w (w\<lparr>w_lk := (w_lk w)\<lparr>l_cpu := None\<rparr>, w_pc := (w_pc w)(h := Clearing)\<rparr>)"
| release_word: "w_pc w h = Clearing \<Longrightarrow>
     lock_step w (w\<lparr>w_lk := (w_lk w)\<lparr>l_locked := False\<rparr>, w_pc := (w_pc w)(h := Outside)\<rparr>)"

inductive lock_reachable :: "lockword \<Rightarrow> bool" where
  lock_init: "lock_reachable w_init"
| lock_next: "lock_reachable w \<Longrightarrow> lock_step w w' \<Longrightarrow> lock_reachable w'"

text \<open>The harts past a successful swap and before the release of the word.\<close>

definition owns :: "lockword \<Rightarrow> nat \<Rightarrow> bool" where
  "owns w h \<longleftrightarrow> w_pc w h \<in> {Got, Critical, Clearing}"

definition lock_inv_owner :: "lockword \<Rightarrow> nat option \<Rightarrow> bool" where
  "lock_inv_owner w ow \<longleftrightarrow>
     (l_locked (w_lk w) \<longleftrightarrow> ow \<noteq> None) \<and>
     (\<forall>h. owns w h \<longleftrightarrow> ow = Some h) \<and>
     (\<forall>h. w_pc w h = Critical \<longleftrightarrow> l_cpu (w_lk w) = Some h) \<and>
     (\<forall>h. w_pc w h \<noteq> Panicked)"

definition lock_inv :: "lockword \<Rightarrow> bool" where
  "lock_inv w \<longleftrightarrow> (\<exists>ow. lock_inv_owner w ow)"

lemma lock_inv_init: "lock_inv w_init"
  by (simp add: lock_inv_def lock_inv_owner_def w_init_def owns_def)

lemma lock_inv_step:
  assumes "lock_step w w'" and "lock_inv w"
  shows "lock_inv w'"
proof -
  obtain ow where ow: "lock_inv_owner w ow" using assms(2) by (auto simp: lock_inv_def)
  note defs = lock_inv_owner_def owns_def w_holding_def
  from assms(1) have "\<exists>ow'. lock_inv_owner w' ow'"
  proof cases
    case (acquire_check h)
    with ow have "lock_inv_owner w' ow" by (simp add: defs) (metis hart_pc.distinct)
    then show ?thesis ..
  next
    case (acquire_panic h)
    with ow have False by (simp add: defs) (metis hart_pc.distinct)
    then show ?thesis ..
  next
    case (swap_taken h)
    with ow have "lock_inv_owner w' ow" by (simp add: defs) metis
    then show ?thesis ..
  next
    case (swap_free h)
    with ow have "lock_inv_owner w' (Some h)" by (auto simp: defs)
    then show ?thesis ..
  next
    case (set_owner h)
    with ow have "ow = Some h" by (auto simp: defs)
    with set_owner ow have "lock_inv_owner w' (Some h)" by (auto simp: defs)
    then show ?thesis ..
  next
    case (release_panic h)
    with ow have False by (auto simp: defs)
    then show ?thesis ..
  next
    case (clear_owner h)
    with ow have "ow = Some h" by (auto simp: defs)
    with clear_owner ow have "lock_inv_owner w' (Some h)" by (auto simp: defs)
    then show ?thesis ..
  next
    case (release_word h)
    with ow have "ow = Some h" by (auto simp: defs)
    with release_word ow have "lock_inv_owner w' None"
      by (simp add: defs) (metis hart_pc.distinct)
    then show ?thesis ..
  qed
  then show ?thesis by (simp add: lock_inv_def)
qed

lemma lock_reachable_inv: "lock_reachable w \<Longrightarrow> lock_inv w"
  by (induction rule: lock_reachable.induct) (auto intro: lock_inv_init lock_inv_step)


subsection \<open>Properties\<close>

text \<open>
  C1. Mutual exclusion: however the harts interleave the single accesses of \<open>acquire\<close> and
  \<open>release\<close>, at most one of them is past its successful swap and before its release of the
  lock word, and \<open>holding\<close> is then true for exactly the hart in its critical section; no
  hart that pairs its calls ever panics.
\<close>

theorem lock_mutual_exclusion:
  assumes "lock_reachable w"
  shows "(\<forall>g h. owns w g \<and> owns w h \<longrightarrow> g = h) \<and>
    (\<forall>h. w_holding w h \<longleftrightarrow> w_pc w h = Critical) \<and> (\<forall>h. w_pc w h \<noteq> Panicked)"
proof (intro conjI allI)
  from assms obtain ow where ow: "lock_inv_owner w ow"
    using lock_reachable_inv by (auto simp: lock_inv_def)
  fix g h
  show "owns w g \<and> owns w h \<longrightarrow> g = h" using ow by (auto simp: lock_inv_owner_def)
  show "w_pc w h \<noteq> Panicked" using ow by (simp add: lock_inv_owner_def)
  have "w_pc w h = Critical \<Longrightarrow> owns w h" by (simp add: owns_def)
  then show "w_holding w h \<longleftrightarrow> w_pc w h = Critical"
    using ow by (auto simp: lock_inv_owner_def w_holding_def)
qed

text \<open>Hart 3 in its critical section, reached from the free lock.\<close>

theorem lock_mutual_exclusion_witness:
  "\<exists>w. lock_reachable w \<and> owns w 3 \<and> w_holding w 3 \<and> \<not> owns w 4"
proof -
  let ?w1 = "w_init\<lparr>w_pc := (w_pc w_init)(3 := Swapping)\<rparr>"
  let ?w2 = "?w1\<lparr>w_lk := (w_lk ?w1)\<lparr>l_locked := True\<rparr>, w_pc := (w_pc ?w1)(3 := Got)\<rparr>"
  let ?w3 = "?w2\<lparr>w_lk := (w_lk ?w2)\<lparr>l_cpu := Some 3\<rparr>, w_pc := (w_pc ?w2)(3 := Critical)\<rparr>"
  have "lock_reachable ?w1"
    by (rule lock_next [OF lock_init acquire_check]) (simp_all add: w_init_def w_holding_def)
  then have "lock_reachable ?w2"
    by (rule lock_next [OF _ swap_free]) (simp_all add: w_init_def)
  then have r: "lock_reachable ?w3"
    by (rule lock_next [OF _ set_owner]) simp
  have o3: "owns ?w3 3" by (simp add: owns_def)
  moreover have "w_holding ?w3 3" using lock_mutual_exclusion [OF r] by simp
  moreover have "\<not> owns ?w3 4" using lock_mutual_exclusion [OF r] o3 by force
  ultimately show ?thesis using r by blast
qed

text \<open>
  C36. Interrupt nesting: a lock taken and given back leaves every spinlock as it was and the
  hart's interrupts as they were; they are off in between, and taking the lock a second
  time panics.
\<close>

theorem acquire_release_balanced:
  assumes "locks s l = free_lock" "c_noff (cpu s) = 0 \<or> \<not> c_intr (cpu s)"
  shows "\<exists>s1 s2. acquire l s = Ok () s1 \<and> release l s1 = Ok () s2 \<and>
    acquire l s1 = Panic ''acquire'' \<and> \<not> c_intr (cpu s1) \<and> locks s2 = locks s \<and>
    c_intr (cpu s2) = c_intr (cpu s) \<and> c_noff (cpu s2) = c_noff (cpu s)"
proof -
  let ?s1 = "s\<lparr>cpu := push_cpu (cpu s), locks := (locks s)(l := held_by (c_id (cpu s)))\<rparr>"
  let ?s2 = "s\<lparr>cpu := settle (cpu s)\<rparr>"
  have "acquire l s = Ok () ?s1" using assms(1) by (rule acquire_free)
  moreover have "release l ?s1 = Ok () ?s2" using assms(1) by (simp add: release_held)
  moreover have "acquire l ?s1 = Panic ''acquire''" by (rule acquire_held) simp
  moreover have "c_intr (cpu ?s2) = c_intr (cpu s)" using assms(2) by (auto simp: settle_def)
  ultimately show ?thesis by (intro exI [of _ ?s1] exI [of _ ?s2]) simp
qed

theorem acquire_release_balanced_witness:
  "\<exists>s1 s2. acquire KmemLock demo_state = Ok () s1 \<and> release KmemLock s1 = Ok () s2 \<and>
    locks s2 = (\<lambda>_. free_lock)"
  using acquire_release_balanced [of demo_state KmemLock]
  by (auto simp: demo_simps)

end
