(* ===== verification/Sched.thy ===== *)
theory Sched
  imports Spinlock
begin

text \<open>
  The part of \<^verbatim>\<open>kernel/proc.c\<close> every sleeping operation relies on: \<open>myproc\<close>,
  \<open>sched\<close>, \<open>sleep\<close>, \<open>wakeup\<close>, \<open>setkilled\<close> and \<open>killed\<close>.

  What the rest of the system does while a process is off the hart is an argument: \<open>env\<close>
  runs in the scheduler's context between the two context switches. A process whose
  \<open>env\<close> does not make it runnable again is \<open>Blocked\<close>.
\<close>

definition myproc :: "nat option k" where
  "myproc = kthen push_off (kbind (kget (\<lambda>s. c_proc (cpu s))) (\<lambda>p. kthen pop_off (kret p)))"

text \<open>The current process where the code dereferences the pointer.\<close>

definition curproc :: "nat k" where
  "curproc = kbind myproc (\<lambda>p. case p of None \<Rightarrow> kfault ''myproc() is null'' | Some i \<Rightarrow> kret i)"

definition setkilled :: "nat \<Rightarrow> unit k" where
  "setkilled p = kdo [
     acquire (ProcLock p),
     kmodify (upd_proc p (p_killed_update (\<lambda>_. 1))),
     release (ProcLock p)]"

definition killed :: "nat \<Rightarrow> int k" where
  "killed p =
     kthen (acquire (ProcLock p))
    (kbind (kget (\<lambda>s. p_killed (procs s p))) (\<lambda>r.
     kthen (release (ProcLock p)) (kret r)))"

definition wakeup_one :: "chan \<Rightarrow> nat \<Rightarrow> unit option k" where
  "wakeup_one ch p =
     kbind myproc (\<lambda>me.
     kthen (kwhen (Some p \<noteq> me) (kdo [
         acquire (ProcLock p),
         kmodify (\<lambda>s. if p_state (procs s p) = SLEEPING \<and> p_chan (procs s p) = ch
                       then upd_proc p (p_state_update (\<lambda>_. RUNNABLE)) s else s),
         release (ProcLock p)]))
    (kret None))"

definition wakeup :: "chan \<Rightarrow> unit k" where
  "wakeup ch = kthen (kfor (wakeup_one ch) [0..<NPROC]) (kret ())"

text \<open>
  The checks of \<open>sched\<close>, then the context switch; \<^verbatim>\<open>intena\<close> belongs to the kernel
  thread, so it is saved across the switch.
\<close>

definition sched :: "unit k \<Rightarrow> unit k" where
  "sched away =
     kbind curproc (\<lambda>p.
     kbind (holding (ProcLock p)) (\<lambda>h.
     kthen (kpanic_if (\<not> h) ''sched p->lock'')
    (kbind (kget (\<lambda>s. c_noff (cpu s))) (\<lambda>noff.
     kthen (kpanic_if (noff \<noteq> 1) ''sched locks'')
    (kbind (kget (\<lambda>s. p_state (procs s p))) (\<lambda>st.
     kthen (kpanic_if (st = RUNNING) ''sched RUNNING'')
    (kbind intr_get (\<lambda>on.
     kthen (kpanic_if on ''sched interruptible'')
    (kbind (kget (\<lambda>s. c_intena (cpu s))) (\<lambda>intena.
     kthen away
    (kmodify (cpu_update (c_intena_update (\<lambda>_. intena))))))))))))))"

text \<open>
  One turn of the scheduler, from the switch into it to the switch back to process \<open>p\<close>:
  \<^verbatim>\<open>c->proc = 0; release(&p->lock);\<close> then, interrupts on, whatever else happens, then
  \<^verbatim>\<open>acquire(&p->lock)\<close> and, if the process has become runnable, back to it.
\<close>

definition scheduler_turn :: "unit k \<Rightarrow> nat \<Rightarrow> unit k" where
  "scheduler_turn env p =
     kthen (kdo [
       kmodify (cpu_update (c_proc_update (\<lambda>_. None))),
       release (ProcLock p),
       intr_on,
       env,
       intr_off,
       acquire (ProcLock p)])
    (kbind (kget (\<lambda>s. p_state (procs s p))) (\<lambda>st.
     if st = RUNNABLE then kdo [
         kmodify (upd_proc p (p_state_update (\<lambda>_. RUNNING))),
         kmodify (cpu_update (c_proc_update (\<lambda>_. Some p)))]
     else Blocked))"

definition sleep_with :: "unit k \<Rightarrow> chan \<Rightarrow> lockid \<Rightarrow> unit k" where
  "sleep_with env ch lk =
     kbind curproc (\<lambda>p. kdo [
       acquire (ProcLock p),
       release lk,
       kmodify (upd_proc p (p_chan_update (\<lambda>_. ch))),
       kmodify (upd_proc p (p_state_update (\<lambda>_. SLEEPING))),
       sched (scheduler_turn env p),
       kmodify (upd_proc p (p_chan_update (\<lambda>_. NoChan))),
       release (ProcLock p),
       acquire lk])"

text \<open>A sleep nobody ends here: the process stays blocked.\<close>

definition sleep :: "chan \<Rightarrow> lockid \<Rightarrow> unit k" where
  "sleep = sleep_with Blocked"

subsection \<open>Behaviour\<close>

lemma myproc_apply [kmonad]: "myproc s = Ok (c_proc (cpu s)) (s\<lparr>cpu := settle (cpu s)\<rparr>)"
  by (simp add: myproc_def push_off_apply pop_off_apply kmonad)

lemma curproc_apply:
  "c_proc (cpu s) = Some p \<Longrightarrow> curproc s = Ok p (s\<lparr>cpu := settle (cpu s)\<rparr>)"
  by (simp add: curproc_def kmonad)

lemma curproc_null: "c_proc (cpu s) = None \<Longrightarrow> curproc s = Fault ''myproc() is null''"
  by (simp add: curproc_def kmonad)

lemma setkilled_apply:
  assumes "locks s (ProcLock p) = free_lock"
  shows "setkilled p s =
    Ok () (upd_proc p (p_killed_update (\<lambda>_. 1)) (s\<lparr>cpu := settle (cpu s)\<rparr>))"
  using assms by (simp add: setkilled_def kmonad acquire_free release_held upd_proc_def)

lemma killed_apply:
  assumes "locks s (ProcLock p) = free_lock"
  shows "killed p s = Ok (p_killed (procs s p)) (s\<lparr>cpu := settle (cpu s)\<rparr>)"
  using assms by (simp add: killed_def kmonad acquire_free release_held)

text \<open>A thread that holds a lock of its own cannot sleep: \<open>sched\<close> panics.\<close>

lemma sched_locks:
  assumes "c_proc (cpu s) = Some p" "locks s (ProcLock p) = held_by (c_id (cpu s))"
    and "c_noff (cpu s) \<noteq> 1"
  shows "sched away s = Panic ''sched locks''"
  using assms by (simp add: sched_def curproc_apply holding_def held_by_def kmonad)

text \<open>
  \<open>wakeup\<close> makes exactly the processes that sleep on the channel runnable, the caller
  excepted, and changes nothing else.
\<close>

definition woken :: "nat set \<Rightarrow> chan \<Rightarrow> nat option \<Rightarrow> (nat \<Rightarrow> proc) \<Rightarrow> nat \<Rightarrow> proc" where
  "woken ps ch me P = (\<lambda>p.
     if p \<in> ps \<and> Some p \<noteq> me \<and> p_state (P p) = SLEEPING \<and> p_chan (P p) = ch
     then (P p)\<lparr>p_state := RUNNABLE\<rparr> else P p)"

lemma woken_empty [simp]: "woken {} ch me P = P"
  by (simp add: woken_def)

lemma woken_pid [simp]: "p_pid (woken ps ch me P q) = p_pid (P q)"
  by (simp add: woken_def)

lemma woken_woken: "woken ps ch me (woken qs ch me P) = woken (qs \<union> ps) ch me P"
  by (auto simp: woken_def fun_eq_iff)

lemma wakeup_one_apply:
  assumes "locks s (ProcLock p) = free_lock"
  shows "wakeup_one ch p s =
    Ok None (s\<lparr>cpu := settle (cpu s), procs := woken {p} ch (c_proc (cpu s)) (procs s)\<rparr>)"
proof (cases "Some p = c_proc (cpu s)")
  case True
  then have "woken {p} ch (c_proc (cpu s)) (procs s) = procs s"
    by (simp add: woken_def fun_eq_iff)
  with True show ?thesis by (simp add: wakeup_one_def kmonad)
next
  case False
  then have "woken {p} ch (c_proc (cpu s)) (procs s) =
      (if p_state (procs s p) = SLEEPING \<and> p_chan (procs s p) = ch
       then (procs s)(p := (procs s p)\<lparr>p_state := RUNNABLE\<rparr>) else procs s)"
    by (simp add: woken_def fun_eq_iff)
  with False assms show ?thesis
    by (simp add: wakeup_one_def kmonad acquire_free release_held upd_proc_def)
qed

lemma kfor_wakeup:
  assumes "\<And>p. p \<in> set ps \<Longrightarrow> locks s (ProcLock p) = free_lock" and "ps \<noteq> []"
  shows "kfor (wakeup_one ch) ps s =
    Ok None (s\<lparr>cpu := settle (cpu s), procs := woken (set ps) ch (c_proc (cpu s)) (procs s)\<rparr>)"
  using assms
proof (induction ps arbitrary: s)
  case Nil
  then show ?case by simp
next
  case (Cons p ps)
  let ?s = "s\<lparr>cpu := settle (cpu s), procs := woken {p} ch (c_proc (cpu s)) (procs s)\<rparr>"
  have one: "wakeup_one ch p s = Ok None ?s"
    by (rule wakeup_one_apply) (simp add: Cons.prems)
  show ?case
  proof (cases "ps = []")
    case True
    with one show ?thesis by (simp add: kmonad)
  next
    case False
    have "kfor (wakeup_one ch) ps ?s = Ok None (?s\<lparr>cpu := settle (cpu ?s),
        procs := woken (set ps) ch (c_proc (cpu ?s)) (procs ?s)\<rparr>)"
      by (rule Cons.IH) (use Cons.prems False in auto)
    with one show ?thesis by (simp add: kmonad woken_woken)
  qed
qed

definition proc_locks_free :: "kstate \<Rightarrow> bool" where
  "proc_locks_free s \<longleftrightarrow> (\<forall>p < NPROC. locks s (ProcLock p) = free_lock)"

lemma wakeup_apply:
  assumes "proc_locks_free s"
  shows "wakeup ch s = Ok () (s\<lparr>cpu := settle (cpu s),
    procs := woken {..<NPROC} ch (c_proc (cpu s)) (procs s)\<rparr>)"
proof -
  have "kfor (wakeup_one ch) [0..<NPROC] s = Ok None (s\<lparr>cpu := settle (cpu s),
      procs := woken (set [0..<NPROC]) ch (c_proc (cpu s)) (procs s)\<rparr>)"
    by (rule kfor_wakeup) (use assms in \<open>auto simp: proc_locks_free_def\<close>)
  moreover have "set [0..<NPROC] = {..<NPROC}" by auto
  ultimately show ?thesis by (simp add: wakeup_def kmonad)
qed

subsection \<open>Sleeping\<close>

text \<open>
  The state while process \<open>p\<close> is asleep on \<open>ch\<close>, and the state when it is back from \<open>sleep\<close>
  after its environment has led to \<open>s2\<close>.
\<close>

definition asleep :: "chan \<Rightarrow> lockid \<Rightarrow> nat \<Rightarrow> kstate \<Rightarrow> kstate" where
  "asleep ch lk p s = s\<lparr>
     cpu := (cpu s)\<lparr>c_proc := None, c_noff := 0, c_intr := True\<rparr>,
     locks := (locks s)(lk := free_lock),
     procs := (procs s)(p := (procs s p)\<lparr>p_chan := ch, p_state := SLEEPING\<rparr>)\<rparr>"

definition awake :: "lockid \<Rightarrow> nat \<Rightarrow> kstate \<Rightarrow> kstate \<Rightarrow> kstate" where
  "awake lk p s s2 = s2\<lparr>
     cpu := (cpu s2)\<lparr>c_proc := Some p, c_intr := False, c_intena := c_intena (cpu s), c_noff := 1\<rparr>,
     locks := (locks s2)(lk := held_by (c_id (cpu s))),
     procs := (procs s2)(p := (procs s2 p)\<lparr>p_state := RUNNING, p_chan := NoChan\<rparr>)\<rparr>"

text \<open>A thread that holds one lock only and may sleep on a condition under that lock.\<close>

definition may_sleep :: "lockid \<Rightarrow> nat \<Rightarrow> kstate \<Rightarrow> bool" where
  "may_sleep lk p s \<longleftrightarrow> c_proc (cpu s) = Some p \<and> c_noff (cpu s) = 1 \<and> \<not> c_intr (cpu s) \<and>
     locks s lk = held_by (c_id (cpu s)) \<and> locks s (ProcLock p) = free_lock"

text \<open>What the environment leaves of the sleeper's hart and locks.\<close>

definition back_ok :: "lockid \<Rightarrow> nat \<Rightarrow> kstate \<Rightarrow> kstate \<Rightarrow> bool" where
  "back_ok lk p s s2 \<longleftrightarrow> c_noff (cpu s2) = 0 \<and> c_id (cpu s2) = c_id (cpu s) \<and>
     locks s2 lk = free_lock \<and> locks s2 (ProcLock p) = free_lock"

lemma may_sleep_lk: "may_sleep lk p s \<Longrightarrow> lk \<noteq> ProcLock p"
  by (auto simp: may_sleep_def free_lock_def held_by_def)

lemma holding_held: "locks s l = held_by (c_id (cpu s)) \<Longrightarrow> holding l s = Ok True s"
  by (simp add: holding_def held_by_def kmonad)

lemma sched_away:
  assumes "c_proc (cpu s) = Some p" "locks s (ProcLock p) = held_by (c_id (cpu s))"
    and "c_noff (cpu s) = 1" "p_state (procs s p) \<noteq> RUNNING" "\<not> c_intr (cpu s)"
  shows "sched away s = kthen away (kmodify (cpu_update (c_intena_update (\<lambda>_. c_intena (cpu s))))) s"
proof -
  have "settle (cpu s) = cpu s" using assms by (simp add: settle_def)
  with assms show ?thesis
    by (simp add: sched_def curproc_apply holding_held intr_get_def kmonad)
qed

lemma sleep_with_turn:
  assumes "may_sleep lk p s"
  shows "sleep_with env ch lk s = kthen (kthen (scheduler_turn env p)
      (kmodify (cpu_update (c_intena_update (\<lambda>_. c_intena (cpu s))))))
    (kdo [kmodify (upd_proc p (p_chan_update (\<lambda>_. NoChan))), release (ProcLock p), acquire lk])
    (s\<lparr>locks := (locks s)(lk := free_lock, ProcLock p := held_by (c_id (cpu s))),
       procs := (procs s)(p := (procs s p)\<lparr>p_chan := ch, p_state := SLEEPING\<rparr>)\<rparr>)"
    (is "_ = kthen _ _ ?s1")
proof -
  note lk = may_sleep_lk [OF assms]
  have c: "settle (cpu s) = cpu s" "pop_cpu (push_cpu (cpu s)) = cpu s"
    using assms by (auto simp: may_sleep_def settle_def)
  have "sched (scheduler_turn env p) ?s1 = kthen (scheduler_turn env p)
      (kmodify (cpu_update (c_intena_update (\<lambda>_. c_intena (cpu ?s1))))) ?s1"
    by (rule sched_away [of _ p]) (use assms in \<open>simp_all add: may_sleep_def\<close>)
  then show ?thesis
    using assms lk c
    by (simp add: sleep_with_def may_sleep_def kmonad acquire_free release_held curproc_apply
        upd_proc_def fun_upd_twist)
qed

lemma scheduler_turn_env:
  assumes "locks s (ProcLock p) = held_by (c_id (cpu s))" "c_noff (cpu s) = 1" "\<not> c_intr (cpu s)"
  shows "scheduler_turn env p s = kthen (kdo [env, intr_off, acquire (ProcLock p)])
    (kbind (kget (\<lambda>s. p_state (procs s p))) (\<lambda>st.
     if st = RUNNABLE then kdo [
         kmodify (upd_proc p (p_state_update (\<lambda>_. RUNNING))),
         kmodify (cpu_update (c_proc_update (\<lambda>_. Some p)))]
     else Blocked))
    (s\<lparr>locks := (locks s)(ProcLock p := free_lock),
       cpu := (cpu s)\<lparr>c_proc := None, c_noff := 0, c_intr := True\<rparr>\<rparr>)"
  using assms
  by (simp add: scheduler_turn_def kmonad release_held intr_on_def pop_cpu_def o_def)

lemma sleep_with_apply:
  assumes "may_sleep lk p s" and "env (asleep ch lk p s) = Ok () s2" and "back_ok lk p s s2"
  shows "p_state (procs s2 p) = RUNNABLE \<Longrightarrow> sleep_with env ch lk s = Ok () (awake lk p s s2)"
    and "p_state (procs s2 p) \<noteq> RUNNABLE \<Longrightarrow> \<exists>s3. sleep_with env ch lk s = Blocked s3"
proof -
  note lk = may_sleep_lk [OF assms(1)]
  let ?s1 = "s\<lparr>locks := (locks s)(lk := free_lock, ProcLock p := held_by (c_id (cpu s))),
       procs := (procs s)(p := (procs s p)\<lparr>p_chan := ch, p_state := SLEEPING\<rparr>)\<rparr>"
  have "(locks s)(lk := free_lock, ProcLock p := free_lock) = (locks s)(lk := free_lock)"
    using assms(1) lk by (auto simp: may_sleep_def fun_eq_iff)
  then have e: "?s1\<lparr>locks := (locks ?s1)(ProcLock p := free_lock),
      cpu := (cpu ?s1)\<lparr>c_proc := None, c_noff := 0, c_intr := True\<rparr>\<rparr> = asleep ch lk p s"
    by (simp add: asleep_def)
  note turn = scheduler_turn_env [of ?s1 p env, unfolded e]
  show "sleep_with env ch lk s = Ok () (awake lk p s s2)" if "p_state (procs s2 p) = RUNNABLE"
    using assms lk that turn
    by (simp add: may_sleep_def back_ok_def sleep_with_turn [OF assms(1)] kmonad intr_off_def acquire_free
        release_held upd_proc_def awake_def o_def push_cpu_def pop_cpu_def)
  show "\<exists>s3. sleep_with env ch lk s = Blocked s3" if "p_state (procs s2 p) \<noteq> RUNNABLE"
    using assms lk that turn
    by (simp add: may_sleep_def back_ok_def sleep_with_turn [OF assms(1)] kmonad intr_off_def acquire_free)
qed

text \<open>A concrete state: process 0 runs with no lock held, process 1 sleeps until a clock tick.\<close>

definition demo_run :: kstate where
  "demo_run = demo_state\<lparr>
     cpu := zero_cpu\<lparr>c_proc := Some 0, c_intr := True, c_intena := True\<rparr>,
     procs := (\<lambda>_. zero_proc)
       (0 := zero_proc\<lparr>p_state := RUNNING, p_pid := 1\<rparr>,
        1 := zero_proc\<lparr>p_state := SLEEPING, p_pid := 2, p_chan := ChanTicks\<rparr>)\<rparr>"

text \<open>
  C29. \<open>wakeup\<close> makes every process that sleeps on the channel runnable, the caller excepted. It
  changes nothing else of any process, and of the rest of the kernel only what a balanced
  \<open>push_off\<close> and \<open>pop_off\<close> leave of the hart.
\<close>

theorem wakeup_exact:
  assumes "proc_locks_free s"
  shows "\<exists>s'. wakeup ch s = Ok () s' \<and>
    (\<forall>p < NPROC. procs s' p =
      (if Some p \<noteq> c_proc (cpu s) \<and> p_state (procs s p) = SLEEPING \<and> p_chan (procs s p) = ch
       then (procs s p)\<lparr>p_state := RUNNABLE\<rparr> else procs s p)) \<and>
    s'\<lparr>procs := procs s, cpu := cpu s\<rparr> = s \<and> cpu s' = settle (cpu s)"
  using assms by (simp add: wakeup_apply woken_def)

theorem wakeup_exact_witness:
  "\<exists>s'. wakeup ChanTicks demo_run = Ok () s' \<and> p_state (procs s' 1) = RUNNABLE \<and>
     p_state (procs s' 0) = RUNNING"
proof -
  have "proc_locks_free demo_run" by (simp add: proc_locks_free_def demo_run_def demo_simps)
  from wakeup_exact [OF this, of ChanTicks] obtain s' where w: "wakeup ChanTicks demo_run = Ok () s'"
    and p: "\<forall>p < NPROC. procs s' p =
      (if Some p \<noteq> c_proc (cpu demo_run) \<and> p_state (procs demo_run p) = SLEEPING \<and>
         p_chan (procs demo_run p) = ChanTicks
       then (procs demo_run p)\<lparr>p_state := RUNNABLE\<rparr> else procs demo_run p)"
    by blast
  have "p_state (procs s' 0) = RUNNING" "p_state (procs s' 1) = RUNNABLE"
    using p [rule_format, of 0] p [rule_format, of 1] by (simp_all add: demo_run_def)
  with w show ?thesis by blast
qed

lemma proc_locks_asleep: "proc_locks_free s \<Longrightarrow> proc_locks_free (asleep ch lk p s)"
  by (simp add: proc_locks_free_def asleep_def)

text \<open>
  C14. A thread that sleeps on a channel while it holds one lock is woken by a \<open>wakeup\<close> of that
  channel: \<open>sleep\<close> returns, with the lock held again and everything else of the kernel as it was,
  except that the other sleepers on the channel have become runnable. A \<open>wakeup\<close> of another channel
  leaves it blocked.
\<close>

theorem sleep_wakeup:
  assumes "may_sleep lk p s" "proc_locks_free s" "p < NPROC"
  shows "sleep_with (wakeup ch) ch lk s = Ok () (s\<lparr>procs :=
      (woken {..<NPROC} ch (Some p) (procs s))(p := (procs s p)\<lparr>p_state := RUNNING, p_chan := NoChan\<rparr>)\<rparr>) \<and>
    (ch' \<noteq> ch \<longrightarrow> (\<exists>s'. sleep_with (wakeup ch') ch lk s = Blocked s'))" (is "?runs \<and> ?blocks")
proof (intro conjI)
  let ?t = "asleep ch lk p s"
  let ?s2 = "\<lambda>c. ?t\<lparr>cpu := settle (cpu ?t), procs := woken {..<NPROC} c None (procs ?t)\<rparr>"
  have w: "wakeup c ?t = Ok () (?s2 c)" for c
    using wakeup_apply [OF proc_locks_asleep [OF assms(2)], of c ch lk p] by (simp add: asleep_def)
  have b: "back_ok lk p s (?s2 c)" for c
    using assms(1) by (simp add: back_ok_def asleep_def may_sleep_def)
  have run: "p_state (procs (?s2 c) p) = RUNNABLE \<Longrightarrow> sleep_with (wakeup c) ch lk s = Ok () (awake lk p s (?s2 c))"
    "p_state (procs (?s2 c) p) \<noteq> RUNNABLE \<Longrightarrow> \<exists>s3. sleep_with (wakeup c) ch lk s = Blocked s3" for c
    by (rule sleep_with_apply(1) [where env = "wakeup c", OF assms(1) w b], assumption)
      (rule sleep_with_apply(2) [where env = "wakeup c", OF assms(1) w b], assumption)
  have "awake lk p s (?s2 ch) = s\<lparr>procs := (woken {..<NPROC} ch (Some p) (procs s))
      (p := (procs s p)\<lparr>p_state := RUNNING, p_chan := NoChan\<rparr>)\<rparr>"
    using assms by (simp add: awake_def asleep_def may_sleep_def settle_def woken_def fun_eq_iff)
  moreover have "p_state (procs (?s2 ch) p) = RUNNABLE"
    using assms(3) by (simp add: asleep_def woken_def)
  ultimately show ?runs using run(1) [of ch] by simp
  have "p_state (procs (?s2 ch') p) \<noteq> RUNNABLE" if "ch' \<noteq> ch"
    using that by (simp add: asleep_def woken_def)
  with run(2) [of ch'] show ?blocks by blast
qed

theorem sleep_wakeup_witness: "\<exists>s'. sleep_with (wakeup ChanTicks) ChanTicks TicksLock
    (demo_run\<lparr>cpu := push_cpu (cpu demo_run), locks := (locks demo_run)(TicksLock := held_by 0)\<rparr>) = Ok () s'"
proof -
  let ?s = "demo_run\<lparr>cpu := push_cpu (cpu demo_run), locks := (locks demo_run)(TicksLock := held_by 0)\<rparr>"
  have "may_sleep TicksLock 0 ?s" "proc_locks_free ?s"
    by (simp_all add: may_sleep_def proc_locks_free_def demo_run_def demo_simps push_cpu_def)
  from sleep_wakeup [OF this, of ChanTicks ChanTicks] show ?thesis by simp
qed

end
