(* ===== verification/Sleeplock.thy ===== *)
theory Sleeplock
  imports Sched
begin

text \<open>
  \<^verbatim>\<open>kernel/sleeplock.c\<close>: locks held across sleeps. The spinlock inside a sleep lock is
  \<open>SleepSpin\<close> of its name, and it is also the channel its waiters sleep on.
\<close>

definition initsleeplock :: "slid \<Rightarrow> unit k" where
  "initsleeplock lk = kdo [
     initlock (SleepSpin lk),
     kmodify (\<lambda>s. s\<lparr>sleeplocks := (sleeplocks s)(lk := \<lparr>sl_locked = False, sl_pid = 0\<rparr>)\<rparr>)]"

text \<open>
  A waiter's \<open>sleep\<close> ends only when another thread releases the lock, so this thread's run
  tests the condition at most twice.
\<close>

definition acquiresleep :: "slid \<Rightarrow> unit k" where
  "acquiresleep lk =
     kthen (acquire (SleepSpin lk))
    (kthen (kloop 2 (kget (\<lambda>s. sl_locked (sleeplocks s lk))) (sleep (ChanSleep lk) (SleepSpin lk)))
    (kbind curproc (\<lambda>p.
     kthen (kmodify (\<lambda>s. s\<lparr>sleeplocks := (sleeplocks s)
       (lk := \<lparr>sl_locked = True, sl_pid = p_pid (procs s p)\<rparr>)\<rparr>))
    (release (SleepSpin lk)))))"

definition releasesleep :: "slid \<Rightarrow> unit k" where
  "releasesleep lk = kdo [
     acquire (SleepSpin lk),
     kmodify (\<lambda>s. s\<lparr>sleeplocks := (sleeplocks s)(lk := \<lparr>sl_locked = False, sl_pid = 0\<rparr>)\<rparr>),
     wakeup (ChanSleep lk),
     release (SleepSpin lk)]"

text \<open>The right operand of \<^verbatim>\<open>&&\<close> is evaluated only if the lock is held.\<close>

definition holdingsleep :: "slid \<Rightarrow> bool k" where
  "holdingsleep lk =
     kthen (acquire (SleepSpin lk))
    (kbind (kget (\<lambda>s. sl_locked (sleeplocks s lk))) (\<lambda>locked.
     kbind (if locked then kbind curproc (\<lambda>p. kget (\<lambda>s. sl_pid (sleeplocks s lk) = p_pid (procs s p)))
            else kret False) (\<lambda>r.
     kthen (release (SleepSpin lk)) (kret r))))"

subsection \<open>Behaviour\<close>

lemma acquiresleep_free:
  assumes "locks s (SleepSpin lk) = free_lock" "c_proc (cpu s) = Some p"
    and "\<not> sl_locked (sleeplocks s lk)"
  shows "acquiresleep lk s = Ok () (s\<lparr>cpu := settle (cpu s), sleeplocks := (sleeplocks s)
    (lk := \<lparr>sl_locked = True, sl_pid = p_pid (procs s p)\<rparr>)\<rparr>)"
  using assms
  by (simp add: acquiresleep_def kmonad acquire_free release_held curproc_apply numeral_2_eq_2)

lemma holdingsleep_apply:
  assumes "locks s (SleepSpin lk) = free_lock" "c_proc (cpu s) = Some p"
  shows "holdingsleep lk s =
    Ok (sl_locked (sleeplocks s lk) \<and> sl_pid (sleeplocks s lk) = p_pid (procs s p))
       (s\<lparr>cpu := settle (cpu s)\<rparr>)"
  using assms
  by (cases "sl_locked (sleeplocks s lk)")
    (simp_all add: holdingsleep_def kmonad acquire_free release_held curproc_apply)

lemma releasesleep_apply:
  assumes "locks s (SleepSpin lk) = free_lock" "proc_locks_free s"
  shows "releasesleep lk s = Ok () (s\<lparr>cpu := settle (cpu s),
    sleeplocks := (sleeplocks s)(lk := \<lparr>sl_locked = False, sl_pid = 0\<rparr>),
    procs := woken {..<NPROC} (ChanSleep lk) (c_proc (cpu s)) (procs s)\<rparr>)"
proof -
  have "proc_locks_free (s\<lparr>cpu := push_cpu (cpu s),
      locks := (locks s)(SleepSpin lk := held_by (c_id (cpu s))),
      sleeplocks := (sleeplocks s)(lk := \<lparr>sl_locked = False, sl_pid = 0\<rparr>)\<rparr>)"
    using assms by (simp add: proc_locks_free_def)
  from wakeup_apply [OF this] show ?thesis
    using assms by (simp add: releasesleep_def kmonad acquire_free release_held)
qed

end
