(* ===== verification/Virtio.thy ===== *)
theory Virtio
  imports Sleeplock
begin

text \<open>
  \<^verbatim>\<open>kernel/virtio_disk.c\<close> after initialisation: the descriptor allocator, the request path
  \<open>virtio_disk_rw\<close> and the interrupt handler \<open>virtio_disk_intr\<close>. The device itself is not
  part of the sources; it is \<open>disk_dev\<close> of the state. Theory \<open>Diskio\<close> says what is assumed of it.
\<close>

definition upd_vdisk :: "(vdisk \<Rightarrow> vdisk) \<Rightarrow> unit k" where
  "upd_vdisk f = kmodify (\<lambda>s. s\<lparr>vdisk := f (vdisk s)\<rparr>)"

subsection \<open>Descriptors\<close>

definition alloc_desc :: "int k" where
  "alloc_desc =
     kbind (kfor (\<lambda>i.
       kbind (kget (\<lambda>s. d_free (vdisk s) i)) (\<lambda>fr.
       if fr then kthen (upd_vdisk (\<lambda>v. v\<lparr>d_free := (d_free v)(i := False)\<rparr>)) (kret (Some (int i)))
       else kret None)) [0..<NUM]) (\<lambda>r.
     case r of Some i \<Rightarrow> kret i | None \<Rightarrow> kret (- 1))"

definition free_desc :: "nat \<Rightarrow> unit k" where
  "free_desc i =
     kthen (kpanic_if (NUM \<le> i) ''free_desc 1'')
    (kbind (kget (\<lambda>s. d_free (vdisk s) i)) (\<lambda>fr.
     kthen (kpanic_if fr ''free_desc 2'')
    (kdo [
       upd_vdisk (\<lambda>v. v\<lparr>d_desc := (d_desc v)
         (i := \<lparr>vd_addr = DNull, vd_len = 0, vd_flags = 0, vd_next = 0\<rparr>)\<rparr>),
       upd_vdisk (\<lambda>v. v\<lparr>d_free := (d_free v)(i := True)\<rparr>),
       wakeup ChanDiskFree])))"

text \<open>
  A chain has at most \<open>NUM\<close> descriptors: following a longer one would free a descriptor
  twice, and \<open>free_desc\<close> panics.
\<close>

fun free_chain_from :: "nat \<Rightarrow> nat \<Rightarrow> unit k" where
  "free_chain_from 0 i = (\<lambda>s. Diverge)"
| "free_chain_from (Suc n) i =
     kbind (kget (\<lambda>s. d_desc (vdisk s) i)) (\<lambda>d.
     kthen (free_desc i)
    (if vd_flags d AND VRING_DESC_F_NEXT \<noteq> 0 then free_chain_from n (unat (vd_next d))
     else kret ()))"

definition free_desc_chain :: "nat \<Rightarrow> unit k" where
  "free_desc_chain i = free_chain_from (Suc NUM) i"

text \<open>The three indices, or the error after the ones already taken have been given back.\<close>

definition alloc3_desc :: "nat list option k" where
  "alloc3_desc =
     kbind alloc_desc (\<lambda>i0.
     if i0 < 0 then kret None
     else kbind alloc_desc (\<lambda>i1.
     if i1 < 0 then kthen (free_desc (nat i0)) (kret None)
     else kbind alloc_desc (\<lambda>i2.
     if i2 < 0 then kthen (free_desc (nat i0)) (kthen (free_desc (nat i1)) (kret None))
     else kret (Some [nat i0, nat i1, nat i2]))))"


subsection \<open>The device and its interrupt\<close>

definition device_step :: "unit k" where
  "device_step = kmodify (\<lambda>s.
     case disk_dev s (vdisk s) (\<lambda>i. b_data (bc_buf (bcache s) i)) (disk s) of (v, d, blk) \<Rightarrow>
       s\<lparr>vdisk := v, disk := blk, disk_hist := disk s # disk_hist s,
          bcache := (bcache s)\<lparr>bc_buf := (\<lambda>i. (bc_buf (bcache s) i)\<lparr>b_data := d i\<rparr>)\<rparr>\<rparr>)"

text \<open>
  One round of the handler's loop. A descriptor number outside the \<^verbatim>\<open>info\<close> array, or one
  without a request, would be an invalid access.
\<close>

definition intr_round :: "unit k" where
  "intr_round =
     kbind (kget vdisk) (\<lambda>v.
     let i = unat (d_used_ring v (unat (d_used_idx v) mod NUM)) in
     if NUM \<le> i then kfault ''virtio_disk_intr: info index''
     else kthen (kpanic_if (d_info_status v i \<noteq> 0) ''virtio_disk_intr status'')
    (case d_info_b v i of
       None \<Rightarrow> kfault ''virtio_disk_intr: null buf''
     | Some b \<Rightarrow> kdo [
         kmodify (upd_buf b (b_disk_update (\<lambda>_. False))),
         wakeup (ChanBuf b),
         upd_vdisk (\<lambda>v. v\<lparr>d_used_idx := d_used_idx v + 1\<rparr>)]))"

text \<open>The loop runs once for every entry between the two indices.\<close>

definition virtio_disk_intr :: "unit k" where
  "virtio_disk_intr =
     kthen (acquire VdiskLock)
    (kbind (kget (\<lambda>s. unat (d_used_ridx (vdisk s) - d_used_idx (vdisk s)))) (\<lambda>n.
     kthen (kloop (Suc n)
       (kget (\<lambda>s. d_used_idx (vdisk s) \<noteq> d_used_ridx (vdisk s)))
       intr_round)
    (release VdiskLock)))"

text \<open>
  The interrupt as it arrives while the driver sleeps: the trap turns interrupts off, the
  handler runs, the return from the trap turns them on again.
\<close>

definition disk_interrupt :: "unit k" where
  "disk_interrupt = kdo [intr_off, device_step, virtio_disk_intr, intr_on]"

subsection \<open>Requests\<close>

definition set_desc :: "nat \<Rightarrow> virtq_desc \<Rightarrow> unit k" where
  "set_desc i d = upd_vdisk (\<lambda>v. v\<lparr>d_desc := (d_desc v)(i := d)\<rparr>)"

definition alloc3_wait :: "nat list k" where
  "alloc3_wait =
     kbind alloc3_desc (\<lambda>r. case r of
       Some idx \<Rightarrow> kret idx
     | None \<Rightarrow> kthen (sleep ChanDiskFree VdiskLock)
                (kbind alloc3_desc (\<lambda>r. case r of Some idx \<Rightarrow> kret idx | None \<Rightarrow> (\<lambda>s. Diverge))))"

definition format_req :: "nat \<Rightarrow> bool \<Rightarrow> u64 \<Rightarrow> nat \<Rightarrow> nat \<Rightarrow> nat \<Rightarrow> unit k" where
  "format_req b wr sector i0 i1 i2 = kdo [
     upd_vdisk (\<lambda>v. v\<lparr>d_ops := (d_ops v)
       (i0 := \<lparr>rq_type = (if wr then VIRTIO_BLK_T_OUT else VIRTIO_BLK_T_IN), rq_reserved = 0,
               rq_sector = sector\<rparr>)\<rparr>),
     set_desc i0 \<lparr>vd_addr = DReq i0, vd_len = 16, vd_flags = VRING_DESC_F_NEXT,
       vd_next = of_nat i1\<rparr>,
     set_desc i1 \<lparr>vd_addr = DData b, vd_len = of_nat BSIZE,
       vd_flags = (if wr then 0 else VRING_DESC_F_WRITE) OR VRING_DESC_F_NEXT, vd_next = of_nat i2\<rparr>,
     upd_vdisk (\<lambda>v. v\<lparr>d_info_status := (d_info_status v)(i0 := 0xff)\<rparr>),
     set_desc i2 \<lparr>vd_addr = DStatus i0, vd_len = 1, vd_flags = VRING_DESC_F_WRITE, vd_next = 0\<rparr>,
     kmodify (upd_buf b (b_disk_update (\<lambda>_. True))),
     upd_vdisk (\<lambda>v. v\<lparr>d_info_b := (d_info_b v)(i0 := Some b)\<rparr>),
     upd_vdisk (\<lambda>v. v\<lparr>d_avail_ring := (d_avail_ring v)
       (unat (d_avail_idx v) mod NUM := of_nat i0)\<rparr>),
     upd_vdisk (\<lambda>v. v\<lparr>d_avail_idx := d_avail_idx v + 1\<rparr>)]"

definition virtio_disk_rw :: "nat \<Rightarrow> bool \<Rightarrow> unit k" where
  "virtio_disk_rw b wr =
     kbind (kget (\<lambda>s. ucast (b_blockno (bc_buf (bcache s) b) * of_nat (BSIZE div 512)) :: u64)) (\<lambda>sector.
     kthen (acquire VdiskLock)
    (kbind alloc3_wait (\<lambda>idx.
     kthen (format_req b wr sector (idx ! 0) (idx ! 1) (idx ! 2))
    (kthen (kloop 2 (kget (\<lambda>s. b_disk (bc_buf (bcache s) b)))
             (sleep_with disk_interrupt (ChanBuf b) VdiskLock))
    (kthen (upd_vdisk (\<lambda>v. v\<lparr>d_info_b := (d_info_b v)(idx ! 0 := None)\<rparr>))
    (kthen (free_desc_chain (idx ! 0))
    (release VdiskLock)))))))"

end
