(* ===== verification/Bio.thy ===== *)
theory Bio
  imports Virtio
begin

text \<open>
  \<^verbatim>\<open>kernel/bio.c\<close>: the buffer cache. The buffers hang in a doubly linked list through the
  list head, most recently used first. Theory \<open>Bcache\<close> relates the links to the list they stand
  for and shows what the operations do to the blocks.
\<close>

definition upd_bcache :: "(bcache \<Rightarrow> bcache) \<Rightarrow> unit k" where
  "upd_bcache f = kmodify (\<lambda>s. s\<lparr>bcache := f (bcache s)\<rparr>)"

text \<open>\<^verbatim>\<open>b->next = n\<close> and \<^verbatim>\<open>b->prev = n\<close>.\<close>

definition set_next :: "bufref \<Rightarrow> bufref \<Rightarrow> bcache \<Rightarrow> bcache" where
  "set_next b n bc = bc\<lparr>bc_next := (bc_next bc)(b := n)\<rparr>"

definition set_prev :: "bufref \<Rightarrow> bufref \<Rightarrow> bcache \<Rightarrow> bcache" where
  "set_prev b n bc = bc\<lparr>bc_prev := (bc_prev bc)(b := n)\<rparr>"

text \<open>The four stores that put \<open>b\<close> behind the list head (in \<open>binit\<close> and in \<open>brelse\<close>).\<close>

definition link_front :: "nat \<Rightarrow> bcache \<Rightarrow> bcache" where
  "link_front i bc =
    (let b1 = set_next (BBuf i) (bc_next bc BHead) bc;
         b2 = set_prev (BBuf i) BHead b1;
         b3 = set_prev (bc_next b2 BHead) (BBuf i) b2
     in set_next BHead (BBuf i) b3)"

definition unlink :: "nat \<Rightarrow> bcache \<Rightarrow> bcache" where
  "unlink i bc =
    (let b1 = set_prev (bc_next bc (BBuf i)) (bc_prev bc (BBuf i)) bc
     in set_next (bc_prev b1 (BBuf i)) (bc_next b1 (BBuf i)) b1)"

definition binit :: "unit k" where
  "binit =
     kthen (initlock BcacheLock)
    (kthen (upd_bcache (\<lambda>bc. set_next BHead BHead (set_prev BHead BHead bc)))
    (kthen (kfor (\<lambda>i. kthen (upd_bcache (\<lambda>bc.
                set_prev (BBuf i) BHead (set_next (BBuf i) (bc_next bc BHead) bc)))
             (kthen (initsleeplock (BufSL i))
             (kthen (upd_bcache (\<lambda>bc.
                set_next BHead (BBuf i) (set_prev (bc_next bc BHead) (BBuf i) bc)))
             (kret (None :: unit option)))))
           [0..<NBUF])
    (kret ())))"

text \<open>
  The scans of \<open>bget\<close>: follow \<open>nxt\<close> from \<open>cur\<close> until a buffer satisfies \<open>P\<close> or the head is
  reached. \<open>NBUF + 1\<close> steps are enough for a list of \<open>NBUF\<close> buffers.
\<close>

fun bscan :: "nat \<Rightarrow> (bufref \<Rightarrow> bufref) \<Rightarrow> (nat \<Rightarrow> bool) \<Rightarrow> bufref \<Rightarrow> nat option k" where
  "bscan 0 nxt P cur = (\<lambda>s. Diverge)"
| "bscan (Suc n) nxt P BHead = kret None"
| "bscan (Suc n) nxt P (BBuf i) = (if P i then kret (Some i) else bscan n nxt P (nxt (BBuf i)))"

definition bget :: "u32 \<Rightarrow> u32 \<Rightarrow> nat k" where
  "bget dev blockno =
     kthen (acquire BcacheLock)
    (kbind (kget bcache) (\<lambda>bc.
     kbind (bscan (Suc NBUF) (bc_next bc)
              (\<lambda>i. b_dev (bc_buf bc i) = dev \<and> b_blockno (bc_buf bc i) = blockno)
              (bc_next bc BHead)) (\<lambda>hit.
     case hit of
       Some i \<Rightarrow>
         kthen (kmodify (upd_buf i (b_refcnt_update (\<lambda>x. x + 1))))
        (kthen (release BcacheLock)
        (kthen (acquiresleep (BufSL i))
        (kret i)))
     | None \<Rightarrow>
         kbind (bscan (Suc NBUF) (bc_prev bc) (\<lambda>i. b_refcnt (bc_buf bc i) = 0) (bc_prev bc BHead)) (\<lambda>free.
         case free of
           Some i \<Rightarrow>
             kthen (kmodify (upd_buf i (\<lambda>b. b\<lparr>b_dev := dev, b_blockno := blockno, b_valid := False,
                                                b_refcnt := 1\<rparr>)))
            (kthen (release BcacheLock)
            (kthen (acquiresleep (BufSL i))
            (kret i)))
         | None \<Rightarrow> kpanic ''bget: no buffers''))))"

definition bread :: "u32 \<Rightarrow> u32 \<Rightarrow> nat k" where
  "bread dev blockno =
     kbind (bget dev blockno) (\<lambda>b.
     kbind (kget (\<lambda>s. b_valid (bc_buf (bcache s) b))) (\<lambda>valid.
     kthen (kwhen (\<not> valid) (kdo [
         virtio_disk_rw b False,
         kmodify (upd_buf b (b_valid_update (\<lambda>_. True)))]))
    (kret b)))"

definition bwrite :: "nat \<Rightarrow> unit k" where
  "bwrite b =
     kbind (holdingsleep (BufSL b)) (\<lambda>h.
     kthen (kpanic_if (\<not> h) ''bwrite'')
    (virtio_disk_rw b True))"

definition brelse :: "nat \<Rightarrow> unit k" where
  "brelse b =
     kbind (holdingsleep (BufSL b)) (\<lambda>h.
     kthen (kpanic_if (\<not> h) ''brelse'')
    (kthen (releasesleep (BufSL b))
    (kthen (acquire BcacheLock)
    (kthen (kmodify (upd_buf b (b_refcnt_update (\<lambda>x. x - 1))))
    (kbind (kget (\<lambda>s. b_refcnt (bc_buf (bcache s) b))) (\<lambda>n.
     kthen (kwhen (n = 0) (upd_bcache (\<lambda>bc. link_front b (unlink b bc))))
    (release BcacheLock)))))))"

definition bpin :: "nat \<Rightarrow> unit k" where
  "bpin b = kdo [
     acquire BcacheLock,
     kmodify (upd_buf b (b_refcnt_update (\<lambda>x. x + 1))),
     release BcacheLock]"

definition bunpin :: "nat \<Rightarrow> unit k" where
  "bunpin b = kdo [
     acquire BcacheLock,
     kmodify (upd_buf b (b_refcnt_update (\<lambda>x. x - 1))),
     release BcacheLock]"

end
