(* ===== verification/Kstring.thy ===== *)
theory Kstring
  imports Memory
begin

text \<open>
  \<^verbatim>\<open>kernel/string.c\<close>. The block operations work on physical memory at the addresses
  they are given; the string operations work on the bytes a \<^verbatim>\<open>char *\<close> points to, a
  function from the offset to the byte. The theorems: \<open>memmove\<close> copies as if through a
  temporary even when the regions overlap, \<open>strncmp\<close> compares the strings up to their NUL
  and no further, \<open>safestrcpy\<close> always terminates its result.
\<close>

subsection \<open>Blocks of memory\<close>

text \<open>The loop \<^verbatim>\<open>for(i = 0; i < n; i++) cdst[i] = c;\<close>\<close>

primrec memset :: "pmem \<Rightarrow> u64 \<Rightarrow> u8 \<Rightarrow> nat \<Rightarrow> pmem" where
  "memset m dst c 0 = m"
| "memset m dst c (Suc i) = (memset m dst c i)(dst + of_nat i := c)"

text \<open>\<^verbatim>\<open>while(n-- > 0) *d++ = *s++;\<close> and \<^verbatim>\<open>while(n-- > 0) *--d = *--s;\<close>\<close>

primrec copy_up :: "pmem \<Rightarrow> u64 \<Rightarrow> u64 \<Rightarrow> nat \<Rightarrow> pmem" where
  "copy_up m d s 0 = m"
| "copy_up m d s (Suc n) = copy_up (m(d := m s)) (d + 1) (s + 1) n"

primrec copy_down :: "pmem \<Rightarrow> u64 \<Rightarrow> u64 \<Rightarrow> nat \<Rightarrow> pmem" where
  "copy_down m d s 0 = m"
| "copy_down m d s (Suc n) = copy_down (m(d - 1 := m (s - 1))) (d - 1) (s - 1) n"

definition memmove :: "pmem \<Rightarrow> u64 \<Rightarrow> u64 \<Rightarrow> nat \<Rightarrow> pmem" where
  "memmove m dst src n =
     (if n = 0 then m
      else if src < dst \<and> dst < src + of_nat n
           then copy_down m (dst + of_nat n) (src + of_nat n) n
           else copy_up m dst src n)"

definition memcpy :: "pmem \<Rightarrow> u64 \<Rightarrow> u64 \<Rightarrow> nat \<Rightarrow> pmem" where
  "memcpy m dst src n = memmove m dst src n"

fun memcmp :: "(nat \<Rightarrow> u8) \<Rightarrow> (nat \<Rightarrow> u8) \<Rightarrow> nat \<Rightarrow> int" where
  "memcmp s1 s2 0 = 0"
| "memcmp s1 s2 (Suc n) =
     (if s1 0 \<noteq> s2 0 then uint (s1 0) - uint (s2 0)
      else memcmp (\<lambda>i. s1 (Suc i)) (\<lambda>i. s2 (Suc i)) n)"

subsection \<open>Strings\<close>

text \<open>
  \<^verbatim>\<open>while(n > 0 && *p && *p == *q) n--, p++, q++;\<close> and the result.
\<close>

fun strncmp :: "(nat \<Rightarrow> u8) \<Rightarrow> (nat \<Rightarrow> u8) \<Rightarrow> nat \<Rightarrow> int" where
  "strncmp p q 0 = 0"
| "strncmp p q (Suc n) =
     (if p 0 \<noteq> 0 \<and> p 0 = q 0 then strncmp (\<lambda>i. p (Suc i)) (\<lambda>i. q (Suc i)) n
      else uint (p 0) - uint (q 0))"

text \<open>
  \<open>strncpy\<close> and \<open>safestrcpy\<close> give the destination array after the call: \<open>s\<close> is the array
  before it, \<open>i\<close> the offset both pointers have reached.
\<close>

primrec zero_fill :: "(nat \<Rightarrow> u8) \<Rightarrow> nat \<Rightarrow> nat \<Rightarrow> nat \<Rightarrow> u8" where
  "zero_fill s i 0 = s"
| "zero_fill s i (Suc n) = zero_fill (s(i := 0)) (Suc i) n"

primrec strncpy_from :: "(nat \<Rightarrow> u8) \<Rightarrow> (nat \<Rightarrow> u8) \<Rightarrow> nat \<Rightarrow> nat \<Rightarrow> nat \<Rightarrow> u8" where
  "strncpy_from s t i 0 = s"
| "strncpy_from s t i (Suc n) =
     (if t i \<noteq> 0 then strncpy_from (s(i := t i)) t (Suc i) n
      else zero_fill (s(i := t i)) (Suc i) n)"

definition strncpy :: "(nat \<Rightarrow> u8) \<Rightarrow> (nat \<Rightarrow> u8) \<Rightarrow> int \<Rightarrow> nat \<Rightarrow> u8" where
  "strncpy s t n = strncpy_from s t 0 (nat n)"

text \<open>\<^verbatim>\<open>while(--n > 0 && (*s++ = *t++) != 0); *s = 0;\<close> with \<open>n\<close> already decremented.\<close>

primrec safestrcpy_from :: "(nat \<Rightarrow> u8) \<Rightarrow> (nat \<Rightarrow> u8) \<Rightarrow> nat \<Rightarrow> nat \<Rightarrow> nat \<Rightarrow> u8" where
  "safestrcpy_from s t i 0 = s(i := 0)"
| "safestrcpy_from s t i (Suc n) =
     (if t i \<noteq> 0 then safestrcpy_from (s(i := t i)) t (Suc i) n
      else s(i := t i, Suc i := 0))"

definition safestrcpy :: "(nat \<Rightarrow> u8) \<Rightarrow> (nat \<Rightarrow> u8) \<Rightarrow> int \<Rightarrow> nat \<Rightarrow> u8" where
  "safestrcpy s t n = (if n \<le> 0 then s else safestrcpy_from s t 0 (nat n - 1))"

partial_function (option) strlen_from :: "(nat \<Rightarrow> u8) \<Rightarrow> nat \<Rightarrow> nat option" where
  "strlen_from s n = (if s n \<noteq> 0 then strlen_from s (Suc n) else Some n)"

definition strlen :: "(nat \<Rightarrow> u8) \<Rightarrow> nat option" where
  "strlen s = strlen_from s 0"


subsection \<open>Copying\<close>

lemma unat_pred:
  fixes k :: u64
  assumes "k \<noteq> 0"
  shows "unat (k - 1) = unat k - 1"
  using assms by (simp add: unat_minus_one)

lemma copy_up_apply:
  assumes "d = s \<or> n \<le> unat (d - s)" and "n \<le> 2 ^ 63"
  shows "copy_up m d s n x = (if unat (x - d) < n then m (s + (x - d)) else m x)"
  using assms
proof (induction n arbitrary: m d s)
  case (Suc n)
  have IH: "copy_up (m(d := m s)) (d + 1) (s + 1) n x =
      (if unat (x - (d + 1)) < n then (m(d := m s)) (s + 1 + (x - (d + 1)))
       else (m(d := m s)) x)"
    using Suc.prems by (intro Suc.IH) auto
  show ?case
  proof (cases "x = d")
    case True
    have "unat (- 1 :: u64) = 2 ^ 64 - 1" by (simp add: unsigned_minus_1_eq_mask mask_eq_exp_minus_1)
    with True IH Suc.prems show ?thesis by simp
  next
    case False
    then have pred: "unat (x - (d + 1)) = unat (x - d) - 1"
      using unat_pred [of "x - d"] by (simp add: algebra_simps)
    have src: "s + 1 + (x - (d + 1)) = s + (x - d)" by simp
    have "s + (x - d) \<noteq> d" if lt: "unat (x - d) < Suc n"
    proof
      assume "s + (x - d) = d"
      then have "d - s = x - d" by (simp add: algebra_simps)
      with lt Suc.prems False show False by auto
    qed
    moreover have "0 < unat (x - d)" using False by (simp add: unat_gt_0)
    ultimately show ?thesis using IH False by (simp add: pred src) auto
  qed
qed simp

lemma copy_down_apply:
  assumes "d = s \<or> n \<le> unat (s - d)" and "n \<le> 2 ^ 63"
  shows "copy_down m (d + of_nat n) (s + of_nat n) n x =
    (if unat (x - d) < n then m (s + (x - d)) else m x)"
  using assms
proof (induction n arbitrary: m)
  case (Suc n)
  let ?m = "m(d + of_nat n := m (s + of_nat n))"
  have IH: "copy_down ?m (d + of_nat n) (s + of_nat n) n x =
      (if unat (x - d) < n then ?m (s + (x - d)) else ?m x)"
    using Suc.prems by (intro Suc.IH) auto
  have n: "unat (of_nat n :: u64) = n"
    using Suc.prems by (simp add: unat_of_nat)
  have step: "copy_down m (d + of_nat (Suc n)) (s + of_nat (Suc n)) (Suc n) x =
      copy_down ?m (d + of_nat n) (s + of_nat n) n x"
    by (simp add: algebra_simps)
  have eq: "unat (x - d) = n \<longleftrightarrow> x = d + of_nat n"
    by (metis n add.commute diff_add_cancel word_unat_eq_iff add_diff_cancel_left')
  have ne: "s + (x - d) \<noteq> d + of_nat n" if lt: "unat (x - d) < n"
  proof
    assume "s + (x - d) = d + of_nat n"
    then have e: "s - d = of_nat n - (x - d)" by (simp add: algebra_simps)
    have "unat (of_nat n - (x - d)) = n - unat (x - d)"
      using lt n by (metis less_imp_le unat_sub word_le_nat_alt)
    then have "unat (s - d) = n - unat (x - d)" by (simp only: e)
    with lt Suc.prems show False by auto
  qed
  show ?case
    using ne eq by (simp only: step IH) (auto simp: less_Suc_eq)
qed simp

lemma memset_apply:
  "n \<le> 2 ^ 63 \<Longrightarrow> memset m dst c n x = (if unat (x - dst) < n then c else m x)"
proof (induction n)
  case (Suc n)
  then have "unat (of_nat n :: u64) = n" by (simp add: unat_of_nat)
  then have "unat (x - dst) = n \<longleftrightarrow> x = dst + of_nat n"
    by (metis add.commute diff_add_cancel word_unat_eq_iff add_diff_cancel_left')
  with Suc show ?case by (auto simp: less_Suc_eq)
qed simp


text \<open>
  The direction \<open>memmove\<close> picks is the one under which no byte of the source is overwritten
  before it is read.
\<close>

lemma unat_neg:
  fixes k :: u64
  assumes "k \<noteq> 0"
  shows "unat (- k) = 2 ^ 64 - unat k"
proof -
  have "unat k < 2 ^ 64" using unsigned_less [of k, where 'a = nat] by simp
  then have "(of_nat (2 ^ 64 - unat k) :: u64) = of_nat (2 ^ 64) - of_nat (unat k)"
    by (intro of_nat_diff) simp
  also have "\<dots> = - k" by simp
  finally have "unat (- k) = unat (of_nat (2 ^ 64 - unat k) :: u64)" by simp
  moreover have "0 < unat k" using assms by (simp add: unat_gt_0)
  ultimately show ?thesis by (simp add: unat_of_nat)
qed

lemma unat_sub_wrap:
  fixes a b :: u64
  assumes "a < b"
  shows "unat (a - b) = 2 ^ 64 - (unat b - unat a)"
proof -
  have "unat (- (b - a)) = 2 ^ 64 - unat (b - a)"
    using assms by (intro unat_neg) simp
  moreover have "unat (b - a) = unat b - unat a"
    using assms by (simp add: unat_sub)
  ultimately show ?thesis by simp
qed

lemma memmove_apply:
  assumes "unat src + n < 2 ^ 64" and "n \<le> 2 ^ 63"
  shows "memmove m dst src n x = (if unat (x - dst) < n then m (src + (x - dst)) else m x)"
proof -
  have n: "unat (of_nat n :: u64) = n" using assms by (simp add: unat_of_nat)
  have sn: "unat (src + of_nat n) = unat src + n"
    using assms n by (simp add: unat_add_lem [THEN iffD1])
  consider (down) "src < dst" "dst < src + of_nat n" | (below) "dst \<le> src"
    | (above) "src < dst" "src + of_nat n \<le> dst"
    using not_le by blast
  then show ?thesis
  proof cases
    case down
    then have "n \<le> unat (src - dst)"
      using assms sn by (simp add: unat_sub_wrap word_less_nat_alt)
    with down assms show ?thesis
      by (simp add: memmove_def copy_down_apply)
  next
    case below
    then have "dst = src \<or> n \<le> unat (dst - src)"
      using assms unat_sub_wrap [of dst src] by (auto simp: word_le_less_eq)
    with below assms show ?thesis
      by (simp add: memmove_def copy_up_apply not_less [symmetric])
  next
    case above
    then have "n \<le> unat (dst - src)"
      using sn by (simp add: unat_sub word_le_nat_alt word_less_nat_alt)
    with above assms show ?thesis
      by (simp add: memmove_def copy_up_apply not_less [symmetric])
  qed
qed

lemma memmove_mem_write:
  assumes "unat src + n < 2 ^ 64" and "n \<le> 2 ^ 63"
  shows "memmove m dst src n = mem_write m dst (mem_read m src n)"
  using assms by (auto simp: fun_eq_iff memmove_apply mem_write_def mem_read_def)


subsection \<open>The string a pointer denotes\<close>

text \<open>The bytes before the first NUL, at most \<open>n\<close> of them.\<close>

primrec cstr :: "(nat \<Rightarrow> u8) \<Rightarrow> nat \<Rightarrow> u8 list" where
  "cstr s 0 = []"
| "cstr s (Suc n) = (if s 0 = 0 then [] else s 0 # cstr (\<lambda>i. s (Suc i)) n)"

lemma cstr_cong: "(\<And>i. i < n \<Longrightarrow> s i = t i) \<Longrightarrow> cstr s n = cstr t n"
proof (induction n arbitrary: s t)
  case (Suc n)
  from Suc.prems [of 0] have "s 0 = t 0" by simp
  moreover have "cstr (\<lambda>i. s (Suc i)) n = cstr (\<lambda>i. t (Suc i)) n"
    by (rule Suc.IH) (simp add: Suc.prems)
  ultimately show ?case by simp
qed simp

lemma length_cstr: "length (cstr s n) \<le> n"
  by (induction n arbitrary: s) auto

lemma cstr_stop: "s k = 0 \<Longrightarrow> k \<le> n \<Longrightarrow> cstr s n = cstr s k"
proof (induction n arbitrary: s k)
  case (Suc n)
  then show ?case by (cases k) auto
qed simp

lemma strncmp_zero_iff: "strncmp p q n = 0 \<longleftrightarrow> cstr p n = cstr q n"
proof (induction p q n rule: strncmp.induct)
  case (2 p q n)
  have "uint (p 0) - uint (q 0) = 0 \<longleftrightarrow> p 0 = q 0" by (simp add: word_uint_eq_iff)
  with 2 show ?case by auto
qed simp

lemma strncmp_swap: "strncmp q p n = - strncmp p q n"
  by (induction p q n rule: strncmp.induct) auto

lemma memcmp_zero_iff: "memcmp p q n = 0 \<longleftrightarrow> (\<forall>i < n. p i = q i)"
proof (induction p q n rule: memcmp.induct)
  case (2 p q n)
  then show ?case by (auto simp: All_less_Suc2 word_uint_eq_iff)
qed simp

lemma zero_fill_apply: "zero_fill s i n j = (if i \<le> j \<and> j < i + n then 0 else s j)"
  by (induction n arbitrary: s i) auto

text \<open>\<open>strncpy\<close> copies up to the NUL, pads with NULs, and stays within its \<open>n\<close> bytes.\<close>

lemma strncpy_from_apply:
  "strncpy_from s t i n j =
     (if i \<le> j \<and> j < i + n then if \<exists>k. i \<le> k \<and> k < j \<and> t k = 0 then 0 else t j else s j)"
proof (induction n arbitrary: s i j)
  case (Suc n)
  show ?case
  proof (cases "t i = 0")
    case True
    then show ?thesis
      by (cases "j = i") (auto simp: zero_fill_apply intro!: exI [of _ i])
  next
    case False
    have "(\<exists>k\<ge>i. k < j \<and> t k = 0) \<longleftrightarrow> (\<exists>k\<ge>Suc i. k < j \<and> t k = 0)"
      using False by (metis Suc_leD le_antisym not_less_eq_eq)
    then show ?thesis using False
      by (cases "j = i") (auto simp: Suc.IH Suc_le_eq)
  qed
qed auto

lemma strncpy_apply:
  "strncpy s t n j =
     (if int j < n then if \<exists>k < j. t k = 0 then 0 else t j else s j)"
  by (auto simp: strncpy_def strncpy_from_apply)

lemma safestrcpy_from_apply:
  "safestrcpy_from s t i n j =
     (if i \<le> j \<and> j < i + n \<and> (\<forall>k. i \<le> k \<and> k < j \<longrightarrow> t k \<noteq> 0) then t j
      else if i \<le> j \<and> j \<le> i + n \<and>
              (\<forall>k. i \<le> k \<and> Suc k < j \<longrightarrow> t k \<noteq> 0) then 0
      else s j)"
proof (induction n arbitrary: s i j)
  case (Suc n)
  show ?case
  proof (cases "t i = 0")
    case True
    then show ?thesis by (auto simp: le_Suc_eq)
  next
    case False
    have *: "(\<forall>k. i \<le> k \<and> k < j \<longrightarrow> t k \<noteq> 0) \<longleftrightarrow> (\<forall>k. Suc i \<le> k \<and> k < j \<longrightarrow> t k \<noteq> 0)"
      "(\<forall>k. i \<le> k \<and> Suc k < j \<longrightarrow> t k \<noteq> 0) \<longleftrightarrow>
       (\<forall>k. Suc i \<le> k \<and> Suc k < j \<longrightarrow> t k \<noteq> 0)"
      using False by (metis Suc_leD le_antisym not_less_eq_eq)+
    show ?thesis using False
      by (cases "j = i") (auto simp: Suc.IH * Suc_le_eq)
  qed
qed auto

text \<open>\<open>safestrcpy\<close> gives the source truncated to \<open>n - 1\<close> bytes, with its NUL.\<close>

lemma cstr_nth: "i < length (cstr t n) \<Longrightarrow> t i \<noteq> 0"
  by (induction n arbitrary: i t) (auto simp: less_Suc_eq_0_disj split: if_splits)

lemma cstr_end: "length (cstr t n) < n \<Longrightarrow> t (length (cstr t n)) = 0"
  by (induction n arbitrary: t) (auto split: if_splits)

lemma cstr_eqI:
  assumes "\<And>i. i < length (cstr t n) \<Longrightarrow> s i = t i" and "s (length (cstr t n)) = 0"
    and "length (cstr t n) < m"
  shows "cstr s m = cstr t n"
  using assms
proof (induction n arbitrary: s t m)
  case 0
  then show ?case by (cases m) auto
next
  case (Suc n)
  then obtain m' where "m = Suc m'" by (cases m) auto
  show ?case
  proof (cases "t 0 = 0")
    case True
    with Suc.prems \<open>m = Suc m'\<close> show ?thesis by simp
  next
    case False
    with Suc.prems(1) [of 0] have "s 0 = t 0" by simp
    moreover have "cstr (\<lambda>i. s (Suc i)) m' = cstr (\<lambda>i. t (Suc i)) n"
      using Suc.prems False \<open>m = Suc m'\<close> by (intro Suc.IH) auto
    ultimately show ?thesis using False \<open>m = Suc m'\<close> by simp
  qed
qed

lemma safestrcpy_nth:
  assumes "0 < n"
  shows "i < length (cstr t (nat n - 1)) \<Longrightarrow> safestrcpy s t n i = t i"
    and "safestrcpy s t n (length (cstr t (nat n - 1))) = 0"
    and "length (cstr t (nat n - 1)) < nat n"
proof -
  let ?k = "length (cstr t (nat n - 1))"
  have k: "?k \<le> nat n - 1" by (rule length_cstr)
  then show "safestrcpy s t n i = t i" if "i < ?k"
    using that assms cstr_nth [of _ t "nat n - 1"]
    by (auto simp: safestrcpy_def safestrcpy_from_apply)
  show "safestrcpy s t n ?k = 0"
    using assms k cstr_nth [of _ t "nat n - 1"] cstr_end [of t "nat n - 1"]
    by (auto simp: safestrcpy_def safestrcpy_from_apply)
  show "?k < nat n" using k assms by linarith
qed

lemma cstr_safestrcpy:
  assumes "0 < n"
  shows "cstr (safestrcpy s t n) (nat n) = cstr t (nat n - 1)"
  by (rule cstr_eqI) (use safestrcpy_nth [OF assms] in auto)

lemma safestrcpy_frame: "n \<le> int j \<Longrightarrow> safestrcpy s t n j = s j"
  by (auto simp: safestrcpy_def safestrcpy_from_apply)

lemma strlen_Some:
  assumes "s k = 0" and "\<And>i. i < k \<Longrightarrow> s i \<noteq> 0"
  shows "strlen s = Some k"
proof -
  have "strlen_from s (k - n) = Some k" if "n \<le> k" for n
    using that
  proof (induction n)
    case 0
    with assms show ?case by (subst strlen_from.simps) simp
  next
    case (Suc n)
    then have "s (k - Suc n) \<noteq> 0" using assms by simp
    with Suc show ?case
      by (subst strlen_from.simps) (simp add: Suc_diff_Suc)
  qed
  from this [of k] show ?thesis by (simp add: strlen_def)
qed

subsection \<open>Correctness\<close>

text \<open>
  C33. \<open>memmove\<close> copies as if through a temporary buffer, whether or not the areas overlap: after it
  the destination holds what the source held before, and no other byte of memory has changed.
\<close>

theorem memmove_correct:
  assumes "unat src + n < 2 ^ 64" "n \<le> 2 ^ 63"
  shows "mem_read (memmove m dst src n) dst n = mem_read m src n \<and>
    (\<forall>x. n \<le> unat (x - dst) \<longrightarrow> memmove m dst src n x = m x)"
proof -
  have n: "unat (of_nat i :: u64) = i" if "i < n" for i
    using that assms(2) by (simp add: unat_of_nat)
  show ?thesis using assms n by (auto simp: mem_read_def memmove_apply)
qed

text \<open>An overlapping move: the three bytes 1, 2, 3 one place up.\<close>

theorem memmove_correct_witness:
  "mem_read (memmove (mem_write (\<lambda>_. 0) 16 [1, 2, 3]) 17 16 3) 17 3 = [1, 2, 3]"
proof -
  have "mem_read (memmove (mem_write (\<lambda>_. 0) 16 [1, 2, 3]) 17 16 3) 17 3 =
      mem_read (mem_write (\<lambda>_. 0) 16 [1, 2, 3]) 16 3"
    using memmove_correct [of 16 3 "mem_write (\<lambda>_. 0) 16 [1, 2, 3]" 17] by simp
  also have "\<dots> = [1, 2, 3]" by code_simp
  finally show ?thesis .
qed

text \<open>
  C35. \<open>safestrcpy\<close> with room for at least one byte leaves a NUL-terminated string, the source
  string cut to what fits, whose length \<open>strlen\<close> finds, and writes nothing outside the buffer.
\<close>

theorem safestrcpy_correct:
  assumes "0 < n"
  shows "cstr (safestrcpy s t n) (nat n) = cstr t (nat n - 1) \<and>
    strlen (safestrcpy s t n) = Some (length (cstr t (nat n - 1))) \<and>
    length (cstr t (nat n - 1)) < nat n \<and>
    (\<forall>j. n \<le> int j \<longrightarrow> safestrcpy s t n j = s j)"
proof -
  note at = safestrcpy_nth(1) [OF assms, of _ t s] safestrcpy_nth(2) [OF assms, of s t]
    safestrcpy_nth(3) [OF assms, of t]
  have "safestrcpy s t n i \<noteq> 0" if "i < length (cstr t (nat n - 1))" for i
    using that at(1) cstr_nth by simp
  then have "strlen (safestrcpy s t n) = Some (length (cstr t (nat n - 1)))"
    using at(2) by (intro strlen_Some)
  with at(3) cstr_safestrcpy [OF assms] safestrcpy_frame show ?thesis by auto
qed

theorem safestrcpy_correct_witness:
  "cstr (safestrcpy (\<lambda>_. 9) (\<lambda>i. if i < 5 then 65 else 0) 4) 4 = [65, 65, 65] \<and>
   safestrcpy (\<lambda>_. 9) (\<lambda>i. if i < 5 then 65 else 0) 4 7 = 9"
proof -
  have "cstr (\<lambda>i. if i < 5 then 65 else 0) 3 = [65, 65, 65]" by code_simp
  with safestrcpy_correct [of 4 "\<lambda>_. 9" "\<lambda>i. if i < 5 then 65 else 0"] show ?thesis by simp
qed

end
