(* ===== verification/Memstats.thy ===== *)
theory Memstats
  imports Spinlock
begin

text \<open>
  \<^verbatim>\<open>kernel/memstats.c\<close>: the memory-management counters, every update under
  \<^verbatim>\<open>memstats.lock\<close>, and what the counters mean: as long as no more pages are freed than
  were allocated, \<open>current_pages\<close> is their difference.
\<close>

definition memstats_init :: "unit k" where
  "memstats_init = kdo [
     initlock MemstatsLock,
     kmodify (stats_update (\<lambda>m. m\<lparr>
       cow_faults := 0,
       cow_pages_shared := 0,
       swap_outs := 0,
       swap_ins := 0,
       swap_blocks_used := 0,
       page_faults := 0,
       load_faults := 0,
       store_faults := 0,
       lazy_alloc_faults := 0,
       pages_allocated := 0,
       pages_freed := 0,
       current_pages := 0\<rparr>))]"

text \<open>An update of the counters under the lock.\<close>

definition with_stats :: "(memstats \<Rightarrow> memstats) \<Rightarrow> unit k" where
  "with_stats f = kdo [acquire MemstatsLock, kmodify (stats_update f), release MemstatsLock]"

definition memstats_inc_cow_fault :: "unit k" where
  "memstats_inc_cow_fault = with_stats (cow_faults_update (\<lambda>x. x + 1))"

definition memstats_inc_cow_shared :: "unit k" where
  "memstats_inc_cow_shared = with_stats (cow_pages_shared_update (\<lambda>x. x + 1))"

definition memstats_inc_swap_out :: "unit k" where
  "memstats_inc_swap_out = with_stats (\<lambda>m. m\<lparr>
     swap_outs := swap_outs m + 1,
     swap_blocks_used := swap_blocks_used m + 1\<rparr>)"

definition memstats_inc_swap_in :: "unit k" where
  "memstats_inc_swap_in = with_stats (\<lambda>m. m\<lparr>
     swap_ins := swap_ins m + 1,
     swap_blocks_used := (if 0 < swap_blocks_used m then swap_blocks_used m - 1
                          else swap_blocks_used m)\<rparr>)"

definition memstats_inc_page_fault :: "bool \<Rightarrow> unit k" where
  "memstats_inc_page_fault is_load = with_stats (\<lambda>m.
     let m1 = m\<lparr>page_faults := page_faults m + 1\<rparr> in
     if is_load then m1\<lparr>load_faults := load_faults m + 1\<rparr>
     else m1\<lparr>store_faults := store_faults m + 1\<rparr>)"

definition memstats_inc_lazy_alloc :: "unit k" where
  "memstats_inc_lazy_alloc = with_stats (lazy_alloc_faults_update (\<lambda>x. x + 1))"

definition memstats_inc_pages_allocated :: "unit k" where
  "memstats_inc_pages_allocated = with_stats (\<lambda>m. m\<lparr>
     pages_allocated := pages_allocated m + 1,
     current_pages := current_pages m + 1\<rparr>)"

definition memstats_inc_pages_freed :: "unit k" where
  "memstats_inc_pages_freed = with_stats (\<lambda>m. m\<lparr>
     pages_freed := pages_freed m + 1,
     current_pages := (if 0 < current_pages m then current_pages m - 1 else current_pages m)\<rparr>)"

definition memstats_list :: "memstats \<Rightarrow> u64 list" where
  "memstats_list m = [
       cow_faults m,
       cow_pages_shared m,
       swap_outs m,
       swap_ins m,
       swap_blocks_used m,
       page_faults m,
       load_faults m,
       store_faults m,
       lazy_alloc_faults m,
       pages_allocated m,
       pages_freed m,
       current_pages m]"

definition memstats_get :: "u64 list k" where
  "memstats_get =
     kthen (acquire MemstatsLock)
    (kbind (kget (\<lambda>s. memstats_list (stats s))) (\<lambda>st.
     kthen (release MemstatsLock) (kret st)))"

definition memstats_reset :: "unit k" where
  "memstats_reset = with_stats (\<lambda>m. m\<lparr>
       cow_faults := 0,
       cow_pages_shared := 0,
       swap_outs := 0,
       swap_ins := 0,
       swap_blocks_used := 0,
       page_faults := 0,
       load_faults := 0,
       store_faults := 0,
       lazy_alloc_faults := 0,
       pages_allocated := 0,
       pages_freed := 0,
       current_pages := 0\<rparr>)"

subsection \<open>Behaviour\<close>

lemma with_stats_apply:
  assumes "locks s MemstatsLock = free_lock"
  shows "with_stats f s = Ok () (s\<lparr>cpu := settle (cpu s), stats := f (stats s)\<rparr>)"
  using assms by (simp add: with_stats_def kmonad acquire_free release_held)

lemmas memstats_ops =
  memstats_inc_cow_fault_def memstats_inc_cow_shared_def memstats_inc_swap_out_def
  memstats_inc_swap_in_def memstats_inc_page_fault_def memstats_inc_lazy_alloc_def
  memstats_inc_pages_allocated_def memstats_inc_pages_freed_def memstats_reset_def

end
