(* ===== verification/Kmem.thy ===== *)
theory Kmem
  imports Kstring Memstats
begin

text \<open>
  \<^verbatim>\<open>kernel/kalloc.c\<close> up to \<open>kalloc\<close> itself: the reference counts of physical pages and
  the return of pages to the free list. (\<open>kalloc\<close> may swap a page out, so it comes after the
  swap code.) The free list is threaded through the free pages themselves; \<open>free_chain\<close>
  reads it out of memory and \<open>kmem_inv\<close> is the allocator's invariant.
\<close>

subsection \<open>Reference counts\<close>

definition memset_k :: "u64 \<Rightarrow> u8 \<Rightarrow> u64 \<Rightarrow> unit k" where
  "memset_k dst c n = kmodify (\<lambda>s. s\<lparr>mem := memset (mem s) dst c (unat n)\<rparr>)"

definition pageindex :: "u64 \<Rightarrow> nat k" where
  "pageindex pa =
     kthen (kpanic_if (pa < KERNBASE \<or> PHYSTOP \<le> pa) ''pageindex: invalid pa'')
    (kret (unat ((pa - KERNBASE) div PGSIZE)))"

definition krefinc :: "u64 \<Rightarrow> unit k" where
  "krefinc pa =
     kthen (kpanic_if (pa mod PGSIZE \<noteq> 0 \<or> pa < KERNBASE \<or> PHYSTOP \<le> pa) ''krefinc: invalid pa'')
    (kthen (acquire RefcountLock)
    (kbind (pageindex pa) (\<lambda>i.
     kthen (kmodify (\<lambda>s. s\<lparr>refcount := (refcount s)(i := refcount s i + 1)\<rparr>))
    (release RefcountLock))))"

definition krefdec :: "u64 \<Rightarrow> int k" where
  "krefdec pa =
     kthen (kpanic_if (pa mod PGSIZE \<noteq> 0 \<or> pa < KERNBASE \<or> PHYSTOP \<le> pa) ''krefdec: invalid pa'')
    (kthen (acquire RefcountLock)
    (kbind (pageindex pa) (\<lambda>i.
     kbind (kget (\<lambda>s. refcount s i)) (\<lambda>c.
     kthen (kpanic_if (c \<le> 0) ''krefdec: refcount <= 0'')
    (kthen (kmodify (\<lambda>s. s\<lparr>refcount := (refcount s)(i := refcount s i - 1)\<rparr>))
    (kbind (kget (\<lambda>s. refcount s i)) (\<lambda>count.
     kthen (release RefcountLock)
    (kret count))))))))"

definition krefget :: "u64 \<Rightarrow> int k" where
  "krefget pa =
     kthen (kpanic_if (pa mod PGSIZE \<noteq> 0 \<or> pa < KERNBASE \<or> PHYSTOP \<le> pa) ''krefget: invalid pa'')
    (kthen (acquire RefcountLock)
    (kbind (pageindex pa) (\<lambda>i.
     kbind (kget (\<lambda>s. refcount s i)) (\<lambda>count.
     kthen (release RefcountLock)
    (kret count)))))"

subsection \<open>Freeing pages\<close>

definition kfree :: "u64 \<Rightarrow> unit k" where
  "kfree pa =
     kbind (kget (\<lambda>s. sym_end (syms s))) (\<lambda>kend.
     kthen (kpanic_if (pa mod PGSIZE \<noteq> 0 \<or> pa < kend \<or> PHYSTOP \<le> pa) ''kfree'')
    (kbind (krefdec pa) (\<lambda>count.
     if 0 < count then kret ()
     else kthen memstats_inc_pages_freed
         (kthen (memset_k pa 1 PGSIZE)
         (kthen (acquire KmemLock)
         (kbind (kget kmem_freelist) (\<lambda>fl.
          kthen (wr64 pa fl)
         (kthen (kmodify (\<lambda>s. s\<lparr>kmem_freelist := pa\<rparr>))
         (release KmemLock)))))))))"

text \<open>
  One round of the loop of \<open>freerange\<close>, and the loop: \<open>n\<close> bounds the number of rounds.
\<close>

definition freerange_page :: "u64 \<Rightarrow> unit k" where
  "freerange_page p =
     kthen (acquire RefcountLock)
    (kbind (pageindex p) (\<lambda>i.
     kthen (kmodify (\<lambda>s. s\<lparr>refcount := (refcount s)(i := 0)\<rparr>))
    (kthen (release RefcountLock)
    (kfree p))))"

definition freerange :: "u64 \<Rightarrow> u64 \<Rightarrow> unit k" where
  "freerange pa_start pa_end =
     kthen (kwhile (Suc (unat (pa_end div PGSIZE)))
       (\<lambda>p. p + PGSIZE \<le> pa_end)
       (\<lambda>p. kthen (freerange_page p) (kret (p + PGSIZE)))
       (PGROUNDUP pa_start))
    (kret ())"

definition kinit :: "unit k" where
  "kinit =
     kthen (kdo [
       initlock KmemLock,
       initlock RefcountLock,
       kmodify (\<lambda>s. s\<lparr>refcount := (\<lambda>_. 0)\<rparr>)])
    (kbind (kget (\<lambda>s. sym_end (syms s))) (\<lambda>kend.
     freerange kend PHYSTOP))"

subsection \<open>The free list and the allocator's invariant\<close>

text \<open>The index of a page in the table of reference counts, and the pages the allocator owns.\<close>

definition pidx :: "u64 \<Rightarrow> nat" where
  "pidx pa = unat ((pa - KERNBASE) div PGSIZE)"

definition page_ok :: "kstate \<Rightarrow> u64 \<Rightarrow> bool" where
  "page_ok s p \<longleftrightarrow> p mod PGSIZE = 0 \<and> KERNBASE \<le> p \<and> sym_end (syms s) \<le> p \<and> p < PHYSTOP"

primrec free_chain :: "pmem \<Rightarrow> u64 \<Rightarrow> u64 list \<Rightarrow> bool" where
  "free_chain m p [] \<longleftrightarrow> p = 0"
| "free_chain m p (x # xs) \<longleftrightarrow> p = x \<and> x \<noteq> 0 \<and> free_chain m (load64 m x) xs"

text \<open>The locks the allocator takes are free.\<close>

definition kmem_unlocked :: "kstate \<Rightarrow> bool" where
  "kmem_unlocked s \<longleftrightarrow> locks s KmemLock = free_lock \<and> locks s RefcountLock = free_lock \<and>
     locks s MemstatsLock = free_lock"

text \<open>
  The free list holds distinct pages of the allocator's range, each with a reference count
  of 0.
\<close>

definition kmem_inv :: "kstate \<Rightarrow> u64 list \<Rightarrow> bool" where
  "kmem_inv s F \<longleftrightarrow> free_chain (mem s) (kmem_freelist s) F \<and> distinct F \<and>
     (\<forall>p \<in> set F. page_ok s p \<and> refcount s (pidx p) = 0)"


subsection \<open>Pages\<close>

lemma in_page_iff:
  assumes "p mod PGSIZE = 0"
  shows "PGROUNDDOWN x = p \<longleftrightarrow> unat (x - p) < 4096"
proof
  assume "PGROUNDDOWN x = p"
  then show "unat (x - p) < 4096" using page_offset_less [of x] by (simp add: word_less_nat_alt)
next
  assume "unat (x - p) < 4096"
  then have "x - p < PGSIZE" by (simp add: word_less_nat_alt)
  then have "PGROUNDDOWN (p + (x - p)) = p" using assms by (rule PGROUNDDOWN_plus [rotated])
  then show "PGROUNDDOWN x = p" by simp
qed

lemma memset_page:
  assumes "p mod PGSIZE = 0"
  shows "memset m p c 4096 x = (if PGROUNDDOWN x = p then c else m x)"
  using assms by (simp add: memset_apply in_page_iff)

lemma same_page_memset: "p mod PGSIZE = 0 \<Longrightarrow> p \<noteq> q \<Longrightarrow> same_page (memset m p c 4096) m q"
  by (simp add: same_page_def memset_page)

lemma memmove_page:
  assumes "p mod PGSIZE = 0" and "q mod PGSIZE = 0" and "q < PHYSTOP"
  shows "memmove m p q 4096 x = (if PGROUNDDOWN x = p then m (q + (x - p)) else m x)"
proof -
  have "unat q + 4096 < 2 ^ 64" using assms(3) by (simp add: word_less_nat_alt)
  then show ?thesis using assms(1) by (simp add: memmove_apply in_page_iff)
qed

text \<open>Distinct pages have distinct reference counts.\<close>

lemma pidx_nat:
  assumes "p mod PGSIZE = 0" "KERNBASE \<le> p"
  shows "unat p = 4096 * pidx p + 2147483648"
proof -
  have "unat (p mod PGSIZE) = 0" using assms(1) by simp
  then have "unat p mod 4096 = 0" by (simp add: unat_mod_distrib)
  then obtain k where k: "unat p = 4096 * k" by auto
  have ge: "2147483648 \<le> unat p" using assms(2) by (simp add: word_le_nat_alt)
  have "unat (p - KERNBASE) = unat p - 2147483648"
    using assms(2) by (simp add: unat_sub)
  then have "pidx p = (unat p - 2147483648) div 4096"
    by (simp add: pidx_def unat_div_distrib)
  then show ?thesis using k ge by simp
qed

lemma page_index_unique:
  assumes "p mod PGSIZE = 0" "q mod PGSIZE = 0" "KERNBASE \<le> p" "KERNBASE \<le> q"
  shows "pidx p = pidx q \<longleftrightarrow> p = q"
  using assms by (metis pidx_nat word_unat_eq_iff)

lemma page_ok_aligned [simp]: "page_ok s p \<Longrightarrow> p mod PGSIZE = 0"
  by (simp add: page_ok_def)

lemma page_ok_pidx: "page_ok s p \<Longrightarrow> page_ok s q \<Longrightarrow> pidx p = pidx q \<longleftrightarrow> p = q"
  by (simp add: page_ok_def page_index_unique)

subsection \<open>The operations, branch by branch\<close>

lemma memset_k_apply [kmonad]:
  "memset_k dst c n s = Ok () (s\<lparr>mem := memset (mem s) dst c (unat n)\<rparr>)"
  by (simp add: memset_k_def kmonad)

lemma pageindex_apply:
  "pageindex pa s =
     (if pa < KERNBASE \<or> PHYSTOP \<le> pa then Panic ''pageindex: invalid pa'' else Ok (pidx pa) s)"
  by (simp add: pageindex_def pidx_def kmonad)

lemma page_ok_range: "page_ok s p \<Longrightarrow> \<not> p < KERNBASE \<and> \<not> PHYSTOP \<le> p \<and> \<not> p < sym_end (syms s)"
  by (simp add: page_ok_def not_less not_le)

lemma krefinc_apply:
  assumes "page_ok s pa" "locks s RefcountLock = free_lock"
  shows "krefinc pa s = Ok () (s\<lparr>cpu := settle (cpu s),
    refcount := (refcount s)(pidx pa := refcount s (pidx pa) + 1)\<rparr>)"
  using assms
  by (simp add: krefinc_def kmonad acquire_free release_held pageindex_apply page_ok_range)

lemma krefget_apply:
  assumes "page_ok s pa" "locks s RefcountLock = free_lock"
  shows "krefget pa s = Ok (refcount s (pidx pa)) (s\<lparr>cpu := settle (cpu s)\<rparr>)"
  using assms
  by (simp add: krefget_def kmonad acquire_free release_held pageindex_apply page_ok_range)

lemma krefdec_apply:
  assumes "page_ok s pa" "locks s RefcountLock = free_lock"
  shows "krefdec pa s =
    (if refcount s (pidx pa) \<le> 0 then Panic ''krefdec: refcount <= 0''
     else Ok (refcount s (pidx pa) - 1) (s\<lparr>cpu := settle (cpu s),
       refcount := (refcount s)(pidx pa := refcount s (pidx pa) - 1)\<rparr>))"
  using assms
  by (simp add: krefdec_def kmonad acquire_free release_held pageindex_apply page_ok_range)

text \<open>
  What \<open>kfree\<close> does to the counters; \<open>kfree\<close> of a page with a count of 1 puts it at the head
  of the free list.
\<close>

definition count_freed :: "memstats \<Rightarrow> memstats" where
  "count_freed m = m\<lparr>pages_freed := pages_freed m + 1,
     current_pages := (if 0 < current_pages m then current_pages m - 1 else current_pages m)\<rparr>"

definition freed_state :: "u64 \<Rightarrow> kstate \<Rightarrow> kstate" where
  "freed_state pa s = s\<lparr>
     mem := store64 (memset (mem s) pa 1 4096) pa (kmem_freelist s),
     cpu := settle (cpu s),
     kmem_freelist := pa,
     refcount := (refcount s)(pidx pa := 0),
     stats := count_freed (stats s)\<rparr>"

lemma kfree_shared:
  assumes "page_ok s pa" "locks s RefcountLock = free_lock" "1 < refcount s (pidx pa)"
  shows "kfree pa s = Ok () (s\<lparr>cpu := settle (cpu s),
    refcount := (refcount s)(pidx pa := refcount s (pidx pa) - 1)\<rparr>)"
  using assms by (simp add: kfree_def kmonad krefdec_apply page_ok_range)

lemma kfree_last:
  assumes "page_ok s pa" "kmem_unlocked s" "refcount s (pidx pa) = 1"
  shows "kfree pa s = Ok () (freed_state pa s)"
  using assms
  by (simp add: kfree_def kmonad krefdec_apply page_ok_range freed_state_def count_freed_def
      memstats_ops with_stats_apply acquire_free release_held kmem_unlocked_def)

lemma kfree_unowned:
  assumes "page_ok s pa" "locks s RefcountLock = free_lock" "refcount s (pidx pa) \<le> 0"
  shows "kfree pa s = Panic ''krefdec: refcount <= 0''"
  using assms by (simp add: kfree_def kmonad krefdec_apply page_ok_range)


subsection \<open>The invariant\<close>

lemma page_slot0 [simp]: "p mod PGSIZE = 0 \<Longrightarrow> p mod 8 = 0"
  for p :: u64
  by (simp add: aligned_bits aligned8_bits)

lemma same_page_load64: "same_page m m' p \<Longrightarrow> p mod PGSIZE = 0 \<Longrightarrow> load64 m p = load64 m' p"
  using load64_same_page [of m m' p] by simp

lemma free_chain_cong:
  assumes "\<And>p. p \<in> set xs \<Longrightarrow> same_page m m' p" and "\<And>p. p \<in> set xs \<Longrightarrow> p mod PGSIZE = 0"
  shows "free_chain m h xs \<longleftrightarrow> free_chain m' h xs"
  using assms
proof (induction xs arbitrary: h)
  case (Cons x xs)
  from Cons.prems have "load64 m x = load64 m' x" by (intro same_page_load64) auto
  with Cons show ?case by simp
qed simp

lemma kmem_invD:
  assumes "kmem_inv s F"
  shows "free_chain (mem s) (kmem_freelist s) F" "distinct F"
    and "p \<in> set F \<Longrightarrow> page_ok s p" "p \<in> set F \<Longrightarrow> refcount s (pidx p) = 0"
  using assms by (auto simp: kmem_inv_def)

text \<open>
  Any step that leaves the free pages, their counts and the head of the list alone keeps
  the invariant.
\<close>

lemma kmem_inv_frame:
  assumes "kmem_inv s F" "kmem_freelist s' = kmem_freelist s" "syms s' = syms s"
    and "\<And>p. p \<in> set F \<Longrightarrow> same_page (mem s') (mem s) p"
    and "\<And>p. p \<in> set F \<Longrightarrow> refcount s' (pidx p) = refcount s (pidx p)"
  shows "kmem_inv s' F"
proof -
  have "free_chain (mem s') (kmem_freelist s') F"
    using assms by (subst free_chain_cong [of F _ "mem s"]) (auto simp: kmem_inv_def)
  with assms show ?thesis by (simp add: kmem_inv_def page_ok_def)
qed

lemma same_page_freed:
  assumes "page_ok s pa" "pa \<noteq> q"
  shows "same_page (mem (freed_state pa s)) (mem s) q"
proof -
  have "same_page (store64 (memset (mem s) pa 1 4096) pa (kmem_freelist s))
      (memset (mem s) pa 1 4096) q"
    using assms by (intro same_page_store64) simp_all
  moreover have "same_page (memset (mem s) pa 1 4096) (mem s) q"
    using assms by (intro same_page_memset) simp_all
  ultimately show ?thesis by (simp add: freed_state_def) (rule same_page_trans)
qed

lemma page_ok_freed [simp]: "page_ok (freed_state pa s) p = page_ok s p"
  by (simp add: page_ok_def freed_state_def)

lemma page_ok_nonzero: "page_ok s p \<Longrightarrow> p \<noteq> 0"
  by (auto simp: page_ok_def)

lemma kmem_inv_freed:
  assumes inv: "kmem_inv s F" and pa: "page_ok s pa" and ref: "refcount s (pidx pa) \<noteq> 0"
  shows "kmem_inv (freed_state pa s) (pa # F)"
proof -
  have new: "pa \<notin> set F" using inv ref by (auto simp: kmem_inv_def)
  then have "free_chain (mem (freed_state pa s)) (kmem_freelist s) F"
    using inv pa
    by (subst free_chain_cong [of F _ "mem s"]) (auto simp: kmem_inv_def intro!: same_page_freed)
  moreover have "load64 (mem (freed_state pa s)) pa = kmem_freelist s"
    by (simp add: freed_state_def)
  ultimately show ?thesis
    using inv pa new page_ok_nonzero [OF pa]
    by (auto simp: kmem_inv_def) (simp_all add: freed_state_def)
qed

text \<open>
  The allocator is never initialised: \<open>freerange\<close> sets the count of the first page to 0 and
  frees it, and \<open>krefdec\<close> panics on a count of 0.
\<close>

lemma freerange_page_panics:
  assumes "page_ok s p" "locks s RefcountLock = free_lock"
  shows "freerange_page p s = Panic ''krefdec: refcount <= 0''"
proof -
  let ?s = "s\<lparr>refcount := (refcount s)(pidx p := 0), cpu := settle (cpu s)\<rparr>"
  have "kfree p ?s = Panic ''krefdec: refcount <= 0''"
    using assms by (intro kfree_unowned) (simp_all add: page_ok_def)
  with assms show ?thesis
    by (simp add: freerange_page_def kmonad acquire_free release_held pageindex_apply page_ok_range)
qed

subsection \<open>What the memory management changes\<close>

text \<open>
  The operations on pages and page tables change memory, the allocator's state, the
  statistics, and the interrupt state of the hart as a balanced pair of \<open>push_off\<close> and
  \<open>pop_off\<close> does; nothing else of the kernel.
\<close>

definition frame_mm :: "kstate \<Rightarrow> kstate \<Rightarrow> bool" where
  "frame_mm s s' \<longleftrightarrow>
     s'\<lparr>mem := mem s, cpu := cpu s, kmem_freelist := kmem_freelist s, refcount := refcount s,
        stats := stats s\<rparr> = s \<and> settle (cpu s') = settle (cpu s)"

lemma frame_mm_refl [simp]: "frame_mm s s"
  by (simp add: frame_mm_def)

lemma frame_mm_trans:
  assumes "frame_mm s s'" "frame_mm s' s''"
  shows "frame_mm s s''"
proof -
  let ?undo = "\<lambda>x. x\<lparr>mem := mem s, cpu := cpu s, kmem_freelist := kmem_freelist s,
    refcount := refcount s, stats := stats s\<rparr>"
  have "s''\<lparr>mem := mem s', cpu := cpu s', kmem_freelist := kmem_freelist s',
      refcount := refcount s', stats := stats s'\<rparr> = s'"
    using assms(2) by (simp add: frame_mm_def)
  from arg_cong [OF this, of ?undo] have "?undo s'' = ?undo s'" by simp
  with assms show ?thesis by (simp add: frame_mm_def)
qed

lemma frame_mm_same:
  assumes "frame_mm s s'"
  shows "syms s' = syms s" "locks s' = locks s" "procs s' = procs s" "swap s' = swap s"
    "sleeplocks s' = sleeplocks s" "bcache s' = bcache s" "vdisk s' = vdisk s" "disk s' = disk s"
    "disk_dev s' = disk_dev s" "fs s' = fs s" "cons s' = cons s" "ticks s' = ticks s"
    "nextpid s' = nextpid s" "initproc s' = initproc s" "kernel_pagetable s' = kernel_pagetable s"
    "c_noff (cpu s') = c_noff (cpu s)" "c_id (cpu s') = c_id (cpu s)"
    "c_proc (cpu s') = c_proc (cpu s)"
proof -
  let ?t = "s'\<lparr>mem := mem s, cpu := cpu s, kmem_freelist := kmem_freelist s,
    refcount := refcount s, stats := stats s\<rparr>"
  have eq: "s = ?t" and cpu: "settle (cpu s') = settle (cpu s)"
    using assms by (simp_all add: frame_mm_def)
  show "syms s' = syms s" "locks s' = locks s" "procs s' = procs s" "swap s' = swap s"
    "sleeplocks s' = sleeplocks s" "bcache s' = bcache s" "vdisk s' = vdisk s" "disk s' = disk s"
    "disk_dev s' = disk_dev s" "fs s' = fs s" "cons s' = cons s" "ticks s' = ticks s"
    "nextpid s' = nextpid s" "initproc s' = initproc s" "kernel_pagetable s' = kernel_pagetable s"
    using arg_cong [OF eq, of syms] arg_cong [OF eq, of locks] arg_cong [OF eq, of procs]
      arg_cong [OF eq, of swap] arg_cong [OF eq, of sleeplocks] arg_cong [OF eq, of bcache]
      arg_cong [OF eq, of vdisk] arg_cong [OF eq, of disk] arg_cong [OF eq, of disk_dev]
      arg_cong [OF eq, of fs] arg_cong [OF eq, of cons] arg_cong [OF eq, of ticks]
      arg_cong [OF eq, of nextpid] arg_cong [OF eq, of initproc]
      arg_cong [OF eq, of kernel_pagetable]
    by simp_all
  show "c_noff (cpu s') = c_noff (cpu s)" "c_id (cpu s') = c_id (cpu s)"
    "c_proc (cpu s') = c_proc (cpu s)"
    using arg_cong [OF cpu, of c_noff] arg_cong [OF cpu, of c_id] arg_cong [OF cpu, of c_proc]
    by simp_all
qed

lemma frame_mm_page_ok: "frame_mm s s' \<Longrightarrow> page_ok s' p = page_ok s p"
  by (simp add: page_ok_def frame_mm_same)

lemma frame_mm_unlocked: "frame_mm s s' \<Longrightarrow> kmem_unlocked s' = kmem_unlocked s"
  by (simp add: kmem_unlocked_def frame_mm_same)

subsection \<open>An example memory\<close>

text \<open>A concrete memory with a free list, for the examples.\<close>

primrec link_pages :: "u64 list \<Rightarrow> pmem" where
  "link_pages [] = (\<lambda>_. 0)"
| "link_pages (p # ps) = store64 (link_pages ps) p (case ps of [] \<Rightarrow> 0 | q # _ \<Rightarrow> q)"

lemma link_pages_other:
  "\<forall>p \<in> set F. p mod PGSIZE = 0 \<Longrightarrow> c \<notin> set F \<Longrightarrow> PGROUNDDOWN x = c \<Longrightarrow> link_pages F x = 0"
proof (induction F)
  case (Cons p F)
  have "p \<noteq> c" using Cons.prems(2) by auto
  then have "same_page (store64 (link_pages F) p v) (link_pages F) c" for v
    using Cons.prems(1) by (intro same_page_store64) simp_all
  with Cons show ?case by (simp add: same_page_def)
qed simp

lemma link_pages_chain:
  "\<forall>p \<in> set F. p mod PGSIZE = 0 \<and> p \<noteq> 0 \<Longrightarrow> distinct F \<Longrightarrow>
   free_chain (link_pages F) (case F of [] \<Rightarrow> 0 | q # _ \<Rightarrow> q) F"
proof (induction F)
  case (Cons p F)
  have "free_chain (link_pages (p # F)) h F \<longleftrightarrow> free_chain (link_pages F) h F" for h
  proof (rule free_chain_cong)
    fix x assume x: "x \<in> set F"
    show "same_page (link_pages (p # F)) (link_pages F) x"
      using Cons.prems x by (simp, intro same_page_store64) auto
    show "x mod PGSIZE = 0" using Cons.prems x by simp
  qed
  with Cons show ?case by simp
qed simp

definition demo_free :: "u64 list" where
  "demo_free = [0x80103000, 0x80104000, 0x80105000, 0x80106000, 0x80107000, 0x80108000]"

text \<open>Three pages in use, six free.\<close>

definition demo_mm :: kstate where
  "demo_mm = demo_state\<lparr>mem := link_pages demo_free, kmem_freelist := 0x80103000,
     refcount := (\<lambda>_. 0)(256 := 1, 257 := 1, 258 := 1)\<rparr>"

lemma demo_mm_inv: "kmem_inv demo_mm demo_free"
proof -
  have "free_chain (link_pages demo_free) 0x80103000 demo_free"
    using link_pages_chain [of demo_free] by (simp add: demo_free_def)
  then show ?thesis by (simp add: kmem_inv_def demo_mm_def demo_simps page_ok_def pidx_def) (simp add: demo_free_def)
qed

lemma demo_mm_simps: "kmem_unlocked demo_mm" "refcount demo_mm (pidx 0x80100000) = 1"
  "refcount demo_mm (pidx 0x80101000) = 1" "refcount demo_mm (pidx 0x80102000) = 1"
  "page_ok demo_mm 0x80100000" "page_ok demo_mm 0x80101000" "page_ok demo_mm 0x80102000"
  by (simp_all add: demo_mm_def demo_simps pidx_def page_ok_def kmem_unlocked_def)

subsection \<open>What the allocator promises\<close>

text \<open>
  C8. \<open>kfree\<close> drops one reference. With no reference it panics; otherwise it returns, the
  page's count is one lower and no other count changes, the page joins the free list exactly
  when the count has reached 0, the free list stays well formed, and only the freed page's
  bytes may change.
\<close>

theorem kfree_correct:
  assumes "page_ok s pa" "kmem_unlocked s" "kmem_inv s F"
  shows "if refcount s (pidx pa) \<le> 0 then kfree pa s = Panic ''krefdec: refcount <= 0''
    else \<exists>s'. kfree pa s = Ok () s' \<and>
      refcount s' = (refcount s)(pidx pa := refcount s (pidx pa) - 1) \<and>
      kmem_inv s' (if refcount s (pidx pa) = 1 then pa # F else F) \<and>
      frame_mm s s' \<and> (\<forall>q. q \<noteq> pa \<longrightarrow> same_page (mem s') (mem s) q)"
proof -
  have lk: "locks s RefcountLock = free_lock" using assms(2) by (simp add: kmem_unlocked_def)
  consider "refcount s (pidx pa) \<le> 0" | "refcount s (pidx pa) = 1" | "1 < refcount s (pidx pa)"
    by linarith
  then show ?thesis
  proof cases
    case 1
    then show ?thesis using kfree_unowned [OF assms(1) lk] by simp
  next
    case 2
    let ?s' = "freed_state pa s"
    have "kfree pa s = Ok () ?s'" by (rule kfree_last [OF assms(1,2) 2])
    moreover have "kmem_inv ?s' (pa # F)" by (rule kmem_inv_freed [OF assms(3,1)]) (simp add: 2)
    moreover have "frame_mm s ?s'" by (simp add: frame_mm_def freed_state_def)
    moreover have "\<forall>q. q \<noteq> pa \<longrightarrow> same_page (mem ?s') (mem s) q"
      using same_page_freed [OF assms(1)] by simp
    moreover have "refcount ?s' = (refcount s)(pidx pa := refcount s (pidx pa) - 1)"
      by (simp add: freed_state_def 2)
    ultimately show ?thesis using 2 by simp
  next
    case 3
    let ?s' = "s\<lparr>cpu := settle (cpu s), refcount := (refcount s)(pidx pa := refcount s (pidx pa) - 1)\<rparr>"
    have "kmem_inv ?s' F"
    proof (rule kmem_inv_frame [OF assms(3)])
      show "refcount ?s' (pidx p) = refcount s (pidx p)" if "p \<in> set F" for p
        using assms(3) that 3 by (auto simp: kmem_inv_def)
    qed simp_all
    then show ?thesis using 3 kfree_shared [OF assms(1) lk 3] by (simp add: frame_mm_def)
  qed
qed

theorem kfree_correct_witness:
  "\<exists>s'. kfree 0x80102000 demo_mm = Ok () s' \<and> kmem_inv s' (0x80102000 # demo_free)"
  using kfree_correct [OF demo_mm_simps(7,1) demo_mm_inv] by (auto simp: demo_mm_simps)

lemma kinit_panics:
  assumes "KERNBASE \<le> sym_end (syms s)" "sym_end (syms s) \<le> PHYSTOP - 2 * PGSIZE"
  shows "kinit s = Panic ''krefdec: refcount <= 0''"
proof -
  let ?p = "PGROUNDUP (sym_end (syms s))"
  let ?s = "s\<lparr>locks := (locks s)(KmemLock := free_lock, RefcountLock := free_lock),
    refcount := (\<lambda>_. 0)\<rparr>"
  have ov: "sym_end (syms s) \<le> sym_end (syms s) + 4095"
    using assms(2) by (subst no_olen_add_nat) (simp add: word_le_nat_alt)
  then have ge: "sym_end (syms s) \<le> ?p" by (rule PGROUNDUP_ge)
  have "?p \<le> sym_end (syms s) + 4095" by (metis PGROUNDUP_via PGROUNDDOWN_le)
  moreover have "unat (sym_end (syms s) + 4095) = unat (sym_end (syms s)) + 4095"
    using ov by (simp add: no_olen_add_nat unat_word_ariths)
  ultimately have le: "unat ?p \<le> 2281693184 + 4095"
    using assms(2) by (simp add: word_le_nat_alt)
  then have "unat (?p + PGSIZE) = unat ?p + 4096"
    by (intro unat_add_lem [THEN iffD1, of ?p 4096, simplified]) simp
  then have fits: "?p + PGSIZE \<le> PHYSTOP" using le by (simp add: word_le_nat_alt)
  have "page_ok ?s ?p"
    using ge le assms by (auto simp: page_ok_def word_less_nat_alt intro: order_trans)
  then have "freerange_page ?p ?s = Panic ''krefdec: refcount <= 0''"
    by (rule freerange_page_panics) simp
  then have "kthen (freerange_page ?p) (kret (?p + PGSIZE)) ?s = Panic ''krefdec: refcount <= 0''"
    by (simp add: kmonad)
  then have "kwhile (numeral n) (\<lambda>p. p + PGSIZE \<le> PHYSTOP)
      (\<lambda>p. kthen (freerange_page p) (kret (p + PGSIZE))) ?p ?s = Panic ''krefdec: refcount <= 0''" for n
    using fits by (intro kwhile_panic) simp_all
  then show ?thesis
    by (simp add: kinit_def freerange_def kmonad del: kwhile.simps)
qed

text \<open>
  \<open>kinit\<close> does not initialise the allocator: wherever the kernel's image ends (with room for
  a page before the end of memory), \<open>freerange\<close> clears the first page's reference count and
  then calls \<open>kfree\<close>, which panics on a count that is not positive.
\<close>

theorem kinit_fails:
  assumes "KERNBASE \<le> sym_end (syms s)" "sym_end (syms s) \<le> PHYSTOP - 2 * PGSIZE"
  shows "kinit s = Panic ''krefdec: refcount <= 0''"
  using assms by (rule kinit_panics)

theorem kinit_fails_witness: "kinit demo_state = Panic ''krefdec: refcount <= 0''"
  by (rule kinit_fails) (simp_all add: demo_simps)

end
