(* ===== verification/Walk.thy ===== *)
theory Walk
  imports Kmem
begin

text \<open>
  Three-level page tables in physical memory: \<open>walk\<close> of \<^verbatim>\<open>kernel/vm.c\<close> and the structure
  it maintains. \<open>tables\<close> are the pages a tree of page tables occupies, \<open>pt_wf\<close> says they form
  a tree, \<open>pte_at\<close> is the leaf entry of an address: the abstract map a page table
  implements. The allocator is an argument of \<open>walk_with\<close>; what the walk needs of it is the
  locale \<open>page_allocator\<close>.
\<close>

subsection \<open>walk\<close>

text \<open>
  The loop over the levels. \<open>ka\<close> is the page allocator, called only if \<open>alloc\<close> is set. The
  answer is the address of the entry, 0 for the null pointer.
\<close>

fun walk_from :: "u64 k \<Rightarrow> bool \<Rightarrow> u64 \<Rightarrow> nat \<Rightarrow> u64 \<Rightarrow> u64 k" where
  "walk_from ka alloc va 0 pagetable = kret (pte_addr pagetable (PX 0 va))"
| "walk_from ka alloc va (Suc level) pagetable =
     kbind (rd64 (pte_addr pagetable (PX (Suc level) va))) (\<lambda>pte.
     if has_flag pte PTE_V then walk_from ka alloc va level (PTE2PA pte)
     else if \<not> alloc then kret 0
     else kbind ka (\<lambda>pg.
       if pg = 0 then kret 0
       else kthen (memset_k pg 0 PGSIZE)
           (kthen (wr64 (pte_addr pagetable (PX (Suc level) va)) (PA2PTE pg OR PTE_V))
           (walk_from ka alloc va level pg))))"

definition walk_with :: "u64 k \<Rightarrow> u64 \<Rightarrow> u64 \<Rightarrow> bool \<Rightarrow> u64 k" where
  "walk_with ka pagetable va alloc =
     kthen (kpanic_if (MAXVA \<le> va) ''walk'') (walk_from ka alloc va 2 pagetable)"

text \<open>\<^verbatim>\<open>walk(pagetable, va, 0)\<close> does not use the allocator.\<close>

definition walk0 :: "u64 \<Rightarrow> u64 \<Rightarrow> u64 k" where
  "walk0 pagetable va = walk_with (kret 0) pagetable va False"

subsection \<open>The structure of a page table\<close>

text \<open>The entry's address as the walk finds it (0 if a table is missing), and the entry.\<close>

fun ptslot :: "pmem \<Rightarrow> u64 \<Rightarrow> nat \<Rightarrow> u64 \<Rightarrow> u64" where
  "ptslot m va 0 p = pte_addr p (PX 0 va)"
| "ptslot m va (Suc l) p =
     (if has_flag (load64 m (pte_addr p (PX (Suc l) va))) PTE_V
      then ptslot m va l (PTE2PA (load64 m (pte_addr p (PX (Suc l) va)))) else 0)"

fun pte_at :: "pmem \<Rightarrow> u64 \<Rightarrow> nat \<Rightarrow> u64 \<Rightarrow> u64" where
  "pte_at m va 0 p = load64 m (pte_addr p (PX 0 va))"
| "pte_at m va (Suc l) p =
     (if has_flag (load64 m (pte_addr p (PX (Suc l) va))) PTE_V
      then pte_at m va l (PTE2PA (load64 m (pte_addr p (PX (Suc l) va)))) else 0)"

text \<open>The subtree under the entry with index \<open>i\<close>.\<close>

definition child :: "pmem \<Rightarrow> u64 \<Rightarrow> u64 \<Rightarrow> u64 option" where
  "child m p i = (if has_flag (load64 m (pte_addr p i)) PTE_V
     then Some (PTE2PA (load64 m (pte_addr p i))) else None)"

fun tables :: "pmem \<Rightarrow> nat \<Rightarrow> u64 \<Rightarrow> u64 set" where
  "tables m 0 p = {p}"
| "tables m (Suc l) p =
     insert p (\<Union>i \<in> {..<512}. case child m p i of None \<Rightarrow> {} | Some c \<Rightarrow> tables m l c)"

fun pt_wf :: "pmem \<Rightarrow> nat \<Rightarrow> u64 \<Rightarrow> bool" where
  "pt_wf m 0 p \<longleftrightarrow> p mod PGSIZE = 0 \<and> p \<noteq> 0"
| "pt_wf m (Suc l) p \<longleftrightarrow> p mod PGSIZE = 0 \<and> p \<noteq> 0 \<and>
     (\<forall>i < 512. \<forall>c. child m p i = Some c \<longrightarrow> pt_wf m l c \<and> p \<notin> tables m l c) \<and>
     (\<forall>i < 512. \<forall>j < 512. \<forall>c d. i \<noteq> j \<longrightarrow> child m p i = Some c \<longrightarrow> child m p j = Some d \<longrightarrow>
        tables m l c \<inter> tables m l d = {})"

lemma ptslot_child:
  "ptslot m va (Suc l) p = (case child m p (PX (Suc l) va) of None \<Rightarrow> 0 | Some c \<Rightarrow> ptslot m va l c)"
  by (simp add: child_def)

lemma pte_at_child:
  "pte_at m va (Suc l) p = (case child m p (PX (Suc l) va) of None \<Rightarrow> 0 | Some c \<Rightarrow> pte_at m va l c)"
  by (simp add: child_def)

lemmas walk_child = ptslot_child pte_at_child

declare ptslot.simps(2) [simp del] pte_at.simps(2) [simp del]

lemma pt_wf_root: "pt_wf m l p \<Longrightarrow> p mod PGSIZE = 0 \<and> p \<noteq> 0"
  by (cases l) simp_all

lemma tables_root [simp]: "p \<in> tables m l p"
  by (cases l) auto

lemma tables_Suc_iff:
  "q \<in> tables m (Suc l) p \<longleftrightarrow> q = p \<or> (\<exists>i < 512. \<exists>c. child m p i = Some c \<and> q \<in> tables m l c)"
  by (auto split: option.splits)

lemma pt_wf_Suc_iff:
  "pt_wf m (Suc l) p \<longleftrightarrow> p mod PGSIZE = 0 \<and> p \<noteq> 0 \<and>
     (\<forall>i < 512. \<forall>c. child m p i = Some c \<longrightarrow> pt_wf m l c \<and> p \<notin> tables m l c) \<and>
     (\<forall>i < 512. \<forall>j < 512. \<forall>c d. i \<noteq> j \<longrightarrow> child m p i = Some c \<longrightarrow> child m p j = Some d \<longrightarrow>
        tables m l c \<inter> tables m l d = {})"
  by (simp only: pt_wf.simps)

declare tables.simps(2) [simp del] pt_wf.simps(2) [simp del]

lemma pt_wf_SucI:
  assumes "p mod PGSIZE = 0" "p \<noteq> 0"
    and "\<And>i c. i < 512 \<Longrightarrow> child m p i = Some c \<Longrightarrow> pt_wf m l c"
    and "\<And>i c. i < 512 \<Longrightarrow> child m p i = Some c \<Longrightarrow> p \<notin> tables m l c"
    and "\<And>i j c d. i < 512 \<Longrightarrow> j < 512 \<Longrightarrow> i \<noteq> j \<Longrightarrow> child m p i = Some c \<Longrightarrow> child m p j = Some d \<Longrightarrow>
      tables m l c \<inter> tables m l d = {}"
  shows "pt_wf m (Suc l) p"
  using assms by (simp add: pt_wf_Suc_iff)

lemma pt_wf_childD:
  assumes "pt_wf m (Suc l) p" "i < 512" "child m p i = Some c"
  shows "pt_wf m l c" "p \<notin> tables m l c"
  using assms by (simp_all add: pt_wf_Suc_iff)

lemma pt_wf_disjD:
  assumes "pt_wf m (Suc l) p" "i < 512" "j < 512" "i \<noteq> j" "child m p i = Some c" "child m p j = Some d"
  shows "tables m l c \<inter> tables m l d = {}"
  using assms by (simp add: pt_wf_Suc_iff)

lemma tables_child: "i < 512 \<Longrightarrow> child m p i = Some c \<Longrightarrow> tables m l c \<subseteq> tables m (Suc l) p"
  by (auto simp: tables_Suc_iff)

lemma pt_wf_tables: "pt_wf m l p \<Longrightarrow> q \<in> tables m l p \<Longrightarrow> q mod PGSIZE = 0 \<and> q \<noteq> 0"
proof (induction l arbitrary: p)
  case (Suc l)
  then show ?case using pt_wf_root [of m "Suc l" p] pt_wf_childD [of m l p]
    by (simp add: tables_Suc_iff) blast
qed simp

lemma PX_512 [simp]: "PX l va < 512"
  by (rule PX_less)

text \<open>Memory that agrees on the tables has the same tree.\<close>

lemma child_same_page:
  "same_page m' m p \<Longrightarrow> p mod PGSIZE = 0 \<Longrightarrow> i < 512 \<Longrightarrow> child m' p i = child m p i"
  using load64_same_page [of m' m "pte_addr p i"] by (simp add: child_def)

lemma pt_frame:
  assumes "pt_wf m l p" and "\<And>q. q \<in> tables m l p \<Longrightarrow> same_page m' m q"
  shows "tables m' l p = tables m l p \<and> pt_wf m' l p \<and>
    ptslot m' va l p = ptslot m va l p \<and> pte_at m' va l p = pte_at m va l p"
  using assms
proof (induction l arbitrary: p)
  case 0
  then have "load64 m' (pte_addr p (PX 0 va)) = load64 m (pte_addr p (PX 0 va))"
    by (intro load64_same_page) simp_all
  with 0 show ?case by simp
next
  case (Suc l)
  have ch: "child m' p i = child m p i" if "i < 512" for i
    using Suc.prems that pt_wf_root [OF Suc.prems(1)] by (intro child_same_page) simp_all
  have sub: "tables m' l c = tables m l c \<and> pt_wf m' l c \<and>
      ptslot m' va l c = ptslot m va l c \<and> pte_at m' va l c = pte_at m va l c"
    if "i < 512" "child m p i = Some c" for i c
    using Suc.prems that tables_child [OF that, of l] pt_wf_childD [OF Suc.prems(1) that]
    by (intro Suc.IH) blast+
  have t: "tables m' (Suc l) p = tables m (Suc l) p"
    using ch sub by (auto simp: tables_Suc_iff)
  have w: "pt_wf m' (Suc l) p"
    using Suc.prems(1) ch sub by (simp add: pt_wf_Suc_iff)
  have "ptslot m' va (Suc l) p = ptslot m va (Suc l) p \<and> pte_at m' va (Suc l) p = pte_at m va (Suc l) p"
    using ch [of "PX (Suc l) va"] sub [of "PX (Suc l) va"]
    by (simp add: walk_child split: option.splits)
  with t w show ?case by blast
qed


subsection \<open>Changing one subtree\<close>

text \<open>
  When memory changes only inside the subtree under one entry, which grows by fresh pages
  \<open>G\<close>, the whole tree stays well formed and grows by \<open>G\<close>; addresses of other entries keep
  theirs.
\<close>

definition pt_grow :: "pmem \<Rightarrow> pmem \<Rightarrow> nat \<Rightarrow> u64 \<Rightarrow> u64 \<Rightarrow> u64 \<Rightarrow> u64 set \<Rightarrow> bool" where
  "pt_grow m m' l p i c G \<longleftrightarrow> pt_wf m (Suc l) p \<and> i < 512 \<and> child m p i = Some c \<and>
     pt_wf m' l c \<and> tables m' l c = tables m l c \<union> G \<and> G \<inter> tables m (Suc l) p = {} \<and>
     (\<forall>q \<in> tables m (Suc l) p. q \<notin> tables m l c \<longrightarrow> same_page m' m q)"

lemma pt_growD:
  assumes "pt_grow m m' l p i c G"
  shows "pt_wf m (Suc l) p" "i < 512" "child m p i = Some c" "pt_wf m' l c"
    "tables m' l c = tables m l c \<union> G" "G \<inter> tables m (Suc l) p = {}"
    and "q \<in> tables m (Suc l) p \<Longrightarrow> q \<notin> tables m l c \<Longrightarrow> same_page m' m q"
  using assms by (auto simp: pt_grow_def)

lemma pt_grow_child:
  assumes "pt_grow m m' l p i c G" "j < 512"
  shows "child m' p j = child m p j"
  using assms pt_wf_root [OF pt_growD(1) [OF assms(1)]]
    pt_wf_childD [OF pt_growD(1-3) [OF assms(1)]]
  by (intro child_same_page pt_growD(7) [OF assms(1)] tables_root) simp_all

lemma pt_grow_sibling:
  assumes g: "pt_grow m m' l p i c G" and j: "j < 512" "j \<noteq> i" and d: "child m p j = Some d"
  shows "tables m' l d = tables m l d \<and> pt_wf m' l d \<and>
      ptslot m' va l d = ptslot m va l d \<and> pte_at m' va l d = pte_at m va l d"
proof (rule pt_frame)
  note wf = pt_growD(1) [OF g]
  show "pt_wf m l d" using pt_wf_childD [OF wf j(1) d] by simp
  show "same_page m' m q" if "q \<in> tables m l d" for q
    using pt_wf_disjD [OF wf j(1) pt_growD(2) [OF g] j(2) d pt_growD(3) [OF g]]
      tables_child [OF j(1) d, of l] that
    by (intro pt_growD(7) [OF g]) blast+
qed

lemma pt_grow_tables:
  assumes g: "pt_grow m m' l p i c G"
  shows "tables m' (Suc l) p = tables m (Suc l) p \<union> G"
proof (intro set_eqI iffI)
  note [simp] = pt_grow_child [OF g]
  fix q
  {
    assume "q \<in> tables m' (Suc l) p"
    then consider "q = p" | j d where "j < 512" "child m p j = Some d" "q \<in> tables m' l d"
      by (auto simp: tables_Suc_iff)
    then show "q \<in> tables m (Suc l) p \<union> G"
      by cases (use pt_grow_sibling [OF g] pt_growD(3,5) [OF g] in \<open>force simp: tables_Suc_iff\<close>)+
  next
    assume q: "q \<in> tables m (Suc l) p \<union> G"
    have "q \<in> tables m' (Suc l) p" if "q \<in> tables m' l c"
      using that pt_growD(2,3) [OF g] by (auto simp: tables_Suc_iff)
    moreover have "q \<in> tables m' (Suc l) p" if "q \<in> tables m (Suc l) p" "q \<notin> tables m l c"
      using that pt_growD(3) [OF g] pt_grow_sibling [OF g]
      by (simp add: tables_Suc_iff) (metis option.inject pt_grow_child [OF g])
    ultimately show "q \<in> tables m' (Suc l) p" using q pt_growD(5) [OF g] by blast
  }
qed

lemma pt_grow_le:
  assumes g: "pt_grow m m' l p i c G" and "j < 512" "child m p j = Some d"
  shows "tables m' l d \<subseteq> tables m l d \<union> G"
  using pt_grow_sibling [OF g] assms(2,3) pt_growD(3,5) [OF g] by (cases "j = i") auto

lemma pt_grow_wf:
  assumes g: "pt_grow m m' l p i c G"
  shows "pt_wf m' (Suc l) p"
proof (rule pt_wf_SucI)
  note wf = pt_growD(1) [OF g] and le = pt_grow_le [OF g] and fresh = pt_growD(6) [OF g]
  fix j d
  assume j: "j < 512" and "child m' p j = Some d"
  then have d: "child m p j = Some d" using pt_grow_child [OF g] by simp
  show "pt_wf m' l d"
    using pt_grow_sibling [OF g] j d pt_growD(3,4) [OF g] by (cases "j = i") auto
  show "p \<notin> tables m' l d"
    using le [OF j d] pt_wf_childD [OF wf j d] fresh tables_root [of p m "Suc l"] by blast
next
  note wf = pt_growD(1) [OF g] and le = pt_grow_le [OF g] and fresh = pt_growD(6) [OF g]
  fix j k d e
  assume jk: "j < 512" "k < 512" "j \<noteq> k" and "child m' p j = Some d" "child m' p k = Some e"
  then have d: "child m p j = Some d" and e: "child m p k = Some e"
    using pt_grow_child [OF g] by simp_all
  have "tables m l d \<inter> tables m l e = {}" by (rule pt_wf_disjD [OF wf jk d e])
  moreover have "tables m l d \<inter> G = {}" "tables m l e \<inter> G = {}"
    using tables_child [OF jk(1) d, of l] tables_child [OF jk(2) e, of l] fresh by blast+
  moreover have "tables m' l d = tables m l d \<or> tables m' l e = tables m l e"
    using pt_grow_sibling [OF g] jk d e by metis
  ultimately show "tables m' l d \<inter> tables m' l e = {}"
    using le [OF jk(1) d] le [OF jk(2) e] by blast
qed (use pt_wf_root [OF pt_growD(1) [OF g]] in simp_all)

lemma pt_grow_other:
  assumes g: "pt_grow m m' l p i c G" and "PX (Suc l) va \<noteq> i"
  shows "ptslot m' va (Suc l) p = ptslot m va (Suc l) p"
    and "pte_at m' va (Suc l) p = pte_at m va (Suc l) p"
  using assms(2) pt_grow_child [OF g, of "PX (Suc l) va"] pt_grow_sibling [OF g, of "PX (Suc l) va"]
  by (simp_all add: walk_child split: option.splits)

subsection \<open>Writing a leaf entry\<close>

text \<open>Two addresses have the same leaf entry when their indices agree at every level.\<close>

definition same_path :: "nat \<Rightarrow> u64 \<Rightarrow> u64 \<Rightarrow> bool" where
  "same_path l va va' \<longleftrightarrow> (\<forall>k \<le> l. PX k va = PX k va')"

lemma same_path_Suc: "same_path (Suc l) va va' \<longleftrightarrow> PX (Suc l) va = PX (Suc l) va' \<and> same_path l va va'"
  by (auto simp: same_path_def le_Suc_eq)

lemma same_path_0: "same_path 0 va va' \<longleftrightarrow> PX 0 va = PX 0 va'"
  by (auto simp: same_path_def)

lemma ptslot_in_tables:
  assumes "pt_wf m l p" "ptslot m va l p \<noteq> 0"
  obtains q where "q \<in> tables m l p" "ptslot m va l p = pte_addr q (PX 0 va)" "q mod PGSIZE = 0"
proof -
  have "\<exists>q \<in> tables m l p. ptslot m va l p = pte_addr q (PX 0 va)"
    using assms
  proof (induction l arbitrary: p)
    case (Suc l)
    then obtain c where c: "child m p (PX (Suc l) va) = Some c" "ptslot m va l c \<noteq> 0"
      by (auto simp: ptslot_child split: option.splits)
    then have "\<exists>q \<in> tables m l c. ptslot m va l c = pte_addr q (PX 0 va)"
      using pt_wf_childD(1) [OF Suc.prems(1) PX_512 c(1)] by (intro Suc.IH)
    with c show ?case using tables_child [OF PX_512 c(1), of l] by (auto simp: ptslot_child)
  qed simp
  with assms pt_wf_tables show thesis by (metis that)
qed


lemma pte_at_slot:
  "pt_wf m l p \<Longrightarrow> pte_at m va l p = (if ptslot m va l p = 0 then 0 else load64 m (ptslot m va l p))"
proof (induction l arbitrary: p)
  case 0
  then have "pte_addr p (PX 0 va) \<noteq> 0"
    using pte_addr_page [of p "PX 0 va"] by (auto simp: PGROUNDDOWN_def)
  with 0 show ?case by simp
next
  case (Suc l)
  then show ?case
    using pt_wf_childD(1) [OF Suc.prems PX_512] by (auto simp: walk_child split: option.splits)
qed

text \<open>
  A store through the walked pointer changes the entry of its address and no other, and
  leaves the tree as it is.
\<close>

lemma pt_store:
  assumes "pt_wf m l p" "ptslot m va l p \<noteq> 0"
  shows "pt_wf (store64 m (ptslot m va l p) v) l p \<and>
    tables (store64 m (ptslot m va l p) v) l p = tables m l p \<and>
    ptslot (store64 m (ptslot m va l p) v) va' l p = ptslot m va' l p \<and>
    pte_at (store64 m (ptslot m va l p) v) va' l p =
      (if same_path l va va' then v else pte_at m va' l p)"
  using assms
proof (induction l arbitrary: p)
  case 0
  then show ?case
    using pte_addr_inj [of p p "PX 0 va" "PX 0 va'"]
    by (cases "PX 0 va = PX 0 va'") (simp_all add: same_path_0)
next
  case (Suc l)
  let ?i = "PX (Suc l) va"
  from Suc.prems obtain c where c: "child m p ?i = Some c" and nz: "ptslot m va l c \<noteq> 0"
    by (auto simp: ptslot_child split: option.splits)
  have slot: "ptslot m va (Suc l) p = ptslot m va l c" using c by (simp add: ptslot_child)
  let ?m = "store64 m (ptslot m va l c) v"
  note wfc = pt_wf_childD [OF Suc.prems(1) PX_512 c]
  have IH: "pt_wf ?m l c" "tables ?m l c = tables m l c"
    "ptslot ?m va' l c = ptslot m va' l c"
    "pte_at ?m va' l c = (if same_path l va va' then v else pte_at m va' l c)"
    using Suc.IH [OF wfc(1) nz] by simp_all
  obtain q where q: "q \<in> tables m l c" "ptslot m va l c = pte_addr q (PX 0 va)" "q mod PGSIZE = 0"
    using wfc(1) nz by (rule ptslot_in_tables)
  have g: "pt_grow m ?m l p ?i c {}"
  proof -
    have "same_page ?m m r" if "r \<notin> tables m l c" for r
    proof (rule same_page_store64)
      show "PGROUNDDOWN (ptslot m va l c) \<noteq> r" using q that by (metis pte_addr_page PX_512)
      show "ptslot m va l c mod 8 = 0" using q by simp
    qed
    then show ?thesis using Suc.prems(1) c IH(1,2) by (simp add: pt_grow_def)
  qed
  show ?case
  proof (cases "PX (Suc l) va' = ?i")
    case True
    then have "child ?m p (PX (Suc l) va') = Some c" "child m p (PX (Suc l) va') = Some c"
      using pt_grow_child [OF g PX_512] c by simp_all
    then show ?thesis
      using True IH pt_grow_wf [OF g] pt_grow_tables [OF g]
      by (simp add: slot walk_child same_path_Suc)
  next
    case False
    then show ?thesis
      using pt_grow_wf [OF g] pt_grow_tables [OF g] pt_grow_other [OF g, of va']
      by (simp add: slot same_path_Suc)
  qed
qed


subsection \<open>Hanging a fresh table page into the tree\<close>

definition zero_page :: "pmem \<Rightarrow> u64 \<Rightarrow> bool" where
  "zero_page m c \<longleftrightarrow> (\<forall>x. PGROUNDDOWN x = c \<longrightarrow> m x = 0)"

lemma zero_page_same: "same_page m' m c \<Longrightarrow> zero_page m c \<Longrightarrow> zero_page m' c"
  by (simp add: zero_page_def same_page_def)

lemma zero_page_memset: "c mod PGSIZE = 0 \<Longrightarrow> zero_page (memset m c 0 4096) c"
  by (simp add: zero_page_def memset_page)

lemma zero_page_load:
  assumes "zero_page m c" "c mod PGSIZE = 0" "i < 512"
  shows "load64 m (pte_addr c i) = 0"
proof -
  have "load64 m (pte_addr c i) = load64 (\<lambda>_. 0) (pte_addr c i)"
    using assms by (intro load64_same_page) (simp_all add: zero_page_def same_page_def)
  then show ?thesis by (simp add: load64_def)
qed

lemma zero_page_child: "zero_page m c \<Longrightarrow> c mod PGSIZE = 0 \<Longrightarrow> i < 512 \<Longrightarrow> child m c i = None"
  by (simp add: child_def zero_page_load)

lemma zero_page_tree:
  assumes "zero_page m c" "c mod PGSIZE = 0" "c \<noteq> 0"
  shows "tables m l c = {c}" "pt_wf m l c" "pte_at m va l c = 0"
proof -
  note ch = zero_page_child [OF assms(1,2)]
  show "tables m l c = {c}" by (cases l) (auto simp: tables_Suc_iff ch)
  show "pt_wf m l c" using assms by (cases l) (simp_all add: pt_wf_Suc_iff ch)
  show "pte_at m va l c = 0" using assms
    by (cases l) (simp_all add: pte_at_child ch zero_page_load)
qed

definition install :: "pmem \<Rightarrow> u64 \<Rightarrow> u64 \<Rightarrow> u64 \<Rightarrow> pmem" where
  "install m p i c = store64 m (pte_addr p i) (PA2PTE c OR PTE_V)"

lemma flag_low10: "f \<in> {0..1023} \<Longrightarrow> f AND NOT 0x3FF = (0 :: u64)"
proof -
  assume "f \<in> {0..1023}"
  then have "f < 2 ^ 10" by (simp add: word_less_nat_alt word_le_nat_alt)
  then have hi: "\<not> bit f n" if "10 \<le> n" for n using small_bits that by blast
  show ?thesis
    by (rule bit_eqI) (use hi not_le in \<open>auto simp: bit_simps\<close>)
qed

lemma child_install:
  assumes "p mod PGSIZE = 0" "i < 512" "j < 512" "c mod PGSIZE = 0"
  shows "child (install m p i c) p j = (if j = i then Some c else child m p j)"
proof (cases "j = i")
  case True
  have "has_flag (PA2PTE c OR PTE_V) PTE_V"
    by (simp add: bit_eq_iff) (auto simp: bit_simps intro!: exI [of _ 0])
  with True assms show ?thesis
    by (simp add: child_def install_def flag_low10)
next
  case False
  with assms show ?thesis
    by (simp add: child_def install_def pte_addr_inj)
qed


lemma same_page_install:
  "p mod PGSIZE = 0 \<Longrightarrow> i < 512 \<Longrightarrow> q \<noteq> p \<Longrightarrow> same_page (install m p i c) m q"
  unfolding install_def by (rule same_page_store64) simp_all

definition can_install :: "pmem \<Rightarrow> nat \<Rightarrow> u64 \<Rightarrow> u64 \<Rightarrow> u64 \<Rightarrow> bool" where
  "can_install m l p i c \<longleftrightarrow> pt_wf m (Suc l) p \<and> i < 512 \<and> child m p i = None \<and>
     c mod PGSIZE = 0 \<and> c \<noteq> 0 \<and> c \<notin> tables m (Suc l) p \<and> zero_page m c"

lemma install_new:
  assumes "can_install m l p i c"
  shows "pt_wf (install m p i c) l c" "tables (install m p i c) l c = {c}"
    and "pte_at (install m p i c) va l c = 0"
proof -
  have "same_page (install m p i c) m c"
    using assms pt_wf_root [of m "Suc l" p] tables_root [of p m "Suc l"]
    by (intro same_page_install) (auto simp: can_install_def)
  then have "zero_page (install m p i c) c"
    using assms by (simp add: can_install_def zero_page_same)
  then show "pt_wf (install m p i c) l c" "tables (install m p i c) l c = {c}"
    "pte_at (install m p i c) va l c = 0"
    using assms by (simp_all add: can_install_def zero_page_tree)
qed

lemma install_old:
  assumes "can_install m l p i c" "j < 512" "child m p j = Some d"
  shows "tables (install m p i c) l d = tables m l d \<and> pt_wf (install m p i c) l d \<and>
    ptslot (install m p i c) va l d = ptslot m va l d \<and>
    pte_at (install m p i c) va l d = pte_at m va l d"
proof (rule pt_frame)
  have wf: "pt_wf m (Suc l) p" and i: "i < 512" using assms(1) by (simp_all add: can_install_def)
  show "pt_wf m l d" by (rule pt_wf_childD [OF wf assms(2,3)])
  show "same_page (install m p i c) m q" if "q \<in> tables m l d" for q
    using that pt_wf_childD(2) [OF wf assms(2,3)] pt_wf_root [OF wf] i
    by (intro same_page_install) auto
qed

lemma install_child:
  assumes "can_install m l p i c" "j < 512"
  shows "child (install m p i c) p j = (if j = i then Some c else child m p j)"
  using assms pt_wf_root [of m "Suc l" p] by (simp add: can_install_def child_install)

lemma install_tree:
  assumes a: "can_install m l p i c"
  shows "pt_wf (install m p i c) (Suc l) p"
    and "tables (install m p i c) (Suc l) p = insert c (tables m (Suc l) p)"
    and "pte_at (install m p i c) va (Suc l) p = pte_at m va (Suc l) p"
proof -
  let ?m = "install m p i c"
  have wf: "pt_wf m (Suc l) p" and i: "i < 512" and none: "child m p i = None"
    and new: "c \<notin> tables m (Suc l) p"
    using a by (simp_all add: can_install_def)
  note ch = install_child [OF a] and old = install_old [OF a]
  show T: "tables ?m (Suc l) p = insert c (tables m (Suc l) p)"
    using i none old install_new(2) [OF a]
    by (auto simp: tables_Suc_iff ch split: if_splits) (metis option.distinct(1))+
  show "pte_at ?m va (Suc l) p = pte_at m va (Suc l) p"
    using none old [of "PX (Suc l) va"] install_new(3) [OF a]
    by (auto simp: pte_at_child ch split: option.splits)
  have sub: "tables ?m l d = (if j = i then {c} else tables m l d)"
    if "j < 512" "child ?m p j = Some d" for j d
    using that old install_new(2) [OF a] by (auto simp: ch split: if_splits)
  show "pt_wf ?m (Suc l) p"
  proof (rule pt_wf_SucI)
    fix j d
    assume j: "j < 512" "child ?m p j = Some d"
    then show "pt_wf ?m l d"
      using old install_new(1) [OF a] by (auto simp: ch split: if_splits)
    have "p \<noteq> c" using new tables_root [of p m "Suc l"] by metis
    then show "p \<notin> tables ?m l d"
      using j sub pt_wf_childD(2) [OF wf] by (simp add: ch split: if_splits)
  next
    fix j k d e
    assume jk: "j < 512" "k < 512" "j \<noteq> k" "child ?m p j = Some d" "child ?m p k = Some e"
    have "c \<notin> tables m l d" if "j' < 512" "child m p j' = Some d" for j' d
      using new tables_child [OF that, of l] by blast
    then show "tables ?m l d \<inter> tables ?m l e = {}"
      using jk sub [of j d] sub [of k e] pt_wf_disjD [OF wf, of j k d e]
      by (auto simp: ch split: if_splits)
  qed (use pt_wf_root [OF wf] in simp_all)
qed


subsection \<open>What a walk needs of the allocator\<close>

text \<open>
  \<open>avail s F\<close>: the allocator can hand out the pages of \<open>F\<close>, in this order. Handing one out
  changes no other page, and a step that leaves the free pages alone keeps them available.
\<close>

locale page_allocator =
  fixes ka :: "u64 k" and avail :: "kstate \<Rightarrow> u64 list \<Rightarrow> bool"
  assumes avail_pages: "avail s F \<Longrightarrow> distinct F \<and> (\<forall>p \<in> set F. page_ok s p)"
    and ka_pop: "avail s (p # F) \<Longrightarrow> \<exists>s'. ka s = Ok p s' \<and> avail s' F \<and> frame_mm s s' \<and>
      refcount s' = (refcount s)(pidx p := 1) \<and> (\<forall>q. q \<noteq> p \<longrightarrow> same_page (mem s') (mem s) q)"
    and avail_frame: "avail s F \<Longrightarrow> frame_mm s s' \<Longrightarrow> kmem_freelist s' = kmem_freelist s \<Longrightarrow>
      (\<And>p. p \<in> set F \<Longrightarrow> same_page (mem s') (mem s) p) \<Longrightarrow>
      (\<And>p. p \<in> set F \<Longrightarrow> refcount s' (pidx p) = refcount s (pidx p)) \<Longrightarrow> avail s' F"

text \<open>The table at \<open>p\<close> has grown by the pages \<open>G\<close> and nothing else has changed.\<close>

definition grew :: "kstate \<Rightarrow> kstate \<Rightarrow> nat \<Rightarrow> u64 \<Rightarrow> u64 list \<Rightarrow> bool" where
  "grew s s' l p G \<longleftrightarrow> frame_mm s s' \<and> pt_wf (mem s') l p \<and>
     tables (mem s') l p = tables (mem s) l p \<union> set G \<and>
     (\<forall>va. pte_at (mem s') va l p = pte_at (mem s) va l p) \<and>
     (\<forall>q. q \<notin> tables (mem s) l p \<union> set G \<longrightarrow> same_page (mem s') (mem s) q) \<and>
     refcount s' = (\<lambda>i. if i \<in> pidx ` set G then 1 else refcount s i)"

lemma grew_refl: "pt_wf (mem s) l p \<Longrightarrow> grew s s l p []"
  by (simp add: grew_def)

lemma grew_lift:
  assumes wf: "pt_wf (mem s) (Suc l) p" and i: "i < 512" and c: "child (mem s) p i = Some c"
    and g: "grew s s' l c G" and fresh: "set G \<inter> tables (mem s) (Suc l) p = {}"
  shows "grew s s' (Suc l) p G"
    and "PX (Suc l) va = i \<Longrightarrow> ptslot (mem s') va (Suc l) p = ptslot (mem s') va l c"
proof -
  have pg: "pt_grow (mem s) (mem s') l p i c (set G)"
    using assms by (auto simp: pt_grow_def grew_def)
  have c': "child (mem s') p i = Some c" using pt_grow_child [OF pg i] c by simp
  have "pte_at (mem s') va (Suc l) p = pte_at (mem s) va (Suc l) p" for va
    using pt_grow_other(2) [OF pg, of va] c c' g
    by (cases "PX (Suc l) va = i") (simp_all add: pte_at_child grew_def)
  moreover have "same_page (mem s') (mem s) q" if "q \<notin> tables (mem s) (Suc l) p \<union> set G" for q
    using that tables_child [OF i c, of l] g by (auto simp: grew_def)
  ultimately show "grew s s' (Suc l) p G"
    using g pt_grow_wf [OF pg] pt_grow_tables [OF pg] by (simp add: grew_def)
  show "PX (Suc l) va = i \<Longrightarrow> ptslot (mem s') va (Suc l) p = ptslot (mem s') va l c"
    using c' by (auto simp: ptslot_child)
qed


lemma unat_4096 [simp]: "unat (4096 :: u64) = 4096"
  by simp

lemma frame_mm_mem [simp]: "frame_mm s (s\<lparr>mem := m\<rparr>)"
  by (simp add: frame_mm_def)

text \<open>The state once a fresh page \<open>pg\<close> has been zeroed and hung below entry \<open>i\<close> of \<open>p\<close>.\<close>

definition hung :: "kstate \<Rightarrow> u64 \<Rightarrow> u64 \<Rightarrow> u64 \<Rightarrow> kstate" where
  "hung s p i pg = s\<lparr>mem := install (memset (mem s) pg 0 4096) p i pg\<rparr>"

lemma hung_same_page:
  assumes "p mod PGSIZE = 0" "pg mod PGSIZE = 0" "i < 512" "q \<noteq> p" "q \<noteq> pg"
  shows "same_page (mem (hung s p i pg)) (mem s) q"
proof -
  have "same_page (install (memset (mem s) pg 0 4096) p i pg) (memset (mem s) pg 0 4096) q"
    using assms by (intro same_page_install)
  moreover have "same_page (memset (mem s) pg 0 4096) (mem s) q"
    using assms by (intro same_page_memset) auto
  ultimately show ?thesis by (simp add: hung_def) (rule same_page_trans)
qed

lemma walk_down:
  assumes wf: "pt_wf (mem s) (Suc l) p" and c: "child (mem s) p (PX (Suc l) va) = Some c"
  shows "walk_from ka alloc va (Suc l) p s = walk_from ka alloc va l c s"
  using c by (auto simp: child_def kmonad split: if_splits)

lemma walk_hang:
  assumes "child (mem s) p (PX (Suc l) va) = None" "ka s = Ok pg s1" "pg \<noteq> 0"
  shows "walk_from ka True va (Suc l) p s = walk_from ka True va l pg (hung s1 p (PX (Suc l) va) pg)"
  using assms by (auto simp: child_def kmonad hung_def install_def split: if_splits)

lemma grew_hung:
  assumes can: "can_install (memset (mem s1) pg 0 4096) l p i pg"
    and fr: "frame_mm s (hung s1 p i pg)"
    and rc: "refcount (hung s1 p i pg) = (refcount s)(pidx pg := 1)"
    and same: "\<And>q. q \<noteq> p \<Longrightarrow> q \<noteq> pg \<Longrightarrow> same_page (mem (hung s1 p i pg)) (mem s) q"
    and T: "tables (memset (mem s1) pg 0 4096) (Suc l) p = tables (mem s) (Suc l) p"
    and E: "\<And>va. pte_at (memset (mem s1) pg 0 4096) va (Suc l) p = pte_at (mem s) va (Suc l) p"
    and g: "grew (hung s1 p i pg) s' l pg G"
    and fresh: "set G \<inter> insert pg (tables (mem s) (Suc l) p) = {}"
  shows "grew s s' (Suc l) p (pg # G)"
    and "PX (Suc l) va = i \<Longrightarrow> ptslot (mem s') va (Suc l) p = ptslot (mem s') va l pg"
proof -
  let ?h = "hung s1 p i pg"
  have h: "mem ?h = install (memset (mem s1) pg 0 4096) p i pg" by (simp add: hung_def)
  have i: "i < 512" using can by (simp add: can_install_def)
  have wf: "pt_wf (mem ?h) (Suc l) p" and Th: "tables (mem ?h) (Suc l) p = insert pg (tables (mem s) (Suc l) p)"
    using install_tree [OF can] T by (simp_all add: h)
  have c: "child (mem ?h) p i = Some pg" using install_child [OF can i] by (simp add: h)
  have lift: "grew ?h s' (Suc l) p G"
    using grew_lift(1) [OF wf i c g] fresh Th by simp
  show "PX (Suc l) va = i \<Longrightarrow> ptslot (mem s') va (Suc l) p = ptslot (mem s') va l pg"
    using grew_lift(2) [OF wf i c g] fresh Th by simp
  have "same_page (mem s') (mem s) q" if "q \<notin> tables (mem s) (Suc l) p \<union> set (pg # G)" for q
  proof (rule same_page_trans)
    show "same_page (mem s') (mem ?h) q" using lift that Th by (simp add: grew_def)
    show "same_page (mem ?h) (mem s) q"
      using that tables_root [of p "mem s" "Suc l"] by (intro same) auto
  qed
  moreover have "refcount s' = (\<lambda>j. if j \<in> pidx ` set (pg # G) then 1 else refcount s j)"
    using lift rc by (auto simp: grew_def)
  moreover have "pte_at (mem s') va (Suc l) p = pte_at (mem s) va (Suc l) p" for va
    using lift E install_tree(3) [OF can] by (simp add: grew_def h)
  moreover have "tables (mem s') (Suc l) p = tables (mem s) (Suc l) p \<union> set (pg # G)"
    using lift Th by (auto simp: grew_def)
  moreover have "frame_mm s s'" "pt_wf (mem s') (Suc l) p"
    using lift frame_mm_trans [OF fr] by (simp_all add: grew_def)
  ultimately show "grew s s' (Suc l) p (pg # G)" unfolding grew_def by blast
qed

text \<open>
  \<open>walk_ok\<close>: walking with allocation from \<open>p\<close> finds the entry of \<open>va\<close>, taking
  at most \<open>l\<close> pages off the front of \<open>F\<close>.
\<close>

definition walk_ok :: "u64 k \<Rightarrow> (kstate \<Rightarrow> u64 list \<Rightarrow> bool) \<Rightarrow> kstate \<Rightarrow> nat \<Rightarrow> u64 \<Rightarrow> u64 \<Rightarrow> u64 list \<Rightarrow> bool" where
  "walk_ok ka avail s l p va F \<longleftrightarrow>
    (\<exists>n s'. n \<le> l \<and> walk_from ka True va l p s = Ok (ptslot (mem s') va l p) s' \<and>
       ptslot (mem s') va l p \<noteq> 0 \<and> avail s' (drop n F) \<and> grew s s' l p (take n F))"

context page_allocator
begin

lemma take_fresh:
  assumes avail: "avail s (pg # F)" and wf: "pt_wf (mem s) (Suc l) p" and i: "i < 512"
    and none: "child (mem s) p i = None" and disj: "tables (mem s) (Suc l) p \<inter> set (pg # F) = {}"
  obtains s1 where "ka s = Ok pg s1"
    and "can_install (memset (mem s1) pg 0 4096) l p i pg"
    and "avail (hung s1 p i pg) F"
    and "frame_mm s (hung s1 p i pg)"
    and "refcount (hung s1 p i pg) = (refcount s)(pidx pg := 1)"
    and "\<And>q. q \<noteq> p \<Longrightarrow> q \<noteq> pg \<Longrightarrow> same_page (mem (hung s1 p i pg)) (mem s) q"
    and "tables (memset (mem s1) pg 0 4096) (Suc l) p = tables (mem s) (Suc l) p"
    and "\<And>va. pte_at (memset (mem s1) pg 0 4096) va (Suc l) p = pte_at (mem s) va (Suc l) p"
proof -
  from ka_pop [OF avail] obtain s1 where s1: "ka s = Ok pg s1" "avail s1 F" "frame_mm s s1"
    "refcount s1 = (refcount s)(pidx pg := 1)" "\<And>q. q \<noteq> pg \<Longrightarrow> same_page (mem s1) (mem s) q"
    by blast
  let ?m = "memset (mem s1) pg 0 4096"
  have pg: "pg mod PGSIZE = 0" "pg \<noteq> 0" "pg \<notin> set F"
    using avail_pages [OF avail] page_ok_nonzero by auto
  note root = pt_wf_root [OF wf]
  have pF: "p \<notin> set F" using disj tables_root [of p "mem s" "Suc l"] by (metis disjoint_iff list.set_intros(2))
  have same: "same_page ?m (mem s) q" if "q \<noteq> pg" for q
    by (rule same_page_trans [OF same_page_memset s1(5)]) (use that pg in auto)
  have tree: "tables ?m (Suc l) p = tables (mem s) (Suc l) p \<and> pt_wf ?m (Suc l) p \<and>
      ptslot ?m va (Suc l) p = ptslot (mem s) va (Suc l) p \<and>
      pte_at ?m va (Suc l) p = pte_at (mem s) va (Suc l) p" for va
    using disj by (intro pt_frame [OF wf] same) auto
  have "child ?m p i = None"
    using none child_same_page [OF same, of p i] root i disj tables_root [of p "mem s" "Suc l"]
    by (metis disjoint_iff list.set_intros(1))
  then have can: "can_install ?m l p i pg"
    using tree disj pg i zero_page_memset by (auto simp: can_install_def)
  have "avail (hung s1 p i pg) F"
  proof (rule avail_frame [OF s1(2)])
    show "same_page (mem (hung s1 p i pg)) (mem s1) q" if "q \<in> set F" for q
      using that root pg i pF by (intro hung_same_page) metis+
  qed (simp_all add: hung_def)
  moreover have "frame_mm s (hung s1 p i pg)"
    using s1(3) by (rule frame_mm_trans) (simp add: hung_def)
  moreover have "same_page (mem (hung s1 p i pg)) (mem s) q" if "q \<noteq> p" "q \<noteq> pg" for q
    by (rule same_page_trans [OF hung_same_page s1(5)]) (use that root pg i in auto)
  ultimately show thesis
    using s1(1,4) can tree by (intro that [of s1]) (simp_all add: hung_def)
qed

lemma walk_alloc_down:
  assumes "pt_wf (mem s) (Suc l) p" "tables (mem s) (Suc l) p \<inter> set F = {}"
    and c: "child (mem s) p (PX (Suc l) va) = Some c" and "walk_ok ka avail s l c va F"
  shows "walk_ok ka avail s (Suc l) p va F"
proof -
  from assms(4) obtain n s' where IH: "n \<le> l"
    "walk_from ka True va l c s = Ok (ptslot (mem s') va l c) s'"
    "ptslot (mem s') va l c \<noteq> 0" "avail s' (drop n F)" "grew s s' l c (take n F)"
    by (auto simp: walk_ok_def)
  have "set (take n F) \<inter> tables (mem s) (Suc l) p = {}"
    using assms(2) set_take_subset [of n F] by blast
  note lift = grew_lift [OF assms(1) PX_512 c IH(5) this]
  show ?thesis unfolding walk_ok_def
    using IH lift(1) lift(2) [of va] walk_down [OF assms(1) c]
    by (intro exI [of _ n] exI [of _ s']) simp
qed

lemma walk_alloc_hang:
  assumes avail: "avail s (pg # F)" and wf: "pt_wf (mem s) (Suc l) p"
    and disj: "tables (mem s) (Suc l) p \<inter> set (pg # F) = {}"
    and none: "child (mem s) p (PX (Suc l) va) = None"
    and IH: "\<And>s. avail s F \<Longrightarrow> pt_wf (mem s) l pg \<Longrightarrow> tables (mem s) l pg \<inter> set F = {} \<Longrightarrow>
      walk_ok ka avail s l pg va F"
  shows "walk_ok ka avail s (Suc l) p va (pg # F)"
proof -
  let ?i = "PX (Suc l) va"
  obtain s1 where s1: "ka s = Ok pg s1" "can_install (memset (mem s1) pg 0 4096) l p ?i pg"
    "avail (hung s1 p ?i pg) F" "frame_mm s (hung s1 p ?i pg)"
    "refcount (hung s1 p ?i pg) = (refcount s)(pidx pg := 1)"
    "\<And>q. q \<noteq> p \<Longrightarrow> q \<noteq> pg \<Longrightarrow> same_page (mem (hung s1 p ?i pg)) (mem s) q"
    "tables (memset (mem s1) pg 0 4096) (Suc l) p = tables (mem s) (Suc l) p"
    "\<And>va. pte_at (memset (mem s1) pg 0 4096) va (Suc l) p = pte_at (mem s) va (Suc l) p"
    using take_fresh [OF avail wf PX_512 none disj] by blast
  have pg: "pg \<notin> set F" "pg \<noteq> 0" using avail_pages [OF avail] page_ok_nonzero by auto
  have "walk_ok ka avail (hung s1 p ?i pg) l pg va F"
    using install_new [OF s1(2)] pg by (intro IH s1(3)) (simp_all add: hung_def)
  then obtain n s' where n: "n \<le> l"
    "walk_from ka True va l pg (hung s1 p ?i pg) = Ok (ptslot (mem s') va l pg) s'"
    "ptslot (mem s') va l pg \<noteq> 0" "avail s' (drop n F)" "grew (hung s1 p ?i pg) s' l pg (take n F)"
    by (auto simp: walk_ok_def)
  have "set (take n F) \<inter> insert pg (tables (mem s) (Suc l) p) = {}"
    using disj pg set_take_subset [of n F] by auto
  note g = grew_hung [OF s1(2,4-8) n(5) this]
  show ?thesis unfolding walk_ok_def
    using n g(1) g(2) [of va] walk_hang [where ka = ka, OF none s1(1) pg(2)]
    by (intro exI [of _ "Suc n"] exI [of _ s']) (simp del: walk_from.simps(2))
qed

lemma walk_from_alloc:
  assumes "avail s F" "pt_wf (mem s) l p" "tables (mem s) l p \<inter> set F = {}" "l \<le> length F"
  shows "walk_ok ka avail s l p va F"
  using assms
proof (induction l arbitrary: s p F)
  case 0
  then have "pte_addr p (PX 0 va) \<noteq> 0"
    using pte_addr_page [of p "PX 0 va"] by (auto simp: PGROUNDDOWN_def)
  with 0 show ?case unfolding walk_ok_def
    by (intro exI [of _ 0] exI [of _ s]) (simp add: kmonad grew_refl)
next
  case (Suc l)
  show ?case
  proof (cases "child (mem s) p (PX (Suc l) va)")
    case (Some c)
    have "tables (mem s) l c \<inter> set F = {}"
      using Suc.prems(3) tables_child [OF PX_512 Some, of l] by blast
    then have "walk_ok ka avail s l c va F"
      using Suc.IH [OF Suc.prems(1) pt_wf_childD(1) [OF Suc.prems(2) PX_512 Some]] Suc.prems(4)
      by simp
    with Suc.prems Some show ?thesis by (intro walk_alloc_down)
  next
    case None
    obtain pg F1 where F: "F = pg # F1" using Suc.prems(4) by (cases F) auto
    show ?thesis unfolding F
      using Suc.prems None Suc.IH by (intro walk_alloc_hang) (simp_all add: F)
  qed
qed

end

subsection \<open>Walking without allocation\<close>

text \<open>It never touches the state, and finds the entry exactly when the tables are there.\<close>

lemma walk_from_noalloc: "walk_from ka False va l p s = Ok (ptslot (mem s) va l p) s"
  by (induction l arbitrary: p) (simp_all add: kmonad ptslot.simps(2))

lemma walk_with_noalloc: "walk_with ka pt va False = walk0 pt va"
  by (simp add: fun_eq_iff walk_with_def walk0_def kmonad walk_from_noalloc)

lemma walk0_apply:
  "walk0 pt va s = (if MAXVA \<le> va then Panic ''walk'' else Ok (ptslot (mem s) va 2 pt) s)"
  by (simp add: walk0_def walk_with_def kmonad walk_from_noalloc)

end
