(* ===== verification/Pageloop.thy ===== *)
theory Pageloop
  imports Kstate
begin

text \<open>
  The loop \<^verbatim>\<open>for(a = start; a < end; a += PGSIZE)\<close> of the virtual-memory code. On 64-bit
  addresses it visits at most \<open>2 ^ 52\<close> pages before it repeats itself, which is the fuel
  given to it; unless \<^verbatim>\<open>end\<close> lies in the last page of the address space it is the loop over
  the list of the pages' addresses (\<open>for_pages_list\<close>).
\<close>

fun kpages :: "nat \<Rightarrow> (u64 \<Rightarrow> 'r option k) \<Rightarrow> u64 \<Rightarrow> u64 \<Rightarrow> 'r option k" where
  "kpages 0 body a e = (\<lambda>s. Diverge)"
| "kpages (Suc n) body a e =
     (if a < e
      then kbind (body a) (\<lambda>r. case r of
             None \<Rightarrow> kpages n body (a + PGSIZE) e
           | Some v \<Rightarrow> kret (Some v))
      else kret None)"

definition page_fuel :: nat where
  "page_fuel = Suc (2 ^ 52)"

definition for_pages :: "(u64 \<Rightarrow> 'r option k) \<Rightarrow> u64 \<Rightarrow> u64 \<Rightarrow> 'r option k" where
  "for_pages body a e = kpages page_fuel body a e"

text \<open>A loop whose rounds do nothing until one that leaves it.\<close>

lemma kfor_find:
  assumes "\<And>x. x \<in> set xs \<Longrightarrow> \<not> P x \<Longrightarrow> body x s = Ok None s"
    and "\<And>x s'. x \<in> set xs \<Longrightarrow> P x \<Longrightarrow> body x s \<noteq> Ok None s'"
  shows "kfor body xs s = (case find P xs of None \<Rightarrow> Ok None s | Some x \<Rightarrow> body x s)"
  using assms
proof (induction xs)
  case Nil
  then show ?case by (simp add: kmonad)
next
  case (Cons x xs)
  show ?case
  proof (cases "P x")
    case True
    then have "body x s \<noteq> Ok None s'" for s' using Cons.prems(2) by simp
    with True show ?thesis
      by (cases "body x s") (auto simp: kmonad split: option.splits)
  next
    case False
    then have "body x s = Ok None s" using Cons.prems(1) by simp
    with False Cons show ?thesis by (simp add: kmonad)
  qed
qed

text \<open>The pages from \<open>a\<close> on, \<open>n\<close> of them, and how many there are below \<open>e\<close>.\<close>

primrec pages_from :: "u64 \<Rightarrow> nat \<Rightarrow> u64 list" where
  "pages_from a 0 = []"
| "pages_from a (Suc n) = a # pages_from (a + PGSIZE) n"

definition npages :: "u64 \<Rightarrow> u64 \<Rightarrow> nat" where
  "npages a e = (unat e - unat a + 4095) div 4096"

lemma length_pages_from [simp]: "length (pages_from a n) = n"
  by (induction n arbitrary: a) auto

lemma pages_from_nth: "i < n \<Longrightarrow> pages_from a n ! i = a + of_nat i * PGSIZE"
proof (induction n arbitrary: a i)
  case (Suc n)
  then show ?case by (cases i) (simp_all add: algebra_simps)
qed simp

lemma set_pages_from: "set (pages_from a n) = {a + of_nat i * PGSIZE | i. i < n}"
proof -
  have "set (pages_from a n) = {pages_from a n ! i | i. i < n}"
    by (simp add: set_conv_nth)
  also have "\<dots> = {a + of_nat i * PGSIZE | i. i < n}"
    by (rule Collect_cong) (metis pages_from_nth)
  finally show ?thesis .
qed

lemma npages_step:
  assumes "a < e" "unat e + 4096 \<le> 2 ^ 64"
  shows "npages a e = Suc (npages (a + PGSIZE) e)" "unat (a + PGSIZE) = unat a + 4096"
proof -
  have lt: "unat a < unat e" using assms(1) by (simp add: word_less_nat_alt)
  show s: "unat (a + PGSIZE) = unat a + 4096"
    using lt assms(2) by (intro unat_add_lem [THEN iffD1, of a PGSIZE, simplified]) simp
  show "npages a e = Suc (npages (a + PGSIZE) e)"
  proof (cases "unat a + 4096 \<le> unat e")
    case True
    then have "unat e - unat a + 4095 = unat e - unat (a + PGSIZE) + 4095 + 4096"
      using s by simp
    then show ?thesis by (simp add: npages_def)
  next
    case False
    then show ?thesis using lt s by (simp add: npages_def)
  qed
qed

lemma kpages_list:
  assumes "unat e + 4096 \<le> 2 ^ 64" "npages a e < n"
  shows "kpages n body a e = kfor body (pages_from a (npages a e))"
  using assms(2)
proof (induction n arbitrary: a)
  case (Suc n)
  show ?case
  proof (cases "a < e")
    case True
    note st = npages_step [OF True assms(1)]
    from Suc.prems st have "kpages n body (a + PGSIZE) e = kfor body (pages_from (a + PGSIZE) (npages (a + PGSIZE) e))"
      by (intro Suc.IH) simp
    with True st show ?thesis by simp
  next
    case False
    then have "npages a e = 0" by (simp add: npages_def word_less_nat_alt)
    with False show ?thesis by simp
  qed
qed simp

lemma for_pages_list:
  assumes "unat e + 4096 \<le> 2 ^ 64"
  shows "for_pages body a e = kfor body (pages_from a (npages a e))"
proof -
  have "unat e - unat a + 4095 < 2 ^ 64" using assms by simp
  then have "npages a e < page_fuel"
    unfolding npages_def page_fuel_def by (simp add: div_le_mono less_Suc_eq_le)
  then show ?thesis unfolding for_pages_def by (rule kpages_list [OF assms])
qed

end
