(* ===== verification/Swap.thy ===== *)
theory Swap
  imports Bio Walk Pageloop
begin

text \<open>
  \<^verbatim>\<open>kernel/swap.c\<close>: the bitmap of swap blocks, the encoding of a swapped page in its
  page-table entry, moving a page out, and the choice of a victim. (\<open>swapin\<close> calls
  \<open>kalloc\<close>, so it is in the theory of the allocator.)
\<close>

abbreviation (input) SWAP_START_BLOCK :: u32 where "SWAP_START_BLOCK \<equiv> FSSIZE"
abbreviation (input) SWAP_MAX_BLOCKS :: nat where "SWAP_MAX_BLOCKS \<equiv> 1000"

subsection \<open>Swap blocks\<close>

definition swapinit :: "unit k" where
  "swapinit = kdo [
     initlock SwapLock,
     kmodify (\<lambda>s. s\<lparr>swap := \<lparr>sw_inuse = (\<lambda>_. 0), sw_nfree = of_nat SWAP_MAX_BLOCKS\<rparr>\<rparr>)]"

text \<open>\<^verbatim>\<open>swap.inuse[i / 8] & (1 << i % 8)\<close>\<close>

definition inuse_bit :: "swapspace \<Rightarrow> nat \<Rightarrow> bool" where
  "inuse_bit w i \<longleftrightarrow> sw_inuse w (i div 8) AND push_bit (i mod 8) 1 \<noteq> 0"

definition swap_take :: "nat \<Rightarrow> swapspace \<Rightarrow> swapspace" where
  "swap_take i w = w\<lparr>sw_inuse := (sw_inuse w)
     (i div 8 := sw_inuse w (i div 8) OR push_bit (i mod 8) 1), sw_nfree := sw_nfree w - 1\<rparr>"

definition swap_give :: "nat \<Rightarrow> swapspace \<Rightarrow> swapspace" where
  "swap_give i w = w\<lparr>sw_inuse := (sw_inuse w)
     (i div 8 := sw_inuse w (i div 8) AND NOT (push_bit (i mod 8) 1)), sw_nfree := sw_nfree w + 1\<rparr>"

definition swapalloc :: "int k" where
  "swapalloc =
     kthen (acquire SwapLock)
    (kbind (kget (\<lambda>s. sw_nfree (swap s))) (\<lambda>nfree.
     if nfree = 0 then kthen (release SwapLock) (kret (- 1))
     else
       kbind (kfor (\<lambda>i.
         kbind (kget (\<lambda>s. inuse_bit (swap s) i)) (\<lambda>b.
         if b then kret None
         else kthen (kmodify (\<lambda>s. s\<lparr>swap := swap_take i (swap s)\<rparr>))
             (kthen (release SwapLock) (kret (Some (int i))))))
         [0..<SWAP_MAX_BLOCKS]) (\<lambda>r.
       case r of
         Some i \<Rightarrow> kret i
       | None \<Rightarrow> kthen (release SwapLock) (kret (- 1)))))"

definition swapfree :: "int \<Rightarrow> unit k" where
  "swapfree swapblock =
     kthen (kpanic_if (swapblock < 0 \<or> int SWAP_MAX_BLOCKS \<le> swapblock) ''swapfree: invalid swapblock'')
    (kthen (acquire SwapLock)
    (kbind (kget (\<lambda>s. inuse_bit (swap s) (nat swapblock))) (\<lambda>b.
     kthen (kpanic_if (\<not> b) ''swapfree: double free'')
    (kthen (kmodify (\<lambda>s. s\<lparr>swap := swap_give (nat swapblock) (swap s)\<rparr>))
    (release SwapLock)))))"

definition swapblock_to_diskblock :: "int \<Rightarrow> u32" where
  "swapblock_to_diskblock swapblock = SWAP_START_BLOCK + word_of_int swapblock"

text \<open>The 32 bits become an \<^verbatim>\<open>int\<close>, so they are read as a signed number.\<close>

definition pte_to_swapblock :: "u64 \<Rightarrow> int" where
  "pte_to_swapblock pte = sint (ucast (drop_bit 10 pte AND 0xFFFFFFFF) :: u32)"

definition swapblock_to_pte :: "int \<Rightarrow> u64" where
  "swapblock_to_pte swapblock = push_bit 10 (word_of_int swapblock) OR PTE_SWAPPED"

subsection \<open>Moving pages\<close>

text \<open>
  \<^verbatim>\<open>memmove(b->data, pa, n)\<close> and \<^verbatim>\<open>memmove(pa, b->data, n)\<close>: an access past the
  \<^verbatim>\<open>BSIZE\<close> bytes of \<^verbatim>\<open>b->data\<close> is undefined.
\<close>

definition memmove_to_buf :: "nat \<Rightarrow> u64 \<Rightarrow> nat \<Rightarrow> unit k" where
  "memmove_to_buf b pa n =
     (if BSIZE < n then kfault ''memmove past the end of b->data''
      else kmodify (\<lambda>s. upd_buf b (b_data_update (\<lambda>d. mem_read (mem s) pa n @ drop n d)) s))"

definition memmove_from_buf :: "u64 \<Rightarrow> nat \<Rightarrow> nat \<Rightarrow> unit k" where
  "memmove_from_buf pa b n =
     (if BSIZE < n then kfault ''memmove past the end of b->data''
      else kmodify (\<lambda>s. s\<lparr>mem := mem_write (mem s) pa (take n (b_data (bc_buf (bcache s) b)))\<rparr>))"

definition swapout :: "u64 \<Rightarrow> u64 \<Rightarrow> int k" where
  "swapout pagetable va0 =
    (let va = PGROUNDDOWN va0 in
     kbind (walk0 pagetable va) (\<lambda>pte.
     if pte = 0 then kret (- 1)
     else kbind (rd64 pte) (\<lambda>e.
     if \<not> has_flag e PTE_V then kret (- 1)
     else if has_flag e PTE_COW then kret (- 1)
     else if \<not> has_flag e PTE_U then kret (- 1)
     else kbind swapalloc (\<lambda>swapblock.
     if swapblock < 0 then kret (- 1)
     else kbind (rd64 pte) (\<lambda>e.
     let pa = PTE2PA e in
     kbind (bread ROOTDEV (swapblock_to_diskblock swapblock)) (\<lambda>b.
     kthen (memmove_to_buf b pa (unat PGSIZE))
    (kthen (bwrite b)
    (kthen (brelse b)
    (kthen (wr64 pte (swapblock_to_pte swapblock))
    (kthen (kfree pa)
    (kthen memstats_inc_swap_out
    (kret 0))))))))))))"

text \<open>The body of the scan over the pages of process \<open>p\<close>; \<open>Some 0\<close> leaves both loops.\<close>

definition victim_page :: "nat \<Rightarrow> u64 \<Rightarrow> int option k" where
  "victim_page p va =
     kbind (kget (\<lambda>s. p_pagetable (procs s p))) (\<lambda>pt.
     kbind (walk0 pt va) (\<lambda>pte.
     if pte = 0 then kret None
     else kbind (rd64 pte) (\<lambda>e.
     if has_flag e PTE_V \<and> has_flag e PTE_U \<and> \<not> has_flag e PTE_COW
     then kbind (swapout pt va) (\<lambda>r.
          if r = 0 then kthen (release (ProcLock p)) (kret (Some 0)) else kret None)
     else kret None)))"

definition victim_proc :: "nat \<Rightarrow> int option k" where
  "victim_proc p =
     kthen (acquire (ProcLock p))
    (kbind (kget (\<lambda>s. procs s p)) (\<lambda>pr.
     kbind (if p_state pr \<noteq> UNUSED \<and> p_pagetable pr \<noteq> 0
            then for_pages (victim_page p) 0 (p_sz pr) else kret None) (\<lambda>r.
     case r of
       Some v \<Rightarrow> kret (Some v)
     | None \<Rightarrow> kthen (release (ProcLock p)) (kret None))))"

definition select_victim_page :: "int k" where
  "select_victim_page =
     kbind (kfor victim_proc [0..<NPROC]) (\<lambda>r.
     case r of Some v \<Rightarrow> kret v | None \<Rightarrow> kret (- 1))"


subsection \<open>The bitmap\<close>

lemma byte_flag: "j < 8 \<Longrightarrow> (x AND push_bit j 1 \<noteq> 0) = bit x j"
  for x :: u8
  by (simp add: bit_iff_and_push_bit_not_eq_0)

lemma inuse_bit_iff: "inuse_bit w i \<longleftrightarrow> bit (sw_inuse w (i div 8)) (i mod 8)"
  unfolding inuse_bit_def by (rule byte_flag) simp

lemma bitmap_index: "i div 8 = j div 8 \<and> i mod 8 = j mod 8 \<longleftrightarrow> i = j"
  for i j :: nat
  by (metis div_mult_mod_eq)

lemma inuse_swap_take [simp]: "inuse_bit (swap_take i w) j \<longleftrightarrow> j = i \<or> inuse_bit w j"
proof -
  have "i mod 8 < 8" by simp
  then show ?thesis
    using bitmap_index [of i j]
    by (auto simp: inuse_bit_iff swap_take_def bit_simps simp del: mod_less_divisor)
qed

lemma inuse_swap_give [simp]: "inuse_bit (swap_give i w) j \<longleftrightarrow> j \<noteq> i \<and> inuse_bit w j"
proof -
  have "j mod 8 < 8" by simp
  then show ?thesis
    using bitmap_index [of i j]
    by (auto simp: inuse_bit_iff swap_give_def bit_simps simp del: mod_less_divisor)
qed

definition swap_free_set :: "swapspace \<Rightarrow> nat set" where
  "swap_free_set w = {i. i < SWAP_MAX_BLOCKS \<and> \<not> inuse_bit w i}"

text \<open>The counter agrees with the bitmap.\<close>

definition swap_inv :: "swapspace \<Rightarrow> bool" where
  "swap_inv w \<longleftrightarrow> unat (sw_nfree w) = card (swap_free_set w)"

lemma finite_swap_free [simp]: "finite (swap_free_set w)"
  by (simp add: swap_free_set_def)

lemma card_swap_free: "card (swap_free_set w) \<le> SWAP_MAX_BLOCKS"
proof -
  have "swap_free_set w \<subseteq> {..<SWAP_MAX_BLOCKS}" by (auto simp: swap_free_set_def)
  from card_mono [OF _ this] show ?thesis by simp
qed

lemma swap_inv_take:
  assumes "swap_inv w" "i \<in> swap_free_set w"
  shows "swap_inv (swap_take i w)"
proof -
  have "swap_free_set (swap_take i w) = swap_free_set w - {i}"
    by (auto simp: swap_free_set_def)
  moreover have "sw_nfree w \<noteq> 0" using assms by (auto simp: swap_inv_def)
  ultimately show ?thesis using assms
    by (simp add: swap_inv_def swap_take_def unat_minus_one)
qed

lemma swap_inv_give:
  assumes "swap_inv w" "i < SWAP_MAX_BLOCKS" "inuse_bit w i"
  shows "swap_inv (swap_give i w)"
proof -
  have F: "swap_free_set (swap_give i w) = insert i (swap_free_set w)"
    using assms by (auto simp: swap_free_set_def)
  moreover have "i \<notin> swap_free_set w" using assms by (simp add: swap_free_set_def)
  moreover have "unat (sw_nfree w + 1) = unat (sw_nfree w) + 1"
    using assms(1) card_swap_free [of w]
    by (simp add: swap_inv_def unat_word_ariths)
  ultimately show ?thesis using assms
    by (simp add: swap_inv_def) (simp add: swap_give_def)
qed

lemma swap_inv_init: "swap_inv \<lparr>sw_inuse = (\<lambda>_. 0), sw_nfree = of_nat SWAP_MAX_BLOCKS\<rparr>"
proof -
  have "swap_free_set \<lparr>sw_inuse = (\<lambda>_. 0), sw_nfree = of_nat SWAP_MAX_BLOCKS\<rparr> = {..<SWAP_MAX_BLOCKS}"
    by (auto simp: swap_free_set_def inuse_bit_iff)
  then show ?thesis by (simp add: swap_inv_def)
qed

lemma swap_take_give:
  assumes "\<not> inuse_bit w i"
  shows "swap_give i (swap_take i w) = w"
proof -
  have "\<not> bit (sw_inuse w (i div 8)) (i mod 8)" using assms by (simp add: inuse_bit_iff)
  then have "(sw_inuse w (i div 8) OR push_bit (i mod 8) 1) AND NOT (push_bit (i mod 8) 1) =
      sw_inuse w (i div 8)"
    by (intro bit_eqI) (auto simp: bit_simps)
  then show ?thesis by (simp add: swap_give_def swap_take_def)
qed


lemma find_least:
  assumes "find P [0..<n] = Some i"
  shows "i < n" "P i" "j < i \<Longrightarrow> \<not> P j"
  using assms by (auto simp: find_Some_iff)

lemma swapalloc_apply:
  assumes "locks s SwapLock = free_lock"
  shows "swapalloc s =
    (if sw_nfree (swap s) = 0 then Ok (- 1) (s\<lparr>cpu := settle (cpu s)\<rparr>)
     else case find (\<lambda>i. \<not> inuse_bit (swap s) i) [0..<SWAP_MAX_BLOCKS] of
       None \<Rightarrow> Ok (- 1) (s\<lparr>cpu := settle (cpu s)\<rparr>)
     | Some i \<Rightarrow> Ok (int i) (s\<lparr>cpu := settle (cpu s), swap := swap_take i (swap s)\<rparr>))"
proof -
  let ?s = "s\<lparr>cpu := push_cpu (cpu s), locks := (locks s)(SwapLock := held_by (c_id (cpu s)))\<rparr>"
  let ?body = "\<lambda>i. kbind (kget (\<lambda>s. inuse_bit (swap s) i)) (\<lambda>b.
         if b then kret None
         else kthen (kmodify (\<lambda>s. s\<lparr>swap := swap_take i (swap s)\<rparr>))
             (kthen (release SwapLock) (kret (Some (int i)))))"
  have "kfor ?body [0..<SWAP_MAX_BLOCKS] ?s =
      (case find (\<lambda>i. \<not> inuse_bit (swap s) i) [0..<SWAP_MAX_BLOCKS] of
         None \<Rightarrow> Ok None ?s | Some i \<Rightarrow> ?body i ?s)"
    by (rule kfor_find) (auto simp: kmonad release_held)
  then show ?thesis
    using assms find_least(2) [of "\<lambda>i. \<not> inuse_bit (swap s) i"]
    by (simp add: swapalloc_def kmonad acquire_free release_held del: upt_Suc split: option.split)
qed

lemma swap_find:
  assumes "swap_inv w" "sw_nfree w \<noteq> 0"
  obtains i where "find (\<lambda>i. \<not> inuse_bit w i) [0..<SWAP_MAX_BLOCKS] = Some i"
    and "i \<in> swap_free_set w" and "\<And>j. j < i \<Longrightarrow> inuse_bit w j"
proof -
  have "swap_free_set w \<noteq> {}"
    using assms by (auto simp: swap_inv_def unat_eq_0)
  then have "find (\<lambda>i. \<not> inuse_bit w i) [0..<SWAP_MAX_BLOCKS] \<noteq> None"
    by (auto simp: find_None_iff swap_free_set_def)
  then obtain i where i: "find (\<lambda>i. \<not> inuse_bit w i) [0..<SWAP_MAX_BLOCKS] = Some i" by blast
  from find_least [OF i] i that show thesis by (auto simp: swap_free_set_def)
qed

lemma swapfree_apply:
  assumes "locks s SwapLock = free_lock" "b < SWAP_MAX_BLOCKS"
  shows "swapfree (int b) s =
    (if inuse_bit (swap s) b
     then Ok () (s\<lparr>cpu := settle (cpu s), swap := swap_give b (swap s)\<rparr>)
     else Panic ''swapfree: double free'')"
  using assms by (simp add: swapfree_def kmonad acquire_free release_held)

subsection \<open>Swapped entries\<close>

lemma mask_32: "(0xFFFFFFFF :: u64) = mask 32"
  by (simp add: mask_eq_exp_minus_1)

lemma PTE_SWAPPED_bit: "(512 :: u64) = push_bit 9 1"
  by (simp add: push_bit_eq_mult)

lemma drop_swapblock:
  "(ucast (drop_bit 10 (push_bit 10 w OR 512) AND 0xFFFFFFFF) :: u32) = ucast w"
  for w :: u64
  unfolding mask_32 PTE_SWAPPED_bit
  by (rule bit_eqI) (auto simp: bit_simps possible_bit_def)

lemma swapblock_pte_bits:
  assumes "0 \<le> b" "b < 2 ^ 31"
  shows "pte_to_swapblock (swapblock_to_pte b) = b"
    and "\<not> has_flag (swapblock_to_pte b) PTE_V" and "has_flag (swapblock_to_pte b) PTE_SWAPPED"
proof -
  have "sint (word_of_int b :: u32) = b"
    using assms by (simp add: signed_of_int signed_take_bit_int_eq_self)
  moreover have "(ucast (word_of_int b :: u64) :: u32) = word_of_int b"
    by (rule bit_eqI) (auto simp: bit_simps possible_bit_def)
  ultimately show "pte_to_swapblock (swapblock_to_pte b) = b"
    by (simp only: pte_to_swapblock_def swapblock_to_pte_def drop_swapblock)
  have "swapblock_to_pte b AND 1 = 0"
    unfolding swapblock_to_pte_def PTE_SWAPPED_bit
    by (rule bit_eqI) (auto simp: bit_simps)
  then show "\<not> has_flag (swapblock_to_pte b) PTE_V" by simp
  have "bit (swapblock_to_pte b AND 512) 9"
    unfolding swapblock_to_pte_def PTE_SWAPPED_bit by (simp add: bit_simps)
  then show "has_flag (swapblock_to_pte b) PTE_SWAPPED" by auto
qed

subsection \<open>Swapping out\<close>

text \<open>
  A page does not fit in a block: the copy into the buffer runs past its end, so \<open>swapout\<close>
  never gets as far as returning 0. When it returns at all it has refused the page and has
  left the state as it was.
\<close>

lemma memmove_to_buf_page: "memmove_to_buf b pa (unat PGSIZE) s = Fault ''memmove past the end of b->data''"
  by (simp add: memmove_to_buf_def kmonad)

lemma swapalloc_neg:
  assumes "locks s SwapLock = free_lock" "swapalloc s = Ok i s'" "i < 0"
  shows "s' = s\<lparr>cpu := settle (cpu s)\<rparr>"
  using assms by (simp add: swapalloc_apply split: if_splits option.splits)

lemma swapout_Ok:
  assumes "locks s SwapLock = free_lock" "swapout pt va s = Ok r s'"
  shows "r = - 1 \<and> (s' = s \<or> s' = s\<lparr>cpu := settle (cpu s)\<rparr>)"
proof -
  let ?va = "PGROUNDDOWN va"
  let ?pte = "ptslot (mem s) ?va 2 pt"
  let ?e = "load64 (mem s) ?pte"
  have va: "\<not> MAXVA \<le> ?va"
    using assms(2) by (auto simp: swapout_def kmonad walk0_apply split: if_splits)
  show ?thesis
  proof (cases "?pte = 0 \<or> \<not> has_flag ?e PTE_V \<or> has_flag ?e PTE_COW \<or> \<not> has_flag ?e PTE_U")
    case True
    then show ?thesis using assms(2) va
      by (auto simp: swapout_def kmonad walk0_apply split: if_splits)
  next
    case False
    with va assms(2) obtain i s1 where i: "swapalloc s = Ok i s1"
      by (auto simp: swapout_def kmonad walk0_apply split: outcome.splits)
    have "i < 0"
    proof (rule ccontr)
      assume "\<not> i < 0"
      with i va False assms(2) show False
        by (auto simp: swapout_def kmonad walk0_apply memmove_to_buf_def Let_def split: outcome.splits)
    qed
    with i va False assms(2) swapalloc_neg [OF assms(1) i] show ?thesis
      by (auto simp: swapout_def kmonad walk0_apply)
  qed
qed


lemma kpages_skip:
  assumes "\<And>a r s'. body a s = Ok r s' \<Longrightarrow> r = None \<and> s' = s" "kpages n body a e s = Ok r s'"
  shows "r = None \<and> s' = s"
  using assms(2)
proof (induction n arbitrary: a)
  case (Suc n)
  then show ?case
    by (auto simp: kmonad split: if_splits outcome.splits dest!: assms(1))
qed simp

lemma victim_page_Ok:
  assumes "locks s SwapLock = free_lock" "settle (cpu s) = cpu s" "victim_page p va s = Ok r s'"
  shows "r = None \<and> s' = s"
proof -
  let ?pt = "p_pagetable (procs s p)"
  have "swapout ?pt va s = Ok x s1 \<Longrightarrow> x = - 1 \<and> s1 = s" for x s1
    using swapout_Ok [OF assms(1), of ?pt va x s1] assms(2) by auto
  with assms(3) show ?thesis
    by (auto simp: victim_page_def kmonad walk0_apply split: if_splits outcome.splits)
qed

text \<open>A spinlock that is not locked has no owner.\<close>

definition lock_clean :: "spinlock \<Rightarrow> bool" where
  "lock_clean lk \<longleftrightarrow> (\<not> l_locked lk \<longrightarrow> lk = free_lock)"

lemma lock_clean_free [simp]: "lock_clean free_lock"
  by (simp add: lock_clean_def)

lemma acquire_Ok_free:
  assumes "acquire l s = Ok x s'" "lock_clean (locks s l)"
  shows "locks s l = free_lock"
proof (rule ccontr)
  assume "locks s l \<noteq> free_lock"
  with assms(2) have "l_locked (locks s l)" by (auto simp: lock_clean_def)
  with assms(1) show False
    by (auto simp: acquire_def push_off_apply holding_def kmonad split: if_splits)
qed

lemma victim_proc_Ok:
  assumes "locks s SwapLock = free_lock" "lock_clean (locks s (ProcLock p))"
    and Ok: "victim_proc p s = Ok r s'"
  shows "r = None \<and> s' = s\<lparr>cpu := settle (cpu s)\<rparr>"
proof -
  let ?s = "s\<lparr>cpu := push_cpu (cpu s), locks := (locks s)(ProcLock p := held_by (c_id (cpu s)))\<rparr>"
  have "\<exists>s1. acquire (ProcLock p) s = Ok () s1"
    using Ok by (auto simp: victim_proc_def kmonad split: outcome.splits)
  then have free: "locks s (ProcLock p) = free_lock" using acquire_Ok_free assms(2) by blast
  have pages: "for_pages (victim_page p) 0 e ?s = Ok x s1 \<Longrightarrow> x = None \<and> s1 = ?s" for e x s1
    unfolding for_pages_def
    by (erule kpages_skip [rotated], erule victim_page_Ok [rotated 2]) (use assms(1) in simp_all)
  define scan where "scan = (if p_state (procs s p) \<noteq> UNUSED \<and> p_pagetable (procs s p) \<noteq> 0
    then for_pages (victim_page p) 0 (p_sz (procs s p)) else kret None)"
  have "victim_proc p s = kbind scan (\<lambda>r. case r of
      Some v \<Rightarrow> kret (Some v) | None \<Rightarrow> kthen (release (ProcLock p)) (kret None)) ?s"
    using free by (simp add: victim_proc_def scan_def kmonad acquire_free)
  with Ok obtain x s1 where x: "scan ?s = Ok x s1"
    and r: "(case x of Some v \<Rightarrow> kret (Some v) | None \<Rightarrow> kthen (release (ProcLock p)) (kret None)) s1 = Ok r s'"
    by (auto elim: kbind_OkE)
  have "x = None \<and> s1 = ?s"
    using x pages by (auto simp: scan_def kmonad split: if_splits)
  with r free show ?thesis by (simp add: kmonad release_held)
qed

lemma kfor_victim:
  assumes "kfor victim_proc ps s = Ok x s1" "ps \<noteq> []" "set ps \<subseteq> {..<NPROC}"
    and "locks s SwapLock = free_lock" "\<And>p. p < NPROC \<Longrightarrow> lock_clean (locks s (ProcLock p))"
  shows "x = None \<and> s1 = s\<lparr>cpu := settle (cpu s)\<rparr>"
  using assms
proof (induction ps arbitrary: s)
  case (Cons p ps)
  from Cons.prems(1) obtain r1 s2 where v: "victim_proc p s = Ok r1 s2"
    by (auto simp: kmonad split: outcome.splits)
  have "r1 = None \<and> s2 = s\<lparr>cpu := settle (cpu s)\<rparr>"
    using victim_proc_Ok [OF Cons.prems(4) _ v] Cons.prems(3,5) by simp
  with Cons.prems v have "kfor victim_proc ps (s\<lparr>cpu := settle (cpu s)\<rparr>) = Ok x s1"
    by (simp add: kmonad)
  with Cons.IH [OF this] Cons.prems show ?case by (cases "ps = []") (auto simp: kmonad)
qed simp

lemma select_victim_Ok:
  assumes "locks s SwapLock = free_lock" "\<And>p. p < NPROC \<Longrightarrow> lock_clean (locks s (ProcLock p))"
    and "select_victim_page s = Ok r s'"
  shows "r = - 1 \<and> s' = s\<lparr>cpu := settle (cpu s)\<rparr>"
proof -
  obtain x s1 where x: "kfor victim_proc [0..<NPROC] s = Ok x s1"
    using assms(3) by (auto simp: select_victim_page_def kmonad split: outcome.splits)
  have "x = None \<and> s1 = s\<lparr>cpu := settle (cpu s)\<rparr>"
    by (rule kfor_victim [OF x]) (use assms(1,2) in auto)
  with x assms(3) show ?thesis by (simp add: select_victim_page_def kmonad)
qed

subsection \<open>Correctness of the swap space\<close>

text \<open>
  C31. With a bitmap and a counter that agree, \<open>swapalloc\<close> returns the first free block, or \<open>- 1\<close> and
  no change if there is none, and keeps the agreement; \<open>swapfree\<close> of the block it returned gives
  back the swap space as it was. Freeing a block that is free panics.
\<close>

theorem swapalloc_swapfree:
  assumes "locks s SwapLock = free_lock" "swap_inv (swap s)"
  shows "if swap_free_set (swap s) = {} then swapalloc s = Ok (- 1) (s\<lparr>cpu := settle (cpu s)\<rparr>)
    else \<exists>b s'. swapalloc s = Ok (int b) s' \<and> b = Min (swap_free_set (swap s)) \<and>
      swap_inv (swap s') \<and> swap_free_set (swap s') = swap_free_set (swap s) - {b} \<and>
      swapfree (int b) s' = Ok () (s\<lparr>cpu := settle (cpu s)\<rparr>) \<and>
      swapfree (int b) s = Panic ''swapfree: double free''"
proof (cases "swap_free_set (swap s) = {}")
  case True
  then have "sw_nfree (swap s) = 0" using assms(2) by (simp add: swap_inv_def unat_eq_0)
  with True assms(1) show ?thesis by (simp add: swapalloc_apply)
next
  case False
  then have "card (swap_free_set (swap s)) \<noteq> 0" by simp
  then have nz: "sw_nfree (swap s) \<noteq> 0" using assms(2) by (auto simp: swap_inv_def)
  obtain b where b: "find (\<lambda>i. \<not> inuse_bit (swap s) i) [0..<SWAP_MAX_BLOCKS] = Some b"
    "b \<in> swap_free_set (swap s)" "\<forall>j < b. inuse_bit (swap s) j"
    using swap_find [OF assms(2) nz] by metis
  let ?s = "s\<lparr>cpu := settle (cpu s), swap := swap_take b (swap s)\<rparr>"
  have run: "swapalloc s = Ok (int b) ?s" using assms(1) nz b(1) by (simp add: swapalloc_apply)
  have "Min (swap_free_set (swap s)) = b"
    by (rule Min_eqI) (use b(2,3) in \<open>auto simp: swap_free_set_def not_less [symmetric]\<close>)
  moreover have "swap_free_set (swap ?s) = swap_free_set (swap s) - {b}"
    by (auto simp: swap_free_set_def)
  moreover have "b < SWAP_MAX_BLOCKS" "\<not> inuse_bit (swap s) b" using b(2) by (simp_all add: swap_free_set_def)
  moreover from this have "swapfree (int b) ?s = Ok () (s\<lparr>cpu := settle (cpu s)\<rparr>)"
    using assms(1) by (simp add: swapfree_apply swap_take_give)
  ultimately show ?thesis
    using False run swap_inv_take [OF assms(2) b(2)] assms(1) by (auto simp: swapfree_apply)
qed

theorem swapalloc_swapfree_witness:
  "\<exists>s'. swapalloc (demo_state\<lparr>swap := \<lparr>sw_inuse = (\<lambda>_. 0), sw_nfree = of_nat SWAP_MAX_BLOCKS\<rparr>\<rparr>) = Ok 0 s'"
proof -
  let ?w = "\<lparr>sw_inuse = (\<lambda>_. 0), sw_nfree = of_nat SWAP_MAX_BLOCKS\<rparr> :: swapspace"
  let ?s = "demo_state\<lparr>swap := ?w\<rparr>"
  have "locks ?s SwapLock = free_lock" "swap_inv (swap ?s)"
    using swap_inv_init by (simp_all add: demo_simps)
  note c = swapalloc_swapfree [OF this]
  have F: "swap_free_set ?w = {..<SWAP_MAX_BLOCKS}"
    by (auto simp: swap_free_set_def inuse_bit_iff)
  have "Min {..<1000 :: nat} = 0" by (rule Min_eqI) auto
  with c F show ?thesis by (auto simp: lessThan_empty_iff)
qed

text \<open>
  C32. The page-table entry of a swapped page gives back its swap block, is marked swapped and is
  not valid, so the hardware faults on it.
\<close>

theorem swap_entry_roundtrip:
  assumes "0 \<le> b" "b < 2 ^ 31"
  shows "pte_to_swapblock (swapblock_to_pte b) = b \<and> has_flag (swapblock_to_pte b) PTE_SWAPPED \<and>
    \<not> has_flag (swapblock_to_pte b) PTE_V"
  using swapblock_pte_bits [OF assms] by simp

theorem swap_entry_roundtrip_witness: "pte_to_swapblock (swapblock_to_pte 999) = 999"
  using swap_entry_roundtrip [of 999] by simp

end
