(* ===== verification/Kalloc.thy ===== *)
theory Kalloc
  imports Swap
begin

text \<open>
  \<open>kalloc\<close> of \<^verbatim>\<open>kernel/kalloc.c\<close>, \<open>swapin\<close> of \<^verbatim>\<open>kernel/swap.c\<close> and, with the allocator in
  place, \<open>walk\<close> of \<^verbatim>\<open>kernel/vm.c\<close>. The allocator is shown to meet the contract
  \<open>page_allocator\<close> that page tables are built on, and to give up, without a page, whenever
  the free list is empty.
\<close>

text \<open>Take the first page off the free list: 0 if there is none.\<close>

definition kmem_pop :: "u64 k" where
  "kmem_pop =
     kthen (acquire KmemLock)
    (kbind (kget kmem_freelist) (\<lambda>r.
     kthen (kwhen (r \<noteq> 0) (kbind (rd64 r) (\<lambda>nxt. kmodify (\<lambda>s. s\<lparr>kmem_freelist := nxt\<rparr>))))
    (kthen (release KmemLock)
    (kret r))))"

definition kalloc :: "u64 k" where
  "kalloc =
     kbind kmem_pop (\<lambda>r1.
     kbind (if r1 = 0
            then kbind select_victim_page (\<lambda>v. if v = 0 then kmem_pop else kret r1)
            else kret r1) (\<lambda>r.
     kthen (kwhen (r \<noteq> 0)
       (kthen (memset_k r 5 PGSIZE)
       (kthen (acquire RefcountLock)
       (kbind (pageindex r) (\<lambda>i.
        kthen (kmodify (\<lambda>s. s\<lparr>refcount := (refcount s)(i := 1)\<rparr>))
       (kthen (release RefcountLock)
        memstats_inc_pages_allocated))))))
    (kret r)))"

definition walk :: "u64 \<Rightarrow> u64 \<Rightarrow> bool \<Rightarrow> u64 k" where
  "walk pagetable va alloc = walk_with kalloc pagetable va alloc"

definition swapin :: "u64 \<Rightarrow> u64 \<Rightarrow> u64 k" where
  "swapin pagetable va0 =
    (let va = PGROUNDDOWN va0 in
     kbind (walk pagetable va False) (\<lambda>pte.
     if pte = 0 then kret 0
     else kbind (rd64 pte) (\<lambda>e.
     if \<not> has_flag e PTE_SWAPPED then kret 0
     else let swapblock = pte_to_swapblock e in
     kbind kalloc (\<lambda>pa.
     if pa = 0 then kret 0
     else kbind (bread ROOTDEV (swapblock_to_diskblock swapblock)) (\<lambda>b.
     kthen (memmove_from_buf pa b (unat PGSIZE))
    (kthen (brelse b)
    (kthen (swapfree swapblock)
    (kbind (rd64 pte) (\<lambda>e.
     kthen (wr64 pte (PA2PTE pa OR (e AND 0x3FF AND NOT PTE_SWAPPED) OR PTE_V))
    (kret pa))))))))))"

subsection \<open>A page from the free list\<close>

definition count_allocated :: "memstats \<Rightarrow> memstats" where
  "count_allocated m = m\<lparr>pages_allocated := pages_allocated m + 1, current_pages := current_pages m + 1\<rparr>"

definition popped_state :: "u64 \<Rightarrow> kstate \<Rightarrow> kstate" where
  "popped_state p s = s\<lparr>
     mem := memset (mem s) p 5 4096,
     cpu := settle (cpu s),
     kmem_freelist := load64 (mem s) p,
     refcount := (refcount s)(pidx p := 1),
     stats := count_allocated (stats s)\<rparr>"

lemma kmem_pop_some:
  assumes "locks s KmemLock = free_lock" "kmem_freelist s = p" "p \<noteq> 0"
  shows "kmem_pop s = Ok p (s\<lparr>cpu := settle (cpu s), kmem_freelist := load64 (mem s) p\<rparr>)"
  using assms by (simp add: kmem_pop_def kmonad acquire_free release_held)

lemma kmem_pop_none:
  assumes "locks s KmemLock = free_lock" "kmem_freelist s = 0"
  shows "kmem_pop s = Ok 0 (s\<lparr>cpu := settle (cpu s)\<rparr>)"
  using assms by (simp add: kmem_pop_def kmonad acquire_free release_held)

lemma kalloc_free:
  assumes "kmem_unlocked s" "kmem_freelist s = p" "page_ok s p"
  shows "kalloc s = Ok p (popped_state p s)"
  using assms page_ok_nonzero [OF assms(3)] page_ok_range [OF assms(3)]
  by (simp add: kalloc_def kmonad kmem_pop_some kmem_unlocked_def acquire_free release_held
      pageindex_apply memstats_ops with_stats_apply popped_state_def count_allocated_def)

subsection \<open>The contract of the page tables' allocator\<close>

text \<open>The pages of \<open>F\<close> are free, and the allocator's locks are too.\<close>

definition available :: "kstate \<Rightarrow> u64 list \<Rightarrow> bool" where
  "available s F \<longleftrightarrow> kmem_unlocked s \<and> kmem_inv s F"

lemma same_page_popped: "page_ok s p \<Longrightarrow> q \<noteq> p \<Longrightarrow> same_page (mem (popped_state p s)) (mem s) q"
  unfolding popped_state_def by (simp, rule same_page_memset) auto

lemma frame_mm_popped: "frame_mm s (popped_state p s)"
  by (simp add: frame_mm_def popped_state_def)

lemma kmem_inv_popped:
  assumes "kmem_inv s (p # F)"
  shows "kmem_inv (popped_state p s) F"
proof -
  have p: "page_ok s p" "p \<notin> set F" using assms by (auto simp: kmem_inv_def)
  have F: "page_ok s q" "refcount s (pidx q) = 0" "q \<noteq> p" "q mod PGSIZE = 0" if "q \<in> set F" for q
    using assms that by (auto simp: kmem_inv_def page_ok_def)
  have "free_chain (mem s) (load64 (mem s) p) F" using assms by (simp add: kmem_inv_def)
  moreover have "same_page (mem (popped_state p s)) (mem s) q" if "q \<in> set F" for q
    using same_page_popped [OF p(1) F(3) [OF that]] .
  ultimately have "free_chain (mem (popped_state p s)) (load64 (mem s) p) F"
    using F(4) by (subst free_chain_cong [of F _ "mem s"]) simp_all
  moreover have "refcount (popped_state p s) (pidx q) = 0" if "q \<in> set F" for q
    using F [OF that] page_ok_pidx [OF _ p(1), of q] by (simp add: popped_state_def)
  moreover have "kmem_freelist (popped_state p s) = load64 (mem s) p"
    by (simp add: popped_state_def)
  ultimately show ?thesis
    using assms F(1) frame_mm_page_ok [OF frame_mm_popped] by (simp add: kmem_inv_def)
qed

interpretation kmem: page_allocator kalloc available
proof
  fix s F
  assume "available s F"
  then show "distinct F \<and> (\<forall>p \<in> set F. page_ok s p)" by (auto simp: available_def kmem_inv_def)
next
  fix s p F
  assume a: "available s (p # F)"
  then have p: "kmem_freelist s = p" "page_ok s p" "kmem_unlocked s"
    by (auto simp: available_def kmem_inv_def)
  let ?s = "popped_state p s"
  have "kalloc s = Ok p ?s" by (rule kalloc_free [OF p(3,1,2)])
  moreover have "available ?s F"
    using a kmem_inv_popped frame_mm_unlocked [OF frame_mm_popped] by (simp add: available_def)
  moreover have "refcount ?s = (refcount s)(pidx p := 1)" by (simp add: popped_state_def)
  moreover have "\<forall>q. q \<noteq> p \<longrightarrow> same_page (mem ?s) (mem s) q"
    using same_page_popped [OF p(2)] by simp
  ultimately show "\<exists>s'. kalloc s = Ok p s' \<and> available s' F \<and> frame_mm s s' \<and>
      refcount s' = (refcount s)(pidx p := 1) \<and> (\<forall>q. q \<noteq> p \<longrightarrow> same_page (mem s') (mem s) q)"
    using frame_mm_popped [of s p] by metis
next
  fix s F s'
  assume a: "available s F" and fr: "frame_mm s s'" and fl: "kmem_freelist s' = kmem_freelist s"
    and m: "\<And>p. p \<in> set F \<Longrightarrow> same_page (mem s') (mem s) p"
    and rc: "\<And>p. p \<in> set F \<Longrightarrow> refcount s' (pidx p) = refcount s (pidx p)"
  from a have "kmem_inv s F" by (simp add: available_def)
  then have "kmem_inv s' F" by (rule kmem_inv_frame [OF _ fl frame_mm_same(1) [OF fr] m rc])
  then show "available s' F"
    using a frame_mm_unlocked [OF fr] by (simp add: available_def)
qed


subsection \<open>What the allocator promises\<close>

text \<open>
  C9. Allocating and freeing a page is a round trip: with \<open>p\<close> first on the free list, \<open>kalloc\<close>
  returns \<open>p\<close> with one reference, off the free list; \<open>kfree\<close> of it puts the list and all
  reference counts back as they were, and no other page's bytes change on the way.
\<close>

theorem kalloc_kfree:
  assumes "available s (p # F)"
  shows "\<exists>s1 s2. kalloc s = Ok p s1 \<and> available s1 F \<and> refcount s1 = (refcount s)(pidx p := 1) \<and>
    kfree p s1 = Ok () s2 \<and> available s2 (p # F) \<and> refcount s2 = refcount s \<and>
    (\<forall>q. q \<noteq> p \<longrightarrow> same_page (mem s2) (mem s) q)"
proof -
  have p: "page_ok s p" "kmem_freelist s = p" "kmem_unlocked s" "refcount s (pidx p) = 0"
    using assms by (auto simp: available_def kmem_inv_def)
  let ?s1 = "popped_state p s" and ?s2 = "freed_state p (popped_state p s)"
  have 1: "kalloc s = Ok p ?s1" by (rule kalloc_free [OF p(3,2,1)])
  have i1: "kmem_inv ?s1 F" "kmem_unlocked ?s1" "page_ok ?s1 p" "refcount ?s1 (pidx p) = 1"
    using assms p kmem_inv_popped frame_mm_unlocked [OF frame_mm_popped]
      frame_mm_page_ok [OF frame_mm_popped] by (simp_all add: available_def) (simp add: popped_state_def)
  have 2: "kfree p ?s1 = Ok () ?s2" by (rule kfree_last [OF i1(3,2,4)])
  have "kmem_inv ?s2 (p # F)" by (rule kmem_inv_freed [OF i1(1,3)]) (simp add: i1(4))
  moreover have "kmem_unlocked ?s2" using i1(2) by (simp add: kmem_unlocked_def freed_state_def)
  moreover have "refcount ?s2 = refcount s"
    using p(4) by (auto simp: freed_state_def popped_state_def)
  moreover have "same_page (mem ?s2) (mem s) q" if "q \<noteq> p" for q
    using same_page_freed [OF i1(3) that [symmetric]] same_page_popped [OF p(1) that]
    by (rule same_page_trans)
  moreover have "refcount ?s1 = (refcount s)(pidx p := 1)" by (simp add: popped_state_def)
  ultimately show ?thesis using 1 2 i1 by (auto simp: available_def)
qed

lemma demo_mm_available: "available demo_mm demo_free"
  using demo_mm_inv demo_mm_simps(1) by (simp add: available_def)

theorem kalloc_kfree_witness:
  "\<exists>s1 s2. kalloc demo_mm = Ok 0x80103000 s1 \<and> available s1 (tl demo_free) \<and>
     kfree 0x80103000 s1 = Ok () s2 \<and> available s2 demo_free"
  using kalloc_kfree [of demo_mm "0x80103000" "tl demo_free"] demo_mm_available
  by (simp add: demo_free_def) blast

text \<open>
  C39. With the free list empty, \<open>kalloc\<close> never returns a page, although it looks for a victim
  to swap out: whenever it returns, it returns 0 and has changed nothing.
\<close>

theorem kalloc_empty:
  assumes "kmem_unlocked s" "kmem_freelist s = 0" "locks s SwapLock = free_lock"
    and "\<forall>p < NPROC. lock_clean (locks s (ProcLock p))"
  shows "case kalloc s of Ok r s' \<Rightarrow> r = 0 \<and> s' = s\<lparr>cpu := settle (cpu s)\<rparr> | _ \<Rightarrow> True"
proof (cases "kalloc s")
  case (Ok r s')
  let ?s = "s\<lparr>cpu := settle (cpu s)\<rparr>"
  have pop: "kmem_pop s = Ok 0 ?s"
    using assms(1,2) by (intro kmem_pop_none) (simp_all add: kmem_unlocked_def)
  then obtain v s1 where v: "select_victim_page ?s = Ok v s1"
    using Ok by (auto simp: kalloc_def kmonad split: outcome.splits)
  have "v = - 1 \<and> s1 = ?s\<lparr>cpu := settle (cpu ?s)\<rparr>"
    by (rule select_victim_Ok [OF _ _ v]) (use assms(3,4) in simp_all)
  with pop v have "kalloc s = Ok 0 ?s" by (simp add: kalloc_def kmonad)
  then show ?thesis by simp
qed simp_all

text \<open>With no process in memory, the search for a victim finds none and \<open>kalloc\<close> does return.\<close>

lemma victims_idle:
  assumes "\<And>p. locks s (ProcLock p) = free_lock" "\<And>p. p_state (procs s p) = UNUSED" "settle (cpu s) = cpu s"
  shows "kfor victim_proc ps s = Ok None s"
proof (induction ps)
  case (Cons p ps)
  have "victim_proc p s = Ok None s"
    using assms by (simp add: victim_proc_def kmonad acquire_free release_held)
  with Cons show ?case by (simp add: kmonad)
qed (simp add: kmonad)

lemma demo_state_kalloc: "\<exists>r s'. kalloc demo_state = Ok r s'"
proof -
  let ?s = "demo_state\<lparr>cpu := settle (cpu demo_state)\<rparr>"
  have "kmem_pop demo_state = Ok 0 ?s" by (rule kmem_pop_none) (simp_all add: demo_simps)
  moreover have "select_victim_page ?s = Ok (- 1) ?s"
    unfolding select_victim_page_def kbind_def
    by (subst victims_idle) (simp_all add: demo_simps kmonad)
  ultimately show ?thesis by (simp add: kalloc_def kmonad)
qed

theorem kalloc_empty_witness: "\<exists>s'. kalloc demo_state = Ok 0 s'"
  using kalloc_empty [of demo_state] demo_state_kalloc
  by (auto simp: demo_simps kmem_unlocked_def)

lemma victim_proc_held:
  "locks s (ProcLock p) = held_by (c_id (cpu s)) \<Longrightarrow> victim_proc p s = Panic ''acquire''"
  by (simp add: victim_proc_def kmonad acquire_held)

lemma kfor_victim_held:
  assumes "p \<in> set ps" "set ps \<subseteq> {..<NPROC}" "locks s (ProcLock p) = held_by (c_id (cpu s))"
    and "locks s SwapLock = free_lock" "\<And>p. p < NPROC \<Longrightarrow> lock_clean (locks s (ProcLock p))"
  shows "kfor victim_proc ps s \<noteq> Ok x s1"
  using assms
proof (induction ps arbitrary: s)
  case (Cons q ps)
  show ?case
  proof (cases "q = p")
    case True
    with Cons.prems(3) show ?thesis by (simp add: kmonad victim_proc_held)
  next
    case False
    show ?thesis
    proof
      assume ok: "kfor victim_proc (q # ps) s = Ok x s1"
      then obtain r s2 where v: "victim_proc q s = Ok r s2"
        by (auto simp: kmonad split: outcome.splits)
      have r: "r = None \<and> s2 = s\<lparr>cpu := settle (cpu s)\<rparr>"
        using victim_proc_Ok [OF Cons.prems(4) _ v] Cons.prems(2,5) by simp
      have "kfor victim_proc ps s2 \<noteq> Ok x s1"
        by (rule Cons.IH) (use Cons.prems False r in auto)
      with ok v r show False by (simp add: kmonad)
    qed
  qed
qed simp

text \<open>
  C40. A caller that holds the lock of a process gets no page once the free list is empty: the search
  for a victim locks every process, so \<open>kalloc\<close> never returns. \<open>allocproc\<close> calls it in just that
  situation.
\<close>

theorem kalloc_under_proc_lock:
  assumes "kmem_unlocked s" "kmem_freelist s = 0" "locks s SwapLock = free_lock"
    and "\<forall>p < NPROC. lock_clean (locks s (ProcLock p))"
    and "q < NPROC" "locks s (ProcLock q) = held_by (c_id (cpu s))"
  shows "kalloc s \<noteq> Ok r s'"
proof -
  let ?s = "s\<lparr>cpu := settle (cpu s)\<rparr>"
  have pop: "kmem_pop s = Ok 0 ?s"
    using assms(1,2) by (intro kmem_pop_none) (simp_all add: kmem_unlocked_def)
  have "kfor victim_proc [0..<NPROC] ?s \<noteq> Ok x s1" for x s1
    by (rule kfor_victim_held [of q]) (use assms(3-6) in auto)
  then have "select_victim_page ?s \<noteq> Ok x s1" for x s1
    by (auto simp: select_victim_page_def kbind_eq_Ok)
  with pop show ?thesis by (auto simp: kalloc_def kbind_eq_Ok split: if_splits)
qed

theorem kalloc_under_proc_lock_witness:
  "\<nexists>r s'. kalloc (demo_state\<lparr>locks := (locks demo_state)(ProcLock 3 := held_by 0)\<rparr>) = Ok r s'"
proof -
  let ?s = "demo_state\<lparr>locks := (locks demo_state)(ProcLock 3 := held_by 0)\<rparr>"
  have "lock_clean (held_by 0)" by (simp add: lock_clean_def held_by_def)
  then have "kalloc ?s \<noteq> Ok r s'" for r s'
    by (intro kalloc_under_proc_lock [of ?s 3]) (auto simp: demo_simps kmem_unlocked_def)
  then show ?thesis by blast
qed

end
