(* ===== verification/Vm.thy ===== *)
theory Vm
  imports Kalloc
begin

text \<open>
  \<^verbatim>\<open>kernel/vm.c\<close>: building, copying and tearing down address spaces, copy-on-write and lazy
  faults, and the copies between kernel and user memory. Page tables are trees in physical
  memory (theory \<open>Walk\<close>); addresses, sizes and entries are 64-bit words.
\<close>

subsection \<open>Looking up and mapping\<close>

definition walkaddr :: "u64 \<Rightarrow> u64 \<Rightarrow> u64 k" where
  "walkaddr pagetable va =
    (if MAXVA \<le> va then kret 0
     else kbind (walk pagetable va False) (\<lambda>pte.
     if pte = 0 then kret 0
     else kbind (rd64 pte) (\<lambda>e.
     if \<not> has_flag e PTE_V then kret 0
     else if \<not> has_flag e PTE_U then kret 0
     else kret (PTE2PA e))))"

text \<open>
  The loop of \<open>mappages\<close>; it advances from \<^verbatim>\<open>va\<close> to \<^verbatim>\<open>last\<close> in steps of a page, so
  \<^verbatim>\<open>size / PGSIZE\<close> rounds are enough.
\<close>

fun mappages_loop :: "nat \<Rightarrow> u64 \<Rightarrow> u64 \<Rightarrow> u64 \<Rightarrow> u64 \<Rightarrow> u64 \<Rightarrow> int k" where
  "mappages_loop 0 pagetable a last_va pa perm = (\<lambda>s. Diverge)"
| "mappages_loop (Suc n) pagetable a last_va pa perm =
     kbind (walk pagetable a True) (\<lambda>pte.
     if pte = 0 then kret (- 1)
     else kbind (rd64 pte) (\<lambda>e.
     kthen (kpanic_if (has_flag e PTE_V) ''mappages: remap'')
    (kthen (wr64 pte (PA2PTE pa OR perm OR PTE_V))
    (if a = last_va then kret 0
     else mappages_loop n pagetable (a + PGSIZE) last_va (pa + PGSIZE) perm))))"

definition mappages :: "u64 \<Rightarrow> u64 \<Rightarrow> u64 \<Rightarrow> u64 \<Rightarrow> u64 \<Rightarrow> int k" where
  "mappages pagetable va sz pa perm =
     kthen (kpanic_if (va mod PGSIZE \<noteq> 0) ''mappages: va not aligned'')
    (kthen (kpanic_if (sz mod PGSIZE \<noteq> 0) ''mappages: size not aligned'')
    (kthen (kpanic_if (sz = 0) ''mappages: size'')
    (mappages_loop (unat (sz div PGSIZE)) pagetable va (va + sz - PGSIZE) pa perm)))"

subsection \<open>The kernel's address space\<close>

definition kvmmap :: "u64 \<Rightarrow> u64 \<Rightarrow> u64 \<Rightarrow> u64 \<Rightarrow> u64 \<Rightarrow> unit k" where
  "kvmmap kpgtbl va pa sz perm =
     kbind (mappages kpgtbl va sz pa perm) (\<lambda>r. kpanic_if (r \<noteq> 0) ''kvmmap'')"

definition proc_mapstacks :: "u64 \<Rightarrow> unit k" where
  "proc_mapstacks kpgtbl =
     kthen (kfor (\<lambda>p.
       kbind kalloc (\<lambda>pa.
       kthen (kpanic_if (pa = 0) ''kalloc'')
      (kthen (kvmmap kpgtbl (KSTACK p) pa PGSIZE (PTE_R OR PTE_W))
      (kret (None :: unit option))))) [0..<NPROC])
    (kret ())"

definition kvmmake :: "u64 k" where
  "kvmmake =
     kbind kalloc (\<lambda>kpgtbl.
     kbind (kget syms) (\<lambda>sy.
     kthen (kdo [
       memset_k kpgtbl 0 PGSIZE,
       kvmmap kpgtbl UART0 UART0 PGSIZE (PTE_R OR PTE_W),
       kvmmap kpgtbl VIRTIO0 VIRTIO0 PGSIZE (PTE_R OR PTE_W),
       kvmmap kpgtbl PLIC PLIC 0x4000000 (PTE_R OR PTE_W),
       kvmmap kpgtbl KERNBASE KERNBASE (sym_etext sy - KERNBASE) (PTE_R OR PTE_X),
       kvmmap kpgtbl (sym_etext sy) (sym_etext sy) (PHYSTOP - sym_etext sy) (PTE_R OR PTE_W),
       kvmmap kpgtbl TRAMPOLINE (sym_trampoline sy) PGSIZE (PTE_R OR PTE_X),
       proc_mapstacks kpgtbl])
    (kret kpgtbl)))"

definition kvminit :: "unit k" where
  "kvminit = kbind kvmmake (\<lambda>pt. kmodify (\<lambda>s. s\<lparr>kernel_pagetable := pt\<rparr>))"

definition kvminithart :: "unit k" where
  "kvminithart = kmodify (\<lambda>s. s\<lparr>cpu := (cpu s)\<lparr>c_satp := MAKE_SATP (kernel_pagetable s)\<rparr>\<rparr>)"

subsection \<open>User address spaces\<close>

definition uvmcreate :: "u64 k" where
  "uvmcreate =
     kbind kalloc (\<lambda>pagetable.
     if pagetable = 0 then kret 0
     else kthen (memset_k pagetable 0 PGSIZE) (kret pagetable))"

definition uvmunmap_page :: "u64 \<Rightarrow> bool \<Rightarrow> u64 \<Rightarrow> unit option k" where
  "uvmunmap_page pagetable do_free a =
     kbind (walk pagetable a False) (\<lambda>pte.
     if pte = 0 then kret None
     else kbind (rd64 pte) (\<lambda>e.
     if \<not> has_flag e PTE_V \<and> \<not> has_flag e PTE_SWAPPED then kret None
     else kthen (kwhen do_free
                  (if has_flag e PTE_SWAPPED then swapfree (pte_to_swapblock e)
                   else if has_flag e PTE_V then kfree (PTE2PA e)
                   else kret ()))
         (kthen (wr64 pte 0)
         (kret None))))"

definition uvmunmap :: "u64 \<Rightarrow> u64 \<Rightarrow> u64 \<Rightarrow> bool \<Rightarrow> unit k" where
  "uvmunmap pagetable va npg do_free =
     kthen (kpanic_if (va mod PGSIZE \<noteq> 0) ''uvmunmap: not aligned'')
    (kthen (for_pages (uvmunmap_page pagetable do_free) va (va + npg * PGSIZE))
    (kret ()))"

text \<open>The page count goes through a 32-bit \<^verbatim>\<open>int\<close>.\<close>

definition uvmdealloc :: "u64 \<Rightarrow> u64 \<Rightarrow> u64 \<Rightarrow> u64 k" where
  "uvmdealloc pagetable oldsz newsz =
    (if oldsz \<le> newsz then kret oldsz
     else kthen (kwhen (PGROUNDUP newsz < PGROUNDUP oldsz)
            (uvmunmap pagetable (PGROUNDUP newsz)
              (scast (ucast ((PGROUNDUP oldsz - PGROUNDUP newsz) div PGSIZE) :: u32)) True))
         (kret newsz))"

definition uvmalloc_page :: "u64 \<Rightarrow> u64 \<Rightarrow> u64 \<Rightarrow> u64 \<Rightarrow> u64 option k" where
  "uvmalloc_page pagetable oldsz xperm a =
     kbind kalloc (\<lambda>pg.
     if pg = 0 then kthen (uvmdealloc pagetable a oldsz) (kret (Some 0))
     else kthen (memset_k pg 0 PGSIZE)
    (kbind (mappages pagetable a PGSIZE pg (PTE_R OR PTE_U OR xperm)) (\<lambda>r.
     if r \<noteq> 0 then kthen (kfree pg) (kthen (uvmdealloc pagetable a oldsz) (kret (Some 0)))
     else kret None)))"

definition uvmalloc :: "u64 \<Rightarrow> u64 \<Rightarrow> u64 \<Rightarrow> u64 \<Rightarrow> u64 k" where
  "uvmalloc pagetable oldsz0 newsz xperm =
    (if newsz < oldsz0 then kret oldsz0
     else let oldsz = PGROUNDUP oldsz0 in
       kbind (for_pages (uvmalloc_page pagetable oldsz xperm) oldsz newsz) (\<lambda>r.
       case r of Some v \<Rightarrow> kret v | None \<Rightarrow> kret newsz))"

text \<open>
  The recursion of \<open>freewalk\<close> has no bound of its own; a page table has three levels, and
  64 levels are more than a kernel stack holds.
\<close>

fun freewalk_from :: "nat \<Rightarrow> u64 \<Rightarrow> unit k" where
  "freewalk_from 0 pagetable = (\<lambda>s. Diverge)"
| "freewalk_from (Suc n) pagetable =
     kthen (kfor (\<lambda>i.
       kbind (rd64 (pte_addr pagetable (of_nat i))) (\<lambda>pte.
       if has_flag pte PTE_V \<and> \<not> has_flag pte (PTE_R OR PTE_W OR PTE_X)
       then kthen (freewalk_from n (PTE2PA pte))
           (kthen (wr64 (pte_addr pagetable (of_nat i)) 0)
           (kret (None :: unit option)))
       else kthen (kpanic_if (has_flag pte PTE_V) ''freewalk: leaf'') (kret None))) [0..<512])
    (kfree pagetable)"

definition freewalk :: "u64 \<Rightarrow> unit k" where
  "freewalk pagetable = freewalk_from 64 pagetable"

definition uvmfree :: "u64 \<Rightarrow> u64 \<Rightarrow> unit k" where
  "uvmfree pagetable sz =
     kthen (kwhen (0 < sz) (uvmunmap pagetable 0 (PGROUNDUP sz div PGSIZE) True))
    (freewalk pagetable)"


subsection \<open>Copy-on-write\<close>

text \<open>
  One round of the loop of \<open>uvmcopy\<close>; \<open>Some ()\<close> is \<^verbatim>\<open>goto err\<close>. The source has the branch
  for read-only pages twice in a row, under a second \<^verbatim>\<open>else\<close>; the two are the same.
\<close>

definition uvmcopy_page :: "u64 \<Rightarrow> u64 \<Rightarrow> u64 \<Rightarrow> unit option k" where
  "uvmcopy_page old new i =
     kbind (walk old i False) (\<lambda>pte.
     if pte = 0 then kret None
     else kbind (rd64 pte) (\<lambda>e.
     if \<not> has_flag e PTE_V then kret None
     else let pa = PTE2PA e; flags = PTE_FLAGS e in
     if \<not> has_flag flags PTE_U then kret None
     else if has_flag flags PTE_COW
     then kbind (mappages new i PGSIZE pa flags) (\<lambda>r.
          if r \<noteq> 0 then kret (Some ())
          else kthen (krefinc pa) (kret None))
     else if has_flag flags PTE_W
     then kbind (rd64 pte) (\<lambda>e.
          kthen (wr64 pte ((e AND NOT PTE_W) OR PTE_COW))
         (kbind (mappages new i PGSIZE pa ((flags AND NOT PTE_W) OR PTE_COW)) (\<lambda>r.
          if r \<noteq> 0 then kret (Some ())
          else kthen (krefinc pa) (kthen memstats_inc_cow_shared (kret None)))))
     else kbind (mappages new i PGSIZE pa flags) (\<lambda>r.
          if r \<noteq> 0 then kret (Some ())
          else kthen (krefinc pa) (kthen memstats_inc_cow_shared (kret None)))))"

text \<open>
  The loop keeps the address it has reached, which the error path needs.
\<close>

fun uvmcopy_loop :: "nat \<Rightarrow> u64 \<Rightarrow> u64 \<Rightarrow> u64 \<Rightarrow> u64 \<Rightarrow> u64 option k" where
  "uvmcopy_loop 0 old new i sz = (\<lambda>s. Diverge)"
| "uvmcopy_loop (Suc n) old new i sz =
    (if i < sz
     then kbind (uvmcopy_page old new i) (\<lambda>r. case r of
            None \<Rightarrow> uvmcopy_loop n old new (i + PGSIZE) sz
          | Some _ \<Rightarrow> kret (Some i))
     else kret None)"

definition uvmcopy :: "u64 \<Rightarrow> u64 \<Rightarrow> u64 \<Rightarrow> int k" where
  "uvmcopy old new sz =
     kbind (uvmcopy_loop page_fuel old new 0 sz) (\<lambda>r. case r of
       None \<Rightarrow> kret 0
     | Some i \<Rightarrow> kthen (uvmunmap new 0 (i div PGSIZE) True) (kret (- 1)))"

definition uvmclear :: "u64 \<Rightarrow> u64 \<Rightarrow> unit k" where
  "uvmclear pagetable va =
     kbind (walk pagetable va False) (\<lambda>pte.
     kthen (kpanic_if (pte = 0) ''uvmclear'')
    (kbind (rd64 pte) (\<lambda>e. wr64 pte (e AND NOT PTE_U))))"

definition cowfault :: "u64 \<Rightarrow> u64 \<Rightarrow> int k" where
  "cowfault pagetable va0 =
    (let va = PGROUNDDOWN va0 in
     kbind (walk pagetable va False) (\<lambda>pte.
     if pte = 0 then kret (- 1)
     else kbind (rd64 pte) (\<lambda>e.
     if \<not> has_flag e PTE_V then kret (- 1)
     else if \<not> has_flag e PTE_COW then kret (- 1)
     else let pa = PTE2PA e; flags = PTE_FLAGS e in
     kbind kalloc (\<lambda>pg.
     if pg = 0 then kret (- 1)
     else kthen (kmodify (\<lambda>s. s\<lparr>mem := memmove (mem s) pg pa (unat PGSIZE)\<rparr>))
         (kthen (wr64 pte (PA2PTE pg OR (flags AND NOT PTE_COW) OR PTE_W))
         (kthen (krefdec pa)
         (kret 0)))))))"

subsection \<open>Lazy allocation\<close>

definition ismapped :: "u64 \<Rightarrow> u64 \<Rightarrow> bool k" where
  "ismapped pagetable va =
     kbind (walk pagetable va False) (\<lambda>pte.
     if pte = 0 then kret False
     else kbind (rd64 pte) (\<lambda>e. kret (has_flag e PTE_V)))"

definition vmfault :: "u64 \<Rightarrow> u64 \<Rightarrow> bool \<Rightarrow> u64 k" where
  "vmfault pagetable va0 rd =
     kbind curproc (\<lambda>p.
     kbind (kget (\<lambda>s. p_sz (procs s p))) (\<lambda>sz.
     if sz \<le> va0 then kret 0
     else let va = PGROUNDDOWN va0 in
     kbind (ismapped pagetable va) (\<lambda>im.
     if im then kret 0
     else kbind kalloc (\<lambda>pg.
     if pg = 0 then kret 0
     else kthen (memset_k pg 0 PGSIZE)
    (kbind (kget (\<lambda>s. p_pagetable (procs s p))) (\<lambda>ptp.
     kbind (mappages ptp va PGSIZE pg (PTE_W OR PTE_U OR PTE_R)) (\<lambda>r.
     if r \<noteq> 0 then kthen (kfree pg) (kret 0)
     else kret pg)))))))"


subsection \<open>Copying between kernel and user memory\<close>

text \<open>
  One page of \<open>copyout\<close>, up to the copy: the physical address of the page at \<open>va0\<close> once it
  is present, private and writable, \<open>None\<close> where the source returns -1. \<open>None\<close> passes
  through the later steps.
\<close>

definition some_bind :: "'a option k \<Rightarrow> ('a \<Rightarrow> 'b option k) \<Rightarrow> 'b option k" where
  "some_bind m f = kbind m (\<lambda>r. case r of None \<Rightarrow> kret None | Some x \<Rightarrow> f x)"

definition nonzero :: "u64 k \<Rightarrow> u64 option k" where
  "nonzero m = kbind m (\<lambda>x. kret (if x = 0 then None else Some x))"

definition copyout_present :: "u64 \<Rightarrow> u64 \<Rightarrow> (u64 \<times> u64) option k" where
  "copyout_present pagetable va0 =
     kbind (walk pagetable va0 False) (\<lambda>pte.
     kbind (if pte = 0 then kret True else kbind (rd64 pte) (\<lambda>e. kret (\<not> has_flag e PTE_V))) (\<lambda>missing.
     if missing
     then some_bind (nonzero (vmfault pagetable va0 False)) (\<lambda>pa0.
          some_bind (nonzero (walk pagetable va0 False)) (\<lambda>pte. kret (Some (pa0, pte))))
     else some_bind (nonzero (walkaddr pagetable va0)) (\<lambda>pa0. kret (Some (pa0, pte)))))"

definition copyout_private :: "u64 \<Rightarrow> u64 \<Rightarrow> u64 \<times> u64 \<Rightarrow> (u64 \<times> u64) option k" where
  "copyout_private pagetable va0 = (\<lambda>(pa0, pte).
     kbind (rd64 pte) (\<lambda>e.
     if has_flag e PTE_COW
     then kbind (cowfault pagetable va0) (\<lambda>c.
          if c \<noteq> 0 then kret None
          else some_bind (nonzero (walkaddr pagetable va0)) (\<lambda>pa0.
               some_bind (nonzero (walk pagetable va0 False)) (\<lambda>pte. kret (Some (pa0, pte)))))
     else kret (Some (pa0, pte))))"

definition copyout_page :: "u64 \<Rightarrow> u64 \<Rightarrow> u64 option k" where
  "copyout_page pagetable va0 =
     some_bind (copyout_present pagetable va0) (\<lambda>x.
     some_bind (copyout_private pagetable va0 x) (\<lambda>(pa0, pte).
     kbind (rd64 pte) (\<lambda>e. kret (if has_flag e PTE_W then Some pa0 else None))))"

text \<open>The bytes of the current page, at most \<open>len\<close> of them.\<close>

definition chunk :: "u64 \<Rightarrow> nat \<Rightarrow> nat" where
  "chunk va len = min (4096 - unat (va - PGROUNDDOWN va)) len"

lemma chunk_pos: "0 < len \<Longrightarrow> 0 < chunk va len"
proof -
  have "unat (va - PGROUNDDOWN va) < 4096"
    using page_offset_less [of va] by (simp add: word_less_nat_alt)
  then show "0 < len \<Longrightarrow> 0 < chunk va len" by (simp add: chunk_def)
qed

lemma chunk_le: "chunk va len \<le> len"
  by (simp add: chunk_def)

function copyout :: "u64 \<Rightarrow> u64 \<Rightarrow> u8 list \<Rightarrow> int k" where
  "copyout pagetable dstva src =
    (if src = [] then kret 0
     else let va0 = PGROUNDDOWN dstva; n = chunk dstva (length src) in
     if MAXVA \<le> va0 then kret (- 1)
     else kbind (copyout_page pagetable va0) (\<lambda>r. case r of
            None \<Rightarrow> kret (- 1)
          | Some pa0 \<Rightarrow>
              kthen (kmodify (\<lambda>s. s\<lparr>mem := mem_write (mem s) (pa0 + (dstva - va0)) (take n src)\<rparr>))
             (copyout pagetable (va0 + PGSIZE) (drop n src))))"
  by pat_completeness auto

termination
  by (relation "measure (\<lambda>(pt, va, src). length src)") (auto simp: chunk_pos)

text \<open>
  The result and the bytes that have been stored at \<^verbatim>\<open>dst\<close> and after.
\<close>

function copyin :: "u64 \<Rightarrow> u64 \<Rightarrow> nat \<Rightarrow> (int \<times> u8 list) k" where
  "copyin pagetable srcva len =
    (if len = 0 then kret (0, [])
     else let va0 = PGROUNDDOWN srcva; n = chunk srcva len in
     kbind (walkaddr pagetable va0) (\<lambda>pa.
     kbind (if pa = 0 then vmfault pagetable va0 False else kret pa) (\<lambda>pa0.
     if pa0 = 0 then kret (- 1, [])
     else kbind (kget (\<lambda>s. mem_read (mem s) (pa0 + (srcva - va0)) n)) (\<lambda>bs.
          kbind (copyin pagetable (va0 + PGSIZE) (len - n)) (\<lambda>(r, rest). kret (r, bs @ rest))))))"
  by pat_completeness auto

termination
  by (relation "measure (\<lambda>(pt, va, len). len)") (auto simp: chunk_pos)

text \<open>The inner loop of \<open>copyinstr\<close>: at most \<open>n\<close> bytes, and whether the NUL was among them.\<close>

fun copystr :: "pmem \<Rightarrow> u64 \<Rightarrow> nat \<Rightarrow> u8 list \<times> bool" where
  "copystr m p 0 = ([], False)"
| "copystr m p (Suc n) =
    (if m p = 0 then ([0], True)
     else let (bs, got) = copystr m (p + 1) n in (m p # bs, got))"

function copyinstr :: "u64 \<Rightarrow> u64 \<Rightarrow> nat \<Rightarrow> (int \<times> u8 list) k" where
  "copyinstr pagetable srcva mx =
    (if mx = 0 then kret (- 1, [])
     else let va0 = PGROUNDDOWN srcva; n = chunk srcva mx in
     kbind (walkaddr pagetable va0) (\<lambda>pa0.
     if pa0 = 0 then kret (- 1, [])
     else kbind (kget (\<lambda>s. copystr (mem s) (pa0 + (srcva - va0)) n)) (\<lambda>(bs, got).
          if got then kret (0, bs)
          else kbind (copyinstr pagetable (va0 + PGSIZE) (mx - n)) (\<lambda>(r, rest). kret (r, bs @ rest)))))"
  by pat_completeness auto

termination
  by (relation "measure (\<lambda>(pt, va, mx). mx)") (auto simp: chunk_pos)

end
