(* ===== verification/Vmspace.thy ===== *)
theory Vmspace
  imports Vm
begin

text \<open>
  Address spaces as maps: what \<open>mappages\<close>, \<open>uvmunmap\<close> and the faults of theory \<open>Vm\<close> do to the
  entries of a page table, given an allocator with enough free pages. \<open>as_ok\<close> is the
  well-formedness of an address space: its tables form a tree of pages the allocator has
  handed out.
\<close>

declare copyout.simps [simp del] copyin.simps [simp del] copyinstr.simps [simp del]

subsection \<open>Pages of an address space\<close>

definition upage :: "u64 \<Rightarrow> bool" where
  "upage va \<longleftrightarrow> va mod PGSIZE = 0 \<and> va < MAXVA"

lemma aligned_nat: "va mod PGSIZE = 0 \<longleftrightarrow> unat va mod 4096 = 0"
  for va :: u64
proof -
  have "va mod PGSIZE = 0 \<longleftrightarrow> unat (va mod PGSIZE) = 0" by (simp only: unat_eq_0)
  then show ?thesis by (simp add: unat_mod_distrib)
qed

lemma bit_PX: "bit (PX l va) n \<longleftrightarrow> n < 9 \<and> bit va (12 + 9 * l + n)"
  by (auto simp: PX_def PXSHIFT_def bit_simps mask_9 ac_simps)

lemma MAXVA_bits: "va < MAXVA \<Longrightarrow> 38 \<le> n \<Longrightarrow> \<not> bit va n"
  using small_bits [of va 38 n] by simp

lemma same_path_page:
  assumes "upage va" "upage va'"
  shows "same_path 2 va va' \<longleftrightarrow> va = va'"
proof
  assume sp: "same_path 2 va va'"
  have lvl: "bit va (12 + 9 * l + n) = bit va' (12 + 9 * l + n)" if "l \<le> 2" "n < 9" for l n
    using sp that bit_PX [of l va n] bit_PX [of l va' n] by (simp add: same_path_def)
  show "va = va'"
  proof (rule bit_eqI)
    fix n :: nat
    consider "n < 12" | "38 \<le> n" | l k where "l \<le> 2" "k < 9" "n = 12 + 9 * l + k"
    proof (cases "n < 12 \<or> 38 \<le> n")
      case False
      then have "n - 12 < 3 * 9" by arith
      then have "(n - 12) div 9 < 3" by (simp only: div_less_iff_less_mult)
      moreover have "n = 12 + 9 * ((n - 12) div 9) + (n - 12) mod 9"
        using False mult_div_mod_eq [of 9 "n - 12"] by linarith
      ultimately show thesis by (intro that(3) [of "(n - 12) div 9" "(n - 12) mod 9"]) simp_all
    qed (use that in blast)
    then show "bit va n = bit va' n"
      by cases (use assms lvl MAXVA_bits in \<open>auto simp: upage_def aligned_bits\<close>)
  qed
qed (simp add: same_path_def)

lemma PX_PGROUNDDOWN: "PX l (PGROUNDDOWN va) = PX l va"
  by (rule bit_eqI) (auto simp: bit_PX bit_PGROUNDDOWN)

lemma pte_at_PGROUNDDOWN: "pte_at m (PGROUNDDOWN va) l p = pte_at m va l p"
  by (induction l arbitrary: p) (simp_all add: pte_at_child PX_PGROUNDDOWN split: option.split)

lemma ptslot_PGROUNDDOWN: "ptslot m (PGROUNDDOWN va) l p = ptslot m va l p"
  by (induction l arbitrary: p) (simp_all add: ptslot_child PX_PGROUNDDOWN split: option.split)

subsection \<open>Well-formed address spaces\<close>

definition as_ok :: "kstate \<Rightarrow> u64 \<Rightarrow> bool" where
  "as_ok s pt \<longleftrightarrow> pt_wf (mem s) 2 pt \<and>
     (\<forall>q \<in> tables (mem s) 2 pt. page_ok s q \<and> 0 < refcount s (pidx q))"

text \<open>The entry of an address in the page table of an address space.\<close>

abbreviation upte :: "kstate \<Rightarrow> u64 \<Rightarrow> u64 \<Rightarrow> u64" where
  "upte s pt va \<equiv> pte_at (mem s) va 2 pt"

lemma as_ok_disjoint:
  assumes "as_ok s pt" "available s F"
  shows "tables (mem s) 2 pt \<inter> set F = {}"
  using assms by (force simp: as_ok_def available_def kmem_inv_def)

text \<open>
  What a change of address space \<open>pt\<close> has done: its tables have grown by \<open>G\<close>, the entry of
  \<open>va\<close> is \<open>e\<close>, all else is as it was.
\<close>

definition set_entry :: "kstate \<Rightarrow> kstate \<Rightarrow> u64 \<Rightarrow> u64 \<Rightarrow> u64 \<Rightarrow> u64 list \<Rightarrow> bool" where
  "set_entry s s' pt va e G \<longleftrightarrow> frame_mm s s' \<and>
     tables (mem s') 2 pt = tables (mem s) 2 pt \<union> set G \<and>
     (\<forall>va'. upte s' pt va' = (if same_path 2 va va' then e else upte s pt va')) \<and>
     (\<forall>q. q \<notin> tables (mem s) 2 pt \<union> set G \<longrightarrow> same_page (mem s') (mem s) q) \<and>
     refcount s' = (\<lambda>i. if i \<in> pidx ` set G then 1 else refcount s i)"


lemma walk_alloc:
  assumes "available s F" "as_ok s pt" "2 \<le> length F" "va < MAXVA"
  obtains n s' where "n \<le> 2" "walk pt va True s = Ok (ptslot (mem s') va 2 pt) s'"
    "ptslot (mem s') va 2 pt \<noteq> 0" "available s' (drop n F)" "grew s s' 2 pt (take n F)"
proof -
  have "walk_ok kalloc available s 2 pt va F"
    using assms as_ok_disjoint by (intro kmem.walk_from_alloc) (auto simp: as_ok_def)
  then obtain n s' where "n \<le> 2" "walk_from kalloc True va 2 pt s = Ok (ptslot (mem s') va 2 pt) s'"
    "ptslot (mem s') va 2 pt \<noteq> 0" "available s' (drop n F)" "grew s s' 2 pt (take n F)"
    by (auto simp: walk_ok_def)
  moreover have "walk pt va True s = walk_from kalloc True va 2 pt s"
    using assms(4) by (auto simp: walk_def walk_with_def kmonad)
  ultimately show thesis using that by simp
qed

lemma walk_lookup: "va < MAXVA \<Longrightarrow> walk pt va False s = Ok (ptslot (mem s) va 2 pt) s"
  by (simp add: walk_def walk_with_noalloc walk0_apply)

lemma walk_panic: "MAXVA \<le> va \<Longrightarrow> walk pt va alloc s = Panic ''walk''"
  by (simp add: walk_def walk_with_def kmonad)

lemma slot_aligned:
  assumes "pt_wf m l p" "ptslot m va l p \<noteq> 0"
  shows "ptslot m va l p mod 8 = 0" "PGROUNDDOWN (ptslot m va l p) \<in> tables m l p"
proof -
  obtain q where q: "q \<in> tables m l p" "ptslot m va l p = pte_addr q (PX 0 va)" "q mod PGSIZE = 0"
    using assms by (rule ptslot_in_tables)
  then show "ptslot m va l p mod 8 = 0" "PGROUNDDOWN (ptslot m va l p) \<in> tables m l p"
    by simp_all
qed

text \<open>A store through a walked pointer.\<close>

lemma set_entry_store:
  assumes wf: "pt_wf (mem s) 2 pt" and slot: "ptslot (mem s) va 2 pt \<noteq> 0"
  shows "set_entry s (s\<lparr>mem := store64 (mem s) (ptslot (mem s) va 2 pt) e\<rparr>) pt va e []"
    and "pt_wf (store64 (mem s) (ptslot (mem s) va 2 pt) e) 2 pt"
proof -
  let ?m = "store64 (mem s) (ptslot (mem s) va 2 pt) e"
  note st = pt_store [OF wf slot, of e]
  show "pt_wf ?m 2 pt" using st by blast
  have "same_page ?m (mem s) q" if "q \<notin> tables (mem s) 2 pt" for q
    using slot_aligned [OF wf slot] that by (intro same_page_store64) auto
  then show "set_entry s (s\<lparr>mem := ?m\<rparr>) pt va e []"
    using st by (auto simp: set_entry_def)
qed

lemma set_entry_grew:
  assumes g: "grew s s1 2 pt G" and st: "set_entry s1 s2 pt va e []"
  shows "set_entry s s2 pt va e G"
proof -
  have "same_page (mem s2) (mem s) q" if "q \<notin> tables (mem s) 2 pt \<union> set G" for q
    using g st that by (auto simp: grew_def set_entry_def intro: same_page_trans)
  moreover have "frame_mm s s2"
    using g st by (auto simp: grew_def set_entry_def intro: frame_mm_trans)
  ultimately show ?thesis using g st by (simp add: grew_def set_entry_def)
qed

lemma as_ok_set_entry:
  assumes "as_ok s pt" "set_entry s s' pt va e G" "pt_wf (mem s') 2 pt"
    and "\<And>p. p \<in> set G \<Longrightarrow> page_ok s p"
  shows "as_ok s' pt"
  using assms frame_mm_page_ok [of s s']
  by (auto simp: as_ok_def set_entry_def)

lemma as_ok_grew:
  assumes "as_ok s pt" "grew s s' 2 pt G" "\<And>p. p \<in> set G \<Longrightarrow> page_ok s p"
  shows "as_ok s' pt"
proof -
  have "frame_mm s s'" using assms(2) by (simp add: grew_def)
  note ok = frame_mm_page_ok [OF this]
  have "page_ok s' q \<and> 0 < refcount s' (pidx q)" if "q \<in> tables (mem s) 2 pt \<union> set G" for q
    using that assms by (auto simp: ok grew_def as_ok_def)
  then show ?thesis using assms(2) by (simp add: grew_def as_ok_def)
qed

text \<open>Another address space is not affected.\<close>

lemma set_entry_other:
  assumes "set_entry s s' pt va e G" "pt_wf (mem s) 2 pt'"
    and "tables (mem s) 2 pt' \<inter> (tables (mem s) 2 pt \<union> set G) = {}"
  shows "tables (mem s') 2 pt' = tables (mem s) 2 pt' \<and> pt_wf (mem s') 2 pt' \<and>
    ptslot (mem s') va' 2 pt' = ptslot (mem s) va' 2 pt' \<and> upte s' pt' va' = upte s pt' va'"
  using assms by (intro pt_frame) (auto simp: set_entry_def)

text \<open>A change that touches none of the free pages keeps them available.\<close>

lemma available_set_entry:
  assumes "available s F" "set_entry s s' pt va e []" "as_ok s pt" "kmem_freelist s' = kmem_freelist s"
  shows "available s' F"
proof (rule kmem.avail_frame [OF assms(1)])
  show "frame_mm s s'" using assms(2) by (simp add: set_entry_def)
  show "same_page (mem s') (mem s) p" if "p \<in> set F" for p
    using that as_ok_disjoint [OF assms(3,1)] assms(2) by (auto simp: set_entry_def)
  show "refcount s' (pidx p) = refcount s (pidx p)" for p
    using assms(2) by (simp add: set_entry_def)
qed (use assms(4) in simp)


subsection \<open>Mapping a page\<close>

lemma mappages_one_unfold:
  assumes "va mod PGSIZE = 0"
  shows "mappages pt va PGSIZE pa perm =
     kbind (walk pt va True) (\<lambda>pte.
     if pte = 0 then kret (- 1)
     else kbind (rd64 pte) (\<lambda>e.
     kthen (kpanic_if (has_flag e PTE_V) ''mappages: remap'')
    (kthen (wr64 pte (PA2PTE pa OR perm OR PTE_V)) (kret 0))))"
  using assms by (simp add: fun_eq_iff mappages_def kmonad)

lemma mappages_one:
  assumes av: "available s F" and as: "as_ok s pt" and len: "2 \<le> length F" and va: "upage va"
    and free: "\<not> has_flag (upte s pt va) PTE_V"
  obtains n s' where "n \<le> 2" "mappages pt va PGSIZE pa perm s = Ok 0 s'"
    "available s' (drop n F)" "as_ok s' pt"
    "set_entry s s' pt va (PA2PTE pa OR perm OR PTE_V) (take n F)"
proof -
  from va have va': "va mod PGSIZE = 0" "va < MAXVA" by (simp_all add: upage_def)
  let ?e = "PA2PTE pa OR perm OR PTE_V"
  obtain n s1 where w: "n \<le> 2" "walk pt va True s = Ok (ptslot (mem s1) va 2 pt) s1"
    "ptslot (mem s1) va 2 pt \<noteq> 0" "available s1 (drop n F)" "grew s s1 2 pt (take n F)"
    using walk_alloc [OF av as len va'(2)] .
  have wf1: "pt_wf (mem s1) 2 pt" and fr1: "frame_mm s s1" using w(5) by (simp_all add: grew_def)
  have "load64 (mem s1) (ptslot (mem s1) va 2 pt) = upte s pt va"
    using pte_at_slot [OF wf1, of va] w(3,5) by (simp add: grew_def)
  then have run: "mappages pt va PGSIZE pa perm s =
      Ok 0 (s1\<lparr>mem := store64 (mem s1) (ptslot (mem s1) va 2 pt) ?e\<rparr>)" (is "_ = Ok 0 ?s2")
    using free w(2,3) by (simp add: mappages_one_unfold [OF va'(1)] kmonad)
  note st = set_entry_store [OF wf1 w(3), of ?e]
  have G: "page_ok s p" if "p \<in> set (take n F)" for p
    using kmem.avail_pages [OF av] in_set_takeD [OF that] by simp
  have s2: "set_entry s ?s2 pt va ?e (take n F)"
    by (rule set_entry_grew [OF w(5) st(1)])
  have as2: "as_ok ?s2 pt"
    by (rule as_ok_set_entry [OF as s2 _ G]) (use st(2) in simp_all)
  have as1: "as_ok s1 pt" by (rule as_ok_grew [OF as w(5) G])
  have av2: "available ?s2 (drop n F)"
    by (rule available_set_entry [OF w(4) st(1) as1]) simp
  show thesis by (rule that [OF w(1) run av2 as2 s2])
qed

text \<open>A page that is mapped already is never mapped over: the kernel panics.\<close>

lemma mappages_remap:
  assumes "available s F" "as_ok s pt" "2 \<le> length F" "upage va" "has_flag (upte s pt va) PTE_V"
  shows "mappages pt va PGSIZE pa perm s = Panic ''mappages: remap''"
proof -
  from assms(4) have va: "va mod PGSIZE = 0" "va < MAXVA" by (simp_all add: upage_def)
  obtain n s1 where w: "n \<le> 2" "walk pt va True s = Ok (ptslot (mem s1) va 2 pt) s1"
    "ptslot (mem s1) va 2 pt \<noteq> 0" "available s1 (drop n F)" "grew s s1 2 pt (take n F)"
    using walk_alloc [OF assms(1-3) va(2)] .
  have "load64 (mem s1) (ptslot (mem s1) va 2 pt) = upte s pt va"
    using pte_at_slot [of "mem s1" 2 pt va] w(3,5) by (simp add: grew_def)
  with assms(5) w(2,3) show ?thesis by (simp add: mappages_one_unfold [OF va(1)] kmonad)
qed


subsection \<open>Several pages\<close>

text \<open>
  \<open>upd_space s s' pt f G\<close>: the entries of the pages in the domain of \<open>f\<close> are now those of
  \<open>f\<close>, all others are as they were; the tables have grown by \<open>G\<close>.
\<close>

definition upd_space :: "kstate \<Rightarrow> kstate \<Rightarrow> u64 \<Rightarrow> (u64 \<rightharpoonup> u64) \<Rightarrow> u64 list \<Rightarrow> bool" where
  "upd_space s s' pt f G \<longleftrightarrow> frame_mm s s' \<and>
     tables (mem s') 2 pt = tables (mem s) 2 pt \<union> set G \<and>
     (\<forall>va. upage va \<longrightarrow> upte s' pt va = (case f va of None \<Rightarrow> upte s pt va | Some e \<Rightarrow> e)) \<and>
     (\<forall>q. q \<notin> tables (mem s) 2 pt \<union> set G \<longrightarrow> same_page (mem s') (mem s) q) \<and>
     refcount s' = (\<lambda>i. if i \<in> pidx ` set G then 1 else refcount s i)"

lemma upd_space_one: "set_entry s s' pt va e G \<Longrightarrow> upage va \<Longrightarrow> upd_space s s' pt [va \<mapsto> e] G"
  by (auto simp: set_entry_def upd_space_def same_path_page)

lemma upd_space_trans:
  assumes "upd_space s s1 pt f G" "upd_space s1 s2 pt g H"
  shows "upd_space s s2 pt (f ++ g) (G @ H)"
proof -
  have "same_page (mem s2) (mem s) q" if "q \<notin> tables (mem s) 2 pt \<union> set (G @ H)" for q
    using assms that by (auto simp: upd_space_def intro: same_page_trans)
  moreover have "frame_mm s s2" using assms by (auto simp: upd_space_def intro: frame_mm_trans)
  moreover have "upte s2 pt va = (case (f ++ g) va of None \<Rightarrow> upte s pt va | Some e \<Rightarrow> e)"
    if "upage va" for va
    using assms that by (auto simp: upd_space_def map_add_def split: option.splits)
  moreover have "tables (mem s2) 2 pt = tables (mem s) 2 pt \<union> set (G @ H)"
    using assms by (auto simp: upd_space_def)
  moreover have "refcount s2 = (\<lambda>i. if i \<in> pidx ` set (G @ H) then 1 else refcount s i)"
    using assms by (auto simp: upd_space_def fun_eq_iff)
  ultimately show ?thesis unfolding upd_space_def by blast
qed

text \<open>The entries \<open>mappages\<close> writes.\<close>

primrec entries :: "u64 \<Rightarrow> u64 \<Rightarrow> u64 \<Rightarrow> nat \<Rightarrow> u64 \<rightharpoonup> u64" where
  "entries va pa perm 0 = Map.empty"
| "entries va pa perm (Suc n) =
     [va \<mapsto> PA2PTE pa OR perm OR PTE_V] ++ entries (va + PGSIZE) (pa + PGSIZE) perm n"

lemma upage_offset:
  assumes "upage va" "unat va + 4096 * n \<le> unat MAXVA" "i < n"
  shows "unat (va + of_nat i * PGSIZE) = unat va + 4096 * i" "upage (va + of_nat i * PGSIZE)"
proof -
  have lt: "unat va + 4096 * i < unat MAXVA" using assms(2,3) by simp
  have "unat (of_nat i * PGSIZE :: u64) = unat (of_nat (4096 * i) :: u64)" by (simp add: mult.commute)
  also have "\<dots> = 4096 * i" using lt by (subst unat_of_nat) simp
  finally show u: "unat (va + of_nat i * PGSIZE) = unat va + 4096 * i"
    using lt by (subst unat_add_lem [THEN iffD1]) simp_all
  have "(va + of_nat i * PGSIZE) mod PGSIZE = 0"
    using assms(1) u aligned_nat [of va] aligned_nat [of "va + of_nat i * PGSIZE"] by (simp add: upage_def)
  moreover have "va + of_nat i * PGSIZE < MAXVA" using u lt by (simp add: word_less_nat_alt)
  ultimately show "upage (va + of_nat i * PGSIZE)" by (simp add: upage_def)
qed

lemma upage_next:
  assumes "upage va" "unat va + 4096 * Suc n \<le> unat MAXVA" "0 < n"
  shows "upage (va + PGSIZE)" "unat (va + PGSIZE) = unat va + 4096" "va < va + PGSIZE"
  using upage_offset [OF assms(1,2), of 1] assms(3) by (simp_all add: word_less_nat_alt)

lemma entries_below: "entries va pa perm n a \<noteq> None \<Longrightarrow> unat va + 4096 * n \<le> unat MAXVA \<Longrightarrow> upage va \<Longrightarrow> va \<le> a"
proof (induction n arbitrary: va pa)
  case (Suc n)
  show ?case
  proof (cases "n = 0")
    case True
    with Suc.prems(1) show ?thesis by (auto split: if_splits)
  next
    case False
    then have n: "0 < n" by simp
    note nx = upage_next [OF Suc.prems(3,2) n]
    show ?thesis
    proof (cases "entries (va + PGSIZE) (pa + PGSIZE) perm n a")
      case None
      with Suc.prems(1) show ?thesis by (auto simp: map_add_def split: if_splits)
    next
      case (Some e)
      then have "va + PGSIZE \<le> a"
        using nx Suc.prems(2) by (intro Suc.IH [of _ "pa + PGSIZE"]) simp_all
      with nx(3) show ?thesis by simp
    qed
  qed
qed simp

declare mappages_loop.simps(2) [simp del]

lemma mappages_loop_step:
  assumes "va mod PGSIZE = 0" "mappages pt va PGSIZE pa perm s = Ok 0 s1"
  shows "mappages_loop (Suc n) pt va l pa perm s =
    (if va = l then Ok 0 s1 else mappages_loop n pt (va + PGSIZE) l (pa + PGSIZE) perm s1)"
  using assms(2)
  by (auto simp: mappages_one_unfold [OF assms(1)] mappages_loop.simps(2) kmonad
      split: outcome.splits if_splits)

text \<open>Mapping \<open>n + 1\<close> pages succeeds, with at most two table pages for each.\<close>

definition maps_ok :: "kstate \<Rightarrow> u64 list \<Rightarrow> u64 \<Rightarrow> u64 \<Rightarrow> u64 \<Rightarrow> u64 \<Rightarrow> nat \<Rightarrow> bool" where
  "maps_ok s F pt va pa perm n \<longleftrightarrow> (\<exists>k s'. k \<le> 2 * Suc n \<and>
    mappages_loop (Suc n) pt va (va + of_nat n * PGSIZE) pa perm s = Ok 0 s' \<and>
    available s' (drop k F) \<and> as_ok s' pt \<and>
    upd_space s s' pt (entries va pa perm (Suc n)) (take k F))"

lemma maps_ok_one:
  assumes "k \<le> 2" "mappages pt va PGSIZE pa perm s = Ok 0 s1" "available s1 (drop k F)"
    "as_ok s1 pt" "set_entry s s1 pt va (PA2PTE pa OR perm OR PTE_V) (take k F)" "upage va"
  shows "maps_ok s F pt va pa perm 0"
proof -
  have "va mod PGSIZE = 0" using assms(6) by (simp add: upage_def)
  then have "mappages_loop (Suc 0) pt va (va + of_nat 0 * PGSIZE) pa perm s = Ok 0 s1"
    using assms(2) by (simp add: mappages_loop_step)
  moreover have "upd_space s s1 pt (entries va pa perm (Suc 0)) (take k F)"
    using upd_space_one [OF assms(5,6)] by (simp only: entries.simps map_add_empty)
  moreover have "k \<le> 2 * Suc 0" using assms(1) by simp
  ultimately show ?thesis using assms(3,4) unfolding maps_ok_def by blast
qed

lemma maps_ok_step:
  assumes "k \<le> 2" "mappages pt va PGSIZE pa perm s = Ok 0 s1" "upage va" "va < va + PGSIZE"
    "upage (va + of_nat (Suc n) * PGSIZE)" "va < va + of_nat (Suc n) * PGSIZE"
    "set_entry s s1 pt va (PA2PTE pa OR perm OR PTE_V) (take k F)"
    "maps_ok s1 (drop k F) pt (va + PGSIZE) (pa + PGSIZE) perm n"
  shows "maps_ok s F pt va pa perm (Suc n)"
proof -
  obtain k' s' where IH: "k' \<le> 2 * Suc n"
    "mappages_loop (Suc n) pt (va + PGSIZE) (va + PGSIZE + of_nat n * PGSIZE) (pa + PGSIZE) perm s1 = Ok 0 s'"
    "available s' (drop k' (drop k F))" "as_ok s' pt"
    "upd_space s1 s' pt (entries (va + PGSIZE) (pa + PGSIZE) perm (Suc n)) (take k' (drop k F))"
    using assms(8) by (auto simp: maps_ok_def)
  have l: "va + PGSIZE + of_nat n * PGSIZE = va + of_nat (Suc n) * PGSIZE" by (simp add: algebra_simps)
  have "va mod PGSIZE = 0" "va \<noteq> va + of_nat (Suc n) * PGSIZE"
    using assms(3,6) by (auto simp: upage_def)
  then have "mappages_loop (Suc (Suc n)) pt va (va + of_nat (Suc n) * PGSIZE) pa perm s = Ok 0 s'"
    using IH(2) assms(2) by (simp only: mappages_loop_step l if_False)
  moreover have "upd_space s s' pt (entries va pa perm (Suc (Suc n))) (take (k + k') F)"
    using upd_space_trans [OF upd_space_one [OF assms(7,3)] IH(5)]
    by (simp only: entries.simps(2) [of va] take_add)
  moreover have "k + k' \<le> 2 * Suc (Suc n)" using assms(1) IH(1) by simp
  moreover have "available s' (drop (k + k') F)" using IH(3) by (simp add: add.commute)
  ultimately show ?thesis using IH(4) unfolding maps_ok_def by blast
qed


lemma mappages_loop_ok:
  assumes "available s F" "as_ok s pt" "2 * Suc n \<le> length F" "upage va"
    and "unat va + 4096 * Suc n \<le> unat MAXVA"
    and "\<And>i. i \<le> n \<Longrightarrow> \<not> has_flag (upte s pt (va + of_nat i * PGSIZE)) PTE_V"
  shows "maps_ok s F pt va pa perm n"
  using assms
proof (induction n arbitrary: s F va pa)
  case 0
  have len: "2 \<le> length F" and free: "\<not> has_flag (upte s pt va) PTE_V"
    using 0(3) 0(6) [of 0] by simp_all
  show ?case
    by (rule mappages_one [OF 0(1,2) len 0(4) free]) (rule maps_ok_one [OF _ _ _ _ _ 0(4)])
next
  case (Suc n)
  have len: "2 \<le> length F" and free: "\<not> has_flag (upte s pt va) PTE_V"
    using Suc.prems(3) Suc.prems(6) [of 0] by simp_all
  obtain k s1 where m: "k \<le> 2" "mappages pt va PGSIZE pa perm s = Ok 0 s1" "available s1 (drop k F)"
    "as_ok s1 pt" "set_entry s s1 pt va (PA2PTE pa OR perm OR PTE_V) (take k F)"
    by (rule mappages_one [OF Suc.prems(1,2) len Suc.prems(4) free])
  note u1 = upd_space_one [OF m(5) Suc.prems(4)] and nx = upage_next [OF Suc.prems(4,5)]
    and off = upage_offset [OF Suc.prems(4,5)]
  have "\<not> has_flag (upte s1 pt (va + PGSIZE + of_nat i * PGSIZE)) PTE_V" if i: "i \<le> n" for i
  proof -
    have e: "va + PGSIZE + of_nat i * PGSIZE = va + of_nat (Suc i) * PGSIZE" by (simp add: algebra_simps)
    have "unat (va + of_nat (Suc i) * PGSIZE) \<noteq> unat va" using off(1) [of "Suc i"] i by simp
    then have "upte s1 pt (va + of_nat (Suc i) * PGSIZE) = upte s pt (va + of_nat (Suc i) * PGSIZE)"
      using u1 off(2) [of "Suc i"] i by (auto simp: upd_space_def)
    with Suc.prems(6) [of "Suc i"] i show ?thesis by (simp only: e) simp
  qed
  then have "maps_ok s1 (drop k F) pt (va + PGSIZE) (pa + PGSIZE) perm n"
    using m(1) Suc.prems(3,5) nx by (intro Suc.IH [OF m(3,4)]) simp_all
  moreover have "va < va + of_nat (Suc n) * PGSIZE" "upage (va + of_nat (Suc n) * PGSIZE)"
    using off [of "Suc n"] by (simp_all add: word_less_nat_alt)
  ultimately show ?case using m nx Suc.prems(4) by (intro maps_ok_step [OF m(1,2)]) simp_all
qed


lemma entries_None:
  "(\<And>i. i < n \<Longrightarrow> a \<noteq> va + of_nat i * PGSIZE) \<Longrightarrow> entries va pa perm n a = None"
proof (induction n arbitrary: va pa)
  case (Suc n)
  have "entries (va + PGSIZE) (pa + PGSIZE) perm n a = None"
  proof (rule Suc.IH)
    fix i
    assume "i < n"
    with Suc.prems [of "Suc i"] show "a \<noteq> va + PGSIZE + of_nat i * PGSIZE" by (simp add: algebra_simps)
  qed
  with Suc.prems [of 0] show ?case by (simp add: map_add_def)
qed simp

lemma entries_at:
  assumes "upage va" "unat va + 4096 * n \<le> unat MAXVA" "i < n"
  shows "entries va pa perm n (va + of_nat i * PGSIZE) =
    Some (PA2PTE (pa + of_nat i * PGSIZE) OR perm OR PTE_V)"
  using assms
proof (induction n arbitrary: va pa i)
  case (Suc n)
  note off = upage_offset [OF Suc.prems(1,2)]
  show ?case
  proof (cases i)
    case 0
    have "entries (va + PGSIZE) (pa + PGSIZE) perm n va = None"
    proof (rule entries_None)
      fix j
      assume "j < n"
      then have "unat (va + of_nat (Suc j) * PGSIZE) \<noteq> unat va" using off(1) [of "Suc j"] by simp
      then show "va \<noteq> va + PGSIZE + of_nat j * PGSIZE" by (auto simp: algebra_simps)
    qed
    with 0 show ?thesis by (simp add: map_add_def)
  next
    case (Suc j)
    with Suc.prems have j: "j < n" by simp
    then have "0 < n" by simp
    note nx = upage_next [OF Suc.prems(1,2) this]
    have "entries (va + PGSIZE) (pa + PGSIZE) perm n (va + PGSIZE + of_nat j * PGSIZE) =
        Some (PA2PTE (pa + PGSIZE + of_nat j * PGSIZE) OR perm OR PTE_V)"
      using nx Suc.prems(2) j by (intro Suc.IH) simp_all
    then show ?thesis by (simp add: Suc map_add_def algebra_simps)
  qed
qed simp

lemma unat_pages: "4096 * n < 2 ^ 64 \<Longrightarrow> unat (of_nat n * PGSIZE :: u64) = 4096 * n"
proof -
  assume "4096 * n < 2 ^ 64"
  then have "unat (of_nat (4096 * n) :: u64) = 4096 * n" by (subst unat_of_nat) simp
  then show ?thesis by (simp add: mult.commute)
qed

lemma mappages_whole:
  assumes n: "n = Suc m" and "4096 * n < 2 ^ 64" "upage va"
  shows "mappages pt va (of_nat n * PGSIZE) pa perm s =
    mappages_loop (Suc m) pt va (va + of_nat m * PGSIZE) pa perm s"
proof -
  note u = unat_pages [OF assms(2)]
  have "(of_nat n * PGSIZE :: u64) mod PGSIZE = 0" using u aligned_nat by simp
  moreover have "(of_nat n * PGSIZE :: u64) \<noteq> 0" using u n by auto
  moreover have "unat (of_nat n * PGSIZE div PGSIZE :: u64) = Suc m"
    using u n by (simp add: unat_div_distrib)
  moreover have "va + of_nat n * PGSIZE - PGSIZE = va + of_nat m * PGSIZE"
    by (simp add: n algebra_simps)
  ultimately show ?thesis using assms(3)
    by (simp only: mappages_def kmonad upage_def) simp
qed

lemma mappages_maps:
  assumes "available s F" "as_ok s pt" "2 * n \<le> length F" "0 < n" "upage va"
    and "unat va + 4096 * n \<le> unat MAXVA"
    and "\<And>i. i < n \<Longrightarrow> \<not> has_flag (upte s pt (va + of_nat i * PGSIZE)) PTE_V"
  obtains k s' where "k \<le> 2 * n" "mappages pt va (of_nat n * PGSIZE) pa perm s = Ok 0 s'"
    "available s' (drop k F)" "as_ok s' pt" "upd_space s s' pt (entries va pa perm n) (take k F)"
proof -
  obtain m where n: "n = Suc m" using assms(4) by (cases n) auto
  have "maps_ok s F pt va pa perm m"
    using assms(3-7) by (intro mappages_loop_ok [OF assms(1,2)]) (simp_all add: n)
  moreover have "mappages pt va (of_nat n * PGSIZE) pa perm s =
      mappages_loop (Suc m) pt va (va + of_nat m * PGSIZE) pa perm s"
    using mappages_whole [OF n _ assms(5)] assms(6) by simp
  ultimately show thesis using that n unfolding maps_ok_def by auto
qed

end
