(* ===== verification/Vmuser.thy ===== *)
theory Vmuser
  imports Vmspace
begin

text \<open>
  User memory as the kernel reads and writes it: the byte at a user address through the page
  table, and the behaviour of \<open>walkaddr\<close>, \<open>copyin\<close> and \<open>copyout\<close> of \<^verbatim>\<open>kernel/vm.c\<close> on mapped
  memory.
\<close>

text \<open>The byte at a user address, through the page table.\<close>

definition ubyte :: "kstate \<Rightarrow> u64 \<Rightarrow> u64 \<Rightarrow> u8" where
  "ubyte s pt va = mem s (PTE2PA (upte s pt va) + (va - PGROUNDDOWN va))"

lemma upte_PGROUNDDOWN: "upte s pt (PGROUNDDOWN va) = upte s pt va"
  by (simp add: pte_at_PGROUNDDOWN)

lemma ubyte_page: "PGROUNDDOWN (PTE2PA e + (va - PGROUNDDOWN va)) = PTE2PA e"
  using page_offset_less [of va] by (intro PGROUNDDOWN_plus) simp_all

lemma ubyte_same:
  assumes "PTE2PA (upte s' pt' va) = PTE2PA (upte s pt va)"
    "same_page (mem s') (mem s) (PTE2PA (upte s pt va))"
  shows "ubyte s' pt' va = ubyte s pt va"
  using assms ubyte_page [of "upte s pt va" va] by (simp add: ubyte_def same_page_def)

subsection \<open>Mapped addresses\<close>

definition uaddr :: "kstate \<Rightarrow> u64 \<Rightarrow> u64 \<Rightarrow> u64" where
  "uaddr s pt va = PTE2PA (upte s pt va) + (va - PGROUNDDOWN va)"

lemma ubyte_uaddr: "ubyte s pt va = mem s (uaddr s pt va)"
  by (simp add: ubyte_def uaddr_def)

definition ureadable :: "kstate \<Rightarrow> u64 \<Rightarrow> u64 \<Rightarrow> bool" where
  "ureadable s pt va \<longleftrightarrow> va < MAXVA \<and> has_flag (upte s pt va) PTE_V \<and> has_flag (upte s pt va) PTE_U \<and>
     PTE2PA (upte s pt va) \<noteq> 0"

text \<open>Writable, not shared, and not a page of the page table itself.\<close>

definition uwritable :: "kstate \<Rightarrow> u64 \<Rightarrow> u64 \<Rightarrow> bool" where
  "uwritable s pt va \<longleftrightarrow> ureadable s pt va \<and> has_flag (upte s pt va) PTE_W \<and>
     \<not> has_flag (upte s pt va) PTE_COW \<and> PTE2PA (upte s pt va) \<notin> tables (mem s) 2 pt"

lemma walk_mapped:
  assumes "pt_wf (mem s) 2 pt" "va < MAXVA" "has_flag (upte s pt va) PTE_V"
  shows "walk pt va False s = Ok (ptslot (mem s) va 2 pt) s" "ptslot (mem s) va 2 pt \<noteq> 0"
    "load64 (mem s) (ptslot (mem s) va 2 pt) = upte s pt va"
  using assms pte_at_slot [OF assms(1), of va] by (auto simp: walk_lookup split: if_splits)

lemma PGROUNDDOWN_lt: "va < MAXVA \<Longrightarrow> PGROUNDDOWN va < MAXVA"
  using PGROUNDDOWN_le [of va] by (rule le_less_trans)

lemma ureadable_page: "ureadable s pt va \<Longrightarrow> ureadable s pt (PGROUNDDOWN va)"
  by (simp add: ureadable_def pte_at_PGROUNDDOWN PGROUNDDOWN_lt)

lemma uwritable_page: "uwritable s pt va \<Longrightarrow> uwritable s pt (PGROUNDDOWN va)"
  by (simp add: uwritable_def ureadable_page pte_at_PGROUNDDOWN)

lemma walkaddr_readable:
  assumes "pt_wf (mem s) 2 pt" "ureadable s pt va"
  shows "walkaddr pt va s = Ok (PTE2PA (upte s pt va)) s"
  using assms walk_mapped [of s pt va] by (simp add: walkaddr_def ureadable_def kmonad not_le)

lemma copyout_page_writable:
  assumes "pt_wf (mem s) 2 pt" "uwritable s pt va"
  shows "copyout_page pt va s = Ok (Some (PTE2PA (upte s pt va))) s"
  using assms walk_mapped [of s pt va] walkaddr_readable [of s pt va]
  by (simp add: copyout_page_def copyout_present_def copyout_private_def some_bind_def nonzero_def
      uwritable_def ureadable_def kmonad)

subsection \<open>The bytes of one page\<close>

lemma chunk_offset:
  assumes "i < chunk va len"
  shows "PGROUNDDOWN (va + of_nat i) = PGROUNDDOWN va"
    "va + of_nat i - PGROUNDDOWN va = va - PGROUNDDOWN va + of_nat i"
proof -
  let ?off = "va - PGROUNDDOWN va"
  have i: "unat ?off + i < 4096" using assms unfolding chunk_def by linarith
  then have "unat (?off + of_nat i) = unat ?off + i"
    by (subst unat_add_lem [THEN iffD1]) (simp_all add: unat_of_nat)
  then have "?off + of_nat i < PGSIZE" using i by (simp add: word_less_nat_alt)
  then have "PGROUNDDOWN (PGROUNDDOWN va + (?off + of_nat i)) = PGROUNDDOWN va"
    by (intro PGROUNDDOWN_plus) simp_all
  moreover have "PGROUNDDOWN va + (?off + of_nat i) = va + of_nat i" by simp
  ultimately show "PGROUNDDOWN (va + of_nat i) = PGROUNDDOWN va" by metis
  show "va + of_nat i - PGROUNDDOWN va = ?off + of_nat i" by simp
qed

lemma chunk_uaddr:
  assumes "i < chunk va len"
  shows "uaddr s pt (va + of_nat i) = PTE2PA (upte s pt va) + (va - PGROUNDDOWN va) + of_nat i"
proof -
  have "upte s pt (va + of_nat i) = upte s pt va"
    using chunk_offset(1) [OF assms] by (metis pte_at_PGROUNDDOWN)
  then show ?thesis using chunk_offset [OF assms] by (simp add: uaddr_def)
qed

lemma chunk_next:
  assumes "chunk va len < len"
  shows "PGROUNDDOWN va + PGSIZE = va + of_nat (chunk va len)"
proof -
  have "chunk va len = 4096 - unat (va - PGROUNDDOWN va)" using assms by (simp add: chunk_def)
  moreover have "unat (va - PGROUNDDOWN va) < 4096"
    using page_offset_less [of va] by (simp add: word_less_nat_alt)
  ultimately have "(of_nat (chunk va len) :: u64) = 4096 - (va - PGROUNDDOWN va)"
    by (simp add: of_nat_diff)
  then show ?thesis by simp
qed

subsection \<open>copyin\<close>

lemma copyin_ok:
  assumes "pt_wf (mem s) 2 pt" "\<And>i. i < len \<Longrightarrow> ureadable s pt (va + of_nat i)"
  shows "copyin pt va len s = Ok (0, map (\<lambda>i. ubyte s pt (va + of_nat i)) [0..<len]) s"
  using assms(2)
proof (induction len arbitrary: va rule: less_induct)
  case (less len)
  show ?case
  proof (cases "len = 0")
    case False
    let ?n = "chunk va len" and ?off = "va - PGROUNDDOWN va"
    have n: "0 < ?n" "?n \<le> len" using False by (simp_all add: chunk_pos chunk_le)
    have r: "ureadable s pt va" using less.prems [of 0] False by simp
    note w = walkaddr_readable [OF assms(1) ureadable_page [OF r], unfolded pte_at_PGROUNDDOWN]
    have here: "mem_read (mem s) (PTE2PA (upte s pt va) + ?off) ?n =
        map (\<lambda>i. ubyte s pt (va + of_nat i)) [0..<?n]"
      by (simp add: mem_read_def ubyte_uaddr chunk_uaddr)
    have rest: "copyin pt (PGROUNDDOWN va + PGSIZE) (len - ?n) s =
        Ok (0, map (\<lambda>i. ubyte s pt (va + of_nat i)) [?n..<len]) s"
    proof (cases "?n = len")
      case False
      with n have nl: "?n < len" by simp
      have eq: "PGROUNDDOWN va + PGSIZE + of_nat i = va + of_nat (?n + i)" for i
        using chunk_next [OF nl] by simp
      have "copyin pt (PGROUNDDOWN va + PGSIZE) (len - ?n) s =
          Ok (0, map (\<lambda>i. ubyte s pt (PGROUNDDOWN va + PGSIZE + of_nat i)) [0..<len - ?n]) s"
      proof (rule less.IH)
        show "len - ?n < len" using n nl by simp
        show "ureadable s pt (PGROUNDDOWN va + PGSIZE + of_nat i)" if "i < len - ?n" for i
          unfolding eq by (rule less.prems) (use that in simp)
      qed
      moreover have "map (\<lambda>i. ubyte s pt (va + of_nat (?n + i))) [0..<len - ?n] =
          map (\<lambda>i. ubyte s pt (va + of_nat i)) [?n..<len]"
        by (rule nth_equalityI) simp_all
      ultimately show ?thesis by (simp only: eq)
    qed (simp add: copyin.simps kmonad)
    have "[0..<len] = [0..<?n] @ [?n..<len]" using n by (metis le_add_diff_inverse upt_add_eq_append zero_le)
    with w here rest r False show ?thesis
      by (subst copyin.simps) (simp add: kmonad Let_def ureadable_def)
  qed (simp add: copyin.simps kmonad)
qed

subsection \<open>copyout\<close>

text \<open>The pages of an address range are different pages of memory.\<close>

definition unaliased :: "kstate \<Rightarrow> u64 \<Rightarrow> u64 \<Rightarrow> nat \<Rightarrow> bool" where
  "unaliased s pt va len \<longleftrightarrow> (\<forall>i < len. \<forall>j < len.
     PGROUNDDOWN (va + of_nat i) \<noteq> PGROUNDDOWN (va + of_nat j) \<longrightarrow>
     PTE2PA (upte s pt (va + of_nat i)) \<noteq> PTE2PA (upte s pt (va + of_nat j)))"

text \<open>\<open>bs\<close> has been stored at the user address and after, and nothing else has changed.\<close>

definition ustored :: "kstate \<Rightarrow> u64 \<Rightarrow> u64 \<Rightarrow> u8 list \<Rightarrow> pmem \<Rightarrow> bool" where
  "ustored s pt va bs m \<longleftrightarrow>
     (\<forall>i < length bs. m (uaddr s pt (va + of_nat i)) = bs ! i) \<and>
     (\<forall>x. (\<forall>i < length bs. x \<noteq> uaddr s pt (va + of_nat i)) \<longrightarrow> m x = mem s x)"

lemma uaddr_page: "PGROUNDDOWN (uaddr s pt va) = PTE2PA (upte s pt va)"
  by (simp add: uaddr_def ubyte_page)

lemma ustored_frame:
  assumes "pt_wf (mem s) 2 pt" "ustored s pt va bs m"
    and "\<And>i. i < length bs \<Longrightarrow> uwritable s pt (va + of_nat i)"
  shows "pt_wf m 2 pt" "tables m 2 pt = tables (mem s) 2 pt" "pte_at m a 2 pt = upte s pt a"
proof -
  have "same_page m (mem s) q" if "q \<in> tables (mem s) 2 pt" for q
    unfolding same_page_def
  proof (intro allI impI)
    fix x
    assume x: "PGROUNDDOWN x = q"
    have "x \<noteq> uaddr s pt (va + of_nat i)" if "i < length bs" for i
      using assms(3) [OF that] x \<open>q \<in> _\<close> uaddr_page [of s pt "va + of_nat i"] by (auto simp: uwritable_def)
    with assms(2) show "m x = mem s x" by (simp add: ustored_def)
  qed
  from pt_frame [OF assms(1) this] show "pt_wf m 2 pt" "tables m 2 pt = tables (mem s) 2 pt"
    "pte_at m a 2 pt = upte s pt a" by blast+
qed

lemma ustored_chunk:
  assumes "length bs = chunk va len" 
  shows "ustored s pt va bs (mem_write (mem s) (PTE2PA (upte s pt va) + (va - PGROUNDDOWN va)) bs)"
proof -
  let ?a = "PTE2PA (upte s pt va) + (va - PGROUNDDOWN va)"
  have small: "length bs \<le> 4096" using assms by (simp add: chunk_def)
  have at: "uaddr s pt (va + of_nat i) = ?a + of_nat i" if "i < length bs" for i
    using that assms by (simp add: chunk_uaddr)
  have "mem_write (mem s) ?a bs x = mem s x" if x: "\<forall>i < length bs. x \<noteq> uaddr s pt (va + of_nat i)" for x
  proof -
    have "\<not> unat (x - ?a) < length bs"
    proof
      assume l: "unat (x - ?a) < length bs"
      then have "x \<noteq> ?a + of_nat (unat (x - ?a))" using x at by auto
      then show False by simp
    qed
    then show ?thesis by (simp add: mem_write_def)
  qed
  with at small show ?thesis by (simp add: ustored_def)
qed

lemma unat_range:
  assumes "\<And>i. i < len \<Longrightarrow> va + of_nat i < MAXVA" "k < len"
  shows "unat (va + of_nat k) = unat va + k"
  using assms(2)
proof (induction k)
  case (Suc k)
  then have "unat (va + of_nat k) < 2 ^ 38" using assms(1) [of k] by (simp add: word_less_nat_alt)
  then have "unat (va + of_nat k + 1) = unat (va + of_nat k) + 1"
    by (subst unat_add_lem [THEN iffD1]) simp_all
  with Suc show ?case by (simp add: algebra_simps)
qed simp

text \<open>The bytes after the first part are in other pages.\<close>

lemma chunk_apart:
  assumes "\<And>i. i < len \<Longrightarrow> va + of_nat i < MAXVA" "i < chunk va len" "chunk va len + j < len"
  shows "PGROUNDDOWN (va + of_nat (chunk va len + j)) \<noteq> PGROUNDDOWN (va + of_nat i)"
proof
  let ?x = "va + of_nat (chunk va len + j)"
  assume "PGROUNDDOWN ?x = PGROUNDDOWN (va + of_nat i)"
  then have "PGROUNDDOWN ?x = PGROUNDDOWN va" using chunk_offset(1) [OF assms(2)] by simp
  then have "?x - PGROUNDDOWN va < PGSIZE" by (metis page_offset_less)
  moreover have x: "unat ?x = unat va + chunk va len + j" using unat_range [OF assms(1,3)] by simp
  moreover have "PGROUNDDOWN va \<le> va" by (rule PGROUNDDOWN_le)
  moreover from this x have "PGROUNDDOWN va \<le> ?x" by (simp add: word_le_nat_alt del: of_nat_add)
  ultimately have "unat va + chunk va len + j - unat (PGROUNDDOWN va) < 4096"
    by (simp add: word_less_nat_alt unat_sub del: of_nat_add)
  moreover have "chunk va len = 4096 - (unat va - unat (PGROUNDDOWN va))"
    using assms(3) \<open>PGROUNDDOWN va \<le> va\<close> by (simp add: chunk_def unat_sub)
  moreover have "unat (PGROUNDDOWN va) \<le> unat va" using \<open>PGROUNDDOWN va \<le> va\<close> by (simp add: word_le_nat_alt)
  ultimately show False by linarith
qed

lemma unaliased_step:
  assumes "unaliased s pt va len" "chunk va len < len"
  shows "unaliased s pt (PGROUNDDOWN va + PGSIZE) (len - chunk va len)"
proof -
  have eq: "PGROUNDDOWN va + PGSIZE + of_nat i = va + of_nat (chunk va len + i)" for i
    using chunk_next [OF assms(2)] by simp
  show ?thesis using assms(1) unfolding unaliased_def eq by (auto simp del: of_nat_add)
qed

text \<open>Storing a first part, all of it in one page, and then the rest.\<close>

lemma ustored_append:
  assumes "ustored s pt va xs m" "ustored (s\<lparr>mem := m\<rparr>) pt (va + of_nat (length xs)) ys m'"
    and same: "\<And>a. pte_at m a 2 pt = upte s pt a"
    and apart: "\<And>i j. i < length xs \<Longrightarrow> j < length ys \<Longrightarrow>
      uaddr s pt (va + of_nat i) \<noteq> uaddr s pt (va + of_nat (length xs + j))"
  shows "ustored s pt va (xs @ ys) m'"
proof -
  have ua: "uaddr (s\<lparr>mem := m\<rparr>) pt a = uaddr s pt a" for a by (simp add: uaddr_def same)
  have ys: "m' (uaddr s pt (va + of_nat (length xs + j))) = ys ! j" if "j < length ys" for j
    using assms(2) that by (simp add: ustored_def ua add.assoc)
  have keep: "m' x = m x" if "\<And>j. j < length ys \<Longrightarrow> x \<noteq> uaddr s pt (va + of_nat (length xs + j))" for x
    using assms(2) that by (simp add: ustored_def ua add.assoc)
  have "m' (uaddr s pt (va + of_nat i)) = (xs @ ys) ! i" if i: "i < length (xs @ ys)" for i
  proof (cases "i < length xs")
    case True
    then have "m' (uaddr s pt (va + of_nat i)) = m (uaddr s pt (va + of_nat i))"
      using apart by (intro keep) blast
    with True assms(1) show ?thesis by (simp add: ustored_def nth_append)
  next
    case False
    with i have "i - length xs < length ys" by simp
    from ys [OF this] False show ?thesis by (simp add: nth_append)
  qed
  moreover have "m' x = mem s x" if x: "\<forall>i < length (xs @ ys). x \<noteq> uaddr s pt (va + of_nat i)" for x
  proof -
    have "m' x = m x" by (rule keep) (use x in \<open>simp del: of_nat_add\<close>)
    also have "\<dots> = mem s x" using assms(1) x by (simp add: ustored_def)
    finally show ?thesis .
  qed
  ultimately show ?thesis by (simp add: ustored_def)
qed

lemma copyout_ok:
  assumes "pt_wf (mem s) 2 pt" "\<And>i. i < length src \<Longrightarrow> uwritable s pt (va + of_nat i)"
    and "unaliased s pt va (length src)"
  shows "\<exists>m. copyout pt va src s = Ok 0 (s\<lparr>mem := m\<rparr>) \<and> ustored s pt va src m"
  using assms
proof (induction "length src" arbitrary: va src s rule: less_induct)
  case less
  show ?case
  proof (cases "src = []")
    case True
    then show ?thesis by (intro exI [of _ "mem s"]) (simp add: copyout.simps kmonad ustored_def)
  next
    case False
    let ?n = "chunk va (length src)" and ?off = "va - PGROUNDDOWN va"
    let ?m = "mem_write (mem s) (PTE2PA (upte s pt va) + ?off) (take ?n src)"
    have n: "0 < ?n" "?n \<le> length src" using False by (simp_all add: chunk_pos chunk_le)
    have w: "uwritable s pt va" using less.prems(2) [of 0] False by simp
    note pg = copyout_page_writable [OF less.prems(1) uwritable_page [OF w], unfolded pte_at_PGROUNDDOWN]
    have st: "ustored s pt va (take ?n src) ?m" by (rule ustored_chunk [of _ _ "length src"]) (use n in simp)
    note fr = ustored_frame [OF less.prems(1) st]
    have f: "pt_wf ?m 2 pt" "tables ?m 2 pt = tables (mem s) 2 pt" "\<And>a. pte_at ?m a 2 pt = upte s pt a"
      by (rule fr; use less.prems(2) in simp)+
    have run: "copyout pt va src s =
        copyout pt (PGROUNDDOWN va + PGSIZE) (drop ?n src) (s\<lparr>mem := ?m\<rparr>)"
      using pg False w PGROUNDDOWN_lt [of va]
      by (subst copyout.simps) (auto simp: kmonad Let_def uwritable_def ureadable_def)
    show ?thesis
    proof (cases "?n = length src")
      case True
      with run st show ?thesis by (simp add: copyout.simps kmonad) blast
    next
      case nl: False
      with n have nl: "?n < length src" by simp
      note nx = chunk_next [OF nl]
      have eq: "PGROUNDDOWN va + PGSIZE + of_nat i = va + of_nat (?n + i)" for i
        using nx by simp
      have uw: "uwritable (s\<lparr>mem := ?m\<rparr>) pt a = uwritable s pt a" for a
        by (simp add: uwritable_def ureadable_def f)
      have "\<exists>m. copyout pt (PGROUNDDOWN va + PGSIZE) (drop ?n src) (s\<lparr>mem := ?m\<rparr>) =
            Ok 0 (s\<lparr>mem := ?m\<rparr>\<lparr>mem := m\<rparr>) \<and>
          ustored (s\<lparr>mem := ?m\<rparr>) pt (PGROUNDDOWN va + PGSIZE) (drop ?n src) m"
      proof (rule less.hyps)
        show "length (drop ?n src) < length src" using n by simp
        show "pt_wf (mem (s\<lparr>mem := ?m\<rparr>)) 2 pt" using f by simp
        show "uwritable (s\<lparr>mem := ?m\<rparr>) pt (PGROUNDDOWN va + PGSIZE + of_nat i)" if "i < length (drop ?n src)" for i
          unfolding eq uw by (rule less.prems) (use that in simp)
        show "unaliased (s\<lparr>mem := ?m\<rparr>) pt (PGROUNDDOWN va + PGSIZE) (length (drop ?n src))"
          using unaliased_step [OF less.prems(3) nl] by (simp add: unaliased_def f)
      qed
      then obtain m where m: "copyout pt va src s = Ok 0 (s\<lparr>mem := m\<rparr>)"
        "ustored (s\<lparr>mem := ?m\<rparr>) pt (va + of_nat (length (take ?n src))) (drop ?n src) m"
        using run nx nl by auto
      have "ustored s pt va (take ?n src @ drop ?n src) m"
      proof (rule ustored_append [OF st m(2) f(3)])
        fix i j
        assume "i < length (take ?n src)" "j < length (drop ?n src)"
        then have ij: "i < ?n" "?n + j < length src" using nl by simp_all
        have "PGROUNDDOWN (va + of_nat (?n + j)) \<noteq> PGROUNDDOWN (va + of_nat i)"
          by (rule chunk_apart [OF _ ij]) (use less.prems(2) in \<open>simp add: uwritable_def ureadable_def\<close>)
        then have "PTE2PA (upte s pt (va + of_nat (?n + j))) \<noteq> PTE2PA (upte s pt (va + of_nat i))"
          using less.prems(3) ij by (simp add: unaliased_def del: of_nat_add)
        then show "uaddr s pt (va + of_nat i) \<noteq> uaddr s pt (va + of_nat (length (take ?n src) + j))"
          using ij nl by (metis uaddr_page length_take min.absorb4 nl)
      qed
      with m(1) show ?thesis by auto
    qed
  qed
qed

lemma unaliased_tl: "unaliased s pt va (Suc len) \<Longrightarrow> unaliased s pt (va + 1) len"
proof -
  assume u: "unaliased s pt va (Suc len)"
  have "va + 1 + of_nat i = va + of_nat (Suc i)" for i by simp
  with u show ?thesis unfolding unaliased_def by (metis Suc_less_eq)
qed

lemma uaddr_apart:
  assumes "unaliased s pt va len" "\<And>i. i < len \<Longrightarrow> ureadable s pt (va + of_nat i)" "i < j" "j < len"
  shows "uaddr s pt (va + of_nat i) \<noteq> uaddr s pt (va + of_nat j)"
proof
  let ?x = "va + of_nat i" and ?y = "va + of_nat j"
  assume eq: "uaddr s pt ?x = uaddr s pt ?y"
  then have "PTE2PA (upte s pt ?x) = PTE2PA (upte s pt ?y)" by (metis uaddr_page)
  with assms have pg: "PGROUNDDOWN ?x = PGROUNDDOWN ?y" unfolding unaliased_def by (meson less_trans)
  then have "upte s pt ?x = upte s pt ?y" by (metis upte_PGROUNDDOWN)
  with eq pg have "?x = ?y" by (simp add: uaddr_def)
  moreover have "unat ?x = unat va + i" "unat ?y = unat va + j"
    by (rule unat_range; use assms in \<open>auto simp: ureadable_def\<close>)+
  ultimately show False using assms(3) by simp
qed

end
