(* ===== verification/Vmcow.thy ===== *)
theory Vmcow
  imports Vmuser
begin

text \<open>
  Copy-on-write: what \<open>cowfault\<close> and \<open>uvmcopy\<close> of \<^verbatim>\<open>kernel/vm.c\<close> do to the address spaces and
  the physical pages, and the isolation that follows from it.
\<close>

subsection \<open>Resolving a copy-on-write fault\<close>

text \<open>The entry \<open>cowfault\<close> writes: the new page, writable, no longer copy-on-write.\<close>

definition cow_resolved :: "u64 \<Rightarrow> u64 \<Rightarrow> u64" where
  "cow_resolved pg e = PA2PTE pg OR (PTE_FLAGS e AND NOT PTE_COW) OR PTE_W"

text \<open>The new page holds the old one's bytes; no other page outside the tables changes.\<close>

definition page_copied :: "kstate \<Rightarrow> kstate \<Rightarrow> u64 \<Rightarrow> u64 \<Rightarrow> bool" where
  "page_copied s s' pg pa \<longleftrightarrow> (\<forall>x. PGROUNDDOWN x = pg \<longrightarrow> mem s' x = mem s (pa + (x - pg)))"

definition copy_page :: "kstate \<Rightarrow> u64 \<Rightarrow> u64 \<Rightarrow> kstate" where
  "copy_page s pg pa = s\<lparr>mem := memmove (mem s) pg pa 4096\<rparr>"

lemma copy_page_same:
  assumes "page_ok s pg" "page_ok s pa" "q \<noteq> pg"
  shows "same_page (mem (copy_page s pg pa)) (mem s) q"
  using assms by (auto simp: copy_page_def same_page_def memmove_page page_ok_def)

lemma copy_page_copied:
  assumes "page_ok s pg" "page_ok s pa"
  shows "page_copied s (copy_page s pg pa) pg pa"
  using assms by (auto simp: copy_page_def page_copied_def memmove_page page_ok_def)

text \<open>The state of the fault handler once it has a page with the copy.\<close>

lemma cowfault_copy:
  assumes av: "available s (pg # F)" and as: "as_ok s pt" and pa: "page_ok s pa" "0 < refcount s (pidx pa)"
  defines "s2 \<equiv> copy_page (popped_state pg s) pg pa"
  shows "kalloc s = Ok pg (popped_state pg s)" "pg \<noteq> 0" "available s2 F"
    "frame_mm s s2" "refcount s2 = (refcount s)(pidx pg := 1)" "page_copied s s2 pg pa"
    "\<And>q. q \<noteq> pg \<Longrightarrow> same_page (mem s2) (mem s) q"
proof -
  let ?s1 = "popped_state pg s"
  have pg: "page_ok s pg" "kmem_freelist s = pg" "kmem_unlocked s" "pg \<notin> set F"
    "refcount s (pidx pg) = 0"
    using av by (auto simp: available_def kmem_inv_def)
  have ne: "pa \<noteq> pg" using pa pg(5) by auto
  show "kalloc s = Ok pg ?s1" by (rule kalloc_free [OF pg(3,2,1)])
  show "pg \<noteq> 0" by (rule page_ok_nonzero [OF pg(1)])
  note ok1 = frame_mm_page_ok [OF frame_mm_popped]
  have same2: "same_page (mem s2) (mem ?s1) q" if "q \<noteq> pg" for q
    unfolding s2_def using that pg(1) pa(1) by (intro copy_page_same) (simp_all add: ok1)
  show same: "same_page (mem s2) (mem s) q" if "q \<noteq> pg" for q
    using same2 [OF that] same_page_popped [OF pg(1) that] by (rule same_page_trans)
  have av1: "available ?s1 F"
    using av kmem_inv_popped frame_mm_unlocked [OF frame_mm_popped] by (simp add: available_def)
  show "available s2 F"
  proof (rule kmem.avail_frame [OF av1])
    show "same_page (mem s2) (mem ?s1) p" if "p \<in> set F" for p
      using that pg(4) by (intro same2) auto
  qed (simp_all add: s2_def copy_page_def)
  show "frame_mm s s2"
    using frame_mm_popped [of s pg] by (rule frame_mm_trans) (simp add: s2_def copy_page_def)
  show "refcount s2 = (refcount s)(pidx pg := 1)" by (simp add: s2_def copy_page_def popped_state_def)
  have c: "page_copied ?s1 s2 pg pa"
    unfolding s2_def using pg(1) pa(1) by (intro copy_page_copied) (simp_all add: ok1)
  have pa1: "mem ?s1 (pa + (x - pg)) = mem s (pa + (x - pg))" if "PGROUNDDOWN x = pg" for x
  proof -
    have "PGROUNDDOWN (pa + (x - pg)) = pa"
      using that page_offset_less [of x] pa(1) by (intro PGROUNDDOWN_plus) auto
    then show ?thesis using same_page_popped [OF pg(1) ne] by (simp add: same_page_def)
  qed
  show "page_copied s s2 pg pa" using c pa1 by (simp add: page_copied_def)
qed


definition cow_done :: "kstate \<Rightarrow> kstate \<Rightarrow> u64 \<Rightarrow> u64 \<Rightarrow> u64 \<Rightarrow> bool" where
  "cow_done s s' pt va pg \<longleftrightarrow>
     frame_mm s s' \<and> tables (mem s') 2 pt = tables (mem s) 2 pt \<and>
     (\<forall>va'. upte s' pt va' =
        (if same_path 2 va va' then cow_resolved pg (upte s pt va) else upte s pt va')) \<and>
     (\<forall>q. q \<notin> tables (mem s) 2 pt \<longrightarrow> q \<noteq> pg \<longrightarrow> same_page (mem s') (mem s) q) \<and>
     page_copied s s' pg (PTE2PA (upte s pt va)) \<and>
     refcount s' = (refcount s)(pidx pg := 1,
       pidx (PTE2PA (upte s pt va)) := refcount s (pidx (PTE2PA (upte s pt va))) - 1)"

text \<open>
  The hypotheses on the page the fault is about: present, copy-on-write, of the allocator's
  range with a count, and not itself a page of the page table.
\<close>

definition cow_page :: "kstate \<Rightarrow> u64 \<Rightarrow> u64 \<Rightarrow> bool" where
  "cow_page s pt va \<longleftrightarrow> has_flag (upte s pt va) PTE_V \<and> has_flag (upte s pt va) PTE_COW \<and>
     page_ok s (PTE2PA (upte s pt va)) \<and> 0 < refcount s (pidx (PTE2PA (upte s pt va))) \<and>
     PTE2PA (upte s pt va) \<notin> tables (mem s) 2 pt"

lemma cowfault_slot:
  assumes "as_ok s pt" "has_flag (upte s pt va) PTE_V"
  shows "ptslot (mem s) va 2 pt \<noteq> 0" "load64 (mem s) (ptslot (mem s) va 2 pt) = upte s pt va"
  using assms pte_at_slot [of "mem s" 2 pt va] by (auto simp: as_ok_def split: if_splits)

lemma cowfault_run:
  assumes "as_ok s pt" "va < MAXVA" "cow_page s pt va" "kalloc s = Ok pg s1" "pg \<noteq> 0"
  shows "cowfault pt va s = kthen (wr64 (ptslot (mem s) va 2 pt) (cow_resolved pg (upte s pt va)))
    (kthen (krefdec (PTE2PA (upte s pt va))) (kret 0)) (copy_page s1 pg (PTE2PA (upte s pt va)))"
proof -
  have lt: "PGROUNDDOWN va < MAXVA" using assms(2) PGROUNDDOWN_le [of va] by simp
  have path: "ptslot (mem s) (PGROUNDDOWN va) 2 pt = ptslot (mem s) va 2 pt"
    by (rule ptslot_PGROUNDDOWN)
  note slot = cowfault_slot [OF assms(1)]
  show ?thesis
    using assms lt path slot [of va]
    by (simp add: cowfault_def walk_lookup kmonad cow_page_def copy_page_def cow_resolved_def Let_def)
qed

text \<open>Changing the count of a page that is neither free nor a table.\<close>

definition recount :: "u64 \<Rightarrow> int \<Rightarrow> kstate \<Rightarrow> kstate" where
  "recount pa d s = s\<lparr>cpu := settle (cpu s),
     refcount := (refcount s)(pidx pa := refcount s (pidx pa) + d)\<rparr>"

lemma recount_simps [simp]: "mem (recount pa d s) = mem s" "syms (recount pa d s) = syms s"
  "kmem_freelist (recount pa d s) = kmem_freelist s" "frame_mm s (recount pa d s)"
  by (simp_all add: recount_def frame_mm_def)

lemma recount_page_ok [simp]: "page_ok (recount pa d s) = page_ok s"
  by (rule ext) (simp add: page_ok_def)

lemma available_recount:
  assumes "available s F" "page_ok s pa" "0 < refcount s (pidx pa)"
  shows "available (recount pa d s) F"
proof (rule kmem.avail_frame [OF assms(1)])
  show "refcount (recount pa d s) (pidx p) = refcount s (pidx p)" if "p \<in> set F" for p
  proof -
    have "refcount s (pidx p) = 0" using assms(1) that by (simp add: available_def kmem_inv_def)
    with assms(3) have "pidx p \<noteq> pidx pa" by auto
    then show ?thesis by (simp add: recount_def)
  qed
qed simp_all

lemma as_ok_recount:
  assumes "as_ok s pt" "page_ok s pa" "pa \<notin> tables (mem s) 2 pt"
  shows "as_ok (recount pa d s) pt"
proof -
  have "refcount (recount pa d s) (pidx q) = refcount s (pidx q)" if "q \<in> tables (mem s) 2 pt" for q
  proof -
    have "page_ok s q" using assms(1) that by (simp add: as_ok_def)
    then have "pidx q \<noteq> pidx pa" using page_ok_pidx [OF _ assms(2)] assms(3) that by auto
    then show ?thesis by (simp add: recount_def)
  qed
  with assms(1) show ?thesis by (simp add: as_ok_def)
qed

lemma krefdec_recount:
  assumes "available s F" "page_ok s pa" "0 < refcount s (pidx pa)"
  shows "krefdec pa s = Ok (refcount s (pidx pa) - 1) (recount pa (- 1) s)"
  using assms by (simp add: krefdec_apply available_def kmem_unlocked_def recount_def)

lemma krefinc_recount:
  assumes "available s F" "page_ok s pa"
  shows "krefinc pa s = Ok () (recount pa 1 s)"
  using assms by (simp add: krefinc_apply available_def kmem_unlocked_def recount_def)

lemma as_ok_frame:
  assumes "as_ok s pt" "frame_mm s s'" "\<And>q. q \<in> tables (mem s) 2 pt \<Longrightarrow> same_page (mem s') (mem s) q"
    and "\<And>q. q \<in> tables (mem s) 2 pt \<Longrightarrow> refcount s' (pidx q) = refcount s (pidx q)"
  shows "as_ok s' pt" "tables (mem s') 2 pt = tables (mem s) 2 pt"
    "ptslot (mem s') va 2 pt = ptslot (mem s) va 2 pt" "upte s' pt va = upte s pt va"
proof -
  have wf: "pt_wf (mem s) 2 pt" using assms(1) by (simp add: as_ok_def)
  note f = pt_frame [OF wf assms(3)]
  show "tables (mem s') 2 pt = tables (mem s) 2 pt"
    "ptslot (mem s') va 2 pt = ptslot (mem s) va 2 pt" "upte s' pt va = upte s pt va"
    using f by blast+
  then show "as_ok s' pt"
    using assms(1,4) f frame_mm_page_ok [OF assms(2)] by (simp add: as_ok_def)
qed

lemma cowfault_ok:
  assumes av: "available s (pg # F)" and as: "as_ok s pt" and va: "va < MAXVA" and cow: "cow_page s pt va"
  obtains s' where "cowfault pt va s = Ok 0 s'" "available s' F" "as_ok s' pt" "cow_done s s' pt va pg"
proof -
  let ?e = "upte s pt va" and ?a = "ptslot (mem s) va 2 pt"
  let ?pa = "PTE2PA ?e"
  define s2 where "s2 = copy_page (popped_state pg s) pg ?pa"
  define s3 where "s3 = s2\<lparr>mem := store64 (mem s2) ?a (cow_resolved pg ?e)\<rparr>"
  have pa: "page_ok s ?pa" "0 < refcount s (pidx ?pa)" "?pa \<notin> tables (mem s) 2 pt"
    using cow by (simp_all add: cow_page_def)
  note c = cowfault_copy [OF av as pa(1,2), folded s2_def]
  have pgT: "pg \<notin> tables (mem s) 2 pt" using as_ok_disjoint [OF as av] by simp
  have rc: "refcount s2 (pidx q) = refcount s (pidx q)" if "0 < refcount s (pidx q)" for q
    using c(5) that av by (auto simp: available_def kmem_inv_def)
  have same2: "same_page (mem s2) (mem s) q" "refcount s2 (pidx q) = refcount s (pidx q)"
    if "q \<in> tables (mem s) 2 pt" for q
    using that pgT as by (auto intro!: c(7) rc simp: as_ok_def)
  have f2: "as_ok s2 pt" "tables (mem s2) 2 pt = tables (mem s) 2 pt"
    "\<And>va. ptslot (mem s2) va 2 pt = ptslot (mem s) va 2 pt" "\<And>va. upte s2 pt va = upte s pt va"
    by (rule as_ok_frame [OF as c(4)], simp_all add: same2)+
  have slot: "?a \<noteq> 0" using cowfault_slot [OF as] cow by (simp add: cow_page_def)
  have wf2: "pt_wf (mem s2) 2 pt" using f2(1) by (simp add: as_ok_def)
  have e3: "set_entry s2 s3 pt va (cow_resolved pg ?e) []" and wf3: "pt_wf (mem s3) 2 pt"
    using set_entry_store [OF wf2, of va "cow_resolved pg ?e"] slot f2(3) [of va]
    by (simp_all add: s3_def)
  have as3: "as_ok s3 pt" by (rule as_ok_set_entry [OF f2(1) e3 wf3]) simp
  have av3: "available s3 F" by (rule available_set_entry [OF c(3) e3 f2(1)]) (simp add: s3_def)
  have fr3: "frame_mm s s3" using c(4) e3 by (auto simp: set_entry_def intro: frame_mm_trans)
  have pa3: "page_ok s3 ?pa" "0 < refcount s3 (pidx ?pa)" "?pa \<notin> tables (mem s3) 2 pt"
    using pa rc frame_mm_page_ok [OF fr3] e3 f2(2) by (auto simp: set_entry_def)
  have run: "cowfault pt va s = Ok 0 (recount ?pa (- 1) s3)"
    using cowfault_run [OF as va cow c(1,2), folded s2_def] krefdec_recount [OF av3 pa3(1,2)]
    by (simp add: kmonad s3_def)
  have "same_page (mem s3) (mem s) q" if "q \<notin> tables (mem s) 2 pt" "q \<noteq> pg" for q
    using c(7) [OF that(2)] that(1) e3 f2(2) by (auto simp: set_entry_def intro: same_page_trans)
  moreover have "page_copied s s3 pg ?pa"
    using c(6) e3 pgT f2(2) by (auto simp: set_entry_def page_copied_def same_page_def)
  moreover have "frame_mm s (recount ?pa (- 1) s3)" using fr3 by (rule frame_mm_trans) simp
  moreover have "refcount (recount ?pa (- 1) s3) = (refcount s)(pidx pg := 1,
      pidx ?pa := refcount s (pidx ?pa) - 1)"
    using e3 c(5) rc [OF pa(2)] by (simp add: recount_def set_entry_def fun_eq_iff)
  ultimately have "cow_done s (recount ?pa (- 1) s3) pt va pg"
    using e3 f2 by (simp add: cow_done_def set_entry_def page_copied_def)
  then show thesis
    using that [OF run] available_recount [OF av3 pa3(1,2)] as_ok_recount [OF as3 pa3(1,3)] by blast
qed


subsection \<open>Sharing pages at fork\<close>

text \<open>
  Which pages \<open>uvmcopy\<close> shares, and the entries it leaves in the parent and makes in the
  child: a writable page becomes copy-on-write in both.
\<close>

definition shares :: "u64 \<Rightarrow> bool" where
  "shares e \<longleftrightarrow> has_flag e PTE_V \<and> has_flag (PTE_FLAGS e) PTE_U"

definition becomes_cow :: "u64 \<Rightarrow> bool" where
  "becomes_cow e \<longleftrightarrow> shares e \<and> \<not> has_flag (PTE_FLAGS e) PTE_COW \<and> has_flag (PTE_FLAGS e) PTE_W"

definition cow_pte :: "u64 \<Rightarrow> u64" where
  "cow_pte e = (if becomes_cow e then (e AND NOT PTE_W) OR PTE_COW else e)"

definition child_pte :: "u64 \<Rightarrow> u64" where
  "child_pte e = PA2PTE (PTE2PA e) OR
     (if becomes_cow e then (PTE_FLAGS e AND NOT PTE_W) OR PTE_COW else PTE_FLAGS e) OR PTE_V"

text \<open>Parent and child have separate tables.\<close>

definition fork_ok :: "kstate \<Rightarrow> u64 list \<Rightarrow> u64 \<Rightarrow> u64 \<Rightarrow> bool" where
  "fork_ok s F old new \<longleftrightarrow> available s F \<and> as_ok s old \<and> as_ok s new \<and>
     tables (mem s) 2 old \<inter> tables (mem s) 2 new = {}"

text \<open>The page an entry maps is an allocated page that is not a page table.\<close>

definition data_ok :: "kstate \<Rightarrow> u64 \<Rightarrow> u64 \<Rightarrow> u64 \<Rightarrow> bool" where
  "data_ok s old new e \<longleftrightarrow> (shares e \<longrightarrow> page_ok s (PTE2PA e) \<and> 0 < refcount s (pidx (PTE2PA e)) \<and>
     PTE2PA e \<notin> tables (mem s) 2 old \<union> tables (mem s) 2 new)"

definition sharing_count :: "kstate \<Rightarrow> u64 \<Rightarrow> u64 list \<Rightarrow> nat \<Rightarrow> int" where
  "sharing_count s old A i =
     int (length (filter (\<lambda>a. shares (upte s old a) \<and> pidx (PTE2PA (upte s old a)) = i) A))"

text \<open>What copying the pages \<open>A\<close> has done.\<close>

definition copied :: "kstate \<Rightarrow> kstate \<Rightarrow> u64 \<Rightarrow> u64 \<Rightarrow> u64 list \<Rightarrow> u64 list \<Rightarrow> bool" where
  "copied s s' old new A G \<longleftrightarrow> frame_mm s s' \<and>
     tables (mem s') 2 old = tables (mem s) 2 old \<and>
     tables (mem s') 2 new = tables (mem s) 2 new \<union> set G \<and>
     (\<forall>va. upage va \<longrightarrow> upte s' old va = (if va \<in> set A then cow_pte (upte s old va) else upte s old va)) \<and>
     (\<forall>va. upage va \<longrightarrow> upte s' new va =
        (if va \<in> set A \<and> shares (upte s old va) then child_pte (upte s old va) else upte s new va)) \<and>
     (\<forall>q. q \<notin> tables (mem s) 2 old \<union> tables (mem s) 2 new \<union> set G \<longrightarrow> same_page (mem s') (mem s) q) \<and>
     (\<forall>i. 0 < refcount s i \<longrightarrow> refcount s' i = refcount s i + sharing_count s old A i)"

lemma copied_refl: "copied s s old new [] []"
  by (simp add: copied_def sharing_count_def)

lemma sharing_count_nonneg [simp]: "0 \<le> sharing_count s old A i"
  by (simp add: sharing_count_def)

lemma copied_trans:
  assumes 1: "copied s s1 old new [a] G" and 2: "copied s1 s2 old new A H"
    and "a \<notin> set A" "\<And>x. x \<in> set A \<Longrightarrow> upage x" "upage a"
  shows "copied s s2 old new (a # A) (G @ H)"
proof -
  have same: "upte s1 old x = upte s old x" if "x \<in> set A" for x
    using 1 that assms(3,4) by (auto simp: copied_def)
  have cnt: "sharing_count s1 old A i = sharing_count s old A i" for i
    unfolding sharing_count_def using same by (auto intro!: arg_cong [where f = length] filter_cong)
  have "frame_mm s s2" using 1 2 by (auto simp: copied_def intro: frame_mm_trans)
  moreover have "same_page (mem s2) (mem s) q"
    if "q \<notin> tables (mem s) 2 old \<union> tables (mem s) 2 new \<union> set (G @ H)" for q
    using 1 2 that by (auto simp: copied_def intro: same_page_trans)
  moreover have "refcount s2 i = refcount s i + sharing_count s old (a # A) i" if "0 < refcount s i" for i
  proof -
    have "refcount s1 i = refcount s i + sharing_count s old [a] i" using 1 that by (simp add: copied_def)
    moreover from this that have "0 < refcount s1 i" using sharing_count_nonneg [of s old "[a]" i] by linarith
    then have "refcount s2 i = refcount s1 i + sharing_count s1 old A i" using 2 by (simp add: copied_def)
    ultimately show ?thesis by (simp add: cnt) (simp add: sharing_count_def)
  qed
  moreover have "upte s2 old va = (if va \<in> set (a # A) then cow_pte (upte s old va) else upte s old va)"
    if "upage va" for va
    using 1 2 that assms(3) by (auto simp: copied_def)
  moreover have "upte s2 new va = (if va \<in> set (a # A) \<and> shares (upte s old va)
      then child_pte (upte s old va) else upte s new va)" if "upage va" for va
    using 1 2 that assms(3) same [of va] by (auto simp: copied_def)
  ultimately show ?thesis using 1 2 by (simp add: copied_def Un_assoc)
qed


lemma fork_map:
  assumes ok: "fork_ok t F old new" and len: "2 \<le> length F" and a: "upage a"
    and free: "\<not> has_flag (upte t new a) PTE_V"
    and pa: "page_ok t pa" "0 < refcount t (pidx pa)" "pa \<notin> tables (mem t) 2 old \<union> tables (mem t) 2 new"
  obtains k s1 where "k \<le> 2" "mappages new a PGSIZE pa fl t = Ok 0 s1"
    "krefinc pa s1 = Ok () (recount pa 1 s1)" "fork_ok (recount pa 1 s1) (drop k F) old new"
    "set_entry t s1 new a (PA2PTE pa OR fl OR PTE_V) (take k F)"
    "\<forall>va. upte s1 old va = upte t old va" "tables (mem s1) 2 old = tables (mem t) 2 old"
    "refcount s1 (pidx pa) = refcount t (pidx pa)"
proof -
  have av: "available t F" and asn: "as_ok t new" and aso: "as_ok t old"
    and disj: "tables (mem t) 2 old \<inter> tables (mem t) 2 new = {}"
    using ok by (simp_all add: fork_ok_def)
  obtain k s1 where m: "k \<le> 2" "mappages new a PGSIZE pa fl t = Ok 0 s1" "available s1 (drop k F)"
    "as_ok s1 new" and e: "set_entry t s1 new a (PA2PTE pa OR fl OR PTE_V) (take k F)"
    by (rule mappages_one [OF av asn len a free])
  have fr: "frame_mm t s1" using e by (simp add: set_entry_def)
  have G0: "refcount t (pidx q) = 0" if "q \<in> set (take k F)" for q
    using av in_set_takeD [OF that] by (simp add: available_def kmem_inv_def)
  have notG: "pidx q \<notin> pidx ` set (take k F)" if "0 < refcount t (pidx q)" for q
    using G0 that by fastforce
  have keep: "refcount s1 (pidx q) = refcount t (pidx q)" if "0 < refcount t (pidx q)" for q
    using e notG [OF that] by (simp add: set_entry_def)
  have old_pos: "0 < refcount t (pidx q)" if "q \<in> tables (mem t) 2 old" for q
    using aso that by (simp add: as_ok_def)
  have oldG: "q \<notin> set (take k F)" if "q \<in> tables (mem t) 2 old" for q
    using G0 old_pos [OF that] by fastforce
  have same: "same_page (mem s1) (mem t) q" if "q \<in> tables (mem t) 2 old" for q
    using e disj oldG [OF that] that by (auto simp: set_entry_def)
  have o: "as_ok s1 old" "tables (mem s1) 2 old = tables (mem t) 2 old"
    "\<And>va. upte s1 old va = upte t old va"
    by (rule as_ok_frame [OF aso fr], simp_all add: same keep old_pos)+
  have paG: "pa \<notin> set (take k F)" using G0 pa(2) by fastforce
  have pa1: "page_ok s1 pa" "0 < refcount s1 (pidx pa)"
    "pa \<notin> tables (mem s1) 2 old" "pa \<notin> tables (mem s1) 2 new"
    using pa paG keep frame_mm_page_ok [OF fr] e o(2) by (auto simp: set_entry_def)
  have "tables (mem s1) 2 old \<inter> tables (mem s1) 2 new = {}"
    using disj e o(2) oldG by (auto simp: set_entry_def)
  then have "fork_ok (recount pa 1 s1) (drop k F) old new"
    using available_recount [OF m(3) pa1(1,2)] as_ok_recount [OF o(1) pa1(1,3)]
      as_ok_recount [OF m(4) pa1(1,4)] by (simp add: fork_ok_def)
  then show thesis
    using m(1,2) krefinc_recount [OF m(3) pa1(1)] e o(2,3) keep [OF pa(2)]
    by (intro that [of k s1]) blast+
qed


text \<open>The parent's entry has been made copy-on-write (if it had to be) and nothing else.\<close>

definition marked :: "kstate \<Rightarrow> kstate \<Rightarrow> u64 \<Rightarrow> u64 \<Rightarrow> u64 \<Rightarrow> bool" where
  "marked s t old new a \<longleftrightarrow> frame_mm s t \<and> refcount t = refcount s \<and>
     tables (mem t) 2 old = tables (mem s) 2 old \<and> tables (mem t) 2 new = tables (mem s) 2 new \<and>
     (\<forall>va. upage va \<longrightarrow> upte t old va = (if va = a then cow_pte (upte s old a) else upte s old va)) \<and>
     (\<forall>va. upte t new va = upte s new va) \<and>
     (\<forall>q. q \<notin> tables (mem s) 2 old \<longrightarrow> same_page (mem t) (mem s) q)"

lemma marked_refl: "\<not> becomes_cow (upte s old a) \<Longrightarrow> marked s s old new a"
  by (simp add: marked_def cow_pte_def)

lemma fork_store:
  assumes ok: "fork_ok s F old new" and a: "upage a" and c: "becomes_cow (upte s old a)"
  defines "t \<equiv> s\<lparr>mem := store64 (mem s) (ptslot (mem s) a 2 old) (cow_pte (upte s old a))\<rparr>"
  shows "fork_ok t F old new" "marked s t old new a"
proof -
  have av: "available s F" and aso: "as_ok s old" and asn: "as_ok s new"
    and disj: "tables (mem s) 2 old \<inter> tables (mem s) 2 new = {}"
    using ok by (simp_all add: fork_ok_def)
  have slot: "ptslot (mem s) a 2 old \<noteq> 0"
    using cowfault_slot [OF aso] c by (simp add: becomes_cow_def shares_def)
  have wf: "pt_wf (mem s) 2 old" using aso by (simp add: as_ok_def)
  have e: "set_entry s t old a (cow_pte (upte s old a)) []" and wft: "pt_wf (mem t) 2 old"
    using set_entry_store [OF wf slot, of "cow_pte (upte s old a)"] by (simp_all add: t_def)
  have fr: "frame_mm s t" and rc: "refcount t = refcount s" using e by (simp_all add: set_entry_def)
  have "same_page (mem t) (mem s) q" if "q \<in> tables (mem s) 2 new" for q
    using e disj that by (auto simp: set_entry_def)
  then have n: "as_ok t new" "tables (mem t) 2 new = tables (mem s) 2 new"
    "\<And>va. upte t new va = upte s new va"
    by - (rule as_ok_frame [OF asn fr], simp_all add: rc)+
  have "as_ok t old" by (rule as_ok_set_entry [OF aso e wft]) simp
  moreover have "available t F" by (rule available_set_entry [OF av e aso]) (simp add: t_def)
  ultimately show "fork_ok t F old new" using n disj e by (simp add: fork_ok_def set_entry_def)
  show "marked s t old new a" using e n rc fr a by (auto simp: marked_def set_entry_def same_path_page)
qed

lemma copied_one:
  assumes mk: "marked s t old new a" and a: "upage a" and sh: "shares (upte s old a)"
    and e: "set_entry t s1 new a (child_pte (upte s old a)) G"
    and o: "\<And>va. upte s1 old va = upte t old va" "tables (mem s1) 2 old = tables (mem t) 2 old"
    and G: "\<And>q. q \<in> set G \<Longrightarrow> refcount s (pidx q) = 0"
  shows "copied s (recount (PTE2PA (upte s old a)) 1 s1) old new [a] G"
proof -
  let ?s2 = "recount (PTE2PA (upte s old a)) 1 s1"
  have "frame_mm s ?s2"
    using mk e by (auto simp: marked_def set_entry_def intro: frame_mm_trans recount_simps(4))
  moreover have "refcount ?s2 i = refcount s i + sharing_count s old [a] i" if "0 < refcount s i" for i
  proof -
    have "i \<notin> pidx ` set G" using G that by force
    then have "refcount s1 i = refcount s i" using mk e by (simp add: marked_def set_entry_def)
    then show ?thesis using sh by (auto simp: recount_def sharing_count_def)
  qed
  moreover have "same_page (mem ?s2) (mem s) q"
    if "q \<notin> tables (mem s) 2 old \<union> tables (mem s) 2 new \<union> set G" for q
    using mk e that by (auto simp: marked_def set_entry_def intro: same_page_trans)
  moreover have "upte ?s2 new va = (if va \<in> set [a] \<and> shares (upte s old va)
      then child_pte (upte s old va) else upte s new va)" if "upage va" for va
    using mk e sh that a by (auto simp: marked_def set_entry_def same_path_page)
  ultimately show ?thesis
    using mk e o by (simp add: copied_def) (auto simp: marked_def set_entry_def)
qed


text \<open>The statistics do not matter to address spaces.\<close>

definition restat :: "(memstats \<Rightarrow> memstats) \<Rightarrow> kstate \<Rightarrow> kstate" where
  "restat f s = s\<lparr>cpu := settle (cpu s), stats := f (stats s)\<rparr>"

lemma restat_simps [simp]: "mem (restat f s) = mem s" "refcount (restat f s) = refcount s"
  "kmem_freelist (restat f s) = kmem_freelist s" "frame_mm s (restat f s)"
  by (simp_all add: restat_def frame_mm_def)

lemma fork_ok_restat: "fork_ok s F old new \<Longrightarrow> fork_ok (restat f s) F old new"
proof -
  assume ok: "fork_ok s F old new"
  have "available (restat f s) F"
    by (rule kmem.avail_frame [of s F]) (use ok in \<open>simp_all add: fork_ok_def\<close>)
  with ok show ?thesis
    using frame_mm_page_ok [OF restat_simps(4)] by (simp add: fork_ok_def as_ok_def)
qed

lemma copied_restat: "copied s s' old new A G \<Longrightarrow> copied s (restat f s') old new A G"
  by (auto simp: copied_def intro: frame_mm_trans)

lemma memstats_inc_cow_shared_apply:
  "fork_ok s F old new \<Longrightarrow>
   memstats_inc_cow_shared s = Ok () (restat (cow_pages_shared_update (\<lambda>x. x + 1)) s)"
  by (simp add: memstats_inc_cow_shared_def with_stats_apply restat_def fork_ok_def available_def
      kmem_unlocked_def)

text \<open>One page is copied: the loop goes on, with at most two pages fewer.\<close>

definition page_done :: "kstate \<Rightarrow> u64 list \<Rightarrow> u64 \<Rightarrow> u64 \<Rightarrow> u64 \<Rightarrow> bool" where
  "page_done s F old new a \<longleftrightarrow> (\<exists>k s'. k \<le> 2 \<and> uvmcopy_page old new a s = Ok None s' \<and>
     fork_ok s' (drop k F) old new \<and> copied s s' old new [a] (take k F))"

lemma uvmcopy_page_skip:
  assumes "fork_ok s F old new" "upage a" "\<not> shares (upte s old a)"
  shows "page_done s F old new a"
proof -
  have wf: "pt_wf (mem s) 2 old" using assms(1) by (simp add: fork_ok_def as_ok_def)
  have "uvmcopy_page old new a s = Ok None s"
    using assms(2,3) pte_at_slot [OF wf, of a]
    by (auto simp: uvmcopy_page_def walk_lookup upage_def kmonad shares_def Let_def)
  moreover have "copied s s old new [a] []"
    using assms(3) by (auto simp: copied_def cow_pte_def becomes_cow_def sharing_count_def)
  ultimately show ?thesis unfolding page_done_def
    using assms(1) by (intro exI [of _ 0] exI [of _ s]) simp
qed

lemma uvmcopy_page_share:
  assumes ok: "fork_ok s F old new" and len: "2 \<le> length F" and a: "upage a"
    and sh: "shares (upte s old a)" and free: "\<not> has_flag (upte s new a) PTE_V"
    and data: "data_ok s old new (upte s old a)"
  shows "page_done s F old new a"
proof -
  let ?e = "upte s old a"
  let ?pa = "PTE2PA ?e"
  let ?fl = "if becomes_cow ?e then (PTE_FLAGS ?e AND NOT PTE_W) OR PTE_COW else PTE_FLAGS ?e"
  define t where "t = (if becomes_cow ?e
    then s\<lparr>mem := store64 (mem s) (ptslot (mem s) a 2 old) (cow_pte ?e)\<rparr> else s)"
  have okt: "fork_ok t F old new" and mk: "marked s t old new a"
    using fork_store [OF ok a] ok marked_refl by (auto simp: t_def)
  have rc: "refcount t = refcount s" "frame_mm s t" "upte t new a = upte s new a"
    "tables (mem t) 2 old \<union> tables (mem t) 2 new = tables (mem s) 2 old \<union> tables (mem s) 2 new"
    using mk by (simp_all add: marked_def)
  have pa: "page_ok t ?pa" "0 < refcount t (pidx ?pa)"
    "?pa \<notin> tables (mem t) 2 old \<union> tables (mem t) 2 new"
    using data sh frame_mm_page_ok [OF rc(2)] by (simp_all add: data_ok_def rc)
  have freet: "\<not> has_flag (upte t new a) PTE_V" using free rc(3) by simp
  obtain k s1 where m: "k \<le> 2" "mappages new a PGSIZE ?pa ?fl t = Ok 0 s1"
    "krefinc ?pa s1 = Ok () (recount ?pa 1 s1)" "fork_ok (recount ?pa 1 s1) (drop k F) old new"
    "set_entry t s1 new a (PA2PTE ?pa OR ?fl OR PTE_V) (take k F)"
    "\<forall>va. upte s1 old va = upte t old va" "tables (mem s1) 2 old = tables (mem t) 2 old"
    "refcount s1 (pidx ?pa) = refcount t (pidx ?pa)"
    by (rule fork_map [OF okt len a freet pa, of ?fl])
  have G: "refcount s (pidx q) = 0" if "q \<in> set (take k F)" for q
    using ok in_set_takeD [OF that] by (simp add: fork_ok_def available_def kmem_inv_def)
  have c: "copied s (recount ?pa 1 s1) old new [a] (take k F)"
    by (rule copied_one [OF mk a sh _ spec [OF m(6)] m(7) G]) (use m(5) in \<open>simp add: child_pte_def\<close>)
  define s3 where "s3 = (if has_flag (PTE_FLAGS ?e) PTE_COW then recount ?pa 1 s1
    else restat (cow_pages_shared_update (\<lambda>x. x + 1)) (recount ?pa 1 s1))"
  have "uvmcopy_page old new a s = Ok None s3"
    using cowfault_slot [of s old a] ok sh m(2,3) a memstats_inc_cow_shared_apply [OF m(4)]
    by (auto simp: uvmcopy_page_def walk_lookup upage_def kmonad Let_def s3_def t_def shares_def
        becomes_cow_def cow_pte_def fork_ok_def)
  moreover have "fork_ok s3 (drop k F) old new" "copied s s3 old new [a] (take k F)"
    using m(4) c fork_ok_restat copied_restat by (simp_all add: s3_def)
  ultimately show ?thesis using m(1) unfolding page_done_def by blast
qed


lemma uvmcopy_page_done:
  assumes "fork_ok s F old new" "2 \<le> length F" "upage a"
    "\<not> has_flag (upte s new a) PTE_V" "data_ok s old new (upte s old a)"
  shows "page_done s F old new a"
  using uvmcopy_page_skip uvmcopy_page_share assms by blast

text \<open>What a round needs of the pages still to be copied, which copying one page keeps.\<close>

definition copyable :: "kstate \<Rightarrow> u64 \<Rightarrow> u64 \<Rightarrow> u64 \<Rightarrow> bool" where
  "copyable s old new a \<longleftrightarrow>
     upage a \<and> \<not> has_flag (upte s new a) PTE_V \<and> data_ok s old new (upte s old a)"

lemma copyable_copied:
  assumes c: "copied s s' old new A G" and a: "a \<notin> set A" "copyable s old new a"
    and G: "\<And>q. q \<in> set G \<Longrightarrow> refcount s (pidx q) = 0"
  shows "copyable s' old new a"
proof -
  let ?e = "upte s old a"
  have e: "upte s' old a = ?e" "upte s' new a = upte s new a"
    using c a by (simp_all add: copied_def copyable_def)
  have "data_ok s' old new ?e"
  proof (unfold data_ok_def, intro impI)
    assume "shares ?e"
    then have d: "page_ok s (PTE2PA ?e)" "0 < refcount s (pidx (PTE2PA ?e))"
      "PTE2PA ?e \<notin> tables (mem s) 2 old \<union> tables (mem s) 2 new"
      using a(2) by (simp_all add: copyable_def data_ok_def)
    have "PTE2PA ?e \<notin> set G" using G d(2) by force
    moreover have "refcount s' (pidx (PTE2PA ?e)) \<ge> refcount s (pidx (PTE2PA ?e))"
      using c d(2) by (simp add: copied_def)
    then have "0 < refcount s' (pidx (PTE2PA ?e))" using d(2) by linarith
    ultimately show "page_ok s' (PTE2PA ?e) \<and> 0 < refcount s' (pidx (PTE2PA ?e)) \<and>
        PTE2PA ?e \<notin> tables (mem s') 2 old \<union> tables (mem s') 2 new"
      using c d frame_mm_page_ok [of s s'] by (simp add: copied_def)
  qed
  with e a(2) show ?thesis by (simp add: copyable_def)
qed

lemma pages_from_above:
  assumes "unat a + 4096 * n \<le> 2 ^ 64" "x \<in> set (pages_from a n)"
  shows "unat a \<le> unat x"
  using assms
proof (induction n arbitrary: a)
  case (Suc n)
  show ?case
  proof (cases "x = a \<or> n = 0")
    case False
    then have n: "0 < n" and x: "x \<in> set (pages_from (a + PGSIZE) n)" using Suc.prems(2) by auto
    have "unat (a + PGSIZE) = unat a + 4096"
      using Suc.prems(1) n by (intro unat_add_lem [THEN iffD1, of a PGSIZE, simplified]) simp
    then show ?thesis using Suc.IH [OF _ x] Suc.prems(1) by simp
  next
    case True
    then show ?thesis using Suc.prems(2) by auto
  qed
qed simp

lemma uvmcopy_loop_ok:
  assumes "unat sz + 8192 \<le> 2 ^ 64"
    and "fork_ok s F old new" "2 * npages i sz \<le> length F" "npages i sz < n"
    and "\<And>a. a \<in> set (pages_from i (npages i sz)) \<Longrightarrow> copyable s old new a"
  shows "\<exists>k s'. k \<le> 2 * npages i sz \<and> uvmcopy_loop n old new i sz s = Ok None s' \<and>
    fork_ok s' (drop k F) old new \<and> copied s s' old new (pages_from i (npages i sz)) (take k F)"
  using assms(2-)
proof (induction n arbitrary: i s F)
  case (Suc n)
  show ?case
  proof (cases "i < sz")
    case False
    then have "npages i sz = 0" by (simp add: npages_def word_less_nat_alt)
    with False Suc.prems(1) copied_refl [of s old new] show ?thesis
      by (intro exI [of _ 0] exI [of _ s]) (simp add: kmonad)
  next
    case True
    let ?A = "pages_from (i + PGSIZE) (npages (i + PGSIZE) sz)"
    note st = npages_step [OF True, simplified]
    have n: "npages i sz = Suc (npages (i + PGSIZE) sz)" and u: "unat (i + PGSIZE) = unat i + 4096"
      using st assms(1) by auto
    have ci: "copyable s old new i" using Suc.prems(4) n by simp
    have notin: "i \<notin> set ?A"
    proof
      assume "i \<in> set ?A"
      moreover have "unat (i + PGSIZE) + 4096 * npages (i + PGSIZE) sz \<le> 2 ^ 64"
        using assms(1) True u by (simp add: npages_def word_less_nat_alt)
      ultimately show False using pages_from_above u by fastforce
    qed
    obtain k s1 where 1: "k \<le> 2" "uvmcopy_page old new i s = Ok None s1"
      "fork_ok s1 (drop k F) old new" "copied s s1 old new [i] (take k F)"
      using uvmcopy_page_done [OF Suc.prems(1), of i] Suc.prems(2) n ci
      by (auto simp: copyable_def page_done_def)
    have G: "refcount s (pidx q) = 0" if "q \<in> set (take k F)" for q
      using Suc.prems(1) in_set_takeD [OF that] by (simp add: fork_ok_def available_def kmem_inv_def)
    have later: "copyable s1 old new a" if "a \<in> set ?A" for a
    proof (rule copyable_copied [OF 1(4) _ _ G])
      show "a \<notin> set [i]" using that notin by auto
      show "copyable s old new a" using Suc.prems(4) [of a] that n by simp
    qed
    have len: "2 * npages (i + PGSIZE) sz \<le> length (drop k F)"
      using Suc.prems(2) 1(1) n by simp
    obtain l s2 where 2: "l \<le> 2 * npages (i + PGSIZE) sz"
      "uvmcopy_loop n old new (i + PGSIZE) sz s1 = Ok None s2"
      "fork_ok s2 (drop l (drop k F)) old new" "copied s1 s2 old new ?A (take l (drop k F))"
      using Suc.IH [OF 1(3) len] later Suc.prems(3) n by auto
    have "copied s s2 old new (pages_from i (npages i sz)) (take (k + l) F)"
      using copied_trans [OF 1(4) 2(4) notin] later ci n by (simp add: copyable_def take_add)
    moreover have "uvmcopy_loop (Suc n) old new i sz s = Ok None s2"
      using True 1(2) 2(2) by (simp add: kmonad)
    moreover have "fork_ok s2 (drop (k + l) F) old new" using 2(3) by (simp add: add.commute)
    ultimately show ?thesis using 1(1) 2(1) n by (intro exI [of _ "k + l"] exI [of _ s2]) simp
  qed
qed simp


text \<open>The pages of a process of size \<open>sz\<close>.\<close>

lemma npages_0: "npages 0 sz = (unat sz + 4095) div 4096"
  by (simp add: npages_def)

lemma set_pages:
  assumes "sz \<le> MAXVA"
  shows "set (pages_from 0 (npages 0 sz)) = {va. upage va \<and> va < sz}"
proof (intro set_eqI iffI)
  have sz: "unat sz \<le> 2 ^ 38" using assms by (simp add: word_le_nat_alt)
  have u: "unat (of_nat i * PGSIZE :: u64) = 4096 * i" if "i < npages 0 sz" for i
    by (rule unat_pages) (use that sz in \<open>simp add: npages_0\<close>)
  fix va :: u64
  {
    assume "va \<in> set (pages_from 0 (npages 0 sz))"
    then obtain i where i: "i < npages 0 sz" "va = of_nat i * PGSIZE" by (auto simp: set_pages_from)
    have "unat va = 4096 * i" using u i by simp
    moreover have "4096 * i < unat sz" using i(1) by (simp add: npages_0)
    ultimately show "va \<in> {va. upage va \<and> va < sz}"
      using sz by (simp add: upage_def aligned_nat word_less_nat_alt)
  next
    assume "va \<in> {va. upage va \<and> va < sz}"
    then have a: "unat va mod 4096 = 0" "unat va < unat sz"
      by (simp_all add: upage_def aligned_nat word_less_nat_alt)
    let ?i = "unat va div 4096"
    have i: "?i < npages 0 sz" "4096 * ?i = unat va" using a by (auto simp: npages_0)
    then have "va = of_nat ?i * PGSIZE" using u [OF i(1)] by (simp only: word_unat_eq_iff)
    then show "va \<in> set (pages_from 0 (npages 0 sz))" using i(1) by (auto simp: set_pages_from)
  }
qed

end
