(* ===== verification/Vmfork.thy ===== *)
theory Vmfork
  imports Vmcow
begin

text \<open>
  The contract of \<open>uvmcopy\<close> and \<open>cowfault\<close> together: after a fork parent and child read the
  same bytes, no page is writable in both, and once a write fault is resolved the two address
  spaces no longer share the page.
\<close>

subsection \<open>Entries\<close>

lemma bit_flags: "bit (4 :: u64) n \<longleftrightarrow> n = 2" "bit (256 :: u64) n \<longleftrightarrow> n = 8"
proof -
  have "(4 :: u64) = 2 ^ 2" "(256 :: u64) = 2 ^ 8" by simp_all
  then show "bit (4 :: u64) n \<longleftrightarrow> n = 2" "bit (256 :: u64) n \<longleftrightarrow> n = 8"
    by (simp_all only: bit_exp_iff) auto
qed

text \<open>The ten bits of the flags.\<close>

abbreviation (input) in_flags :: "u64 \<Rightarrow> bool" where
  "in_flags f \<equiv> f AND NOT 0x3FF = 0"

lemma flags_small: "in_flags (PTE_FLAGS e)"
  by (rule bit_eqI) (auto simp: PTE_FLAGS_def bit_simps)

lemma flags_or: "in_flags f \<Longrightarrow> in_flags g \<Longrightarrow> in_flags (f OR g)"
  by (simp only: bit.conj_disj_distrib2) simp

lemma flags_and: "in_flags f \<Longrightarrow> in_flags (f AND g)"
proof -
  have "(f AND g) AND NOT 0x3FF = (f AND NOT 0x3FF) AND g" by (simp only: ac_simps)
  then show "in_flags f \<Longrightarrow> in_flags (f AND g)" by (simp only: zero_and_eq)
qed

lemmas flags_intros = flags_small flags_or flags_and

lemma PTE2PA_cow_pte [simp]: "PTE2PA (cow_pte e) = PTE2PA e"
proof -
  have "PTE2PA ((e AND NOT 4) OR 256) = PTE2PA e"
    by (rule bit_eqI, simp only: bit_PTE2PA bit_or_iff bit_and_iff bit_not_iff bit_flags possible_bit_def)
      auto
  then show ?thesis by (simp add: cow_pte_def)
qed

lemma PTE2PA_child_pte [simp]: "PTE2PA (child_pte e) = PTE2PA e"
  and PTE_FLAGS_child_pte: "PTE_FLAGS (child_pte e) =
    (if becomes_cow e then (PTE_FLAGS e AND NOT PTE_W) OR PTE_COW else PTE_FLAGS e) OR PTE_V"
proof -
  let ?f = "(if becomes_cow e then (PTE_FLAGS e AND NOT PTE_W) OR PTE_COW else PTE_FLAGS e)"
  have "in_flags ((PTE_FLAGS e AND NOT PTE_W) OR PTE_COW)"
    by (rule flags_or, rule flags_and, rule flags_small) simp
  then have "in_flags ?f" using flags_small [of e] by (simp only: split: if_split) blast
  then have "in_flags (?f OR PTE_V)" by (rule flags_or) simp
  then show "PTE2PA (child_pte e) = PTE2PA e" "PTE_FLAGS (child_pte e) = ?f OR PTE_V"
    unfolding child_pte_def or.assoc by (simp_all only: PTE2PA_PA2PTE PTE_FLAGS_PA2PTE PTE2PA_aligned)
qed

lemma PTE2PA_cow_resolved [simp]: "pg mod PGSIZE = 0 \<Longrightarrow> PTE2PA (cow_resolved pg e) = pg"
  and PTE_FLAGS_cow_resolved: "PTE_FLAGS (cow_resolved pg e) = (PTE_FLAGS e AND NOT PTE_COW) OR PTE_W"
proof -
  have "in_flags ((PTE_FLAGS e AND NOT PTE_COW) OR PTE_W)"
    by (rule flags_or, rule flags_and, rule flags_small) simp
  then show "pg mod PGSIZE = 0 \<Longrightarrow> PTE2PA (cow_resolved pg e) = pg"
    "PTE_FLAGS (cow_resolved pg e) = (PTE_FLAGS e AND NOT PTE_COW) OR PTE_W"
    unfolding cow_resolved_def or.assoc by (simp_all only: PTE2PA_PA2PTE PTE_FLAGS_PA2PTE)
qed

text \<open>A flag of an entry is a flag of its flag bits.\<close>

lemma has_flag_FLAGS:
  "PTE_FLAGS e AND PTE_W = e AND PTE_W" "PTE_FLAGS e AND PTE_COW = e AND PTE_COW"
  "PTE_FLAGS e AND PTE_V = e AND PTE_V" "PTE_FLAGS e AND PTE_U = e AND PTE_U"
  by (simp_all add: PTE_FLAGS_def and.assoc)


lemma clear_flag:
  "((f AND NOT PTE_W) OR PTE_COW) AND PTE_W = 0" "((f AND NOT PTE_W) OR PTE_COW) AND PTE_COW = PTE_COW"
  "((f AND NOT PTE_COW) OR PTE_W) AND PTE_COW = 0" "((f AND NOT PTE_COW) OR PTE_W) AND PTE_W = PTE_W"
  for f :: u64
  by (rule bit_eqI, simp only: bit_or_iff bit_and_iff bit_not_iff bit_flags bit_0_eq, auto)+

text \<open>The entries after a fork: neither is writable, and one that was writable is copy-on-write.\<close>

lemma fork_entries:
  assumes "shares e" "\<not> (has_flag e PTE_W \<and> has_flag e PTE_COW)"
  shows "\<not> has_flag (cow_pte e) PTE_W" "\<not> has_flag (child_pte e) PTE_W"
    "has_flag (cow_pte e) PTE_COW \<longleftrightarrow> has_flag e PTE_W \<or> has_flag e PTE_COW"
    "has_flag (child_pte e) PTE_COW \<longleftrightarrow> has_flag e PTE_W \<or> has_flag e PTE_COW"
proof -
  let ?f = "if becomes_cow e then (PTE_FLAGS e AND NOT PTE_W) OR PTE_COW else PTE_FLAGS e"
  have b: "becomes_cow e \<longleftrightarrow> has_flag e PTE_W"
    using assms by (auto simp: becomes_cow_def has_flag_FLAGS)
  show "\<not> has_flag (cow_pte e) PTE_W"
    by (cases "becomes_cow e") (simp_all only: cow_pte_def if_True if_False clear_flag, use b in simp_all)
  show "has_flag (cow_pte e) PTE_COW \<longleftrightarrow> has_flag e PTE_W \<or> has_flag e PTE_COW"
    by (cases "becomes_cow e") (simp_all only: cow_pte_def if_True if_False clear_flag, use b in simp_all)
  have "?f AND PTE_W = 0"
    by (cases "becomes_cow e") (simp_all only: if_True if_False clear_flag, use b in \<open>simp add: has_flag_FLAGS\<close>)
  then show "\<not> has_flag (child_pte e) PTE_W"
    unfolding has_flag_FLAGS(1) [of "child_pte e", symmetric] PTE_FLAGS_child_pte
    by (simp only: bit.conj_disj_distrib2) simp
  have "?f AND PTE_COW \<noteq> 0 \<longleftrightarrow> has_flag e PTE_W \<or> has_flag e PTE_COW"
    by (cases "becomes_cow e") (simp_all only: if_True if_False clear_flag, use b in \<open>simp_all add: has_flag_FLAGS\<close>)
  then show "has_flag (child_pte e) PTE_COW \<longleftrightarrow> has_flag e PTE_W \<or> has_flag e PTE_COW"
    unfolding has_flag_FLAGS(2) [of "child_pte e", symmetric] PTE_FLAGS_child_pte
    by (simp only: bit.conj_disj_distrib2) simp
qed


subsection \<open>What a process reads\<close>

lemma copied_views:
  assumes c: "copied s s' old new A G" and va: "upage (PGROUNDDOWN va)" "PGROUNDDOWN va \<in> set A"
    and sh: "shares (upte s old va)" and d: "data_ok s old new (upte s old va)"
    and G: "\<And>q. q \<in> set G \<Longrightarrow> refcount s (pidx q) = 0"
  shows "upte s' old va = cow_pte (upte s old va)" "upte s' new va = child_pte (upte s old va)"
    "ubyte s' old va = ubyte s old va" "ubyte s' new va = ubyte s old va"
proof -
  have "shares (upte s old (PGROUNDDOWN va))" using sh by (simp only: upte_PGROUNDDOWN)
  then have "upte s' old (PGROUNDDOWN va) = cow_pte (upte s old (PGROUNDDOWN va))"
    "upte s' new (PGROUNDDOWN va) = child_pte (upte s old (PGROUNDDOWN va))"
    using c va by (simp_all add: copied_def)
  then show e: "upte s' old va = cow_pte (upte s old va)" "upte s' new va = child_pte (upte s old va)"
    by (simp_all add: upte_PGROUNDDOWN)
  let ?pa = "PTE2PA (upte s old va)"
  have "?pa \<notin> set G" using d sh G by (force simp: data_ok_def)
  then have same: "same_page (mem s') (mem s) ?pa"
    using c d sh by (simp add: copied_def data_ok_def)
  show "ubyte s' old va = ubyte s old va" "ubyte s' new va = ubyte s old va"
    by (rule ubyte_same; use e same in simp)+
qed

text \<open>
  Resolving a fault in \<open>pt\<close>, of a page that the other address space \<open>other\<close> may map too. The
  other space is as it was, whatever is then written to the new page.
\<close>

definition user_data :: "kstate \<Rightarrow> u64 list \<Rightarrow> u64 \<Rightarrow> u64 \<Rightarrow> bool" where
  "user_data s F pt pa \<longleftrightarrow> page_ok s pa \<and> pa \<notin> set F \<and> pa \<notin> tables (mem s) 2 pt"

lemma cowfault_other:
  assumes ok: "fork_ok s (pg # F) other pt" and d: "cow_done s s' pt va pg" and c: "cow_page s pt va"
    and pa: "PTE2PA (upte s pt va) \<notin> tables (mem s) 2 other"
    and m: "\<And>x. PGROUNDDOWN x \<noteq> pg \<Longrightarrow> m x = mem s' x"
  shows "as_ok (s'\<lparr>mem := m\<rparr>) other" "tables m 2 other = tables (mem s) 2 other"
    "pte_at m a 2 other = upte s other a"
    "user_data s (pg # F) pt (PTE2PA (upte s other a)) \<Longrightarrow> ubyte (s'\<lparr>mem := m\<rparr>) other a = ubyte s other a"
proof -
  let ?t = "s'\<lparr>mem := m\<rparr>" and ?pa = "PTE2PA (upte s pt va)"
  have as: "as_ok s other" and av: "available s (pg # F)" using ok by (simp_all add: fork_ok_def)
  have pgr: "refcount s (pidx pg) = 0" using av by (simp add: available_def kmem_inv_def)
  have pos: "0 < refcount s (pidx q)" "page_ok s q" if "q \<in> tables (mem s) 2 other" for q
    using as that by (simp_all add: as_ok_def)
  have samem: "same_page m (mem s) q" if "q \<notin> tables (mem s) 2 pt" "q \<noteq> pg" for q
    using d that m by (simp add: cow_done_def same_page_def)
  have notp: "q \<notin> tables (mem s) 2 pt" "q \<noteq> pg" if "q \<in> tables (mem s) 2 other" for q
    using ok pos(1) [OF that] pgr that by (auto simp: fork_ok_def)
  have ne: "pidx q \<noteq> pidx pg \<and> pidx q \<noteq> pidx ?pa" if "q \<in> tables (mem s) 2 other" for q
    using pos [OF that] pgr pa that page_ok_pidx [of s q ?pa] c by (auto simp: cow_page_def)
  have fr: "frame_mm s ?t" using d by (simp add: cow_done_def frame_mm_def)
  have rc: "refcount ?t (pidx q) = refcount s (pidx q)" if "q \<in> tables (mem s) 2 other" for q
    using d ne [OF that] by (simp add: cow_done_def)
  have sm: "same_page (mem ?t) (mem s) q" if "q \<in> tables (mem s) 2 other" for q
    using samem [OF notp [OF that]] by simp
  note f = as_ok_frame [OF as fr sm rc, simplified]
  show "as_ok ?t other" "tables m 2 other = tables (mem s) 2 other" and e: "pte_at m a 2 other = upte s other a"
    using f by blast+
  show "ubyte ?t other a = ubyte s other a" if "user_data s (pg # F) pt (PTE2PA (upte s other a))"
    by (rule ubyte_same) (use e samem that in \<open>simp_all add: user_data_def\<close>)
qed

subsection \<open>An example: two address spaces\<close>

text \<open>
  Two empty address spaces, at \<^verbatim>\<open>0x80100000\<close> and \<^verbatim>\<open>0x80101000\<close>, and the page
  \<^verbatim>\<open>0x80102000\<close> mapped at address 0 of the second one with the given flags.
\<close>

definition demo_map :: "u64 \<Rightarrow> kstate" where
  "demo_map fl = (case mappages 0x80101000 0 PGSIZE 0x80102000 fl demo_mm of
     Ok _ s \<Rightarrow> recount 0x80102000 1 s | _ \<Rightarrow> demo_mm)"

lemma demo_empty:
  assumes "c mod PGSIZE = 0" "c \<noteq> 0" "c \<notin> set demo_free"
  shows "pt_wf (mem demo_mm) 2 c" "tables (mem demo_mm) 2 c = {c}" "upte demo_mm c va = 0"
proof -
  have "zero_page (mem demo_mm) c"
    using link_pages_other [of demo_free c] assms(3)
    by (simp add: zero_page_def demo_mm_def) (simp add: demo_free_def)
  then show "pt_wf (mem demo_mm) 2 c" "tables (mem demo_mm) 2 c = {c}" "upte demo_mm c va = 0"
    using zero_page_tree [OF _ assms(1,2)] by blast+
qed

lemma demo_fork_ok: "fork_ok demo_mm demo_free 0x80100000 0x80101000"
  using demo_empty [of "0x80100000"] demo_empty [of "0x80101000"] demo_mm_simps demo_mm_available
  by (simp add: fork_ok_def as_ok_def demo_free_def)

lemma demo_mapped:
  obtains k where "k \<le> 2" "fork_ok (demo_map fl) (drop k demo_free) 0x80100000 0x80101000"
    "upte (demo_map fl) 0x80101000 0 = PA2PTE 0x80102000 OR fl OR PTE_V"
    "\<forall>va. upte (demo_map fl) 0x80100000 va = 0" "page_ok (demo_map fl) 0x80102000"
    "refcount (demo_map fl) (pidx 0x80102000) = 2"
    "0x80102000 \<notin> tables (mem (demo_map fl)) 2 0x80100000 \<union> tables (mem (demo_map fl)) 2 0x80101000"
proof -
  note e = demo_empty [of "0x80100000"] demo_empty [of "0x80101000"]
  obtain k s1 where m: "k \<le> 2" "mappages 0x80101000 0 PGSIZE 0x80102000 fl demo_mm = Ok 0 s1"
    "krefinc 0x80102000 s1 = Ok () (recount 0x80102000 1 s1)"
    "fork_ok (recount 0x80102000 1 s1) (drop k demo_free) 0x80100000 0x80101000"
    "set_entry demo_mm s1 0x80101000 0 (PA2PTE 0x80102000 OR fl OR PTE_V) (take k demo_free)"
    "\<forall>va. upte s1 0x80100000 va = upte demo_mm 0x80100000 va"
    "tables (mem s1) 2 0x80100000 = tables (mem demo_mm) 2 0x80100000"
    "refcount s1 (pidx 0x80102000) = refcount demo_mm (pidx 0x80102000)"
    by (rule fork_map [OF demo_fork_ok _ _ _ demo_mm_simps(7), of 0 fl])
      (use e demo_mm_simps in \<open>simp_all add: demo_free_def upage_def\<close>)
  have d: "demo_map fl = recount 0x80102000 1 s1" using m(2) by (simp add: demo_map_def)
  have "0x80102000 \<notin> set (take k demo_free)"
    using in_set_takeD [of "0x80102000" k demo_free] by (auto simp: demo_free_def)
  then have t: "0x80102000 \<notin> tables (mem (demo_map fl)) 2 0x80100000 \<union> tables (mem (demo_map fl)) 2 0x80101000"
    using m(5,7) e by (simp add: d set_entry_def demo_free_def)
  have p: "page_ok (demo_map fl) 0x80102000"
    using demo_mm_simps m(5) frame_mm_page_ok [of demo_mm s1] by (simp add: d set_entry_def)
  have r: "refcount (demo_map fl) (pidx 0x80102000) = 2"
    using m(8) demo_mm_simps by (simp add: d recount_def)
  have u: "upte (demo_map fl) 0x80101000 0 = PA2PTE 0x80102000 OR fl OR PTE_V"
    "\<forall>va. upte (demo_map fl) 0x80100000 va = 0"
    using m(5,6) e(3) by (simp_all add: d set_entry_def same_path_def demo_free_def)
  show thesis using that [OF m(1) _ u p r t] m(4) d by simp
qed

subsection \<open>Copy-on-write isolates\<close>

text \<open>
  C7. Copy-on-write isolates. Let two address spaces have separate page tables and \<open>va\<close> be a
  copy-on-write page of \<open>pt\<close>. With a page \<open>pg\<close> left, \<open>cowfault\<close> returns 0; the faulting space
  reads what it read before, its entry is writable and no longer copy-on-write; the other space
  has the entries it had, and reads the bytes it read also after any byte is stored through the
  page the faulting space may now write.
\<close>

theorem cow_isolation:
  assumes ok: "fork_ok s (pg # F) other pt" and va: "va < MAXVA" and c: "cow_page s pt va"
    and pa: "PTE2PA (upte s pt va) \<notin> tables (mem s) 2 other"
  shows "\<exists>s'. cowfault pt va s = Ok 0 s' \<and> fork_ok s' F other pt \<and>
    PTE2PA (upte s' pt va) = pg \<and> has_flag (upte s' pt va) PTE_W \<and> \<not> has_flag (upte s' pt va) PTE_COW \<and>
    (\<forall>a. PGROUNDDOWN a = PGROUNDDOWN va \<longrightarrow> ubyte s' pt a = ubyte s pt a) \<and>
    (\<forall>a. upte s' other a = upte s other a) \<and>
    (\<forall>a off b. off < PGSIZE \<longrightarrow> user_data s (pg # F) pt (PTE2PA (upte s other a)) \<longrightarrow>
       ubyte (s'\<lparr>mem := (mem s')(pg + off := b)\<rparr>) other a = ubyte s other a)"
proof -
  have av: "available s (pg # F)" "as_ok s pt" using ok by (simp_all add: fork_ok_def)
  have pgal: "pg mod PGSIZE = 0" using av by (simp add: available_def kmem_inv_def page_ok_def)
  obtain s' where 1: "cowfault pt va s = Ok 0 s'" "available s' F" "as_ok s' pt"
    and d: "cow_done s s' pt va pg"
    using cowfault_ok [OF av va c] .
  note o = cowfault_other [OF ok d c pa, where m = "mem s'", simplified]
  have e: "upte s' pt va = cow_resolved pg (upte s pt va)"
    and pc: "page_copied s s' pg (PTE2PA (upte s pt va))"
    using d by (simp_all add: cow_done_def same_path_def)
  have "PTE_FLAGS (upte s' pt va) AND PTE_W = PTE_W" "PTE_FLAGS (upte s' pt va) AND PTE_COW = 0"
    by (simp_all only: e PTE_FLAGS_cow_resolved clear_flag)
  then have f: "has_flag (upte s' pt va) PTE_W" "\<not> has_flag (upte s' pt va) PTE_COW"
    by (simp_all add: has_flag_FLAGS)
  have "ubyte s' pt a = ubyte s pt a" if "PGROUNDDOWN a = PGROUNDDOWN va" for a
  proof -
    have ea: "upte s' pt a = cow_resolved pg (upte s pt va)" "upte s pt a = upte s pt va"
      using that upte_PGROUNDDOWN e by metis+
    have "PGROUNDDOWN (pg + (a - PGROUNDDOWN a)) = pg"
      using pgal page_offset_less [of a] by (intro PGROUNDDOWN_plus) simp_all
    then show ?thesis using pc pgal by (simp add: ubyte_def ea page_copied_def)
  qed
  moreover have "ubyte (s'\<lparr>mem := (mem s')(pg + off := b)\<rparr>) other a = ubyte s other a"
    if "off < PGSIZE" "user_data s (pg # F) pt (PTE2PA (upte s other a))" for a off b
    by (rule cowfault_other(4) [OF ok d c pa _ that(2)])
      (use PGROUNDDOWN_plus [OF pgal that(1)] in auto)
  moreover have "fork_ok s' F other pt"
    using 1 o(1,2) ok d by (simp add: fork_ok_def cow_done_def)
  ultimately show ?thesis using 1(1) f o(3) e pgal by (intro exI [of _ s']) simp
qed

theorem cow_isolation_witness:
  "\<exists>s'. cowfault 0x80101000 0 (demo_map 0x113) = Ok 0 s' \<and>
     has_flag (upte s' 0x80101000 0) PTE_W \<and> ubyte s' 0x80101000 7 = ubyte (demo_map 0x113) 0x80101000 7"
proof (rule demo_mapped [of "0x113"])
  fix k
  let ?s = "demo_map 0x113"
  assume k: "k \<le> 2" and f: "fork_ok ?s (drop k demo_free) 0x80100000 0x80101000"
    and e: "upte ?s 0x80101000 0 = PA2PTE 0x80102000 OR 0x113 OR PTE_V"
    and d: "page_ok ?s 0x80102000" "refcount ?s (pidx 0x80102000) = 2"
      "0x80102000 \<notin> tables (mem ?s) 2 0x80100000 \<union> tables (mem ?s) 2 0x80101000"
  obtain pg F where F: "drop k demo_free = pg # F"
    using k by (cases "drop k demo_free") (simp_all add: demo_free_def)
  have pa: "PTE2PA (upte ?s 0x80101000 0) = 0x80102000"
    unfolding e or.assoc by (rule PTE2PA_PA2PTE) simp_all
  have "cow_page ?s 0x80101000 0"
    using d unfolding cow_page_def pa by (simp add: e PA2PTE_def)
  then show ?thesis
    using cow_isolation [OF f [unfolded F], of 0] d(3) pa
    by (auto simp: PGROUNDDOWN_def)
qed


subsection \<open>Fork shares every page\<close>

lemma fork_ok_sym: "fork_ok s F a b \<Longrightarrow> fork_ok s F b a"
  by (auto simp: fork_ok_def)

lemma uvmcopy_pages:
  assumes "fork_ok s F old new" "sz \<le> MAXVA" "2 * npages 0 sz \<le> length F"
    and "\<forall>va. upage va \<and> va < sz \<longrightarrow> copyable s old new va"
  obtains k s' where "k \<le> 2 * npages 0 sz" "uvmcopy old new sz s = Ok 0 s'"
    "fork_ok s' (drop k F) old new"
    "copied s s' old new (pages_from 0 (npages 0 sz)) (take k F)"
proof -
  have sz: "unat sz \<le> 2 ^ 38" using assms(2) by (simp add: word_le_nat_alt)
  have "npages 0 sz < page_fuel" using sz by (simp add: npages_0 page_fuel_def)
  then obtain k s' where "k \<le> 2 * npages 0 sz" "uvmcopy_loop page_fuel old new 0 sz s = Ok None s'"
    "fork_ok s' (drop k F) old new" "copied s s' old new (pages_from 0 (npages 0 sz)) (take k F)"
    using uvmcopy_loop_ok [of sz s F old new 0 page_fuel] assms sz set_pages [OF assms(2)] by auto
  then show thesis by (intro that [of k s']) (simp_all add: uvmcopy_def kmonad)
qed

text \<open>
  C6. \<open>uvmcopy\<close> forks an address space. With two free pages for every page of the parent (the
  child's tables) and the child's entries still invalid, it returns 0; both address spaces stay
  well formed and separate; each page of the parent below \<open>sz\<close> that is present and a user page is
  mapped in the child at the same physical address, with one more reference per mapping; pages
  that are not are left out; entries outside the range are untouched. Parent and child then read
  at every address what the parent read before, and neither may write: a page that was writable
  is copy-on-write in both.
\<close>

theorem uvmcopy_shares:
  assumes ok: "fork_ok s F old new" and sz: "sz \<le> MAXVA" and len: "2 * npages 0 sz \<le> length F"
    and cp: "\<forall>va. upage va \<and> va < sz \<longrightarrow> copyable s old new va"
  shows "\<exists>k s'. k \<le> 2 * npages 0 sz \<and> uvmcopy old new sz s = Ok 0 s' \<and>
    fork_ok s' (drop k F) old new \<and>
    copied s s' old new (pages_from 0 (npages 0 sz)) (take k F) \<and>
    (\<forall>va. PGROUNDDOWN va < sz \<and> shares (upte s old va) \<and>
       \<not> (has_flag (upte s old va) PTE_W \<and> has_flag (upte s old va) PTE_COW) \<longrightarrow>
       ubyte s' old va = ubyte s old va \<and> ubyte s' new va = ubyte s old va \<and>
       \<not> has_flag (upte s' old va) PTE_W \<and> \<not> has_flag (upte s' new va) PTE_W \<and>
       (has_flag (upte s old va) PTE_W \<longrightarrow>
          has_flag (upte s' old va) PTE_COW \<and> has_flag (upte s' new va) PTE_COW))"
proof -
  obtain k s' where r: "k \<le> 2 * npages 0 sz" "uvmcopy old new sz s = Ok 0 s'"
    "fork_ok s' (drop k F) old new"
    and c: "copied s s' old new (pages_from 0 (npages 0 sz)) (take k F)"
    using uvmcopy_pages [OF assms] .
  have G: "refcount s (pidx q) = 0" if "q \<in> set (take k F)" for q
    using ok in_set_takeD [OF that] by (simp add: fork_ok_def available_def kmem_inv_def)
  have "ubyte s' old va = ubyte s old va \<and> ubyte s' new va = ubyte s old va \<and>
       \<not> has_flag (upte s' old va) PTE_W \<and> \<not> has_flag (upte s' new va) PTE_W \<and>
       (has_flag (upte s old va) PTE_W \<longrightarrow>
          has_flag (upte s' old va) PTE_COW \<and> has_flag (upte s' new va) PTE_COW)"
    if va: "PGROUNDDOWN va < sz" and sh: "shares (upte s old va)"
      and w: "\<not> (has_flag (upte s old va) PTE_W \<and> has_flag (upte s old va) PTE_COW)" for va
  proof -
    have up: "upage (PGROUNDDOWN va)" using va sz by (simp add: upage_def)
    have "copyable s old new (PGROUNDDOWN va)" using cp up va by simp
    then have d: "data_ok s old new (upte s old va)" by (simp add: copyable_def upte_PGROUNDDOWN)
    have "PGROUNDDOWN va \<in> set (pages_from 0 (npages 0 sz))" using up va by (simp add: set_pages [OF sz])
    then have v: "upte s' old va = cow_pte (upte s old va)" "upte s' new va = child_pte (upte s old va)"
      "ubyte s' old va = ubyte s old va" "ubyte s' new va = ubyte s old va"
      using copied_views [OF c up _ sh d] G by blast+
    show ?thesis unfolding v using fork_entries [OF sh w] by blast
  qed
  then show ?thesis using r c by blast
qed

theorem uvmcopy_shares_witness:
  "\<exists>s'. uvmcopy 0x80101000 0x80100000 PGSIZE (demo_map 0x17) = Ok 0 s' \<and>
     ubyte s' 0x80100000 7 = ubyte (demo_map 0x17) 0x80101000 7 \<and> has_flag (upte s' 0x80101000 7) PTE_COW"
proof (rule demo_mapped [of "0x17"])
  fix k
  let ?s = "demo_map 0x17"
  assume k: "k \<le> 2" and f: "fork_ok ?s (drop k demo_free) 0x80100000 0x80101000"
    and e: "upte ?s 0x80101000 0 = PA2PTE 0x80102000 OR 0x17 OR PTE_V"
    and d: "\<forall>va. upte ?s 0x80100000 va = 0" "page_ok ?s 0x80102000" "refcount ?s (pidx 0x80102000) = 2"
      "0x80102000 \<notin> tables (mem ?s) 2 0x80100000 \<union> tables (mem ?s) 2 0x80101000"
  have pa: "PTE2PA (upte ?s 0x80101000 0) = 0x80102000"
    unfolding e or.assoc by (rule PTE2PA_PA2PTE) simp_all
  have one: "va = 0" if "upage va \<and> va < PGSIZE" for va
    using that by (simp add: upage_def) (metis mod_word_less)
  have "data_ok ?s 0x80101000 0x80100000 (upte ?s 0x80101000 0)"
    using d(2-4) unfolding data_ok_def pa by simp
  then have "copyable ?s 0x80101000 0x80100000 0" using d(1) by (simp add: copyable_def upage_def)
  then have cp: "\<forall>va. upage va \<and> va < PGSIZE \<longrightarrow> copyable ?s 0x80101000 0x80100000 va"
    using one by blast
  have len: "2 * npages 0 PGSIZE \<le> length (drop k demo_free)"
    using k by (simp add: npages_0 demo_free_def)
  have p7: "PGROUNDDOWN 7 = 0" by (simp add: PGROUNDDOWN_def)
  then have e7: "upte ?s 0x80101000 7 = PA2PTE 0x80102000 OR 0x17 OR PTE_V"
    using upte_PGROUNDDOWN [of ?s 7 "0x80101000"] e by (simp only:)
  have "PGSIZE \<le> MAXVA" by simp
  then obtain s' where u: "uvmcopy 0x80101000 0x80100000 PGSIZE ?s = Ok 0 s'"
    and v: "\<And>va. PGROUNDDOWN va < PGSIZE \<and> shares (upte ?s 0x80101000 va) \<and>
       \<not> (has_flag (upte ?s 0x80101000 va) PTE_W \<and> has_flag (upte ?s 0x80101000 va) PTE_COW) \<Longrightarrow>
       ubyte s' 0x80100000 va = ubyte ?s 0x80101000 va \<and>
       (has_flag (upte ?s 0x80101000 va) PTE_W \<longrightarrow> has_flag (upte s' 0x80101000 va) PTE_COW)"
    using uvmcopy_shares [OF fork_ok_sym [OF f] _ len cp] by metis
  have "ubyte s' 0x80100000 7 = ubyte ?s 0x80101000 7 \<and> has_flag (upte s' 0x80101000 7) PTE_COW"
    using v [of 7] unfolding e7 p7 by (simp add: shares_def PA2PTE_def PTE_FLAGS_def)
  with u show ?thesis by blast
qed

end
