(* ===== verification/Printf.thy ===== *)
theory Printf
  imports Sched
begin

text \<open>
  \<^verbatim>\<open>kernel/printf.c\<close> and the output half of \<^verbatim>\<open>kernel/uart.c\<close> and \<^verbatim>\<open>kernel/console.c\<close>, which it
  prints through. A panic ends a run of the model (outcome \<open>Panic\<close>), so the variables
  \<^verbatim>\<open>panicking\<close> and \<^verbatim>\<open>panicked\<close> are 0 in every state. The UART accepts a byte after finitely
  many polls of its status register; \<open>u_out\<close> collects what is written to it. Strings are
  lists of bytes without the NUL that ends them.
\<close>

definition bytes :: "string \<Rightarrow> u8 list" where
  "bytes s = map of_char s"

subsection \<open>Output of one character\<close>

definition uart_thr :: "u8 \<Rightarrow> unit k" where
  "uart_thr c = kmodify (\<lambda>s. s\<lparr>cons := (cons s)\<lparr>u_out := c # u_out (cons s)\<rparr>\<rparr>)"

definition uartputc_sync :: "int \<Rightarrow> unit k" where
  "uartputc_sync c = kdo [push_off, uart_thr (word_of_int c), pop_off]"

abbreviation (input) BACKSPACE :: int where "BACKSPACE \<equiv> 0x100"

definition consputc :: "int \<Rightarrow> unit k" where
  "consputc c =
    (if c = BACKSPACE
     then kdo [uartputc_sync 8, uartputc_sync 32, uartputc_sync 8]
     else uartputc_sync c)"

primrec consputs :: "u8 list \<Rightarrow> unit k" where
  "consputs [] = kret ()"
| "consputs (c # cs) = kthen (consputc (uint c)) (consputs cs)"

subsection \<open>Numbers\<close>

definition digit_char :: "u64 \<Rightarrow> u8" where
  "digit_char d = bytes ''0123456789abcdef'' ! unat d"

text \<open>
  The loop that fills \<^verbatim>\<open>buf\<close>, least significant digit first, with \<open>n\<close> entries of \<^verbatim>\<open>buf\<close> left;
  \<open>None\<close> is a store beyond its end.
\<close>

fun digits_from :: "nat \<Rightarrow> u64 \<Rightarrow> u64 \<Rightarrow> u8 list option" where
  "digits_from 0 base x = None"
| "digits_from (Suc n) base x =
    (if x div base = 0 then Some [digit_char (x mod base)]
     else map_option (Cons (digit_char (x mod base))) (digits_from n base (x div base)))"

definition printint :: "u64 \<Rightarrow> u64 \<Rightarrow> bool \<Rightarrow> unit k" where
  "printint xx base sign =
    (let neg = sign \<and> sint xx < 0; x = (if neg then - xx else xx) in
     case digits_from 20 base x of
       None \<Rightarrow> kfault ''printint: buf''
     | Some ds \<Rightarrow>
         if neg then (if length ds < 20 then consputs (rev (ds @ bytes ''-'')) else kfault ''printint: buf'')
         else consputs (rev ds))"

primrec ptr_digits :: "nat \<Rightarrow> u64 \<Rightarrow> u8 list" where
  "ptr_digits 0 x = []"
| "ptr_digits (Suc n) x = digit_char (drop_bit 60 x) # ptr_digits n (push_bit 4 x)"

definition printptr :: "u64 \<Rightarrow> unit k" where
  "printptr x = kthen (consputs (bytes ''0x'')) (consputs (ptr_digits 16 x))"

subsection \<open>printf\<close>

text \<open>The arguments: a 64-bit slot, or a string (\<open>None\<close> is the null pointer).\<close>

datatype parg = PNum u64 | PStr "u8 list option"

text \<open>\<^verbatim>\<open>va_arg\<close>; a missing argument, or one of the wrong kind, is undefined.\<close>

definition with_num :: "parg list \<Rightarrow> (u64 \<Rightarrow> parg list \<Rightarrow> unit k) \<Rightarrow> unit k" where
  "with_num args f = (case args of PNum x # rest \<Rightarrow> f x rest | _ \<Rightarrow> kfault ''va_arg'')"

definition with_str :: "parg list \<Rightarrow> (u8 list option \<Rightarrow> parg list \<Rightarrow> unit k) \<Rightarrow> unit k" where
  "with_str args f = (case args of PStr x # rest \<Rightarrow> f x rest | _ \<Rightarrow> kfault ''va_arg'')"

definition va_int :: "u64 \<Rightarrow> u64" where
  "va_int x = scast (ucast x :: u32)"

definition va_uint32 :: "u64 \<Rightarrow> u64" where
  "va_uint32 x = ucast (ucast x :: u32)"

definition fmt_at :: "u8 list \<Rightarrow> nat \<Rightarrow> char" where
  "fmt_at f i = (if i < length f then char_of (unat (f ! i)) else CHR 0x00)"

function vprintf :: "u8 list \<Rightarrow> parg list \<Rightarrow> unit k" where
  "vprintf [] args = kret ()"
| "vprintf (c # f) args =
    (if c \<noteq> of_char CHR ''%'' then kthen (consputc (uint c)) (vprintf f args)
     else let c0 = fmt_at f 0;
              c1 = (if c0 \<noteq> CHR 0x00 then fmt_at f 1 else CHR 0x00);
              c2 = (if c1 \<noteq> CHR 0x00 then fmt_at f 2 else CHR 0x00) in
     if c0 = CHR ''d'' then with_num args (\<lambda>x r. kthen (printint (va_int x) 10 True) (vprintf (drop 1 f) r))
     else if c0 = CHR ''l'' \<and> c1 = CHR ''d''
     then with_num args (\<lambda>x r. kthen (printint x 10 True) (vprintf (drop 2 f) r))
     else if c0 = CHR ''l'' \<and> c1 = CHR ''l'' \<and> c2 = CHR ''d''
     then with_num args (\<lambda>x r. kthen (printint x 10 True) (vprintf (drop 3 f) r))
     else if c0 = CHR ''u''
     then with_num args (\<lambda>x r. kthen (printint (va_uint32 x) 10 False) (vprintf (drop 1 f) r))
     else if c0 = CHR ''l'' \<and> c1 = CHR ''u''
     then with_num args (\<lambda>x r. kthen (printint x 10 False) (vprintf (drop 2 f) r))
     else if c0 = CHR ''l'' \<and> c1 = CHR ''l'' \<and> c2 = CHR ''u''
     then with_num args (\<lambda>x r. kthen (printint x 10 False) (vprintf (drop 3 f) r))
     else if c0 = CHR ''x''
     then with_num args (\<lambda>x r. kthen (printint (va_uint32 x) 16 False) (vprintf (drop 1 f) r))
     else if c0 = CHR ''l'' \<and> c1 = CHR ''x''
     then with_num args (\<lambda>x r. kthen (printint x 16 False) (vprintf (drop 2 f) r))
     else if c0 = CHR ''l'' \<and> c1 = CHR ''l'' \<and> c2 = CHR ''x''
     then with_num args (\<lambda>x r. kthen (printint x 16 False) (vprintf (drop 3 f) r))
     else if c0 = CHR ''p'' then with_num args (\<lambda>x r. kthen (printptr x) (vprintf (drop 1 f) r))
     else if c0 = CHR ''c''
     then with_num args (\<lambda>x r. kthen (consputc (sint (ucast x :: u32))) (vprintf (drop 1 f) r))
     else if c0 = CHR ''s''
     then with_str args (\<lambda>x r.
            kthen (consputs (case x of None \<Rightarrow> bytes ''(null)'' | Some t \<Rightarrow> t)) (vprintf (drop 1 f) r))
     else if c0 = CHR ''%'' then kthen (consputc (of_char CHR ''%'')) (vprintf (drop 1 f) args)
     else if c0 = CHR 0x00 then kret ()
     else kthen (consputc (of_char CHR ''%'')) (kthen (consputc (of_char c0)) (vprintf (drop 1 f) args)))"
  by pat_completeness auto

termination
  by (relation "measure (\<lambda>(f, args). length f)") auto

definition printf :: "string \<Rightarrow> parg list \<Rightarrow> unit k" where
  "printf fmt args = kdo [acquire PrLock, vprintf (bytes fmt) args, release PrLock]"

definition printfinit :: "unit k" where
  "printfinit = initlock PrLock"


subsection \<open>What is printed\<close>

definition emit :: "u8 list \<Rightarrow> kstate \<Rightarrow> kstate" where
  "emit cs s = (if cs = [] then s
     else s\<lparr>cpu := settle (cpu s), cons := (cons s)\<lparr>u_out := rev cs @ u_out (cons s)\<rparr>\<rparr>)"

lemma uartputc_sync_apply:
  "uartputc_sync c s = Ok () (emit [word_of_int c] s)"
  by (simp add: uartputc_sync_def uart_thr_def emit_def kmonad push_off_apply pop_off_apply)

lemma emit_append: "emit ds (emit cs s) = emit (cs @ ds) s"
  by (simp add: emit_def)

lemma consputc_byte: "consputc (uint c) s = Ok () (emit [c] s)" for c :: u8
proof -
  have "uint c < 256" using uint_lt2p [of c] by simp
  then show ?thesis by (simp add: consputc_def uartputc_sync_apply)
qed

lemma consputs_apply: "consputs cs s = Ok () (emit cs s)"
proof (induction cs arbitrary: s)
  case Nil
  then show ?case by (simp add: kmonad emit_def)
next
  case (Cons c cs)
  have "emit cs (emit [c] s) = emit (c # cs) s" by (simp add: emit_append)
  with Cons show ?case by (simp add: kmonad consputc_byte)
qed

lemma vprintf_plain:
  assumes "of_char CHR ''%'' \<notin> set cs"
  shows "vprintf cs args s = Ok () (emit cs s)"
  using assms
proof (induction cs arbitrary: s)
  case (Cons c cs)
  have "emit cs (emit [c] s) = emit (c # cs) s" by (simp add: emit_append)
  with Cons show ?case by (simp add: kmonad consputc_byte)
qed (simp add: kmonad emit_def)

lemma emit_simps [simp]:
  "syms (emit cs s) = syms s" "locks (emit cs s) = locks s" "c_id (cpu (emit cs s)) = c_id (cpu s)"
  "c_noff (cpu (emit cs s)) = c_noff (cpu s)"
  by (simp_all add: emit_def)

lemma emit_intr: "0 < c_noff (cpu s) \<Longrightarrow> \<not> c_intr (cpu s) \<Longrightarrow> \<not> c_intr (cpu (emit cs s))"
  by (simp add: emit_def settle_def)

lemma printf_plain:
  assumes "locks s PrLock = free_lock" "of_char CHR ''%'' \<notin> set (bytes fmt)"
  shows "\<exists>s'. printf fmt args s = Ok () s' \<and> locks s' = locks s \<and> syms s' = syms s"
proof -
  let ?s = "s\<lparr>cpu := push_cpu (cpu s), locks := (locks s)(PrLock := held_by (c_id (cpu s)))\<rparr>"
  from vprintf_plain [OF assms(2)] have v: "vprintf (bytes fmt) args ?s = Ok () (emit (bytes fmt) ?s)" .
  have "\<not> c_intr (cpu (emit (bytes fmt) ?s))" by (rule emit_intr) simp_all
  with v assms show ?thesis
    by (simp add: printf_def kmonad acquire_free release_held)
qed

text \<open>The value of a digit character and of a number, most significant digit first.\<close>

definition digit_value :: "u8 \<Rightarrow> nat" where
  "digit_value c = (if c < 58 then unat c - 48 else unat c - 87)"

definition number_value :: "nat \<Rightarrow> u8 list \<Rightarrow> nat" where
  "number_value base = foldl (\<lambda>n c. n * base + digit_value c) 0"

lemma digit_value_char: "d < 16 \<Longrightarrow> digit_value (digit_char d) = unat d"
  and digit_char_zero: "d < 16 \<Longrightarrow> digit_char d = 48 \<longleftrightarrow> d = 0"
proof -
  assume "d < 16"
  then have "unat d < 16" by (simp add: word_less_nat_alt)
  then have "unat d \<in> set [0..<16]" by simp
  then have "digit_value (bytes ''0123456789abcdef'' ! unat d) = unat d \<and>
      (bytes ''0123456789abcdef'' ! unat d = 48 \<longleftrightarrow> unat d = 0)"
    by (simp add: upt_rec) (auto simp: bytes_def digit_value_def)
  then show "digit_value (digit_char d) = unat d" "digit_char d = 48 \<longleftrightarrow> d = 0"
    by (simp_all add: digit_char_def unat_eq_0)
qed

lemma digits_from_value:
  assumes "2 \<le> unat base" "base \<le> 16" "unat x < unat base ^ n" "0 < n"
  shows "\<exists>ds. digits_from n base x = Some ds \<and> number_value (unat base) (rev ds) = unat x \<and>
    0 < length ds \<and> length ds \<le> n \<and> (last ds = 48 \<longrightarrow> ds = [48])"
  using assms(3,4)
proof (induction n arbitrary: x)
  case (Suc n)
  have b0: "base \<noteq> 0" using assms(1) by auto
  have lt: "x mod base < base" using b0 by (simp add: word_mod_less_divisor word_gt_0)
  then have lt16: "x mod base < 16" using assms(2) by (rule order_less_le_trans)
  show ?case
  proof (cases "x div base = 0")
    case True
    then have "unat x div unat base = 0" by (metis unat_0 unat_div_distrib)
    then have "x mod base = x"
      using assms(1) by (auto simp: word_unat_eq_iff unat_mod_distrib div_eq_0_iff)
    with True lt16 show ?thesis by (simp add: number_value_def digit_value_char)
  next
    case False
    have "unat (x div base) < unat base ^ n"
      using Suc.prems(1) assms(1) by (simp add: unat_div_distrib less_mult_imp_div_less mult.commute)
    moreover have "0 < n" using calculation False by (cases n) (auto simp: unat_eq_0)
    ultimately obtain ds where d: "digits_from n base (x div base) = Some ds"
      "number_value (unat base) (rev ds) = unat (x div base)" "0 < length ds" "length ds \<le> n"
      "last ds = 48 \<longrightarrow> ds = [48]"
      using Suc.IH by blast
    have ne: "ds \<noteq> [48]"
    proof
      assume "ds = [48]"
      then have "unat (x div base) = 0" using d(2) by (simp add: number_value_def digit_value_def)
      with False show False by (simp add: unat_eq_0)
    qed
    have "unat (x div base) * unat base + unat (x mod base) = unat x"
      by (simp add: unat_div_distrib unat_mod_distrib)
    with False d ne lt16 show ?thesis
      by (auto simp: number_value_def digit_value_char)
  qed
qed simp


lemma digits_from_mono: "digits_from n base x = Some ds \<Longrightarrow> n \<le> m \<Longrightarrow> digits_from m base x = Some ds"
proof (induction n base x arbitrary: m ds rule: digits_from.induct)
  case (2 n base x)
  then obtain k where k: "m = Suc k" "n \<le> k" by (cases m) auto
  show ?case
  proof (cases "x div base = 0")
    case False
    then obtain es where "digits_from n base (x div base) = Some es" "ds = digit_char (x mod base) # es"
      using 2(2) by auto
    with 2(1) [OF False] k False show ?thesis by simp
  qed (use 2(2) k in simp)
qed simp

lemma sint_range: "- (2 ^ 63) \<le> sint xx" "sint xx < 2 ^ 63" for xx :: u64
  using sint_ge [of xx] sint_lt [of xx] by simp_all

lemma unat_uminus_neg: "sint xx < 0 \<Longrightarrow> int (unat (- xx)) = - sint xx" for xx :: u64
proof -
  assume neg: "sint xx < 0"
  have "- xx = word_of_int (- sint xx)" by simp
  then have "uint (- xx) = (- sint xx) mod 2 ^ 64"
    by (simp only: unsigned_of_int take_bit_eq_mod) simp
  also have "\<dots> = - sint xx" using neg sint_range(1) [of xx] by (intro mod_pos_pos_trivial) simp_all
  finally show ?thesis by simp
qed

lemma sint_nonneg: "0 \<le> sint xx \<Longrightarrow> sint xx = uint xx" for xx :: u64
proof -
  assume pos: "0 \<le> sint xx"
  have "uint (word_of_int (sint xx) :: u64) = sint xx mod 2 ^ 64"
    by (simp only: unsigned_of_int take_bit_eq_mod) simp
  then have "uint xx = sint xx mod 2 ^ 64" by simp
  also have "\<dots> = sint xx" using pos sint_range(2) [of xx] by (intro mod_pos_pos_trivial) simp_all
  finally show ?thesis by simp
qed

lemma printint_prints:
  assumes "base = 10 \<or> base = 16"
  shows "\<exists>ds. printint xx base sign s =
      Ok () (emit ((if sign \<and> sint xx < 0 then bytes ''-'' else []) @ ds) s) \<and>
    int (number_value (unat base) ds) = (if sign then \<bar>sint xx\<bar> else uint xx) \<and>
    0 < length ds \<and> (hd ds = 48 \<longrightarrow> ds = [48])"
proof (cases "sign \<and> sint xx < 0")
  case True
  have "int (unat (- xx)) \<le> int (2 ^ 63)" using unat_uminus_neg [of xx] True sint_range(1) [of xx] by simp
  then have "unat (- xx) \<le> 2 ^ 63" by (simp only: of_nat_le_iff)
  then have "unat (- xx) < unat base ^ 19" using assms by auto
  then obtain ds where d: "digits_from 19 base (- xx) = Some ds"
    "number_value (unat base) (rev ds) = unat (- xx)" "0 < length ds" "length ds \<le> 19"
    "last ds = 48 \<longrightarrow> ds = [48]"
    using digits_from_value [of base "- xx" 19] assms by auto
  have "digits_from 20 base (- xx) = Some ds" by (rule digits_from_mono [OF d(1)]) simp
  then have "printint xx base sign s = Ok () (emit (bytes ''-'' @ rev ds) s)"
    using True d(4) by (simp add: printint_def Let_def consputs_apply bytes_def del: consputs.simps)
  with True d unat_uminus_neg [of xx] show ?thesis
    by (intro exI [of _ "rev ds"]) (auto simp: hd_rev)
next
  case False
  have "unat xx < 2 ^ 64" using unsigned_less [of xx] by simp
  then have "unat xx < unat base ^ 20" using assms by auto
  then obtain ds where d: "digits_from 20 base xx = Some ds"
    "number_value (unat base) (rev ds) = unat xx" "0 < length ds" "last ds = 48 \<longrightarrow> ds = [48]"
    using digits_from_value [of base xx 20] assms by auto
  have "printint xx base sign s = Ok () (emit (rev ds) s)"
    using False d(1) by (auto simp: printint_def Let_def consputs_apply)
  moreover have "sint xx = uint xx" if sign using False that by (intro sint_nonneg) simp
  ultimately show ?thesis using False d by (intro exI [of _ "rev ds"]) (auto simp: hd_rev)
qed

text \<open>A format with numbers in decimal is printed.\<close>

lemma vprintf_skip:
  assumes "of_char CHR ''%'' \<notin> set cs"
  shows "vprintf (cs @ f) args s = vprintf f args (emit cs s)"
  using assms
proof (induction cs arbitrary: s)
  case (Cons c cs)
  have "emit cs (emit [c] s) = emit (c # cs) s" by (simp add: emit_append)
  with Cons show ?case by (simp add: kmonad consputc_byte)
qed (simp add: emit_def)

lemma vprintf_d:
  "\<exists>cs. vprintf (bytes ''%d'' @ f) (PNum x # args) s = vprintf f args (emit cs s)"
proof -
  obtain cs where "printint (va_int x) 10 True s = Ok () (emit cs s)"
    using printint_prints [of 10 "va_int x" True s] by auto
  moreover have "char_of (100 :: nat) = CHR ''d''" by code_simp
  ultimately show ?thesis by (intro exI [of _ cs]) (simp add: bytes_def fmt_at_def with_num_def kmonad Let_def)
qed

text \<open>
  C34. \<open>printint\<close> prints the number. In base 10 and in base 16, whatever the argument, it does
  not run over its 20-byte buffer and returns; it prints a minus sign exactly if the number is
  to be read as signed and is negative, and then the digits of its absolute value without
  leading zeros.
\<close>

theorem printint_correct:
  assumes "base = 10 \<or> base = 16"
  shows "\<exists>ds. printint xx base sign s =
      Ok () (emit ((if sign \<and> sint xx < 0 then bytes ''-'' else []) @ ds) s) \<and>
    int (number_value (unat base) ds) = (if sign then \<bar>sint xx\<bar> else uint xx) \<and>
    0 < length ds \<and> (hd ds = 48 \<longrightarrow> ds = [48])"
  using assms by (rule printint_prints)

theorem printint_correct_witness:
  "\<exists>ds. printint (- 273) 10 True demo_state = Ok () (emit (bytes ''-'' @ ds) demo_state) \<and>
     number_value 10 ds = 273"
  using printint_correct [of 10 "- 273" True demo_state] by auto

end
