(* ===== verification/Bytes.thy ===== *)
theory Bytes
  imports Memory
begin

text \<open>
  Little-endian integers in arrays of bytes: how the C structs of the disk format and the
  integers handed to user memory are laid out.
\<close>

definition le16 :: "u16 \<Rightarrow> u8 list" where
  "le16 x = [ucast x, ucast (drop_bit 8 x)]"

definition le32 :: "u32 \<Rightarrow> u8 list" where
  "le32 x = [ucast x, ucast (drop_bit 8 x), ucast (drop_bit 16 x), ucast (drop_bit 24 x)]"

definition le64 :: "u64 \<Rightarrow> u8 list" where
  "le64 x = map (\<lambda>i. ucast (drop_bit (8 * i) x)) [0..<8]"

text \<open>Reading at an offset.\<close>

definition get16 :: "u8 list \<Rightarrow> nat \<Rightarrow> u16" where
  "get16 d i = ucast (d ! i) OR push_bit 8 (ucast (d ! (i + 1)))"

definition get32 :: "u8 list \<Rightarrow> nat \<Rightarrow> u32" where
  "get32 d i = ucast (d ! i) OR push_bit 8 (ucast (d ! (i + 1))) OR
     push_bit 16 (ucast (d ! (i + 2))) OR push_bit 24 (ucast (d ! (i + 3)))"

definition get64 :: "u8 list \<Rightarrow> nat \<Rightarrow> u64" where
  "get64 d i = ucast (get32 d i) OR push_bit 32 (ucast (get32 d (i + 4)))"

text \<open>Storing bytes at an offset, and the bytes there.\<close>

definition put_bytes :: "u8 list \<Rightarrow> nat \<Rightarrow> u8 list \<Rightarrow> u8 list" where
  "put_bytes d i bs = take i d @ bs @ drop (i + length bs) d"

definition get_bytes :: "u8 list \<Rightarrow> nat \<Rightarrow> nat \<Rightarrow> u8 list" where
  "get_bytes d i n = take n (drop i d)"

lemma length_le [simp]: "length (le16 x) = 2" "length (le32 y) = 4" "length (le64 z) = 8"
  by (simp_all add: le16_def le32_def le64_def)

lemma length_put_bytes [simp]: "i + length bs \<le> length d \<Longrightarrow> length (put_bytes d i bs) = length d"
  by (simp add: put_bytes_def)

lemma put_bytes_nth:
  "i + length bs \<le> length d \<Longrightarrow> j < length d \<Longrightarrow>
   put_bytes d i bs ! j = (if i \<le> j \<and> j < i + length bs then bs ! (j - i) else d ! j)"
  by (auto simp: put_bytes_def nth_append min_def)

lemma get_put_bytes [simp]:
  "i + length bs \<le> length d \<Longrightarrow> get_bytes (put_bytes d i bs) i (length bs) = bs"
  by (simp add: get_bytes_def put_bytes_def)

lemma get16_put:
  assumes "i + 2 \<le> length d"
  shows "get16 (put_bytes d i (le16 x)) i = x"
  using assms
  by (simp add: get16_def put_bytes_nth le16_def)
    (rule bit_word_eqI, auto simp: bit_simps)

lemma join32:
  "ucast (ucast x :: u8) OR push_bit 8 (ucast (ucast (drop_bit 8 x) :: u8)) OR
   push_bit 16 (ucast (ucast (drop_bit 16 x) :: u8)) OR
   push_bit 24 (ucast (ucast (drop_bit 24 x) :: u8)) = x" (is "?w = x") for x :: u32
proof (rule bit_eqI)
  fix n
  assume "possible_bit TYPE(u32) n"
  then have "n < 32" by (simp add: possible_bit_def)
  then consider "n < 8" | "8 \<le> n" "n < 16" | "16 \<le> n" "n < 24" | "24 \<le> n" "n < 32"
    by linarith
  then show "bit ?w n = bit x n" by cases (simp_all add: bit_simps less_diff_conv2)
qed

lemma get32_put:
  assumes "i + 4 \<le> length d"
  shows "get32 (put_bytes d i (le32 x)) i = x"
  using assms by (simp add: get32_def put_bytes_nth) (simp add: le32_def join32)

lemma get32_le32 [simp]: "get32 (le32 x) 0 = x"
  by (simp add: get32_def) (simp add: le32_def join32)

lemma get16_put_other:
  assumes "i + length bs \<le> length d" "j + 2 \<le> i \<or> i + length bs \<le> j" "j + 2 \<le> length d"
  shows "get16 (put_bytes d i bs) j = get16 d j"
  using assms by (auto simp: get16_def put_bytes_nth)

lemma get32_put_other:
  assumes "i + length bs \<le> length d" "j + 4 \<le> i \<or> i + length bs \<le> j" "j + 4 \<le> length d"
  shows "get32 (put_bytes d i bs) j = get32 d j"
  using assms by (auto simp: get32_def put_bytes_nth)

end
