(* ===== verification/Log.thy ===== *)
theory Log
  imports Bio Printf Bytes
begin

text \<open>
  \<^verbatim>\<open>kernel/log.c\<close>: the write-ahead log that makes the writes of a group of system calls atomic
  with respect to crashes. The in-memory header is \<open>lg_n\<close> and \<open>lg_block\<close> of \<open>fs_log\<close>; \<open>MAXOPBLOCKS\<close>
  and \<open>LOGBLOCKS\<close> are those of \<^verbatim>\<open>param.h\<close>.
\<close>

definition log_get :: "(logstate \<Rightarrow> 'a) \<Rightarrow> 'a k" where
  "log_get f = kget (\<lambda>s. f (fs_log (fs s)))"

definition log_set :: "(logstate \<Rightarrow> logstate) \<Rightarrow> unit k" where
  "log_set f = kmodify (\<lambda>s. s\<lparr>fs := (fs s)\<lparr>fs_log := f (fs_log (fs s))\<rparr>\<rparr>)"

definition buf_data :: "nat \<Rightarrow> u8 list k" where
  "buf_data b = kget (\<lambda>s. b_data (bc_buf (bcache s) b))"

definition set_data :: "nat \<Rightarrow> u8 list \<Rightarrow> unit k" where
  "set_data b d = kmodify (upd_buf b (b_data_update (\<lambda>_. d)))"

text \<open>\<^verbatim>\<open>memmove(to->data, from->data, BSIZE)\<close>.\<close>

definition copy_buf :: "nat \<Rightarrow> nat \<Rightarrow> unit k" where
  "copy_buf to from = kbind (buf_data from) (\<lambda>d. set_data to d)"

subsection \<open>Installing and recovering\<close>

definition install_one :: "bool \<Rightarrow> nat \<Rightarrow> unit option k" where
  "install_one recovering tail =
     kbind (log_get (\<lambda>l. l)) (\<lambda>l.
     kthen (kwhen recovering (printf (''recovering tail %d dst %d'' @ [CHR 0x0A])
       [PNum (of_nat tail), PNum (ucast (lg_block l tail))]))
    (kbind (bread (lg_dev l) (word_of_int (lg_start l + int tail + 1))) (\<lambda>lbuf.
     kbind (bread (lg_dev l) (lg_block l tail)) (\<lambda>dbuf.
     kthen (copy_buf dbuf lbuf)
    (kthen (bwrite dbuf)
    (kthen (kwhen (\<not> recovering) (bunpin dbuf))
    (kthen (brelse lbuf)
    (kthen (brelse dbuf)
    (kret None)))))))))"

definition install_trans :: "bool \<Rightarrow> unit k" where
  "install_trans recovering =
     kbind (log_get lg_n) (\<lambda>n.
     kthen (kfor (install_one recovering) [0..<nat n]) (kret ()))"

text \<open>A header with more than \<open>LOGBLOCKS\<close> entries would be copied beyond the array.\<close>

definition read_head :: "unit k" where
  "read_head =
     kbind (log_get (\<lambda>l. l)) (\<lambda>l.
     kbind (bread (lg_dev l) (word_of_int (lg_start l))) (\<lambda>b.
     kbind (buf_data b) (\<lambda>d.
     kthen (log_set (\<lambda>l. l\<lparr>lg_n := sint (get32 d 0)\<rparr>))
    (kthen (kfor (\<lambda>i. if LOGBLOCKS \<le> i then kfault ''read_head: block''
              else kthen (log_set (\<lambda>l. l\<lparr>lg_block := (lg_block l)(i := get32 d (4 + 4 * i))\<rparr>))
                  (kret (None :: unit option)))
            [0..<nat (sint (get32 d 0))])
    (brelse b)))))"

text \<open>The header's bytes; those after the entries stay as they were.\<close>

primrec put_blocks :: "u8 list \<Rightarrow> (nat \<Rightarrow> u32) \<Rightarrow> nat \<Rightarrow> u8 list" where
  "put_blocks d bl 0 = d"
| "put_blocks d bl (Suc i) = put_bytes (put_blocks d bl i) (4 + 4 * i) (le32 (bl i))"

definition put_head :: "u8 list \<Rightarrow> int \<Rightarrow> (nat \<Rightarrow> u32) \<Rightarrow> u8 list" where
  "put_head d n bl = put_blocks (put_bytes d 0 (le32 (word_of_int n))) bl (nat n)"

definition write_head :: "unit k" where
  "write_head =
     kbind (log_get (\<lambda>l. l)) (\<lambda>l.
     kbind (bread (lg_dev l) (word_of_int (lg_start l))) (\<lambda>b.
     kbind (buf_data b) (\<lambda>d.
     kthen (set_data b (put_head d (lg_n l) (lg_block l)))
    (kthen (bwrite b)
    (brelse b)))))"

definition recover_from_log :: "unit k" where
  "recover_from_log = kdo [
     read_head,
     install_trans True,
     log_set (\<lambda>l. l\<lparr>lg_n := 0\<rparr>),
     write_head]"

text \<open>\<^verbatim>\<open>sizeof(struct logheader)\<close> is \<open>4 + 4 * LOGBLOCKS\<close>.\<close>

definition initlog :: "u32 \<Rightarrow> superblock \<Rightarrow> unit k" where
  "initlog dev super =
     kthen (kpanic_if (BSIZE \<le> 4 + 4 * LOGBLOCKS) ''initlog: too big logheader'')
    (kdo [
       initlock LogLock,
       log_set (\<lambda>l. l\<lparr>lg_start := sint (sb_logstart super)\<rparr>),
       log_set (\<lambda>l. l\<lparr>lg_dev := dev\<rparr>),
       recover_from_log])"

subsection \<open>Transactions\<close>

text \<open>\<open>env\<close> runs while the caller sleeps; at most \<open>fuel\<close> rounds.\<close>

fun begin_op_loop :: "unit k \<Rightarrow> nat \<Rightarrow> unit k" where
  "begin_op_loop env 0 = (\<lambda>s. Diverge)"
| "begin_op_loop env (Suc fuel) =
     kbind (log_get (\<lambda>l. l)) (\<lambda>l.
     if lg_committing l \<or> lg_n l + (lg_outstanding l + 1) * int MAXOPBLOCKS > int LOGBLOCKS
     then kthen (sleep_with env ChanLog LogLock) (begin_op_loop env fuel)
     else kthen (log_set (\<lambda>l. l\<lparr>lg_outstanding := lg_outstanding l + 1\<rparr>)) (release LogLock))"

definition begin_op_with :: "unit k \<Rightarrow> nat \<Rightarrow> unit k" where
  "begin_op_with env fuel = kthen (acquire LogLock) (begin_op_loop env fuel)"

definition begin_op :: "unit k" where
  "begin_op = begin_op_with Blocked 1"

definition write_log_one :: "nat \<Rightarrow> unit option k" where
  "write_log_one tail =
     kbind (log_get (\<lambda>l. l)) (\<lambda>l.
     kbind (bread (lg_dev l) (word_of_int (lg_start l + int tail + 1))) (\<lambda>to.
     kbind (bread (lg_dev l) (lg_block l tail)) (\<lambda>from.
     kthen (copy_buf to from)
    (kthen (bwrite to)
    (kthen (brelse from)
    (kthen (brelse to)
    (kret None)))))))"

definition write_log :: "unit k" where
  "write_log =
     kbind (log_get lg_n) (\<lambda>n. kthen (kfor write_log_one [0..<nat n]) (kret ()))"

definition commit :: "unit k" where
  "commit =
     kbind (log_get lg_n) (\<lambda>n.
     kwhen (0 < n) (kdo [
       write_log,
       write_head,
       install_trans False,
       log_set (\<lambda>l. l\<lparr>lg_n := 0\<rparr>),
       write_head]))"

definition end_op :: "unit k" where
  "end_op =
     kthen (acquire LogLock)
    (kthen (log_set (\<lambda>l. l\<lparr>lg_outstanding := lg_outstanding l - 1\<rparr>))
    (kbind (log_get (\<lambda>l. l)) (\<lambda>l.
     kthen (kpanic_if (lg_committing l) ''log.committing'')
    (if lg_outstanding l = 0
     then kdo [
       log_set (\<lambda>l. l\<lparr>lg_committing := True\<rparr>),
       release LogLock,
       commit,
       acquire LogLock,
       log_set (\<lambda>l. l\<lparr>lg_committing := False\<rparr>),
       wakeup ChanLog,
       release LogLock]
     else kdo [wakeup ChanLog, release LogLock]))))"

text \<open>
  The search for the block among the logged ones; the index after the last one if it is not
  there.
\<close>

definition log_index :: "logstate \<Rightarrow> u32 \<Rightarrow> nat" where
  "log_index l bn = (case find (\<lambda>i. lg_block l i = bn) [0..<nat (lg_n l)] of
     Some i \<Rightarrow> i | None \<Rightarrow> nat (lg_n l))"

definition log_write :: "nat \<Rightarrow> unit k" where
  "log_write b =
     kthen (acquire LogLock)
    (kbind (log_get (\<lambda>l. l)) (\<lambda>l.
     kthen (kpanic_if (int LOGBLOCKS \<le> lg_n l) ''too big a transaction'')
    (kthen (kpanic_if (lg_outstanding l < 1) ''log_write outside of trans'')
    (kbind (kget (\<lambda>s. b_blockno (bc_buf (bcache s) b))) (\<lambda>bn.
     let i = log_index l bn in
     kthen (log_set (\<lambda>l. l\<lparr>lg_block := (lg_block l)(i := bn)\<rparr>))
    (kthen (kwhen (int i = lg_n l) (kdo [bpin b, log_set (\<lambda>l. l\<lparr>lg_n := lg_n l + 1\<rparr>)]))
    (release LogLock)))))))"

end
