(* ===== verification/Proc.thy ===== *)
theory Proc
  imports Vm Printf Bytes
begin

text \<open>
  The part of \<^verbatim>\<open>kernel/proc.c\<close> that does not need the file system: the process table, process
  identifiers, the page table of a process, growing and shrinking, yielding, killing, copying
  between the kernel and a process, the listing. Creating, leaving and waiting for processes
  are in theory \<open>Procs\<close>.

  \<^verbatim>\<open>pid\<close>s are unbounded integers; the kernel's \<^verbatim>\<open>int\<close> would overflow after \<open>2 ^ 31\<close> forks.
\<close>

text \<open>The fields of \<^verbatim>\<open>struct trapframe\<close> the kernel uses, as offsets from its page.\<close>

abbreviation (input) TF_kernel_satp :: u64 where "TF_kernel_satp \<equiv> 0"
abbreviation (input) TF_kernel_sp :: u64 where "TF_kernel_sp \<equiv> 8"
abbreviation (input) TF_kernel_trap :: u64 where "TF_kernel_trap \<equiv> 16"
abbreviation (input) TF_epc :: u64 where "TF_epc \<equiv> 24"
abbreviation (input) TF_kernel_hartid :: u64 where "TF_kernel_hartid \<equiv> 32"
abbreviation (input) TF_sp :: u64 where "TF_sp \<equiv> 48"
abbreviation (input) TF_a0 :: u64 where "TF_a0 \<equiv> 112"
abbreviation (input) TF_a1 :: u64 where "TF_a1 \<equiv> 120"
abbreviation (input) TF_a7 :: u64 where "TF_a7 \<equiv> 168"
abbreviation (input) TF_size :: nat where "TF_size \<equiv> 288"

definition pget :: "nat \<Rightarrow> (proc \<Rightarrow> 'a) \<Rightarrow> 'a k" where
  "pget p f = kget (\<lambda>s. f (procs s p))"

definition pset :: "nat \<Rightarrow> (proc \<Rightarrow> proc) \<Rightarrow> unit k" where
  "pset p f = kmodify (upd_proc p f)"

definition tf_get :: "nat \<Rightarrow> u64 \<Rightarrow> u64 k" where
  "tf_get p off = kbind (pget p p_trapframe) (\<lambda>tf. rd64 (tf + off))"

definition tf_set :: "nat \<Rightarrow> u64 \<Rightarrow> u64 \<Rightarrow> unit k" where
  "tf_set p off v = kbind (pget p p_trapframe) (\<lambda>tf. wr64 (tf + off) v)"

subsection \<open>The process table\<close>

definition procinit :: "unit k" where
  "procinit =
     kthen (initlock PidLock)
    (kthen (initlock WaitLock)
    (kthen (kfor (\<lambda>p. kthen (kdo [
         initlock (ProcLock p),
         pset p (\<lambda>pr. pr\<lparr>p_state := UNUSED\<rparr>),
         pset p (\<lambda>pr. pr\<lparr>p_kstack := KSTACK p\<rparr>)]) (kret (None :: unit option))) [0..<NPROC])
    (kret ())))"

definition allocpid :: "int k" where
  "allocpid =
     kthen (acquire PidLock)
    (kbind (kget nextpid) (\<lambda>pid.
     kthen (kmodify (\<lambda>s. s\<lparr>nextpid := nextpid s + 1\<rparr>))
    (kthen (release PidLock)
    (kret pid))))"

subsection \<open>The page table of a process\<close>

definition proc_pagetable :: "nat \<Rightarrow> u64 k" where
  "proc_pagetable p =
     kbind uvmcreate (\<lambda>pagetable.
     if pagetable = 0 then kret 0
     else kbind (kget (\<lambda>s. sym_trampoline (syms s))) (\<lambda>tramp.
     kbind (mappages pagetable TRAMPOLINE PGSIZE tramp (PTE_R OR PTE_X)) (\<lambda>r1.
     if r1 < 0 then kthen (uvmfree pagetable 0) (kret 0)
     else kbind (pget p p_trapframe) (\<lambda>tf.
     kbind (mappages pagetable TRAPFRAME PGSIZE tf (PTE_R OR PTE_W)) (\<lambda>r2.
     if r2 < 0 then kthen (uvmunmap pagetable TRAMPOLINE 1 False)
                   (kthen (uvmfree pagetable 0) (kret 0))
     else kret pagetable)))))"

definition proc_freepagetable :: "u64 \<Rightarrow> u64 \<Rightarrow> unit k" where
  "proc_freepagetable pagetable sz = kdo [
     uvmunmap pagetable TRAMPOLINE 1 False,
     uvmunmap pagetable TRAPFRAME 1 False,
     uvmfree pagetable sz]"

definition freeproc :: "nat \<Rightarrow> unit k" where
  "freeproc p =
     kbind (pget p p_trapframe) (\<lambda>tf.
     kthen (kwhen (tf \<noteq> 0) (kfree tf))
    (kthen (pset p (\<lambda>pr. pr\<lparr>p_trapframe := 0\<rparr>))
    (kbind (pget p (\<lambda>pr. (p_pagetable pr, p_sz pr))) (\<lambda>(pt, sz).
     kthen (kwhen (pt \<noteq> 0) (proc_freepagetable pt sz))
    (pset p (\<lambda>pr. pr\<lparr>p_pagetable := 0, p_sz := 0, p_pid := 0, p_parent := None,
       p_name := (p_name pr)(0 := 0), p_chan := NoChan, p_killed := 0, p_xstate := 0,
       p_state := UNUSED\<rparr>))))))"

text \<open>The search for a free slot, which is left with the slot's lock held.\<close>

definition allocproc_slot :: "nat \<Rightarrow> nat option k" where
  "allocproc_slot p =
     kthen (acquire (ProcLock p))
    (kbind (pget p p_state) (\<lambda>st.
     if st = UNUSED then kret (Some p)
     else kthen (release (ProcLock p)) (kret None)))"

definition allocproc :: "nat option k" where
  "allocproc =
     kbind (kfor allocproc_slot [0..<NPROC]) (\<lambda>found. case found of
       None \<Rightarrow> kret None
     | Some p \<Rightarrow>
         kbind allocpid (\<lambda>pid.
         kthen (pset p (\<lambda>pr. pr\<lparr>p_pid := pid, p_state := USED\<rparr>))
        (kbind kalloc (\<lambda>tf.
         kthen (pset p (\<lambda>pr. pr\<lparr>p_trapframe := tf\<rparr>))
        (if tf = 0 then kthen (freeproc p) (kthen (release (ProcLock p)) (kret None))
         else kbind (proc_pagetable p) (\<lambda>pt.
              kthen (pset p (\<lambda>pr. pr\<lparr>p_pagetable := pt\<rparr>))
             (if pt = 0 then kthen (freeproc p) (kthen (release (ProcLock p)) (kret None))
              else kbind (kget (\<lambda>s. sym_forkret (syms s))) (\<lambda>fr.
                   kthen (pset p (\<lambda>pr. pr\<lparr>p_context :=
                     \<lparr>ctx_ra = fr, ctx_sp = p_kstack pr + PGSIZE, ctx_s = (\<lambda>_. 0)\<rparr>\<rparr>))
                  (kret (Some p))))))))))"

subsection \<open>Growing and shrinking\<close>

definition growproc :: "int \<Rightarrow> int k" where
  "growproc n =
     kbind curproc (\<lambda>p.
     kbind (pget p (\<lambda>pr. (p_sz pr, p_pagetable pr))) (\<lambda>(sz, pt).
     if 0 < n
     then if TRAPFRAME < sz + word_of_int n then kret (- 1)
          else kbind (uvmalloc pt sz (sz + word_of_int n) PTE_W) (\<lambda>sz'.
               if sz' = 0 then kret (- 1)
               else kthen (pset p (\<lambda>pr. pr\<lparr>p_sz := sz'\<rparr>)) (kret 0))
     else if n < 0
     then kbind (uvmdealloc pt sz (sz + word_of_int n)) (\<lambda>sz'.
          kthen (pset p (\<lambda>pr. pr\<lparr>p_sz := sz'\<rparr>)) (kret 0))
     else kthen (pset p (\<lambda>pr. pr\<lparr>p_sz := sz\<rparr>)) (kret 0)))"

subsection \<open>The scheduler\<close>

text \<open>
  One round of the scheduler's loop over the table. \<open>run p\<close> is the switch to process \<open>p\<close> and
  whatever it does until it switches back, with its lock held again.
\<close>

definition scheduler_slot :: "(nat \<Rightarrow> unit k) \<Rightarrow> nat \<Rightarrow> unit option k" where
  "scheduler_slot run p =
     kthen (acquire (ProcLock p))
    (kbind (pget p p_state) (\<lambda>st.
     kthen (kwhen (st = RUNNABLE) (kdo [
       pset p (\<lambda>pr. pr\<lparr>p_state := RUNNING\<rparr>),
       kmodify (\<lambda>s. s\<lparr>cpu := (cpu s)\<lparr>c_proc := Some p\<rparr>\<rparr>),
       run p,
       kmodify (\<lambda>s. s\<lparr>cpu := (cpu s)\<lparr>c_proc := None\<rparr>\<rparr>)]))
    (kthen (release (ProcLock p)) (kret None))))"

definition scheduler_round :: "(nat \<Rightarrow> unit k) \<Rightarrow> unit k" where
  "scheduler_round run =
     kthen intr_on (kthen intr_off (kthen (kfor (scheduler_slot run) [0..<NPROC]) (kret ())))"

text \<open>\<open>n\<close> rounds; the loop of the source never ends.\<close>

primrec scheduler_rounds :: "nat \<Rightarrow> (nat \<Rightarrow> unit k) \<Rightarrow> unit k" where
  "scheduler_rounds 0 run = kret ()"
| "scheduler_rounds (Suc n) run = kthen (scheduler_round run) (scheduler_rounds n run)"

definition scheduler :: "nat \<Rightarrow> (nat \<Rightarrow> unit k) \<Rightarrow> unit k" where
  "scheduler n run =
     kthen (kmodify (\<lambda>s. s\<lparr>cpu := (cpu s)\<lparr>c_proc := None\<rparr>\<rparr>)) (scheduler_rounds n run)"

definition yield :: "unit k \<Rightarrow> unit k" where
  "yield env =
     kbind curproc (\<lambda>p. kdo [
       acquire (ProcLock p),
       pset p (\<lambda>pr. pr\<lparr>p_state := RUNNABLE\<rparr>),
       sched (scheduler_turn env p),
       release (ProcLock p)])"

subsection \<open>Killing\<close>

definition kkill_slot :: "int \<Rightarrow> nat \<Rightarrow> int option k" where
  "kkill_slot pid p =
     kthen (acquire (ProcLock p))
    (kbind (pget p p_pid) (\<lambda>q.
     if q = pid
     then kthen (pset p (\<lambda>pr. pr\<lparr>p_killed := 1\<rparr>))
         (kthen (pset p (\<lambda>pr. if p_state pr = SLEEPING then pr\<lparr>p_state := RUNNABLE\<rparr> else pr))
         (kthen (release (ProcLock p))
         (kret (Some 0))))
     else kthen (release (ProcLock p)) (kret None)))"

definition kkill :: "int \<Rightarrow> int k" where
  "kkill pid =
     kbind (kfor (kkill_slot pid) [0..<NPROC]) (\<lambda>r. case r of Some v \<Rightarrow> kret v | None \<Rightarrow> kret (- 1))"

subsection \<open>Copying to and from a process or the kernel\<close>

text \<open>
  A destination or source: a user address, or memory of the kernel at the given address.
\<close>

definition either_copyout :: "bool \<Rightarrow> u64 \<Rightarrow> u8 list \<Rightarrow> int k" where
  "either_copyout user_dst dst src =
     kbind myproc (\<lambda>p.
     if user_dst
     then case p of None \<Rightarrow> kfault ''either_copyout: null process''
          | Some p \<Rightarrow> kbind (pget p p_pagetable) (\<lambda>pt. copyout pt dst src)
     else kthen (kmodify (\<lambda>s. s\<lparr>mem := mem_write (mem s) dst src\<rparr>)) (kret 0))"

definition either_copyin :: "bool \<Rightarrow> u64 \<Rightarrow> nat \<Rightarrow> (int \<times> u8 list) k" where
  "either_copyin user_src src len =
     kbind myproc (\<lambda>p.
     if user_src
     then case p of None \<Rightarrow> kfault ''either_copyin: null process''
          | Some p \<Rightarrow> kbind (pget p p_pagetable) (\<lambda>pt. copyin pt src len)
     else kbind (kget (\<lambda>s. mem_read (mem s) src len)) (\<lambda>bs. kret (0, bs)))"

subsection \<open>The listing\<close>

definition state_name :: "procstate \<Rightarrow> string" where
  "state_name st = (case st of UNUSED \<Rightarrow> ''unused'' | USED \<Rightarrow> ''used'' | SLEEPING \<Rightarrow> ''sleep ''
     | RUNNABLE \<Rightarrow> ''runble'' | RUNNING \<Rightarrow> ''run   '' | ZOMBIE \<Rightarrow> ''zombie'')"

text \<open>A name without a NUL in its 16 bytes would be read beyond the array.\<close>

definition proc_name :: "(nat \<Rightarrow> u8) \<Rightarrow> u8 list option" where
  "proc_name nm = (let bs = map nm [0..<16] in
     if 0 \<in> set bs then Some (takeWhile (\<lambda>b. b \<noteq> 0) bs) else None)"

definition procdump_slot :: "nat \<Rightarrow> unit option k" where
  "procdump_slot p =
     kbind (kget (\<lambda>s. procs s p)) (\<lambda>pr.
     if p_state pr = UNUSED then kret None
     else case proc_name (p_name pr) of
       None \<Rightarrow> kfault ''procdump: name''
     | Some nm \<Rightarrow>
         kthen (printf ''%d %s %s''
           [PNum (word_of_int (p_pid pr)), PStr (Some (bytes (state_name (p_state pr)))), PStr (Some nm)])
        (kthen (printf [CHR 0x0A] []) (kret None)))"

definition procdump :: "unit k" where
  "procdump = kthen (printf [CHR 0x0A] []) (kthen (kfor procdump_slot [0..<NPROC]) (kret ()))"

end
