(* ===== verification/Fs.thy ===== *)
theory Fs
  imports Log Proc Kstring
begin

text \<open>
  \<^verbatim>\<open>kernel/fs.c\<close>: blocks, inodes, directories and path names. An inode pointer is an index of
  the inode table, \<open>None\<close> the null pointer. Block contents are lists of 1024 bytes; the structs
  on disk are read and written at the offsets C gives their fields.
\<close>

abbreviation (input) T_DIR :: int where "T_DIR \<equiv> 1"
abbreviation (input) T_FILE :: int where "T_FILE \<equiv> 2"
abbreviation (input) T_DEVICE :: int where "T_DEVICE \<equiv> 3"
abbreviation (input) ROOTINO :: u32 where "ROOTINO \<equiv> 1"
abbreviation (input) FSMAGIC :: u32 where "FSMAGIC \<equiv> 0x10203040"
abbreviation (input) BPB :: nat where "BPB \<equiv> 8192"
abbreviation (input) IPB :: nat where "IPB \<equiv> 16"
abbreviation (input) MAXFILE :: nat where "MAXFILE \<equiv> NDIRECT + NINDIRECT"
abbreviation (input) DINODE_SIZE :: nat where "DINODE_SIZE \<equiv> 64"
abbreviation (input) DIRENT_SIZE :: nat where "DIRENT_SIZE \<equiv> 16"

definition fget :: "(fsstate \<Rightarrow> 'a) \<Rightarrow> 'a k" where
  "fget f = kget (\<lambda>s. f (fs s))"

definition upd_inode :: "nat \<Rightarrow> (inode \<Rightarrow> inode) \<Rightarrow> unit k" where
  "upd_inode ip f = kmodify (\<lambda>s. s\<lparr>fs := (fs s)\<lparr>itable := (itable (fs s))(ip := f (itable (fs s) ip))\<rparr>\<rparr>)"

definition ino :: "nat \<Rightarrow> inode k" where
  "ino ip = fget (\<lambda>f. itable f ip)"

definition IBLOCK :: "u32 \<Rightarrow> superblock \<Rightarrow> u32" where
  "IBLOCK i super = i div of_nat IPB + sb_inodestart super"

definition BBLOCK :: "u32 \<Rightarrow> superblock \<Rightarrow> u32" where
  "BBLOCK b super = b div of_nat BPB + sb_bmapstart super"

subsection \<open>Superblock\<close>

definition get_superblock :: "u8 list \<Rightarrow> superblock" where
  "get_superblock d = \<lparr>sb_magic = get32 d 0, sb_size = get32 d 4, sb_nblocks = get32 d 8,
     sb_ninodes = get32 d 12, sb_nlog = get32 d 16, sb_logstart = get32 d 20,
     sb_inodestart = get32 d 24, sb_bmapstart = get32 d 28\<rparr>"

definition readsb :: "u32 \<Rightarrow> unit k" where
  "readsb dev =
     kbind (bread dev 1) (\<lambda>bp.
     kbind (buf_data bp) (\<lambda>d.
     kthen (kmodify (\<lambda>s. s\<lparr>fs := (fs s)\<lparr>sb := get_superblock d\<rparr>\<rparr>))
    (brelse bp)))"

subsection \<open>Blocks\<close>

definition bzero :: "u32 \<Rightarrow> u32 \<Rightarrow> unit k" where
  "bzero dev bno =
     kbind (bread dev bno) (\<lambda>bp. kdo [set_data bp (replicate BSIZE 0), log_write bp, brelse bp])"

text \<open>The bit of a block in its block of the free map.\<close>

definition bmap_mask :: "nat \<Rightarrow> u8" where
  "bmap_mask bi = push_bit (bi mod 8) 1"

definition bmap_used :: "u8 list \<Rightarrow> nat \<Rightarrow> bool" where
  "bmap_used d bi \<longleftrightarrow> d ! (bi div 8) AND bmap_mask bi \<noteq> 0"

definition bmap_set :: "u8 list \<Rightarrow> nat \<Rightarrow> u8 list" where
  "bmap_set d bi = d[bi div 8 := d ! (bi div 8) OR bmap_mask bi]"

definition bmap_clear :: "u8 list \<Rightarrow> nat \<Rightarrow> u8 list" where
  "bmap_clear d bi = d[bi div 8 := d ! (bi div 8) AND NOT (bmap_mask bi)]"

text \<open>One block of the free map, from block number \<open>b\<close> on: the first free bit of it is taken.\<close>

definition balloc_group :: "u32 \<Rightarrow> nat \<Rightarrow> u32 option k" where
  "balloc_group dev b =
     kbind (fget sb) (\<lambda>super.
     kbind (bread dev (BBLOCK (of_nat b) super)) (\<lambda>bp.
     kbind (buf_data bp) (\<lambda>d.
     case find (\<lambda>bi. \<not> bmap_used d bi) [0..<min BPB (unat (sb_size super) - b)] of
       Some bi \<Rightarrow>
         kthen (kdo [
           set_data bp (bmap_set d bi),
           log_write bp,
           brelse bp,
           bzero dev (of_nat (b + bi))])
        (kret (Some (of_nat (b + bi))))
     | None \<Rightarrow> kthen (brelse bp) (kret None))))"

definition balloc :: "u32 \<Rightarrow> u32 k" where
  "balloc dev =
     kbind (fget (\<lambda>f. unat (sb_size (sb f)))) (\<lambda>sz.
     kbind (kfor (balloc_group dev) (map (\<lambda>i. i * BPB) [0..<(sz + BPB - 1) div BPB])) (\<lambda>r.
     case r of
       Some bno \<Rightarrow> kret bno
     | None \<Rightarrow> kthen (printf (''balloc: out of blocks'' @ [CHR 0x0A]) []) (kret 0)))"

definition bfree :: "u32 \<Rightarrow> u32 \<Rightarrow> unit k" where
  "bfree dev b =
     kbind (fget sb) (\<lambda>super.
     kbind (bread dev (BBLOCK b super)) (\<lambda>bp.
     kbind (buf_data bp) (\<lambda>d.
     let bi = unat (b mod of_nat BPB) in
     kthen (kpanic_if (\<not> bmap_used d bi) ''freeing free block'')
    (kdo [set_data bp (bmap_clear d bi), log_write bp, brelse bp]))))"

subsection \<open>Inodes\<close>

definition iinit :: "unit k" where
  "iinit =
     kthen (initlock ItableLock)
    (kthen (kfor (\<lambda>i. kthen (initsleeplock (InodeSL i)) (kret (None :: unit option))) [0..<NINODE])
    (kret ()))"

text \<open>A \<^verbatim>\<open>struct dinode\<close> at an offset of a block.\<close>

definition get_dinode :: "u8 list \<Rightarrow> nat \<Rightarrow> dinode" where
  "get_dinode d i = \<lparr>di_type = sint (get16 d i), di_major = sint (get16 d (i + 2)),
     di_minor = sint (get16 d (i + 4)), di_nlink = sint (get16 d (i + 6)),
     di_size = get32 d (i + 8), di_addrs = (\<lambda>j. get32 d (i + 12 + 4 * j))\<rparr>"

definition dinode_bytes :: "dinode \<Rightarrow> u8 list" where
  "dinode_bytes di = le16 (word_of_int (di_type di)) @ le16 (word_of_int (di_major di)) @
     le16 (word_of_int (di_minor di)) @ le16 (word_of_int (di_nlink di)) @ le32 (di_size di) @
     concat (map (\<lambda>j. le32 (di_addrs di j)) [0..<NDIRECT + 1])"

text \<open>The offset of an inode in its block.\<close>

definition dinode_off :: "u32 \<Rightarrow> nat" where
  "dinode_off inum = unat (inum mod of_nat IPB) * DINODE_SIZE"

definition iget_scan :: "u32 \<Rightarrow> u32 \<Rightarrow> (nat \<Rightarrow> inode) \<Rightarrow> nat option" where
  "iget_scan dev inum tab =
     find (\<lambda>i. 0 < i_ref (tab i) \<and> i_dev (tab i) = dev \<and> i_inum (tab i) = inum) [0..<NINODE]"

definition iget_empty :: "(nat \<Rightarrow> inode) \<Rightarrow> nat option" where
  "iget_empty tab = find (\<lambda>i. i_ref (tab i) = 0) [0..<NINODE]"

definition iget :: "u32 \<Rightarrow> u32 \<Rightarrow> nat k" where
  "iget dev inum =
     kthen (acquire ItableLock)
    (kbind (fget itable) (\<lambda>tab. case iget_scan dev inum tab of
       Some ip \<Rightarrow>
         kthen (upd_inode ip (\<lambda>i. i\<lparr>i_ref := i_ref i + 1\<rparr>))
        (kthen (release ItableLock) (kret ip))
     | None \<Rightarrow> (case iget_empty tab of
         None \<Rightarrow> kpanic ''iget: no inodes''
       | Some ip \<Rightarrow>
           kthen (upd_inode ip (\<lambda>i. i\<lparr>i_dev := dev, i_inum := inum, i_ref := 1, i_valid := False\<rparr>))
          (kthen (release ItableLock) (kret ip)))))"

definition ialloc_one :: "u32 \<Rightarrow> int \<Rightarrow> nat \<Rightarrow> nat option k" where
  "ialloc_one dev typ inum =
     kbind (fget sb) (\<lambda>super.
     kbind (bread dev (IBLOCK (of_nat inum) super)) (\<lambda>bp.
     kbind (buf_data bp) (\<lambda>d.
     let off = dinode_off (of_nat inum) in
     if di_type (get_dinode d off) = 0
     then kthen (set_data bp (put_bytes d off (le16 (word_of_int typ) @ replicate (DINODE_SIZE - 2) 0)))
         (kthen (log_write bp)
         (kthen (brelse bp)
         (kbind (iget dev (of_nat inum)) (\<lambda>ip. kret (Some ip)))))
     else kthen (brelse bp) (kret None))))"

definition ialloc :: "u32 \<Rightarrow> int \<Rightarrow> nat option k" where
  "ialloc dev typ =
     kbind (fget (\<lambda>f. unat (sb_ninodes (sb f)))) (\<lambda>n.
     kbind (kfor (ialloc_one dev typ) [1..<n]) (\<lambda>r. case r of
       Some ip \<Rightarrow> kret (Some ip)
     | None \<Rightarrow> kthen (printf (''ialloc: no inodes'' @ [CHR 0x0A]) []) (kret None)))"

definition inode_dinode :: "inode \<Rightarrow> dinode" where
  "inode_dinode i = \<lparr>di_type = i_type i, di_major = i_major i, di_minor = i_minor i,
     di_nlink = i_nlink i, di_size = i_size i, di_addrs = i_addrs i\<rparr>"

definition iupdate :: "nat \<Rightarrow> unit k" where
  "iupdate ip =
     kbind (ino ip) (\<lambda>i.
     kbind (fget sb) (\<lambda>super.
     kbind (bread (i_dev i) (IBLOCK (i_inum i) super)) (\<lambda>bp.
     kbind (buf_data bp) (\<lambda>d. kdo [
       set_data bp (put_bytes d (dinode_off (i_inum i)) (dinode_bytes (inode_dinode i))),
       log_write bp,
       brelse bp]))))"

text \<open>A null pointer is dereferenced where the source does not test for it.\<close>

definition deref :: "'b option \<Rightarrow> ('b \<Rightarrow> 'a k) \<Rightarrow> 'a k" where
  "deref p f = (case p of None \<Rightarrow> kfault ''null pointer'' | Some x \<Rightarrow> f x)"

definition idup :: "nat option \<Rightarrow> nat option k" where
  "idup ipo = deref ipo (\<lambda>ip.
     kthen (acquire ItableLock)
    (kthen (upd_inode ip (\<lambda>i. i\<lparr>i_ref := i_ref i + 1\<rparr>))
    (kthen (release ItableLock) (kret (Some ip)))))"

definition ilock :: "nat option \<Rightarrow> unit k" where
  "ilock ipo = (case ipo of
     None \<Rightarrow> kpanic ''ilock''
   | Some ip \<Rightarrow>
       kbind (ino ip) (\<lambda>i.
       kthen (kpanic_if (i_ref i < 1) ''ilock'')
      (kthen (acquiresleep (InodeSL ip))
      (kbind (ino ip) (\<lambda>i.
       kwhen (\<not> i_valid i)
        (kbind (fget sb) (\<lambda>super.
         kbind (bread (i_dev i) (IBLOCK (i_inum i) super)) (\<lambda>bp.
         kbind (buf_data bp) (\<lambda>d.
         let di = get_dinode d (dinode_off (i_inum i)) in
         kthen (upd_inode ip (\<lambda>i. i\<lparr>i_type := di_type di, i_major := di_major di,
           i_minor := di_minor di, i_nlink := di_nlink di, i_size := di_size di,
           i_addrs := (\<lambda>j. if j \<le> NDIRECT then di_addrs di j else i_addrs i j)\<rparr>))
        (kthen (brelse bp)
        (kthen (upd_inode ip (\<lambda>i. i\<lparr>i_valid := True\<rparr>))
        (kpanic_if (di_type di = 0) ''ilock: no type''))))))))))))"

definition iunlock :: "nat option \<Rightarrow> unit k" where
  "iunlock ipo = (case ipo of
     None \<Rightarrow> kpanic ''iunlock''
   | Some ip \<Rightarrow>
       kbind (holdingsleep (InodeSL ip)) (\<lambda>h.
       kbind (ino ip) (\<lambda>i.
       kthen (kpanic_if (\<not> h \<or> i_ref i < 1) ''iunlock'')
      (releasesleep (InodeSL ip)))))"

definition itrunc_direct :: "nat \<Rightarrow> nat \<Rightarrow> unit option k" where
  "itrunc_direct ip j =
     kbind (ino ip) (\<lambda>i.
     kthen (kwhen (i_addrs i j \<noteq> 0) (kdo [
       bfree (i_dev i) (i_addrs i j),
       upd_inode ip (\<lambda>i. i\<lparr>i_addrs := (i_addrs i)(j := 0)\<rparr>)]))
    (kret None))"

definition itrunc_indirect :: "nat \<Rightarrow> unit k" where
  "itrunc_indirect ip =
     kbind (ino ip) (\<lambda>i.
     kbind (bread (i_dev i) (i_addrs i NDIRECT)) (\<lambda>bp.
     kbind (buf_data bp) (\<lambda>d.
     kthen (kfor (\<lambda>j. kthen (kwhen (get32 d (4 * j) \<noteq> 0) (bfree (i_dev i) (get32 d (4 * j))))
              (kret (None :: unit option))) [0..<NINDIRECT])
    (kdo [
       brelse bp,
       bfree (i_dev i) (i_addrs i NDIRECT),
       upd_inode ip (\<lambda>i. i\<lparr>i_addrs := (i_addrs i)(NDIRECT := 0)\<rparr>)]))))"

definition itrunc :: "nat \<Rightarrow> unit k" where
  "itrunc ip =
     kthen (kfor (itrunc_direct ip) [0..<NDIRECT])
    (kbind (ino ip) (\<lambda>i.
     kdo [
       kwhen (i_addrs i NDIRECT \<noteq> 0) (itrunc_indirect ip),
       upd_inode ip (\<lambda>i. i\<lparr>i_size := 0\<rparr>),
       iupdate ip]))"

definition iput :: "nat option \<Rightarrow> unit k" where
  "iput ipo =
     kthen (acquire ItableLock)
    (deref ipo (\<lambda>ip.
     kbind (ino ip) (\<lambda>i.
     kdo [
       kwhen (i_ref i = 1 \<and> i_valid i \<and> i_nlink i = 0) (kdo [
         acquiresleep (InodeSL ip),
         release ItableLock,
         itrunc ip,
         upd_inode ip (\<lambda>i. i\<lparr>i_type := 0\<rparr>),
         iupdate ip,
         upd_inode ip (\<lambda>i. i\<lparr>i_valid := False\<rparr>),
         releasesleep (InodeSL ip),
         acquire ItableLock]),
       upd_inode ip (\<lambda>i. i\<lparr>i_ref := i_ref i - 1\<rparr>),
       release ItableLock])))"

definition iunlockput :: "nat option \<Rightarrow> unit k" where
  "iunlockput ipo = kdo [iunlock ipo, iput ipo]"

definition ireclaim_one :: "u32 \<Rightarrow> nat \<Rightarrow> unit option k" where
  "ireclaim_one dev inum =
     kbind (fget sb) (\<lambda>super.
     kbind (bread dev (IBLOCK (of_nat inum) super)) (\<lambda>bp.
     kbind (buf_data bp) (\<lambda>d.
     let di = get_dinode d (dinode_off (of_nat inum)) in
     if di_type di \<noteq> 0 \<and> di_nlink di = 0
     then kthen (printf (''ireclaim: orphaned inode %d'' @ [CHR 0x0A]) [PNum (of_nat inum)])
         (kbind (iget dev (of_nat inum)) (\<lambda>ip.
          kthen (kdo [brelse bp, begin_op, ilock (Some ip), iunlock (Some ip), iput (Some ip), end_op])
         (kret None)))
     else kthen (brelse bp) (kret None))))"

definition ireclaim :: "u32 \<Rightarrow> unit k" where
  "ireclaim dev =
     kbind (fget (\<lambda>f. unat (sb_ninodes (sb f)))) (\<lambda>n.
     kthen (kfor (ireclaim_one dev) [1..<n]) (kret ()))"

definition fsinit :: "u32 \<Rightarrow> unit k" where
  "fsinit dev =
     kthen (readsb dev)
    (kbind (fget sb) (\<lambda>super.
     kthen (kpanic_if (sb_magic super \<noteq> FSMAGIC) ''invalid file system'')
    (kdo [initlog dev super, ireclaim dev])))"

end
