(* ===== verification/Fsdata.thy ===== *)
theory Fsdata
  imports Fs
begin

text \<open>
  The second half of \<^verbatim>\<open>kernel/fs.c\<close>: the content of inodes, directories and path names.

  A transfer with \<^verbatim>\<open>user_dst = 0\<close> goes to an object of the caller; the bytes are handed back.
  A transfer with \<^verbatim>\<open>user_src = 0\<close> comes from an object of the caller; the bytes are given.
\<close>

subsection \<open>Content\<close>

definition bmap_direct :: "nat \<Rightarrow> nat \<Rightarrow> u32 k" where
  "bmap_direct ip j =
     kbind (ino ip) (\<lambda>i.
     if i_addrs i j \<noteq> 0 then kret (i_addrs i j)
     else kbind (balloc (i_dev i)) (\<lambda>addr.
          if addr = 0 then kret 0
          else kthen (upd_inode ip (\<lambda>i. i\<lparr>i_addrs := (i_addrs i)(j := addr)\<rparr>)) (kret addr)))"

definition bmap :: "nat \<Rightarrow> u32 \<Rightarrow> u32 k" where
  "bmap ip bn =
    (if unat bn < NDIRECT then bmap_direct ip (unat bn)
     else let j = unat (bn - of_nat NDIRECT) in
     if j < NINDIRECT
     then kbind (bmap_direct ip NDIRECT) (\<lambda>ind.
          if ind = 0 then kret 0
          else kbind (ino ip) (\<lambda>i.
          kbind (bread (i_dev i) ind) (\<lambda>bp.
          kbind (buf_data bp) (\<lambda>d.
          kbind (if get32 d (4 * j) \<noteq> 0 then kret (get32 d (4 * j))
                 else kbind (balloc (i_dev i)) (\<lambda>addr.
                      kthen (kwhen (addr \<noteq> 0) (kdo [
                        set_data bp (put_bytes d (4 * j) (le32 addr)),
                        log_write bp]))
                     (kret addr))) (\<lambda>addr.
          kthen (brelse bp) (kret addr))))))
     else kpanic ''bmap: out of range'')"

record stat =
  st_dev :: u32
  st_ino :: u32
  st_type :: int
  st_nlink :: int
  st_size :: u64

definition stati :: "nat \<Rightarrow> stat k" where
  "stati ip =
     kbind (ino ip) (\<lambda>i. kret \<lparr>st_dev = i_dev i, st_ino = i_inum i, st_type = i_type i,
       st_nlink = i_nlink i, st_size = ucast (i_size i)\<rparr>)"

text \<open>
  The loop of \<open>readi\<close> with \<open>rem\<close> bytes to go; the result is what has been read (\<open>- 1\<close> if a copy
  failed) and the bytes for a destination in the kernel.
\<close>

definition block_chunk :: "u32 \<Rightarrow> nat \<Rightarrow> nat" where
  "block_chunk off rem = min rem (BSIZE - unat (off mod of_nat BSIZE))"

lemma block_chunk_pos: "0 < rem \<Longrightarrow> 0 < block_chunk off rem"
proof -
  have "unat (off mod of_nat BSIZE) < BSIZE" by (simp add: unat_mod_distrib)
  then show "0 < rem \<Longrightarrow> 0 < block_chunk off rem" by (simp add: block_chunk_def)
qed

function readi_loop :: "nat \<Rightarrow> bool \<Rightarrow> u64 \<Rightarrow> u32 \<Rightarrow> nat \<Rightarrow> int \<Rightarrow> u8 list \<Rightarrow> (int \<times> u8 list) k" where
  "readi_loop ip user_dst dst off rem tot acc =
    (if rem = 0 then kret (tot, acc)
     else kbind (bmap ip (off div of_nat BSIZE)) (\<lambda>addr.
     if addr = 0 then kret (tot, acc)
     else kbind (ino ip) (\<lambda>i.
     kbind (bread (i_dev i) addr) (\<lambda>bp.
     kbind (buf_data bp) (\<lambda>d.
     let m = block_chunk off rem; bs = take m (drop (unat (off mod of_nat BSIZE)) d) in
     kbind (if user_dst then either_copyout True dst bs else kret 0) (\<lambda>r.
     kthen (brelse bp)
    (if r = - 1 then kret (- 1, acc)
     else readi_loop ip user_dst (dst + of_nat m) (off + of_nat m) (rem - m) (tot + int m)
            (if user_dst then acc else acc @ bs))))))))"
  by pat_completeness auto

termination
  by (relation "measure (\<lambda>(ip, u, dst, off, rem, tot, acc). rem)") (auto simp: block_chunk_pos)

declare readi_loop.simps [simp del]

definition readi :: "nat \<Rightarrow> bool \<Rightarrow> u64 \<Rightarrow> u32 \<Rightarrow> u32 \<Rightarrow> (int \<times> u8 list) k" where
  "readi ip user_dst dst off n =
     kbind (ino ip) (\<lambda>i.
     if i_size i < off \<or> off + n < off then kret (0, [])
     else let n' = (if i_size i < off + n then i_size i - off else n) in
          readi_loop ip user_dst dst off (unat n') 0 [])"

text \<open>The source of a write: a user address or bytes of the kernel.\<close>

datatype wsrc = WUser u64 | WKern "u8 list"

definition wsrc_get :: "wsrc \<Rightarrow> nat \<Rightarrow> (int \<times> u8 list) k" where
  "wsrc_get w m = (case w of WUser a \<Rightarrow> either_copyin True a m | WKern bs \<Rightarrow> kret (0, take m bs))"

definition wsrc_drop :: "nat \<Rightarrow> wsrc \<Rightarrow> wsrc" where
  "wsrc_drop m w = (case w of WUser a \<Rightarrow> WUser (a + of_nat m) | WKern bs \<Rightarrow> WKern (drop m bs))"

text \<open>
  The loop of \<open>writei\<close>; the result is the count and the offset reached. Bytes that a failing copy
  has already moved into the buffer stay there.
\<close>

function writei_loop :: "nat \<Rightarrow> wsrc \<Rightarrow> u32 \<Rightarrow> nat \<Rightarrow> int \<Rightarrow> (int \<times> u32) k" where
  "writei_loop ip src off rem tot =
    (if rem = 0 then kret (tot, off)
     else kbind (bmap ip (off div of_nat BSIZE)) (\<lambda>addr.
     if addr = 0 then kret (tot, off)
     else kbind (ino ip) (\<lambda>i.
     kbind (bread (i_dev i) addr) (\<lambda>bp.
     let m = block_chunk off rem in
     kbind (wsrc_get src m) (\<lambda>(r, bs).
     kbind (buf_data bp) (\<lambda>d.
     kthen (set_data bp (put_bytes d (unat (off mod of_nat BSIZE)) bs))
    (if r = - 1 then kthen (brelse bp) (kret (tot, off))
     else kthen (log_write bp)
         (kthen (brelse bp)
         (writei_loop ip (wsrc_drop m src) (off + of_nat m) (rem - m) (tot + int m))))))))))"
  by pat_completeness auto

termination
  by (relation "measure (\<lambda>(ip, src, off, rem, tot). rem)") (auto simp: block_chunk_pos)

declare writei_loop.simps [simp del]

definition writei :: "nat \<Rightarrow> wsrc \<Rightarrow> u32 \<Rightarrow> u32 \<Rightarrow> int k" where
  "writei ip src off n =
     kbind (ino ip) (\<lambda>i.
     if i_size i < off \<or> off + n < off then kret (- 1)
     else if MAXFILE * BSIZE < unat (off + n) then kret (- 1)
     else kbind (writei_loop ip src off (unat n) 0) (\<lambda>(tot, off').
          kthen (upd_inode ip (\<lambda>i. if i_size i < off' then i\<lparr>i_size := off'\<rparr> else i))
         (kthen (iupdate ip)
         (kret tot))))"

subsection \<open>Directories\<close>

definition namecmp :: "(nat \<Rightarrow> u8) \<Rightarrow> (nat \<Rightarrow> u8) \<Rightarrow> int" where
  "namecmp s t = strncmp s t DIRSIZ"

text \<open>The fields of a \<^verbatim>\<open>struct dirent\<close> in its 16 bytes, and the bytes of one.\<close>

definition de_inum :: "u8 list \<Rightarrow> u16" where
  "de_inum de = get16 de 0"

definition de_name :: "u8 list \<Rightarrow> nat \<Rightarrow> u8" where
  "de_name de = (\<lambda>i. de ! (2 + i))"

definition dirent_bytes :: "u32 \<Rightarrow> (nat \<Rightarrow> u8) \<Rightarrow> u8 list" where
  "dirent_bytes inum nm = le16 (ucast inum) @ map (strncpy (\<lambda>_. 0) nm (int DIRSIZ)) [0..<DIRSIZ]"

definition dir_offsets :: "u32 \<Rightarrow> nat list" where
  "dir_offsets sz = map (\<lambda>i. i * DIRENT_SIZE) [0..<(unat sz + DIRENT_SIZE - 1) div DIRENT_SIZE]"

text \<open>Read the entry at an offset, with the caller's panic if that fails.\<close>

definition read_dirent :: "string \<Rightarrow> nat \<Rightarrow> nat \<Rightarrow> u8 list k" where
  "read_dirent who dp off =
     kbind (readi dp False 0 (of_nat off) (of_nat DIRENT_SIZE)) (\<lambda>(r, de).
     kthen (kpanic_if (r \<noteq> int DIRENT_SIZE) who) (kret de))"

definition dirlookup_at :: "nat \<Rightarrow> (nat \<Rightarrow> u8) \<Rightarrow> nat \<Rightarrow> (nat \<times> nat) option k" where
  "dirlookup_at dp nm off =
     kbind (read_dirent ''dirlookup read'' dp off) (\<lambda>de.
     if de_inum de = 0 then kret None
     else if namecmp nm (de_name de) = 0
     then kbind (ino dp) (\<lambda>i. kbind (iget (i_dev i) (ucast (de_inum de))) (\<lambda>ip. kret (Some (ip, off))))
     else kret None)"

text \<open>The inode and, for the callers that pass \<^verbatim>\<open>poff\<close>, the offset of its entry.\<close>

definition dirlookup :: "nat \<Rightarrow> (nat \<Rightarrow> u8) \<Rightarrow> (nat \<times> nat) option k" where
  "dirlookup dp nm =
     kbind (ino dp) (\<lambda>i.
     kthen (kpanic_if (i_type i \<noteq> T_DIR) ''dirlookup not DIR'')
    (kfor (dirlookup_at dp nm) (dir_offsets (i_size i))))"

definition dirlink_at :: "nat \<Rightarrow> nat \<Rightarrow> nat option k" where
  "dirlink_at dp off =
     kbind (read_dirent ''dirlink read'' dp off) (\<lambda>de.
     kret (if de_inum de = 0 then Some off else None))"

definition dirlink :: "nat \<Rightarrow> (nat \<Rightarrow> u8) \<Rightarrow> u32 \<Rightarrow> int k" where
  "dirlink dp nm inum =
     kbind (dirlookup dp nm) (\<lambda>found. case found of
       Some (ip, _) \<Rightarrow> kthen (iput (Some ip)) (kret (- 1))
     | None \<Rightarrow>
         kbind (ino dp) (\<lambda>i.
         kbind (kfor (dirlink_at dp) (dir_offsets (i_size i))) (\<lambda>slot.
         let off = (case slot of Some o' \<Rightarrow> o' | None \<Rightarrow> length (dir_offsets (i_size i)) * DIRENT_SIZE) in
         kbind (writei dp (WKern (dirent_bytes inum nm)) (of_nat off) (of_nat DIRENT_SIZE)) (\<lambda>r.
         kret (if r \<noteq> int DIRENT_SIZE then - 1 else 0)))))"

subsection \<open>Path names\<close>

definition copy_name :: "(nat \<Rightarrow> u8) \<Rightarrow> u8 list \<Rightarrow> nat \<Rightarrow> u8" where
  "copy_name nm e = (if DIRSIZ \<le> length e
     then (\<lambda>i. if i < DIRSIZ then e ! i else nm i)
     else (\<lambda>i. if i < length e then e ! i else if i = length e then 0 else nm i))"

text \<open>The rest of the path and the array \<^verbatim>\<open>name\<close> after the call; \<open>None\<close> is the null pointer.\<close>

definition skipelem :: "u8 list \<Rightarrow> (nat \<Rightarrow> u8) \<Rightarrow> (u8 list \<times> (nat \<Rightarrow> u8)) option" where
  "skipelem path nm =
    (let p = dropWhile (\<lambda>c. c = 47) path in
     if p = [] then None
     else let e = takeWhile (\<lambda>c. c \<noteq> 47) p; rest = dropWhile (\<lambda>c. c \<noteq> 47) p in
          Some (dropWhile (\<lambda>c. c = 47) rest, copy_name nm e))"

lemma skipelem_shorter: "skipelem path nm = Some (path', nm') \<Longrightarrow> length path' < length path"
proof -
  let ?p = "dropWhile (\<lambda>c. c = 47) path"
  assume a: "skipelem path nm = Some (path', nm')"
  then obtain c cs where p: "?p = c # cs" "c \<noteq> 47"
    by (cases ?p) (auto simp: skipelem_def dropWhile_eq_Cons_conv)
  have "path' = dropWhile (\<lambda>c. c = 47) (dropWhile (\<lambda>c. c \<noteq> 47) cs)"
    using a p by (auto simp: skipelem_def Let_def)
  then have "length path' \<le> length cs"
    by (metis length_dropWhile_le order_trans)
  moreover have "length ?p \<le> length path" by (rule length_dropWhile_le)
  ultimately show "length path' < length path" using p by simp
qed

function namex_from :: "nat \<Rightarrow> u8 list \<Rightarrow> bool \<Rightarrow> (nat \<Rightarrow> u8) \<Rightarrow> (nat option \<times> (nat \<Rightarrow> u8)) k" where
  "namex_from ip path parent nm = (case skipelem path nm of
     None \<Rightarrow> if parent then kthen (iput (Some ip)) (kret (None, nm)) else kret (Some ip, nm)
   | Some (path', nm') \<Rightarrow>
       kthen (ilock (Some ip))
      (kbind (ino ip) (\<lambda>i.
       if i_type i \<noteq> T_DIR then kthen (iunlockput (Some ip)) (kret (None, nm'))
       else if parent \<and> path' = [] then kthen (iunlock (Some ip)) (kret (Some ip, nm'))
       else kbind (dirlookup ip nm') (\<lambda>found. case found of
              None \<Rightarrow> kthen (iunlockput (Some ip)) (kret (None, nm'))
            | Some (next', _) \<Rightarrow>
                kthen (iunlockput (Some ip)) (namex_from next' path' parent nm')))))"
  by pat_completeness auto

termination
  by (relation "measure (\<lambda>(ip, path, parent, nm). length path)") (auto simp: skipelem_shorter)

declare namex_from.simps [simp del]

definition namex :: "u8 list \<Rightarrow> bool \<Rightarrow> (nat \<Rightarrow> u8) \<Rightarrow> (nat option \<times> (nat \<Rightarrow> u8)) k" where
  "namex path parent nm =
    (if path \<noteq> [] \<and> hd path = 47
     then kbind (iget ROOTDEV ROOTINO) (\<lambda>ip. namex_from ip path parent nm)
     else kbind curproc (\<lambda>p.
          kbind (pget p p_cwd) (\<lambda>cwd.
          kbind (idup cwd) (\<lambda>ipo. deref ipo (\<lambda>ip. namex_from ip path parent nm)))))"

text \<open>The local array of \<open>namei\<close> is written before it is read.\<close>

definition namei :: "u8 list \<Rightarrow> nat option k" where
  "namei path = kbind (namex path False (\<lambda>_. 0)) (\<lambda>(ip, _). kret ip)"

definition nameiparent :: "u8 list \<Rightarrow> (nat \<Rightarrow> u8) \<Rightarrow> (nat option \<times> (nat \<Rightarrow> u8)) k" where
  "nameiparent path nm = namex path True nm"

end
