(* ===== verification/Vmdata.thy ===== *)
theory Vmdata
  imports Vmfork
begin

text \<open>
  What user memory looks like after the kernel has written to it, allocated a page lazily or
  mapped a range: \<open>copyout\<close>, \<open>copyin\<close>, \<open>vmfault\<close> and \<open>mappages\<close> of \<^verbatim>\<open>kernel/vm.c\<close>.
\<close>

subsection \<open>Copying out and in\<close>

text \<open>The example address space with its one page mapped readable and writable.\<close>

lemma demo_writable:
  assumes "i < 4096"
  shows "uwritable (demo_map 0x17) 0x80101000 (of_nat i)" "PGROUNDDOWN (of_nat i) = 0"
    "pt_wf (mem (demo_map 0x17)) 2 0x80101000"
proof -
  let ?s = "demo_map 0x17"
  obtain k where k: "fork_ok ?s (drop k demo_free) 0x80100000 0x80101000"
    and e: "upte ?s 0x80101000 0 = PA2PTE 0x80102000 OR 0x17 OR PTE_V"
    and t: "0x80102000 \<notin> tables (mem ?s) 2 0x80100000 \<union> tables (mem ?s) 2 0x80101000"
    by (rule demo_mapped [of "0x17"])
  show "pt_wf (mem ?s) 2 0x80101000" using k by (simp add: fork_ok_def as_ok_def)
  have lt: "(of_nat i :: u64) < PGSIZE" using assms by (simp add: word_less_nat_alt unat_of_nat)
  then show z: "PGROUNDDOWN (of_nat i) = 0" using PGROUNDDOWN_plus [of 0 "of_nat i"] by simp
  have "(of_nat i :: u64) < MAXVA" using lt by (rule less_trans) simp
  moreover have "upte ?s 0x80101000 (of_nat i) = upte ?s 0x80101000 0"
    using z by (metis pte_at_PGROUNDDOWN)
  moreover have "PTE2PA (upte ?s 0x80101000 0) = 0x80102000"
    unfolding e or.assoc by (rule PTE2PA_PA2PTE) simp_all
  ultimately show "uwritable ?s 0x80101000 (of_nat i)"
    using t by (simp add: uwritable_def ureadable_def) (simp add: e PA2PTE_def)
qed

text \<open>
  C11. What the kernel copies out to a user buffer, it copies in again. If every byte of the buffer is
  mapped writable and private and no two of its pages are the same page of memory, \<open>copyout\<close>
  stores the bytes there, changes no other byte of memory and no mapping, and \<open>copyin\<close> of the same
  buffer then returns them, however many pages the buffer spans.
\<close>

theorem copyout_copyin:
  assumes "pt_wf (mem s) 2 pt" "\<forall>i < length src. uwritable s pt (va + of_nat i)"
    and "unaliased s pt va (length src)"
  shows "\<exists>s'. copyout pt va src s = Ok 0 s' \<and> copyin pt va (length src) s' = Ok (0, src) s' \<and>
    (\<forall>a. upte s' pt a = upte s pt a) \<and>
    (\<forall>x. (\<forall>i < length src. x \<noteq> uaddr s pt (va + of_nat i)) \<longrightarrow> mem s' x = mem s x)"
proof -
  have w: "uwritable s pt (va + of_nat i)" if "i < length src" for i using assms(2) that by blast
  obtain m where m: "copyout pt va src s = Ok 0 (s\<lparr>mem := m\<rparr>)" and st: "ustored s pt va src m"
    using copyout_ok [OF assms(1) w assms(3)] by blast
  note f = ustored_frame [OF assms(1) st w]
  have "ureadable (s\<lparr>mem := m\<rparr>) pt (va + of_nat i)" if "i < length src" for i
    using w [OF that] f(3) by (simp add: uwritable_def ureadable_def)
  then have "copyin pt va (length src) (s\<lparr>mem := m\<rparr>) =
      Ok (0, map (\<lambda>i. ubyte (s\<lparr>mem := m\<rparr>) pt (va + of_nat i)) [0..<length src]) (s\<lparr>mem := m\<rparr>)"
    using f(1) by (intro copyin_ok) simp_all
  moreover have "map (\<lambda>i. ubyte (s\<lparr>mem := m\<rparr>) pt (va + of_nat i)) [0..<length src] = src"
    using st f(3) by (intro nth_equalityI) (simp_all add: ustored_def ubyte_uaddr uaddr_def)
  ultimately show ?thesis using m st f(3) by (auto simp: ustored_def)
qed

theorem copyout_copyin_witness:
  "\<exists>s'. copyout 0x80101000 4090 [1, 2, 3] (demo_map 0x17) = Ok 0 s' \<and>
     copyin 0x80101000 4090 3 s' = Ok (0, [1, 2, 3]) s'"
proof -
  have i: "(4090 + of_nat i :: u64) = of_nat (4090 + i)" for i by simp
  have "uwritable (demo_map 0x17) 0x80101000 (4090 + of_nat i)" if "i < 3" for i
    unfolding i by (rule demo_writable) (use that in simp)
  moreover have "unaliased (demo_map 0x17) 0x80101000 4090 3"
    unfolding unaliased_def i by (simp add: demo_writable(2) del: of_nat_add)
  ultimately show ?thesis
    using copyout_copyin [OF demo_writable(3) [of 0], of "[1, 2, 3]" 4090]
    by (auto simp: numeral_3_eq_3)
qed

subsection \<open>Lazy allocation\<close>

text \<open>A page taken from the allocator and cleared: the address space is as it was.\<close>

lemma kalloc_zeroed:
  assumes av: "available s (pg # F)" and as: "as_ok s pt"
  obtains s1 where "kalloc s = Ok pg s1" "available (s1\<lparr>mem := memset (mem s1) pg 0 4096\<rparr>) F"
    "as_ok (s1\<lparr>mem := memset (mem s1) pg 0 4096\<rparr>) pt" "frame_mm s s1"
    "tables (memset (mem s1) pg 0 4096) 2 pt = tables (mem s) 2 pt" "pg \<notin> tables (mem s) 2 pt"
    "\<forall>a. pte_at (memset (mem s1) pg 0 4096) a 2 pt = upte s pt a" "pg \<notin> set F" "page_ok s pg"
    "\<forall>q. q \<noteq> pg \<longrightarrow> same_page (memset (mem s1) pg 0 4096) (mem s) q"
    "refcount s1 = (refcount s)(pidx pg := 1)"
proof -
  obtain s1 where k: "kalloc s = Ok pg s1" "available s1 F" "frame_mm s s1"
    "refcount s1 = (refcount s)(pidx pg := 1)" "\<forall>q. q \<noteq> pg \<longrightarrow> same_page (mem s1) (mem s) q"
    using kmem.ka_pop [OF av] by auto
  let ?m = "memset (mem s1) pg 0 4096"
  have pg: "page_ok s pg" "pg \<notin> set F" "pg mod PGSIZE = 0" "refcount s (pidx pg) = 0"
    using kmem.avail_pages [OF av] av by (auto simp: page_ok_def available_def kmem_inv_def)
  have nt: "pg \<notin> tables (mem s) 2 pt" using as_ok_disjoint [OF as av] by auto
  have same: "same_page ?m (mem s) q" if "q \<noteq> pg" for q
    using k(5) that pg(3) same_page_memset [of pg q] by (auto intro: same_page_trans)
  have same1: "same_page ?m (mem s1) q" if "q \<noteq> pg" for q
    using that pg(3) same_page_memset [of pg q] by auto
  have rc: "refcount s1 (pidx q) = refcount s (pidx q)" if "q \<in> tables (mem s) 2 pt" for q
  proof -
    have "0 < refcount s (pidx q)" using as that by (simp add: as_ok_def)
    then show ?thesis using pg(4) k(4) by auto
  qed
  have fr: "frame_mm s (s1\<lparr>mem := ?m\<rparr>)" using k(3) by (simp add: frame_mm_def)
  have f: "as_ok (s1\<lparr>mem := ?m\<rparr>) pt" "tables ?m 2 pt = tables (mem s) 2 pt" "pte_at ?m a 2 pt = upte s pt a" for a
    using as_ok_frame [OF as fr] same nt rc by (force, force, force)
  have "available (s1\<lparr>mem := ?m\<rparr>) F"
  proof (rule kmem.avail_frame [OF k(2)])
    show "same_page (mem (s1\<lparr>mem := ?m\<rparr>)) (mem s1) p" if "p \<in> set F" for p
      using that pg(2) same1 [of p] by auto
  qed simp_all
  then show thesis using that [OF k(1) _ f(1) k(3) f(2) nt _ pg(2,1) _ k(4)] f(3) same by blast
qed

lemma ismapped_not:
  assumes "pt_wf (mem s) 2 pt" "va < MAXVA"
  shows "ismapped pt va s = Ok (has_flag (upte s pt va) PTE_V) s"
  using assms pte_at_slot [OF assms(1), of va] by (simp add: ismapped_def walk_lookup kmonad)

lemma vmfault_none:
  assumes "c_proc (cpu s) = Some p" "p_sz (procs s p) \<le> va \<or> (as_ok s pt \<and> va < MAXVA \<and> has_flag (upte s pt va) PTE_V)"
  shows "vmfault pt va rd s = Ok 0 (s\<lparr>cpu := settle (cpu s)\<rparr>)"
proof (cases "p_sz (procs s p) \<le> va")
  case True
  with assms(1) show ?thesis by (simp add: vmfault_def kmonad curproc_apply)
next
  case False
  with assms(2) have "as_ok s pt" "va < MAXVA" "has_flag (upte s pt va) PTE_V" by auto
  then have "ismapped pt (PGROUNDDOWN va) (s\<lparr>cpu := settle (cpu s)\<rparr>) = Ok True (s\<lparr>cpu := settle (cpu s)\<rparr>)"
    by (simp add: ismapped_not as_ok_def pte_at_PGROUNDDOWN PGROUNDDOWN_lt)
  with assms(1) show ?thesis by (simp add: vmfault_def kmonad curproc_apply Let_def)
qed

lemma vmfault_maps:
  assumes "c_proc (cpu s) = Some p" "p_pagetable (procs s p) = pt" "available s (pg # F)"
    and "as_ok s pt" "2 \<le> length F" and lt: "va < p_sz (procs s p)" and va: "va < MAXVA"
    and False: "\<not> has_flag (upte s pt va) PTE_V"
  obtains s' where "vmfault pt va rd s = Ok pg s'" "as_ok s' pt" "frame_mm s s'"
    "\<forall>a < MAXVA. upte s' pt a = (if PGROUNDDOWN a = PGROUNDDOWN va
       then PA2PTE pg OR (PTE_W OR PTE_U OR PTE_R) OR PTE_V else upte s pt a)"
    "\<forall>a. PGROUNDDOWN a = PGROUNDDOWN va \<longrightarrow> ubyte s' pt a = 0"
proof -
  let ?s = "s\<lparr>cpu := settle (cpu s)\<rparr>" and ?va = "PGROUNDDOWN va"
  have av: "available ?s (pg # F)"
    by (rule kmem.avail_frame [OF assms(3)]) (simp_all add: frame_mm_def)
  have as: "as_ok ?s pt"
    using as_ok_frame [OF assms(4), of ?s] by (simp add: frame_mm_def)
  from va have up: "upage ?va" "?va < MAXVA" by (simp_all add: upage_def PGROUNDDOWN_lt)
  have im: "ismapped pt ?va ?s = Ok (has_flag (upte s pt va) PTE_V) ?s"
    using ismapped_not [of ?s pt ?va] as up by (simp add: as_ok_def pte_at_PGROUNDDOWN)
  obtain s1 where k: "kalloc ?s = Ok pg s1" "available (s1\<lparr>mem := memset (mem s1) pg 0 4096\<rparr>) F"
    "as_ok (s1\<lparr>mem := memset (mem s1) pg 0 4096\<rparr>) pt" "frame_mm ?s s1"
    "tables (memset (mem s1) pg 0 4096) 2 pt = tables (mem ?s) 2 pt" "pg \<notin> tables (mem ?s) 2 pt"
    "\<forall>a. pte_at (memset (mem s1) pg 0 4096) a 2 pt = upte ?s pt a" "pg \<notin> set F" "page_ok ?s pg"
    using kalloc_zeroed [OF av as] by metis
  let ?s2 = "s1\<lparr>mem := memset (mem s1) pg 0 4096\<rparr>"
  let ?e = "PA2PTE pg OR (PTE_W OR PTE_U OR PTE_R) OR PTE_V"
  have pt2: "p_pagetable (procs s1 p) = pt" using frame_mm_same(3) [OF k(4)] assms(2) by simp
  have "\<not> has_flag (upte ?s2 pt ?va) PTE_V" using False k(7) by (simp add: pte_at_PGROUNDDOWN)
  then obtain n s' where m: "mappages pt ?va PGSIZE pg (PTE_W OR PTE_U OR PTE_R) ?s2 = Ok 0 s'"
    "as_ok s' pt" "set_entry ?s2 s' pt ?va ?e (take n F)"
    using mappages_one [OF k(2,3) assms(5) up(1)] by metis
  have nz: "pg \<noteq> 0" and al: "pg mod PGSIZE = 0" using k(9) by (auto simp: page_ok_def)
  have run: "vmfault pt va rd s = Ok pg s'"
    using assms(1,2) lt im False k(1) nz m(1) pt2
    by (simp add: vmfault_def kmonad curproc_apply Let_def not_le)
  have up': "upte s' pt a = (if PGROUNDDOWN a = ?va then ?e else upte s pt a)" if "a < MAXVA" for a
  proof -
    have "same_path 2 ?va (PGROUNDDOWN a) \<longleftrightarrow> ?va = PGROUNDDOWN a"
      using up that by (intro same_path_page) (simp_all add: upage_def PGROUNDDOWN_lt)
    moreover have "upte s' pt (PGROUNDDOWN a) =
        (if same_path 2 ?va (PGROUNDDOWN a) then ?e else upte s pt (PGROUNDDOWN a))"
      using m(3) k(7) by (simp add: set_entry_def)
    ultimately show ?thesis by (auto simp: pte_at_PGROUNDDOWN)
  qed
  have "pg \<notin> set (take n F)" using k(8) in_set_takeD by metis
  then have same: "same_page (mem s') (mem ?s2) pg" using m(3) k(5,6) by (simp add: set_entry_def)
  have z: "ubyte s' pt a = 0" if a: "PGROUNDDOWN a = ?va" for a
  proof -
    have "upte s' pt a = ?e" using up' [of ?va] up a by (metis PGROUNDDOWN_idem pte_at_PGROUNDDOWN)
    moreover have "PTE2PA ?e = pg"
      using k(9) by (simp add: PTE2PA_PA2PTE page_ok_def)
    moreover have "PGROUNDDOWN (pg + (a - PGROUNDDOWN a)) = pg"
      using al page_offset_less by (intro PGROUNDDOWN_plus)
    ultimately show ?thesis
      using same al by (simp add: ubyte_def same_page_def memset_page)
  qed
  have "frame_mm s ?s" "frame_mm s1 ?s2" by (simp_all add: frame_mm_def)
  moreover have "frame_mm ?s2 s'" using m(3) by (simp add: set_entry_def)
  ultimately have "frame_mm s s'" using k(4) frame_mm_trans by metis
  with that [OF run m(2)] up' z show thesis by blast
qed

text \<open>
  C10. Lazy allocation gives a fresh page of zeros. For an address below the size of the process that
  is not mapped, with pages left, \<open>vmfault\<close> maps the page the allocator returns at the address's
  page, writable and for the user; every byte of it reads as 0, all other mappings and all other
  bytes the process can read are as they were. For an address beyond the size of the process,
  or one that is mapped, it returns 0 and changes nothing.
\<close>

theorem vmfault_zero_page:
  assumes "c_proc (cpu s) = Some p" "p_pagetable (procs s p) = pt" "available s (pg # F)"
    and "as_ok s pt" "2 \<le> length F" "p_sz (procs s p) \<le> MAXVA"
  shows "if va < p_sz (procs s p) \<and> \<not> has_flag (upte s pt va) PTE_V
    then \<exists>s'. vmfault pt va rd s = Ok pg s' \<and> as_ok s' pt \<and>
      upte s' pt va = PA2PTE pg OR (PTE_W OR PTE_U OR PTE_R) OR PTE_V \<and>
      (\<forall>a. PGROUNDDOWN a = PGROUNDDOWN va \<longrightarrow> ubyte s' pt a = 0) \<and>
      (\<forall>a < MAXVA. PGROUNDDOWN a \<noteq> PGROUNDDOWN va \<longrightarrow> upte s' pt a = upte s pt a)
    else vmfault pt va rd s = Ok 0 (s\<lparr>cpu := settle (cpu s)\<rparr>)"
proof (cases "va < p_sz (procs s p) \<and> \<not> has_flag (upte s pt va) PTE_V")
  case True
  then have va: "va < MAXVA" using assms(6) by (auto intro: less_le_trans)
  obtain s' where "vmfault pt va rd s = Ok pg s'" "as_ok s' pt" "frame_mm s s'"
    "\<forall>a < MAXVA. upte s' pt a = (if PGROUNDDOWN a = PGROUNDDOWN va
       then PA2PTE pg OR (PTE_W OR PTE_U OR PTE_R) OR PTE_V else upte s pt a)"
    "\<forall>a. PGROUNDDOWN a = PGROUNDDOWN va \<longrightarrow> ubyte s' pt a = 0"
    by (rule vmfault_maps [OF assms(1-5) _ va]) (use True in blast)+
  with True va show ?thesis by auto
next
  case False
  then have "p_sz (procs s p) \<le> va \<or> (as_ok s pt \<and> va < MAXVA \<and> has_flag (upte s pt va) PTE_V)"
    using assms(4,6) by (auto simp: not_less intro: less_le_trans)
  from vmfault_none [OF assms(1) this] False show ?thesis by presburger
qed

theorem vmfault_zero_page_witness:
  "\<exists>s'. vmfault 0x80101000 0x123 False
      (demo_mm\<lparr>cpu := (cpu demo_mm)\<lparr>c_proc := Some 0\<rparr>,
        procs := (procs demo_mm)(0 := (procs demo_mm 0)\<lparr>p_pagetable := 0x80101000, p_sz := 0x2000\<rparr>)\<rparr>)
      = Ok 0x80103000 s' \<and> ubyte s' 0x80101000 0x7 = 0"
proof -
  let ?p = "\<lambda>s. s\<lparr>cpu := (cpu s)\<lparr>c_proc := Some 0\<rparr>,
        procs := (procs s)(0 := (procs s 0)\<lparr>p_pagetable := 0x80101000, p_sz := 0x2000\<rparr>)\<rparr>"
  let ?s = "?p demo_mm"
  have av: "available ?s (0x80103000 # tl demo_free)"
    using demo_mm_available by (simp add: available_def kmem_inv_def kmem_unlocked_def page_ok_def demo_free_def)
  have as: "as_ok ?s 0x80101000"
    using demo_fork_ok by (simp add: fork_ok_def as_ok_def page_ok_def)
  have "upte demo_mm 0x80101000 0x123 = 0" by (rule demo_empty) (simp_all add: demo_free_def)
  then have h: "0x123 < p_sz (procs ?s 0) \<and> \<not> has_flag (upte ?s 0x80101000 0x123) PTE_V" by simp
  have len: "2 \<le> length (tl demo_free)" by (simp add: demo_free_def)
  have c: "c_proc (cpu ?s) = Some 0" "p_pagetable (procs ?s 0) = 0x80101000" "p_sz (procs ?s 0) \<le> MAXVA"
    by simp_all
  obtain s' where "vmfault 0x80101000 0x123 False ?s = Ok 0x80103000 s'"
    "\<forall>a. PGROUNDDOWN a = PGROUNDDOWN 0x123 \<longrightarrow> ubyte s' 0x80101000 a = 0"
    using vmfault_zero_page [OF c(1,2) av as len c(3), of "0x123" False, unfolded if_P [OF h]] by blast
  moreover have "PGROUNDDOWN 7 = PGROUNDDOWN 0x123" by (simp add: PGROUNDDOWN_def)
  ultimately show ?thesis by blast
qed

subsection \<open>Mapping a range\<close>

text \<open>
  C30. \<open>mappages\<close> maps a range of pages. With two pages left for each page to map (the page tables it
  may need) and no page of the range mapped yet, it returns 0; the i-th page of the range then maps
  to the i-th page of memory from \<open>pa\<close> on with the given permissions, every other page of the
  address space has the entry it had, and the page table is well formed.
\<close>

theorem mappages_correct:
  assumes "available s F" "as_ok s pt" "2 * n \<le> length F" "0 < n" "upage va"
    and "unat va + 4096 * n \<le> unat MAXVA"
    and "\<forall>i < n. \<not> has_flag (upte s pt (va + of_nat i * PGSIZE)) PTE_V"
  shows "\<exists>s'. mappages pt va (of_nat n * PGSIZE) pa perm s = Ok 0 s' \<and> as_ok s' pt \<and>
    (\<forall>i < n. upte s' pt (va + of_nat i * PGSIZE) = PA2PTE (pa + of_nat i * PGSIZE) OR perm OR PTE_V) \<and>
    (\<forall>a. upage a \<longrightarrow> (\<forall>i < n. a \<noteq> va + of_nat i * PGSIZE) \<longrightarrow> upte s' pt a = upte s pt a)"
proof -
  have free: "\<not> has_flag (upte s pt (va + of_nat i * PGSIZE)) PTE_V" if "i < n" for i
    using assms(7) that by blast
  obtain k s' where m: "mappages pt va (of_nat n * PGSIZE) pa perm s = Ok 0 s'" "as_ok s' pt"
    "upd_space s s' pt (entries va pa perm n) (take k F)"
    by (rule mappages_maps [OF assms(1-6) free])
  have up: "upage (va + of_nat i * PGSIZE)" if "i < n" for i
    using upage_offset [OF assms(5,6) that] by simp
  have "upte s' pt (va + of_nat i * PGSIZE) = PA2PTE (pa + of_nat i * PGSIZE) OR perm OR PTE_V"
    if "i < n" for i
    using m(3) up [OF that] entries_at [OF assms(5,6) that] by (simp add: upd_space_def)
  moreover have "upte s' pt a = upte s pt a"
    if "upage a" "\<forall>i < n. a \<noteq> va + of_nat i * PGSIZE" for a
    using m(3) that entries_None [of n a va pa perm] by (simp add: upd_space_def)
  ultimately show ?thesis using m(1,2) by blast
qed

theorem mappages_correct_witness:
  "\<exists>s'. mappages 0x80101000 0x5000 (of_nat 2 * PGSIZE) 0x80102000 (PTE_R OR PTE_U) demo_mm = Ok 0 s' \<and>
     upte s' 0x80101000 0x6000 = PA2PTE 0x80103000 OR (PTE_R OR PTE_U) OR PTE_V"
proof -
  have as: "as_ok demo_mm 0x80101000" using demo_fork_ok by (simp add: fork_ok_def)
  have "upte demo_mm 0x80101000 a = 0" for a by (rule demo_empty) (simp_all add: demo_free_def)
  then have "\<forall>i < 2. \<not> has_flag (upte demo_mm 0x80101000 (0x5000 + of_nat i * PGSIZE)) PTE_V" by simp
  from mappages_correct [OF demo_mm_available as _ _ _ _ this, of "0x80102000" "PTE_R OR PTE_U"]
  obtain s' where "mappages 0x80101000 0x5000 (of_nat 2 * PGSIZE) 0x80102000 (PTE_R OR PTE_U) demo_mm = Ok 0 s'"
    and e: "\<forall>i < 2. upte s' 0x80101000 (0x5000 + of_nat i * PGSIZE) =
      PA2PTE (0x80102000 + of_nat i * PGSIZE) OR (PTE_R OR PTE_U) OR PTE_V"
    by (auto simp: demo_free_def upage_def)
  with e [rule_format, of 1] show ?thesis by auto
qed

text \<open>
  A page that is mapped is never mapped over: \<open>mappages\<close> of it panics, whatever is to be mapped.
\<close>

theorem mappages_remaps_not:
  assumes "available s F" "as_ok s pt" "2 \<le> length F" "upage va" "has_flag (upte s pt va) PTE_V"
  shows "mappages pt va PGSIZE pa perm s = Panic ''mappages: remap''"
  using assms by (rule mappages_remap)

theorem mappages_remaps_not_witness:
  "mappages 0x80101000 0 PGSIZE 0x80104000 PTE_R (demo_map 0x17) = Panic ''mappages: remap''"
proof (rule demo_mapped [of "0x17"])
  fix k
  assume k: "k \<le> 2" and f: "fork_ok (demo_map 0x17) (drop k demo_free) 0x80100000 0x80101000"
    and e: "upte (demo_map 0x17) 0x80101000 0 = PA2PTE 0x80102000 OR 0x17 OR PTE_V"
  show ?thesis
    by (rule mappages_remaps_not [of _ "drop k demo_free"])
      (use k f in \<open>simp_all add: fork_ok_def demo_free_def upage_def e PA2PTE_def\<close>)
qed

end
