(* ===== verification/Ring.thy ===== *)
theory Ring
  imports Kstate
begin

text \<open>
  Circular buffers indexed by free-running 32-bit counters, as the pipes and the console have
  them: the counters wrap at \<open>2 ^ 32\<close>, a multiple of the size, and the bytes between the read
  and the write counter are a queue.
\<close>

definition ring_at :: "nat \<Rightarrow> u32 \<Rightarrow> nat" where
  "ring_at sz i = unat (i mod of_nat sz)"

definition ring_slice :: "nat \<Rightarrow> (nat \<Rightarrow> 'a) \<Rightarrow> u32 \<Rightarrow> u32 \<Rightarrow> 'a list" where
  "ring_slice sz d r w = map (\<lambda>i. d (ring_at sz (r + of_nat i))) [0..<unat (w - r)]"

lemma length_ring_slice [simp]: "length (ring_slice sz d r w) = unat (w - r)"
  by (simp add: ring_slice_def)

lemma ring_slice_empty [simp]: "ring_slice sz d r r = []"
  by (simp add: ring_slice_def)

lemma unat_plus_one: "x \<noteq> - 1 \<Longrightarrow> unat (x + 1) = Suc (unat x)" for x :: u32
proof -
  assume "x \<noteq> - 1"
  then have "x + 1 \<noteq> 0" by (metis add.commute add_minus_cancel neg_eq_iff_add_eq_0)
  then show ?thesis by (simp add: unatSuc add.commute)
qed

lemma ring_front:
  assumes "r \<noteq> w"
  shows "ring_slice sz d r w = d (ring_at sz r) # ring_slice sz d (r + 1) w"
proof -
  have "w - r \<noteq> 0" using assms by simp
  then have n: "unat (w - r) = Suc (unat (w - (r + 1)))"
    using unat_minus_one [of "w - r"] by (simp add: algebra_simps unat_gt_0)
  show ?thesis
    unfolding ring_slice_def n by (simp add: upt_conv_Cons map_Suc_upt [symmetric] algebra_simps del: upt_Suc)
qed

text \<open>The size of a buffer and its properties.\<close>

locale ring_buffer =
  fixes sz :: nat
  assumes pos: "0 < sz" and divides: "sz dvd 2 ^ 32" and small: "sz < 2 ^ 32"
begin

lemma ring_at_nat: "ring_at sz i = unat i mod sz"
  using small by (simp add: ring_at_def unat_mod_distrib unat_of_nat)

lemma ring_at_less: "ring_at sz i < sz"
  using pos by (simp add: ring_at_nat)

lemma ring_at_add: "ring_at sz (r + of_nat k) = (unat r + k) mod sz"
proof -
  have "unat (r + of_nat k) mod sz = (unat r + k) mod 2 ^ 32 mod sz"
    by (simp add: unat_word_ariths unat_of_nat mod_simps)
  then show ?thesis using divides by (simp add: ring_at_nat mod_mod_cancel)
qed

text \<open>Distinct indices less than the size apart are in distinct places.\<close>

lemma ring_at_distinct:
  assumes "k < n" "n < sz"
  shows "ring_at sz (r + of_nat k) \<noteq> ring_at sz (r + of_nat n)"
proof
  assume "ring_at sz (r + of_nat k) = ring_at sz (r + of_nat n)"
  then have "sz dvd n - k"
    using assms(1) by (simp add: ring_at_add mod_eq_dvd_iff_nat [symmetric])
      (metis add_diff_cancel_left less_imp_le_nat mod_eq_dvd_iff_nat nat_add_left_cancel_le)
  with assms show False by (auto dest: dvd_imp_le)
qed

lemma ring_put:
  assumes "unat (w - r) < sz"
  shows "ring_slice sz (d(ring_at sz w := x)) r (w + 1) = ring_slice sz d r w @ [x]"
proof -
  let ?n = "unat (w - r)"
  have "w - r \<noteq> - 1"
  proof
    assume "w - r = - 1"
    then have "?n = 2 ^ 32 - 1" by (simp add: unsigned_minus_1_eq_mask mask_eq_exp_minus_1)
    with assms small have "sz = 2 ^ 32 \<or> False" by simp
    with small show False by simp
  qed
  then have n: "unat (w + 1 - r) = Suc ?n"
    using unat_plus_one [of "w - r"] by (simp add: algebra_simps)
  have w: "w = r + of_nat ?n" by simp
  have "ring_at sz (r + of_nat k) \<noteq> ring_at sz w" if "k < ?n" for k
    using ring_at_distinct [OF that assms] w by metis
  then show ?thesis
    unfolding ring_slice_def n by (simp add: w [symmetric])
qed

end

end
