(* ===== verification/Pipe.thy ===== *)
theory Pipe
  imports Vmdata Proc Ring
begin

text \<open>
  \<^verbatim>\<open>kernel/pipe.c\<close>. A pipe is named by the address of the page it lives in; its fields are the
  record at that address. \<open>pipealloc\<close> is in theory \<open>File\<close>, with the files it makes.

  A pipe implements a bounded queue of bytes (locale \<open>bounded_queue\<close>): \<open>pipewrite\<close> appends the bytes
  of the writer's memory and \<open>piperead\<close> moves the oldest ones into the reader's.
\<close>

definition pipe_of :: "u64 \<Rightarrow> pipe k" where
  "pipe_of pi = kget (\<lambda>s. pipes (fs s) pi)"

definition upd_pipe :: "u64 \<Rightarrow> (pipe \<Rightarrow> pipe) \<Rightarrow> unit k" where
  "upd_pipe pi f = kmodify (\<lambda>s. s\<lparr>fs := (fs s)\<lparr>pipes := (pipes (fs s))(pi := f (pipes (fs s) pi))\<rparr>\<rparr>)"

definition pipeclose :: "u64 \<Rightarrow> bool \<Rightarrow> unit k" where
  "pipeclose pi writable =
     kthen (acquire (PipeLock pi))
    (kthen (if writable
            then kdo [upd_pipe pi (\<lambda>p. p\<lparr>pi_writeopen := False\<rparr>), wakeup (ChanPipeRead pi)]
            else kdo [upd_pipe pi (\<lambda>p. p\<lparr>pi_readopen := False\<rparr>), wakeup (ChanPipeWrite pi)])
    (kbind (pipe_of pi) (\<lambda>p.
     if \<not> pi_readopen p \<and> \<not> pi_writeopen p
     then kdo [release (PipeLock pi), kfree pi]
     else release (PipeLock pi))))"

text \<open>
  \<^verbatim>\<open>pi->data[pi->nwrite++ % PIPESIZE] = ch\<close>, and the byte at \<^verbatim>\<open>pi->nread % PIPESIZE\<close> with
  \<^verbatim>\<open>pi->nread++\<close>.
\<close>

definition pipe_put :: "u8 \<Rightarrow> pipe \<Rightarrow> pipe" where
  "pipe_put ch p = p\<lparr>pi_data := (pi_data p)(ring_at PIPESIZE (pi_nwrite p) := ch),
     pi_nwrite := pi_nwrite p + 1\<rparr>"

definition pipe_front :: "pipe \<Rightarrow> u8" where
  "pipe_front p = pi_data p (ring_at PIPESIZE (pi_nread p))"

definition pipe_drop :: "pipe \<Rightarrow> pipe" where
  "pipe_drop p = p\<lparr>pi_nread := pi_nread p + 1\<rparr>"

definition pipe_full :: "pipe \<Rightarrow> bool" where
  "pipe_full p \<longleftrightarrow> pi_nwrite p = pi_nread p + of_nat PIPESIZE"

definition pipe_empty :: "pipe \<Rightarrow> bool" where
  "pipe_empty p \<longleftrightarrow> pi_nread p = pi_nwrite p"

text \<open>
  The rounds of \<open>pipewrite\<close> from byte \<open>i\<close> on; a round stores a byte, ends the write, or sleeps.
  \<open>env\<close> runs while the writer sleeps; at most \<open>fuel\<close> rounds.
\<close>

definition pipewrite_end :: "u64 \<Rightarrow> int \<Rightarrow> int k" where
  "pipewrite_end pi i = kthen (wakeup (ChanPipeRead pi)) (kthen (release (PipeLock pi)) (kret i))"

fun pipewrite_loop :: "unit k \<Rightarrow> nat \<Rightarrow> nat \<Rightarrow> u64 \<Rightarrow> u64 \<Rightarrow> int \<Rightarrow> int \<Rightarrow> int k" where
  "pipewrite_loop env 0 pr pi addr n i = (\<lambda>s. Diverge)"
| "pipewrite_loop env (Suc fuel) pr pi addr n i =
    (if \<not> i < n then pipewrite_end pi i
     else kbind (pipe_of pi) (\<lambda>p.
     kbind (if \<not> pi_readopen p then kret True else kbind (killed pr) (\<lambda>k. kret (k \<noteq> 0))) (\<lambda>stop.
     if stop then kthen (release (PipeLock pi)) (kret (- 1))
     else if pipe_full p
     then kthen (wakeup (ChanPipeRead pi))
         (kthen (sleep_with env (ChanPipeWrite pi) (PipeLock pi))
         (pipewrite_loop env fuel pr pi addr n i))
     else kbind (pget pr p_pagetable) (\<lambda>pt.
     kbind (copyin pt (addr + word_of_int i) 1) (\<lambda>(r, bs).
     if r = - 1 then pipewrite_end pi i
     else kthen (upd_pipe pi (pipe_put (hd bs)))
         (pipewrite_loop env fuel pr pi addr n (i + 1)))))))"

definition pipewrite_with :: "unit k \<Rightarrow> nat \<Rightarrow> u64 \<Rightarrow> u64 \<Rightarrow> int \<Rightarrow> int k" where
  "pipewrite_with env fuel pi addr n =
     kbind curproc (\<lambda>pr. kthen (acquire (PipeLock pi)) (pipewrite_loop env fuel pr pi addr n 0))"

definition pipewrite :: "u64 \<Rightarrow> u64 \<Rightarrow> int \<Rightarrow> int k" where
  "pipewrite pi addr n = pipewrite_with Blocked (Suc (nat n)) pi addr n"

text \<open>The wait for input: \<open>False\<close> if the reader has been killed, its lock then released.\<close>

fun piperead_wait :: "unit k \<Rightarrow> nat \<Rightarrow> nat \<Rightarrow> u64 \<Rightarrow> bool k" where
  "piperead_wait env 0 pr pi = (\<lambda>s. Diverge)"
| "piperead_wait env (Suc fuel) pr pi =
     kbind (pipe_of pi) (\<lambda>p.
     if pipe_empty p \<and> pi_writeopen p
     then kbind (killed pr) (\<lambda>k.
          if k \<noteq> 0 then kthen (release (PipeLock pi)) (kret False)
          else kthen (sleep_with env (ChanPipeRead pi) (PipeLock pi)) (piperead_wait env fuel pr pi))
     else kret True)"

text \<open>The copying loop, from byte \<open>i\<close> on.\<close>

function piperead_copy :: "nat \<Rightarrow> u64 \<Rightarrow> u64 \<Rightarrow> int \<Rightarrow> int \<Rightarrow> int k" where
  "piperead_copy pr pi addr n i =
    (if \<not> i < n then kret i
     else kbind (pipe_of pi) (\<lambda>p.
     if pipe_empty p then kret i
     else kbind (pget pr p_pagetable) (\<lambda>pt.
     kbind (copyout pt (addr + word_of_int i) [pipe_front p]) (\<lambda>r.
     if r = - 1 then kret (if i = 0 then - 1 else i)
     else kthen (upd_pipe pi pipe_drop) (piperead_copy pr pi addr n (i + 1))))))"
  by pat_completeness auto

termination
  by (relation "measure (\<lambda>(pr, pi, addr, n, i). nat (n - i))") auto

declare piperead_copy.simps [simp del]

definition piperead_with :: "unit k \<Rightarrow> nat \<Rightarrow> u64 \<Rightarrow> u64 \<Rightarrow> int \<Rightarrow> int k" where
  "piperead_with env fuel pi addr n =
     kbind curproc (\<lambda>pr.
     kthen (acquire (PipeLock pi))
    (kbind (piperead_wait env fuel pr pi) (\<lambda>ok.
     if \<not> ok then kret (- 1)
     else kbind (piperead_copy pr pi addr n 0) (\<lambda>i.
          kthen (wakeup (ChanPipeWrite pi)) (kthen (release (PipeLock pi)) (kret i))))))"

definition piperead :: "u64 \<Rightarrow> u64 \<Rightarrow> int \<Rightarrow> int k" where
  "piperead = piperead_with Blocked 1"

subsection \<open>A bounded queue\<close>

text \<open>
  What a queue of bytes with room for \<open>cap\<close> of them promises: \<open>abs\<close> is its contents, the oldest
  byte first.
\<close>

locale bounded_queue =
  fixes inv :: "'q \<Rightarrow> bool" and abs :: "'q \<Rightarrow> 'b list" and put :: "'b \<Rightarrow> 'q \<Rightarrow> 'q"
    and front :: "'q \<Rightarrow> 'b" and drop1 :: "'q \<Rightarrow> 'q" and full :: "'q \<Rightarrow> bool" and empty :: "'q \<Rightarrow> bool"
    and cap :: nat
  assumes bound: "inv q \<Longrightarrow> length (abs q) \<le> cap"
    and full_iff: "inv q \<Longrightarrow> full q \<longleftrightarrow> length (abs q) = cap"
    and empty_iff: "inv q \<Longrightarrow> empty q \<longleftrightarrow> abs q = []"
    and put_ok: "inv q \<Longrightarrow> \<not> full q \<Longrightarrow> inv (put c q) \<and> abs (put c q) = abs q @ [c]"
    and drop_ok: "inv q \<Longrightarrow> \<not> empty q \<Longrightarrow> inv (drop1 q) \<and> abs q = front q # abs (drop1 q)"
begin

lemma puts_ok:
  "inv q \<Longrightarrow> length (abs q) + length cs \<le> cap \<Longrightarrow>
   inv (fold put cs q) \<and> abs (fold put cs q) = abs q @ cs"
proof (induction cs arbitrary: q)
  case (Cons c cs)
  then have "\<not> full q" using full_iff by simp
  from put_ok [OF Cons.prems(1) this, of c] Cons show ?case by simp
qed simp

lemma drops_ok:
  "inv q \<Longrightarrow> k \<le> length (abs q) \<Longrightarrow> inv ((drop1 ^^ k) q) \<and> abs ((drop1 ^^ k) q) = drop k (abs q)"
proof (induction k)
  case (Suc k)
  then have q: "inv ((drop1 ^^ k) q)" "abs ((drop1 ^^ k) q) = drop k (abs q)" by simp_all
  with Suc.prems have "\<not> empty ((drop1 ^^ k) q)" using empty_iff [OF q(1)] by simp
  from drop_ok [OF q(1) this] q(2) show ?case by (metis comp_apply drop_Suc funpow.simps(2) list.sel(3) tl_drop)
qed simp

end

subsection \<open>The pipe is a queue\<close>

definition pipe_ok :: "pipe \<Rightarrow> bool" where
  "pipe_ok p \<longleftrightarrow> unat (pi_nwrite p - pi_nread p) \<le> PIPESIZE"

definition pipe_queue :: "pipe \<Rightarrow> u8 list" where
  "pipe_queue p = ring_slice PIPESIZE (pi_data p) (pi_nread p) (pi_nwrite p)"

interpretation pring: ring_buffer PIPESIZE
  by unfold_locales simp_all

lemma pipe_full_iff: "pipe_full p \<longleftrightarrow> length (pipe_queue p) = PIPESIZE"
proof -
  have "pi_nwrite p = pi_nread p + 512 \<longleftrightarrow> pi_nwrite p - pi_nread p = 512" by (auto simp: algebra_simps)
  also have "\<dots> \<longleftrightarrow> unat (pi_nwrite p - pi_nread p) = 512" by (simp add: word_unat_eq_iff)
  finally show ?thesis by (simp add: pipe_full_def pipe_queue_def)
qed

lemma pipe_empty_iff: "pipe_empty p \<longleftrightarrow> pipe_queue p = []"
proof -
  have "pipe_queue p = [] \<longleftrightarrow> unat (pi_nwrite p - pi_nread p) = 0"
    by (simp add: pipe_queue_def flip: length_0_conv)
  then show ?thesis by (auto simp: pipe_empty_def unat_eq_0)
qed

interpretation pq: bounded_queue pipe_ok pipe_queue pipe_put pipe_front pipe_drop pipe_full pipe_empty PIPESIZE
proof
  fix p c
  assume p: "pipe_ok p" and nf: "\<not> pipe_full p"
  then have lt: "unat (pi_nwrite p - pi_nread p) < PIPESIZE"
    by (simp add: pipe_ok_def pipe_full_iff pipe_queue_def)
  then have q: "pipe_queue (pipe_put c p) = pipe_queue p @ [c]"
    by (simp add: pipe_queue_def pipe_put_def pring.ring_put)
  from arg_cong [OF q, of length] lt have "pipe_ok (pipe_put c p)"
    by (simp add: pipe_queue_def pipe_ok_def)
  with q show "pipe_ok (pipe_put c p) \<and> pipe_queue (pipe_put c p) = pipe_queue p @ [c]" by simp
next
  fix p
  assume p: "pipe_ok p" and ne: "\<not> pipe_empty p"
  then have q: "pipe_queue p = pipe_front p # pipe_queue (pipe_drop p)"
    by (simp add: pipe_queue_def pipe_front_def pipe_drop_def pipe_empty_def ring_front)
  from arg_cong [OF q, of length] p have "pipe_ok (pipe_drop p)"
    by (simp add: pipe_queue_def pipe_ok_def)
  with q show "pipe_ok (pipe_drop p) \<and> pipe_queue p = pipe_front p # pipe_queue (pipe_drop p)" by simp
qed (simp_all add: pipe_full_iff pipe_empty_iff, simp add: pipe_ok_def pipe_queue_def)

subsection \<open>Writing\<close>

text \<open>A thread that holds the lock of the pipe.\<close>

definition pipe_locked :: "u64 \<Rightarrow> kstate \<Rightarrow> bool" where
  "pipe_locked pi s \<longleftrightarrow> locks s (PipeLock pi) = held_by (c_id (cpu s)) \<and> proc_locks_free s \<and>
     settle (cpu s) = cpu s \<and> \<not> c_intr (cpu s) \<and> 0 < c_noff (cpu s)"

definition set_pipe :: "u64 \<Rightarrow> pipe \<Rightarrow> kstate \<Rightarrow> kstate" where
  "set_pipe pi p s = s\<lparr>fs := (fs s)\<lparr>pipes := (pipes (fs s))(pi := p)\<rparr>\<rparr>"

lemma set_pipe_simps [simp]:
  "mem (set_pipe pi p s) = mem s" "locks (set_pipe pi p s) = locks s" "cpu (set_pipe pi p s) = cpu s"
  "procs (set_pipe pi p s) = procs s" "pipes (fs (set_pipe pi p s)) = (pipes (fs s))(pi := p)"
  "set_pipe pi q (set_pipe pi p s) = set_pipe pi q s" "proc_locks_free (set_pipe pi p s) = proc_locks_free s"
  "pipe_locked pi (set_pipe pi p s) = pipe_locked pi s"
  by (simp_all add: set_pipe_def proc_locks_free_def pipe_locked_def)

lemma set_pipe_user [simp]:
  "set_pipe pi (pipes (fs s) pi) s = s" "ubyte (set_pipe pi p s) pt a = ubyte s pt a"
  "ureadable (set_pipe pi p s) pt a = ureadable s pt a"
  by (simp_all add: set_pipe_def ubyte_def ureadable_def del: fun_upd_apply)

lemma set_pipe_mem [simp]:
  "set_pipe pi q (set_pipe pi p s\<lparr>mem := m\<rparr>) = set_pipe pi q (s\<lparr>mem := m\<rparr>)"
  "ustored (set_pipe pi p s) pt va bs m = ustored s pt va bs m"
  by (simp_all add: set_pipe_def ustored_def uaddr_def)

lemma upd_pipe_apply: "upd_pipe pi f s = Ok () (set_pipe pi (f (pipes (fs s) pi)) s)"
  by (simp add: upd_pipe_def kmonad set_pipe_def)

text \<open>The state when the thread has woken the sleepers on \<open>ch\<close> and released the lock.\<close>

definition pipe_done :: "chan \<Rightarrow> u64 \<Rightarrow> kstate \<Rightarrow> kstate" where
  "pipe_done ch pi s = s\<lparr>procs := woken {..<NPROC} ch (c_proc (cpu s)) (procs s), cpu := pop_cpu (cpu s),
     locks := (locks s)(PipeLock pi := free_lock)\<rparr>"

lemma pipe_done_apply:
  assumes "pipe_locked pi s"
  shows "wakeup ch s = Ok () (s\<lparr>procs := woken {..<NPROC} ch (c_proc (cpu s)) (procs s)\<rparr>)"
    "release (PipeLock pi) (s\<lparr>procs := woken {..<NPROC} ch (c_proc (cpu s)) (procs s)\<rparr>) =
       Ok () (pipe_done ch pi s)"
  using assms wakeup_apply [of s ch] by (simp_all add: pipe_locked_def release_held pipe_done_def)

lemma pipewrite_end_apply:
  "pipe_locked pi s \<Longrightarrow> pipewrite_end pi i s = Ok i (pipe_done (ChanPipeRead pi) pi s)"
  by (simp add: pipewrite_end_def kmonad pipe_done_apply)

lemma pipewrite_loop_ok:
  assumes "pipe_locked pi s" "pr < NPROC" "p_killed (procs s pr) = 0" "pt_wf (mem s) 2 (p_pagetable (procs s pr))"
    and "pi_readopen (pipes (fs s) pi)" "pipe_ok (pipes (fs s) pi)"
    and "length (pipe_queue (pipes (fs s) pi)) + m \<le> PIPESIZE"
    and "\<And>j. j < m \<Longrightarrow> ureadable s (p_pagetable (procs s pr)) (addr + of_nat (k + j))" "m < fuel"
  shows "pipewrite_loop env fuel pr pi addr (int (k + m)) (int k) s = Ok (int (k + m)) (pipe_done (ChanPipeRead pi) pi
    (set_pipe pi (fold pipe_put (map (\<lambda>j. ubyte s (p_pagetable (procs s pr)) (addr + of_nat (k + j))) [0..<m])
       (pipes (fs s) pi)) s))"
  using assms
proof (induction m arbitrary: fuel k s)
  case 0
  then obtain f where "fuel = Suc f" by (cases fuel) auto
  with pipewrite_end_apply [OF 0(1), of "int k"] show ?case by (simp del: fun_upd_apply)
next
  case (Suc m)
  then obtain f where f: "fuel = Suc f" "m < f" by (cases fuel) auto
  let ?pt = "p_pagetable (procs s pr)" and ?p = "pipes (fs s) pi"
  let ?b = "ubyte s ?pt (addr + of_nat k)"
  let ?s = "set_pipe pi (pipe_put ?b ?p) s"
  have nf: "\<not> pipe_full ?p" using Suc.prems(7) by (simp add: pipe_full_iff)
  have ci: "copyin ?pt (addr + of_nat k) 1 s = Ok (0, [?b]) s"
    using copyin_ok [OF Suc.prems(4), of 1 "addr + of_nat k"] Suc.prems(8) [of 0] by simp
  have kl: "killed pr s = Ok 0 s"
    using Suc.prems(1-3) by (simp add: killed_apply pipe_locked_def proc_locks_free_def)
  have run: "pipewrite_loop env fuel pr pi addr (int (k + Suc m)) (int k) s =
      pipewrite_loop env f pr pi addr (int (Suc k + m)) (int (Suc k)) ?s"
    using ci kl nf Suc.prems(5)
    by (simp add: f kmonad pipe_of_def pget_def upd_pipe_apply add.commute)
  note put = pq.put_ok [OF Suc.prems(6) nf, of ?b]
  have bs: "map (\<lambda>j. ubyte s ?pt (addr + of_nat (k + j))) [0..<Suc m] =
      ?b # map (\<lambda>j. ubyte s ?pt (addr + of_nat (Suc k + j))) [0..<m]"
    by (simp add: upt_conv_Cons map_Suc_upt [symmetric] del: upt_Suc of_nat_Suc of_nat_add)
  have "pipewrite_loop env f pr pi addr (int (Suc k + m)) (int (Suc k)) ?s = Ok (int (Suc k + m))
    (pipe_done (ChanPipeRead pi) pi (set_pipe pi (fold pipe_put
      (map (\<lambda>j. ubyte ?s (p_pagetable (procs ?s pr)) (addr + of_nat (Suc k + j))) [0..<m]) (pipes (fs ?s) pi)) ?s))"
  proof (rule Suc.IH)
    show "ureadable ?s (p_pagetable (procs ?s pr)) (addr + of_nat (Suc k + j))" if "j < m" for j
      using Suc.prems(8) [of "Suc j"] that by (simp del: of_nat_Suc of_nat_add)
    show "pi_readopen (pipes (fs ?s) pi)" using Suc.prems(5) by (simp add: pipe_put_def)
  qed (use Suc.prems put f in simp_all)
  then show ?case unfolding run bs by (simp del: of_nat_Suc of_nat_add fun_upd_apply add: fun_upd_same)
qed

text \<open>A thread of process \<open>pr\<close> that can use the pipe.\<close>

definition pipe_ready :: "u64 \<Rightarrow> nat \<Rightarrow> kstate \<Rightarrow> bool" where
  "pipe_ready pi pr s \<longleftrightarrow> locks s (PipeLock pi) = free_lock \<and> proc_locks_free s \<and> c_proc (cpu s) = Some pr \<and>
     pr < NPROC \<and> p_killed (procs s pr) = 0 \<and> pt_wf (mem s) 2 (p_pagetable (procs s pr)) \<and>
     pipe_ok (pipes (fs s) pi)"

definition pipe_taken :: "u64 \<Rightarrow> kstate \<Rightarrow> kstate" where
  "pipe_taken pi s = s\<lparr>cpu := push_cpu (cpu s), locks := (locks s)(PipeLock pi := held_by (c_id (cpu s)))\<rparr>"

lemma pipe_taken_simps [simp]:
  "mem (pipe_taken pi s) = mem s" "procs (pipe_taken pi s) = procs s" "fs (pipe_taken pi s) = fs s"
  "ubyte (pipe_taken pi s) pt a = ubyte s pt a" "uaddr (pipe_taken pi s) pt a = uaddr s pt a"
  "ureadable (pipe_taken pi s) pt a = ureadable s pt a" "uwritable (pipe_taken pi s) pt a = uwritable s pt a"
  by (simp_all add: pipe_taken_def ubyte_def uaddr_def ureadable_def uwritable_def)

lemma pipe_taken_apply:
  assumes "pipe_ready pi pr s"
  shows "curproc s = Ok pr (s\<lparr>cpu := settle (cpu s)\<rparr>)"
    "acquire (PipeLock pi) (s\<lparr>cpu := settle (cpu s)\<rparr>) = Ok () (pipe_taken pi s)"
    "pipe_locked pi (pipe_taken pi s)"
  using assms
  by (simp_all add: pipe_ready_def curproc_apply acquire_free pipe_taken_def pipe_locked_def proc_locks_free_def)

lemma pipe_done_taken:
  "pipe_ready pi pr s \<Longrightarrow> pipe_done ch pi (set_pipe pi q (pipe_taken pi s)) =
     set_pipe pi q s\<lparr>procs := woken {..<NPROC} ch (Some pr) (procs s), cpu := settle (cpu s)\<rparr>"
  "pipe_ready pi pr s \<Longrightarrow> pipe_done ch pi (set_pipe pi q (pipe_taken pi s\<lparr>mem := m\<rparr>)) =
     set_pipe pi q s\<lparr>mem := m, procs := woken {..<NPROC} ch (Some pr) (procs s), cpu := settle (cpu s)\<rparr>"
  by (simp_all add: pipe_done_def set_pipe_def pipe_taken_def pipe_ready_def del: fun_upd_apply)

lemma pipewrite_ok:
  assumes r: "pipe_ready pi pr s" and o: "pi_readopen (pipes (fs s) pi)"
    and "length (pipe_queue (pipes (fs s) pi)) + m \<le> PIPESIZE"
    and "\<And>j. j < m \<Longrightarrow> ureadable s (p_pagetable (procs s pr)) (addr + of_nat j)"
  shows "pipewrite pi addr (int m) s = Ok (int m) (set_pipe pi
     (fold pipe_put (map (\<lambda>j. ubyte s (p_pagetable (procs s pr)) (addr + of_nat j)) [0..<m]) (pipes (fs s) pi))
     s\<lparr>procs := woken {..<NPROC} (ChanPipeRead pi) (Some pr) (procs s), cpu := settle (cpu s)\<rparr>)"
proof -
  note l = pipewrite_loop_ok [OF pipe_taken_apply(3) [OF r], where pr = pr and k = 0 and m = m and addr = addr]
  have "pipewrite_loop Blocked (Suc m) pr pi addr (int (0 + m)) (int 0) (pipe_taken pi s) =
    Ok (int (0 + m)) (pipe_done (ChanPipeRead pi) pi (set_pipe pi (fold pipe_put
      (map (\<lambda>j. ubyte (pipe_taken pi s) (p_pagetable (procs (pipe_taken pi s) pr)) (addr + of_nat (0 + j))) [0..<m])
       (pipes (fs (pipe_taken pi s)) pi)) (pipe_taken pi s)))"
    by (rule l) (use assms in \<open>simp_all add: pipe_ready_def\<close>)
  then show ?thesis
    by (simp add: pipewrite_def pipewrite_with_def kmonad pipe_taken_apply [OF r] pipe_done_taken [OF r]
      del: fun_upd_apply pipewrite_loop.simps)
qed

subsection \<open>Reading\<close>

lemma piperead_copy_ok:
  assumes "pt_wf (mem s) 2 (p_pagetable (procs s pr))" "pipe_ok (pipes (fs s) pi)"
    and "n = k + m \<or> length (pipe_queue (pipes (fs s) pi)) = m" "k + m \<le> n"
    and "m \<le> length (pipe_queue (pipes (fs s) pi))"
    and "\<And>j. j < m \<Longrightarrow> uwritable s (p_pagetable (procs s pr)) (addr + of_nat (k + j))"
    and "unaliased s (p_pagetable (procs s pr)) (addr + of_nat k) m"
  shows "\<exists>m'. piperead_copy pr pi addr (int n) (int k) s =
      Ok (int (k + m)) (set_pipe pi ((pipe_drop ^^ m) (pipes (fs s) pi)) (s\<lparr>mem := m'\<rparr>)) \<and>
    ustored s (p_pagetable (procs s pr)) (addr + of_nat k) (take m (pipe_queue (pipes (fs s) pi))) m'"
  using assms
proof (induction m arbitrary: k s)
  case 0
  then have "int n \<le> int k \<or> pipe_empty (pipes (fs s) pi)" by (auto simp: pipe_empty_iff)
  then have "piperead_copy pr pi addr (int n) (int k) s = Ok (int k) s"
    by (subst piperead_copy.simps) (auto simp: kmonad pipe_of_def)
  then show ?case by (intro exI [of _ "mem s"]) (simp add: ustored_def)
next
  case (Suc m)
  let ?pt = "p_pagetable (procs s pr)" and ?p = "pipes (fs s) pi" and ?va = "addr + of_nat k"
  have ne: "\<not> pipe_empty ?p" using Suc.prems(5) by (auto simp: pipe_empty_iff)
  note dr = pq.drop_ok [OF Suc.prems(2) ne]
  have w: "uwritable s ?pt (?va + of_nat j)" if "j < Suc m" for j
    using Suc.prems(6) [OF that] by (simp add: add.assoc)
  have "unaliased s ?pt ?va 1" by (simp add: unaliased_def)
  then obtain m1 where m1: "copyout ?pt ?va [pipe_front ?p] s = Ok 0 (s\<lparr>mem := m1\<rparr>)"
    and st: "ustored s ?pt ?va [pipe_front ?p] m1"
    using copyout_ok [OF Suc.prems(1), of "[pipe_front ?p]" ?va] w [of 0] by auto
  have f: "pt_wf m1 2 ?pt" "tables m1 2 ?pt = tables (mem s) 2 ?pt" "\<And>a. pte_at m1 a 2 ?pt = upte s ?pt a"
    by (rule ustored_frame [OF Suc.prems(1) st], use w [of 0] in simp)+
  have nx: "addr + of_nat (Suc k) = ?va + 1" by simp
  let ?s = "set_pipe pi (pipe_drop ?p) (s\<lparr>mem := m1\<rparr>)"
  have run: "piperead_copy pr pi addr (int n) (int k) s = piperead_copy pr pi addr (int n) (int (Suc k)) ?s"
    using m1 ne Suc.prems(4)
    by (subst piperead_copy.simps) (simp add: kmonad pipe_of_def pget_def upd_pipe_apply add.commute)
  have "\<exists>m'. piperead_copy pr pi addr (int n) (int (Suc k)) ?s =
      Ok (int (Suc k + m)) (set_pipe pi ((pipe_drop ^^ m) (pipes (fs ?s) pi)) (?s\<lparr>mem := m'\<rparr>)) \<and>
    ustored ?s (p_pagetable (procs ?s pr)) (addr + of_nat (Suc k)) (take m (pipe_queue (pipes (fs ?s) pi))) m'"
  proof (rule Suc.IH)
    show "uwritable ?s (p_pagetable (procs ?s pr)) (addr + of_nat (Suc k + j))" if "j < m" for j
      using w [of "Suc j"] that by (simp add: uwritable_def ureadable_def f algebra_simps)
    show "unaliased ?s (p_pagetable (procs ?s pr)) (addr + of_nat (Suc k)) m"
      using unaliased_tl [OF Suc.prems(7)] by (simp add: unaliased_def f algebra_simps)
  qed (use Suc.prems(3-5) dr f in auto)
  then obtain m' where m': "piperead_copy pr pi addr (int n) (int k) s =
      Ok (int (k + Suc m)) (set_pipe pi ((pipe_drop ^^ Suc m) ?p) (s\<lparr>mem := m'\<rparr>))"
    and st': "ustored (s\<lparr>mem := m1\<rparr>) ?pt (?va + 1) (take m (pipe_queue (pipe_drop ?p))) m'"
    unfolding run by (auto simp: funpow_swap1 nx fun_upd_same simp del: fun_upd_apply of_nat_Suc of_nat_add)
  have "ustored s ?pt ?va ([pipe_front ?p] @ take m (pipe_queue (pipe_drop ?p))) m'"
  proof (rule ustored_append [OF st _ f(3)])
    fix i j
    assume "i < length [pipe_front ?p]" "j < length (take m (pipe_queue (pipe_drop ?p)))"
    then show "uaddr s ?pt (?va + of_nat i) \<noteq> uaddr s ?pt (?va + of_nat (length [pipe_front ?p] + j))"
      using w by (intro uaddr_apart [OF Suc.prems(7)]) (auto simp: uwritable_def)
  qed (use st' in simp)
  with m' dr show ?case by auto
qed


lemma piperead_ok:
  assumes r: "pipe_ready pi pr s"
    and ne: "pipe_queue (pipes (fs s) pi) \<noteq> [] \<or> \<not> pi_writeopen (pipes (fs s) pi)"
    and m: "m = min n (length (pipe_queue (pipes (fs s) pi)))"
    and w: "\<And>j. j < m \<Longrightarrow> uwritable s (p_pagetable (procs s pr)) (addr + of_nat j)"
    and u: "unaliased s (p_pagetable (procs s pr)) addr m"
  shows "\<exists>m'. piperead pi addr (int n) s = Ok (int m) (set_pipe pi ((pipe_drop ^^ m) (pipes (fs s) pi))
      s\<lparr>mem := m', procs := woken {..<NPROC} (ChanPipeWrite pi) (Some pr) (procs s), cpu := settle (cpu s)\<rparr>) \<and>
    ustored s (p_pagetable (procs s pr)) addr (take m (pipe_queue (pipes (fs s) pi))) m'"
proof -
  let ?s = "pipe_taken pi s"
  have "\<exists>m'. piperead_copy pr pi addr (int n) (int 0) ?s =
      Ok (int (0 + m)) (set_pipe pi ((pipe_drop ^^ m) (pipes (fs ?s) pi)) (?s\<lparr>mem := m'\<rparr>)) \<and>
    ustored ?s (p_pagetable (procs ?s pr)) (addr + of_nat 0) (take m (pipe_queue (pipes (fs ?s) pi))) m'"
    by (rule piperead_copy_ok) (use assms in \<open>auto simp: pipe_ready_def unaliased_def\<close>)
  then obtain m' where c: "piperead_copy pr pi addr (int n) 0 ?s =
      Ok (int m) (set_pipe pi ((pipe_drop ^^ m) (pipes (fs s) pi)) (?s\<lparr>mem := m'\<rparr>))"
    and st: "ustored s (p_pagetable (procs s pr)) addr (take m (pipe_queue (pipes (fs s) pi))) m'"
    by (auto simp: ustored_def)
  have l: "pipe_locked pi (set_pipe pi ((pipe_drop ^^ m) (pipes (fs s) pi)) (?s\<lparr>mem := m'\<rparr>))"
    using pipe_taken_apply(3) [OF r] by (simp add: pipe_locked_def proc_locks_free_def set_pipe_def)
  have "piperead_wait Blocked (Suc 0) pr pi ?s = Ok True ?s"
    using ne by (auto simp: kmonad pipe_of_def pipe_empty_iff)
  then have "piperead pi addr (int n) s = Ok (int m) (pipe_done (ChanPipeWrite pi) pi
      (set_pipe pi ((pipe_drop ^^ m) (pipes (fs s) pi)) (?s\<lparr>mem := m'\<rparr>)))"
    by (simp add: piperead_def piperead_with_def kmonad pipe_taken_apply [OF r] c pipe_done_apply [OF l, simplified]
      del: fun_upd_apply piperead_wait.simps)
  with st show ?thesis by (auto simp: pipe_done_taken [OF r] simp del: fun_upd_apply)
qed

subsection \<open>The properties\<close>

text \<open>A process with one page of its own, and a pipe with room for the bytes it writes.\<close>

definition demo_pipe :: "pipe \<Rightarrow> kstate" where
  "demo_pipe p = (demo_map 0x17)\<lparr>cpu := cpu demo_run, locks := \<lambda>_. free_lock,
     procs := (procs demo_run)(0 := (procs demo_run 0)\<lparr>p_pagetable := 0x80101000\<rparr>),
     fs := (fs (demo_map 0x17))\<lparr>pipes := \<lambda>_. p\<rparr>\<rparr>"

definition open_pipe :: pipe where
  "open_pipe = \<lparr>pi_data = (\<lambda>_. 0), pi_nread = 0, pi_nwrite = 0, pi_readopen = True, pi_writeopen = True\<rparr>"

lemma open_pipe_empty: "pipe_ok open_pipe" "pipe_queue open_pipe = []" "pi_readopen open_pipe"
  by (simp_all add: pipe_ok_def pipe_queue_def open_pipe_def)

lemma demo_pipe_simps:
  "mem (demo_pipe p) = mem (demo_map 0x17)" "p_pagetable (procs (demo_pipe p) 0) = 0x80101000"
  "pipes (fs (demo_pipe p)) pi = p" "locks (demo_pipe p) l = free_lock" "c_proc (cpu (demo_pipe p)) = Some 0"
  "p_killed (procs (demo_pipe p) 0) = 0"
  by (simp_all add: demo_pipe_def demo_run_def zero_proc_def)

lemma demo_pipe_user:
  "i < 4096 \<Longrightarrow> uwritable (demo_pipe p) 0x80101000 (of_nat i)" "pt_wf (mem (demo_pipe p)) 2 0x80101000"
  using demo_writable(1) [of i] demo_writable(3) [of 0, OF zero_less_numeral]
  unfolding uwritable_def ureadable_def demo_pipe_simps by blast+

lemma demo_pipe_ready: "pipe_ok p \<Longrightarrow> pipe_ready pi 0 (demo_pipe p)"
  using demo_pipe_user(2) by (simp add: pipe_ready_def demo_pipe_simps proc_locks_free_def)

text \<open>
  C12. \<open>pipewrite\<close> of bytes for which the pipe has room returns their number and puts them, in order,
  behind what the pipe holds; it keeps the pipe's invariant, touches no other pipe and no byte of
  memory, wakes every reader asleep on the pipe and leaves the pipe's lock free.
\<close>

theorem pipewrite_correct:
  assumes "pipe_ready pi pr s" "pi_readopen (pipes (fs s) pi)"
    and "length (pipe_queue (pipes (fs s) pi)) + n \<le> PIPESIZE"
    and "\<forall>j < n. ureadable s (p_pagetable (procs s pr)) (addr + of_nat j)"
  shows "\<exists>s'. pipewrite pi addr (int n) s = Ok (int n) s' \<and> pipe_ok (pipes (fs s') pi) \<and>
    pipe_queue (pipes (fs s') pi) =
      pipe_queue (pipes (fs s) pi) @ map (\<lambda>j. ubyte s (p_pagetable (procs s pr)) (addr + of_nat j)) [0..<n] \<and>
    (\<forall>q. q \<noteq> pi \<longrightarrow> pipes (fs s') q = pipes (fs s) q) \<and> mem s' = mem s \<and> locks s' = locks s \<and>
    (\<forall>p < NPROC. p \<noteq> pr \<and> p_state (procs s p) = SLEEPING \<and> p_chan (procs s p) = ChanPipeRead pi \<longrightarrow>
       p_state (procs s' p) = RUNNABLE)"
proof -
  have "pipe_ok (pipes (fs s) pi)" using assms(1) by (simp add: pipe_ready_def)
  note q = pq.puts_ok [OF this, of "map (\<lambda>j. ubyte s (p_pagetable (procs s pr)) (addr + of_nat j)) [0..<n]"]
  show ?thesis
    using pipewrite_ok [OF assms(1-3), of addr] assms(3,4) q by (simp add: woken_def set_pipe_def)
qed

theorem pipewrite_correct_witness:
  "\<exists>s'. pipewrite 0x80200000 4000 3 (demo_pipe open_pipe) = Ok 3 s' \<and>
     length (pipe_queue (pipes (fs s') 0x80200000)) = 3"
proof -
  have "ureadable (demo_pipe open_pipe) 0x80101000 (4000 + of_nat j)" if "j < 3" for j
    using demo_pipe_user(1) [of "4000 + j" open_pipe] that by (simp add: uwritable_def)
  then show ?thesis
    using pipewrite_correct [OF demo_pipe_ready [OF open_pipe_empty(1)], of "0x80200000" 3 4000]
    by (auto simp: demo_pipe_simps open_pipe_empty)
qed

text \<open>
  C13. \<open>piperead\<close> of \<open>n\<close> bytes from a pipe that holds some, or that has no writer, returns how many it
  takes, the smaller of \<open>n\<close> and what the pipe holds: the oldest bytes leave the pipe and are stored in
  order at the user's address, no other byte of memory changes, every writer asleep on the pipe is woken.
\<close>

theorem piperead_correct:
  assumes "pipe_ready pi pr s" "pipe_queue (pipes (fs s) pi) \<noteq> [] \<or> pi_writeopen (pipes (fs s) pi) = False"
    and "k = min n (length (pipe_queue (pipes (fs s) pi)))"
    and "\<forall>j < k. uwritable s (p_pagetable (procs s pr)) (addr + of_nat j)"
    and "unaliased s (p_pagetable (procs s pr)) addr k"
  shows "\<exists>s'. piperead pi addr (int n) s = Ok (int k) s' \<and> pipe_ok (pipes (fs s') pi) \<and>
    pipe_queue (pipes (fs s') pi) = drop k (pipe_queue (pipes (fs s) pi)) \<and>
    ustored s (p_pagetable (procs s pr)) addr (take k (pipe_queue (pipes (fs s) pi))) (mem s') \<and>
    (\<forall>q. q \<noteq> pi \<longrightarrow> pipes (fs s') q = pipes (fs s) q) \<and> locks s' = locks s \<and>
    (\<forall>p < NPROC. p \<noteq> pr \<and> p_state (procs s p) = SLEEPING \<and> p_chan (procs s p) = ChanPipeWrite pi \<longrightarrow>
       p_state (procs s' p) = RUNNABLE)"
proof -
  have "pipe_ok (pipes (fs s) pi)" using assms(1) by (simp add: pipe_ready_def)
  note q = pq.drops_ok [OF this, of k]
  obtain m' where "piperead pi addr (int n) s = Ok (int k) (set_pipe pi ((pipe_drop ^^ k) (pipes (fs s) pi))
      s\<lparr>mem := m', procs := woken {..<NPROC} (ChanPipeWrite pi) (Some pr) (procs s), cpu := settle (cpu s)\<rparr>)"
    "ustored s (p_pagetable (procs s pr)) addr (take k (pipe_queue (pipes (fs s) pi))) m'"
    using piperead_ok [OF assms(1) _ assms(3) _ assms(5)] assms(2,4) by auto
  with q assms(3) show ?thesis by (simp add: woken_def set_pipe_def)
qed

theorem piperead_correct_witness:
  "\<exists>s'. piperead 0x80200000 4000 5 (demo_pipe (fold pipe_put [7, 8, 9] open_pipe)) = Ok 3 s' \<and>
     pipe_queue (pipes (fs s') 0x80200000) = []"
proof -
  define p where "p = fold pipe_put [7, 8, 9] open_pipe"
  let ?s = "demo_pipe p"
  have q: "pipe_ok p" "pipe_queue (pipes (fs ?s) 0x80200000) = [7, 8, 9]"
    using pq.puts_ok [OF open_pipe_empty(1), of "[7, 8, 9]"] by (simp_all add: p_def open_pipe_empty demo_pipe_simps)
  have a: "(4000 + of_nat j :: u64) = of_nat (4000 + j)" for j by simp
  have w: "\<forall>j < 3. uwritable ?s (p_pagetable (procs ?s 0)) (4000 + of_nat j)"
    unfolding a demo_pipe_simps(2) using demo_pipe_user(1) by (simp del: of_nat_add)
  have u: "unaliased ?s (p_pagetable (procs ?s 0)) 4000 3"
    unfolding unaliased_def a by (simp add: demo_writable(2) del: of_nat_add)
  from piperead_correct [OF demo_pipe_ready [OF q(1)] _ _ w u, of "0x80200000" 5] q(2)
  obtain s' where "piperead 0x80200000 4000 (int 5) ?s = Ok (int 3) s'"
    "pipe_queue (pipes (fs s') 0x80200000) = drop 3 [7, 8, 9]" by auto
  then show ?thesis by (auto simp: p_def)
qed

end
