(* ===== verification/Console.thy ===== *)
theory Console
  imports Proc Ring
begin

text \<open>
  \<^verbatim>\<open>kernel/console.c\<close> and the rest of \<^verbatim>\<open>kernel/uart.c\<close>: input of characters by interrupt, line
  editing, and the \<^verbatim>\<open>read\<close> and \<^verbatim>\<open>write\<close> of the console device. The UART's registers are the
  queue \<open>u_in\<close> of bytes waiting in the receive register and the list \<open>u_out\<close> of bytes written;
  that it is idle when it interrupts to say so is the argument of \<open>uartintr\<close>.
\<close>

definition upd_cons :: "(console \<Rightarrow> console) \<Rightarrow> unit k" where
  "upd_cons f = kmodify (\<lambda>s. s\<lparr>cons := f (cons s)\<rparr>)"

subsection \<open>Input\<close>

definition uartgetc :: "int k" where
  "uartgetc =
     kbind (kget (\<lambda>s. u_in (cons s))) (\<lambda>q. case q of
       [] \<Rightarrow> kret (- 1)
     | c # cs \<Rightarrow> kthen (upd_cons (\<lambda>d. d\<lparr>u_in := cs\<rparr>)) (kret (uint c)))"

definition cons_index :: "u32 \<Rightarrow> nat" where
  "cons_index i = ring_at INPUT_BUF_SIZE i"

text \<open>The characters \<^verbatim>\<open>C('D')\<close>, \<^verbatim>\<open>C('H')\<close>, \<^verbatim>\<open>C('P')\<close> and \<^verbatim>\<open>C('U')\<close>.\<close>

abbreviation (input) CTRL_D :: int where "CTRL_D \<equiv> 4"
abbreviation (input) CTRL_H :: int where "CTRL_H \<equiv> 8"
abbreviation (input) CTRL_P :: int where "CTRL_P \<equiv> 16"
abbreviation (input) CTRL_U :: int where "CTRL_U \<equiv> 21"

definition kill_line :: "unit k" where
  "kill_line =
     kbind (kget (\<lambda>s. unat (cons_e (cons s) - cons_w (cons s)))) (\<lambda>n.
     kloop (Suc n)
       (kget (\<lambda>s. cons_e (cons s) \<noteq> cons_w (cons s) \<and>
          cons_buf (cons s) (cons_index (cons_e (cons s) - 1)) \<noteq> 10))
       (kdo [upd_cons (\<lambda>d. d\<lparr>cons_e := cons_e d - 1\<rparr>), consputc BACKSPACE]))"

definition cons_erase :: "unit k" where
  "cons_erase =
     kbind (kget (\<lambda>s. cons_e (cons s) \<noteq> cons_w (cons s))) (\<lambda>some.
     kwhen some (kdo [upd_cons (\<lambda>d. d\<lparr>cons_e := cons_e d - 1\<rparr>), consputc BACKSPACE]))"

definition cons_insert :: "int \<Rightarrow> unit k" where
  "cons_insert c0 =
     kbind (kget (\<lambda>s. cons_e (cons s) - cons_r (cons s) < of_nat INPUT_BUF_SIZE)) (\<lambda>room.
     kwhen (c0 \<noteq> 0 \<and> room)
      (let c = (if c0 = 13 then 10 else c0) in
       kthen (consputc c)
      (kthen (upd_cons (\<lambda>d. d\<lparr>cons_buf := (cons_buf d)(cons_index (cons_e d) := word_of_int c),
                                 cons_e := cons_e d + 1\<rparr>))
      (kbind (kget (\<lambda>s. cons_e (cons s) - cons_r (cons s) = of_nat INPUT_BUF_SIZE)) (\<lambda>full.
       kwhen (c = 10 \<or> c = CTRL_D \<or> full) (kdo [
         upd_cons (\<lambda>d. d\<lparr>cons_w := cons_e d\<rparr>),
         wakeup ChanCons]))))))"

definition consoleintr :: "int \<Rightarrow> unit k" where
  "consoleintr c = kdo [
     acquire ConsLock,
     (if c = CTRL_P then procdump
      else if c = CTRL_U then kill_line
      else if c = CTRL_H \<or> c = 0x7f then cons_erase
      else cons_insert c),
     release ConsLock]"

text \<open>The loop of \<open>uartintr\<close> reads the waiting bytes, one a round.\<close>

fun uart_drain :: "nat \<Rightarrow> unit k" where
  "uart_drain 0 = (\<lambda>s. Diverge)"
| "uart_drain (Suc n) =
     kbind uartgetc (\<lambda>c. if c = - 1 then kret () else kthen (consoleintr c) (uart_drain n))"

definition uartintr :: "bool \<Rightarrow> unit k" where
  "uartintr idle =
     kthen (acquire UartLock)
    (kthen (kwhen idle (kdo [upd_cons (\<lambda>d. d\<lparr>tx_busy := False\<rparr>), wakeup ChanUart]))
    (kthen (release UartLock)
    (kbind (kget (\<lambda>s. length (u_in (cons s)))) (\<lambda>n. uart_drain (Suc n)))))"

subsection \<open>Output\<close>

text \<open>
  The bytes still to send; a round sends one or sleeps until the UART is idle. \<open>env\<close> runs while
  the writer sleeps.
\<close>

fun uartwrite_loop :: "unit k \<Rightarrow> nat \<Rightarrow> u8 list \<Rightarrow> unit k" where
  "uartwrite_loop env 0 cs = (\<lambda>s. Diverge)"
| "uartwrite_loop env (Suc n) [] = kret ()"
| "uartwrite_loop env (Suc n) (c # cs) =
     kbind (kget (\<lambda>s. tx_busy (cons s))) (\<lambda>busy.
     if busy then kthen (sleep_with env ChanUart UartLock) (uartwrite_loop env n (c # cs))
     else kthen (uart_thr c)
         (kthen (upd_cons (\<lambda>d. d\<lparr>tx_busy := True\<rparr>)) (uartwrite_loop env n cs)))"

text \<open>The UART's interrupt as it arrives while the writer sleeps.\<close>

definition uart_interrupt :: "unit k" where
  "uart_interrupt = kdo [intr_off, uartintr True, intr_on]"

definition uartwrite :: "u8 list \<Rightarrow> unit k" where
  "uartwrite cs = kdo [
     acquire UartLock,
     uartwrite_loop uart_interrupt (Suc (2 * length cs)) cs,
     release UartLock]"

function consolewrite_from :: "bool \<Rightarrow> u64 \<Rightarrow> int \<Rightarrow> int \<Rightarrow> int k" where
  "consolewrite_from user_src src n i =
    (if i < n
     then let nn = (if 32 > n - i then n - i else 32) in
          kbind (either_copyin user_src (src + word_of_int i) (nat nn)) (\<lambda>(r, buf).
          if r = - 1 then kret i
          else kthen (uartwrite buf) (consolewrite_from user_src src n (i + nn)))
     else kret i)"
  by pat_completeness auto

termination
  by (relation "measure (\<lambda>(u, src, n, i). nat (n - i))") (auto split: if_splits)

declare consolewrite_from.simps [simp del]

definition consolewrite :: "bool \<Rightarrow> u64 \<Rightarrow> int \<Rightarrow> int k" where
  "consolewrite user_src src n = consolewrite_from user_src src n 0"

subsection \<open>Reading a line\<close>

text \<open>
  A round delivers a byte, ends the read, or sleeps until there is input; \<open>fuel\<close> bounds the
  number of rounds and \<open>env\<close> runs while the reader sleeps.
\<close>

fun consoleread_loop :: "unit k \<Rightarrow> nat \<Rightarrow> bool \<Rightarrow> int \<Rightarrow> u64 \<Rightarrow> int \<Rightarrow> int k" where
  "consoleread_loop env 0 user_dst target dst n = (\<lambda>s. Diverge)"
| "consoleread_loop env (Suc fuel) user_dst target dst n =
    (if n \<le> 0 then kthen (release ConsLock) (kret (target - n))
     else kbind (kget (\<lambda>s. cons_r (cons s) = cons_w (cons s))) (\<lambda>empty.
     if empty
     then kbind curproc (\<lambda>p. kbind (killed p) (\<lambda>k.
          if k \<noteq> 0 then kthen (release ConsLock) (kret (- 1))
          else kthen (sleep_with env ChanCons ConsLock)
              (consoleread_loop env fuel user_dst target dst n)))
     else kbind (kget (\<lambda>s. cons_buf (cons s) (cons_index (cons_r (cons s))))) (\<lambda>c.
     kthen (upd_cons (\<lambda>d. d\<lparr>cons_r := cons_r d + 1\<rparr>))
    (if uint c = CTRL_D
     then kthen (kwhen (n < target) (upd_cons (\<lambda>d. d\<lparr>cons_r := cons_r d - 1\<rparr>)))
         (kthen (release ConsLock) (kret (target - n)))
     else kbind (either_copyout user_dst dst [c]) (\<lambda>r.
     if r = - 1 then kthen (release ConsLock) (kret (target - n))
     else if uint c = 10 then kthen (release ConsLock) (kret (target - (n - 1)))
     else consoleread_loop env fuel user_dst target (dst + 1) (n - 1))))))"

definition consoleread_with :: "unit k \<Rightarrow> nat \<Rightarrow> bool \<Rightarrow> u64 \<Rightarrow> int \<Rightarrow> int k" where
  "consoleread_with env fuel user_dst dst n =
     kthen (acquire ConsLock) (consoleread_loop env fuel user_dst n dst n)"

definition consoleread :: "bool \<Rightarrow> u64 \<Rightarrow> int \<Rightarrow> int k" where
  "consoleread user_dst dst n = consoleread_with Blocked (Suc (nat n)) user_dst dst n"

subsection \<open>Initialisation\<close>

text \<open>The writes to the UART's control registers have no counterpart in the state.\<close>

definition uartinit :: "unit k" where
  "uartinit = initlock UartLock"

definition consoleinit :: "unit k" where
  "consoleinit = kdo [initlock ConsLock, uartinit]"

end
