(* ===== verification/File.thy ===== *)
theory File
  imports Fsdata Pipe Console
begin

text \<open>
  \<^verbatim>\<open>kernel/file.c\<close>, and \<open>pipealloc\<close> of \<^verbatim>\<open>kernel/pipe.c\<close>. A file pointer is an index of the file
  table. The table \<^verbatim>\<open>devsw\<close> has one entry, the console's, set by \<open>consoleinit\<close>.
\<close>

definition file_of :: "nat \<Rightarrow> kfile k" where
  "file_of f = fget (\<lambda>x. ftable x f)"

definition upd_file :: "nat \<Rightarrow> (kfile \<Rightarrow> kfile) \<Rightarrow> unit k" where
  "upd_file f g = kmodify (\<lambda>s. s\<lparr>fs := (fs s)\<lparr>ftable := (ftable (fs s))(f := g (ftable (fs s) f))\<rparr>\<rparr>)"

abbreviation (input) CONSOLE :: int where "CONSOLE \<equiv> 1"

definition fileinit :: "unit k" where
  "fileinit = initlock FtableLock"

definition filealloc :: "nat option k" where
  "filealloc =
     kthen (acquire FtableLock)
    (kbind (fget ftable) (\<lambda>tab. case find (\<lambda>f. f_ref (tab f) = 0) [0..<NFILE] of
       Some f \<Rightarrow> kthen (upd_file f (\<lambda>x. x\<lparr>f_ref := 1\<rparr>)) (kthen (release FtableLock) (kret (Some f)))
     | None \<Rightarrow> kthen (release FtableLock) (kret None)))"

definition filedup :: "nat \<Rightarrow> nat k" where
  "filedup f =
     kthen (acquire FtableLock)
    (kbind (file_of f) (\<lambda>x.
     kthen (kpanic_if (f_ref x < 1) ''filedup'')
    (kthen (upd_file f (\<lambda>x. x\<lparr>f_ref := f_ref x + 1\<rparr>))
    (kthen (release FtableLock)
    (kret f)))))"

definition fileclose :: "nat \<Rightarrow> unit k" where
  "fileclose f =
     kthen (acquire FtableLock)
    (kbind (file_of f) (\<lambda>x.
     kthen (kpanic_if (f_ref x < 1) ''fileclose'')
    (kthen (upd_file f (\<lambda>x. x\<lparr>f_ref := f_ref x - 1\<rparr>))
    (if 0 < f_ref x - 1 then release FtableLock
     else kthen (upd_file f (\<lambda>x. x\<lparr>f_ref := 0, f_type := FD_NONE\<rparr>))
         (kthen (release FtableLock)
         (case f_type x of
            FD_PIPE \<Rightarrow> pipeclose (f_pipe x) (f_writable x)
          | FD_INODE \<Rightarrow> kdo [begin_op, iput (f_ip x), end_op]
          | FD_DEVICE \<Rightarrow> kdo [begin_op, iput (f_ip x), end_op]
          | FD_NONE \<Rightarrow> kret ()))))))"

text \<open>
  The 24 bytes of a \<^verbatim>\<open>struct stat\<close>. The four bytes of padding before the size have no value in
  C; they are zeros here.
\<close>

definition stat_bytes :: "stat \<Rightarrow> u8 list" where
  "stat_bytes st = le32 (st_dev st) @ le32 (st_ino st) @ le16 (word_of_int (st_type st)) @
     le16 (word_of_int (st_nlink st)) @ replicate 4 0 @ le64 (st_size st)"

definition filestat :: "nat \<Rightarrow> u64 \<Rightarrow> int k" where
  "filestat f addr =
     kbind curproc (\<lambda>p.
     kbind (file_of f) (\<lambda>x.
     if f_type x = FD_INODE \<or> f_type x = FD_DEVICE
     then kthen (ilock (f_ip x))
         (deref (f_ip x) (\<lambda>ip.
          kbind (stati ip) (\<lambda>st.
          kthen (iunlock (f_ip x))
         (kbind (pget p p_pagetable) (\<lambda>pt.
          kbind (copyout pt addr (stat_bytes st)) (\<lambda>r.
          kret (if r < 0 then - 1 else 0)))))))
     else kret (- 1)))"

text \<open>\<^verbatim>\<open>devsw[major].read\<close> and \<^verbatim>\<open>.write\<close>; \<open>None\<close> for a null entry or a major out of range.\<close>

definition devsw_read :: "int \<Rightarrow> (bool \<Rightarrow> u64 \<Rightarrow> int \<Rightarrow> int k) option" where
  "devsw_read major = (if major < 0 \<or> int NDEV \<le> major then None
     else if major = CONSOLE then Some consoleread else None)"

definition devsw_write :: "int \<Rightarrow> (bool \<Rightarrow> u64 \<Rightarrow> int \<Rightarrow> int k) option" where
  "devsw_write major = (if major < 0 \<or> int NDEV \<le> major then None
     else if major = CONSOLE then Some consolewrite else None)"

definition fileread :: "nat \<Rightarrow> u64 \<Rightarrow> int \<Rightarrow> int k" where
  "fileread f addr n =
     kbind (file_of f) (\<lambda>x.
     if \<not> f_readable x then kret (- 1)
     else case f_type x of
       FD_PIPE \<Rightarrow> piperead (f_pipe x) addr n
     | FD_DEVICE \<Rightarrow> (case devsw_read (f_major x) of
           None \<Rightarrow> kret (- 1)
         | Some rd \<Rightarrow> rd True addr n)
     | FD_INODE \<Rightarrow>
         kthen (ilock (f_ip x))
        (deref (f_ip x) (\<lambda>ip.
         kbind (readi ip True addr (f_off x) (word_of_int n)) (\<lambda>(r, _).
         kthen (kwhen (0 < r) (upd_file f (\<lambda>x. x\<lparr>f_off := f_off x + word_of_int r\<rparr>)))
        (kthen (iunlock (f_ip x))
        (kret r)))))
     | FD_NONE \<Rightarrow> kpanic ''fileread'')"

text \<open>The loop of a write to an inode: at most three blocks a transaction.\<close>

abbreviation (input) FILEWRITE_MAX :: int where
  "FILEWRITE_MAX \<equiv> int (((MAXOPBLOCKS - 1 - 1 - 2) div 2) * BSIZE)"

function filewrite_loop :: "nat \<Rightarrow> u64 \<Rightarrow> int \<Rightarrow> int \<Rightarrow> int k" where
  "filewrite_loop f addr n i =
    (if \<not> i < n then kret i
     else let n1 = min (n - i) FILEWRITE_MAX in
     kthen begin_op
    (kbind (file_of f) (\<lambda>x.
     kthen (ilock (f_ip x))
    (deref (f_ip x) (\<lambda>ip.
     kbind (writei ip (WUser (addr + word_of_int i)) (f_off x) (word_of_int n1)) (\<lambda>r.
     kthen (kwhen (0 < r) (upd_file f (\<lambda>x. x\<lparr>f_off := f_off x + word_of_int r\<rparr>)))
    (kthen (iunlock (f_ip x))
    (kthen end_op
    (if r \<noteq> n1 then kret i else filewrite_loop f addr n (i + n1))))))))))"
  by pat_completeness auto

termination
  by (relation "measure (\<lambda>(f, addr, n, i). nat (n - i))") auto

declare filewrite_loop.simps [simp del]

definition filewrite :: "nat \<Rightarrow> u64 \<Rightarrow> int \<Rightarrow> int k" where
  "filewrite f addr n =
     kbind (file_of f) (\<lambda>x.
     if \<not> f_writable x then kret (- 1)
     else case f_type x of
       FD_PIPE \<Rightarrow> pipewrite (f_pipe x) addr n
     | FD_DEVICE \<Rightarrow> (case devsw_write (f_major x) of
           None \<Rightarrow> kret (- 1)
         | Some wr \<Rightarrow> wr True addr n)
     | FD_INODE \<Rightarrow> kbind (filewrite_loop f addr n 0) (\<lambda>i. kret (if i = n then n else - 1))
     | FD_NONE \<Rightarrow> kpanic ''filewrite'')"

subsection \<open>Making a pipe\<close>

text \<open>A fresh page is full of the allocator's junk, and so are the data of a new pipe.\<close>

definition new_pipe :: pipe where
  "new_pipe = \<lparr>pi_data = (\<lambda>_. 5), pi_nread = 0, pi_nwrite = 0, pi_readopen = True, pi_writeopen = True\<rparr>"

definition pipealloc_bad :: "nat option \<Rightarrow> nat option \<Rightarrow> (nat \<times> nat) option k" where
  "pipealloc_bad f0 f1 =
     kthen (case f0 of None \<Rightarrow> kret () | Some f \<Rightarrow> fileclose f)
    (kthen (case f1 of None \<Rightarrow> kret () | Some f \<Rightarrow> fileclose f) (kret None))"

definition pipealloc :: "(nat \<times> nat) option k" where
  "pipealloc =
     kbind filealloc (\<lambda>f0. case f0 of
       None \<Rightarrow> pipealloc_bad None None
     | Some a \<Rightarrow>
     kbind filealloc (\<lambda>f1. case f1 of
       None \<Rightarrow> pipealloc_bad f0 None
     | Some b \<Rightarrow>
     kbind kalloc (\<lambda>pi.
     if pi = 0 then pipealloc_bad f0 f1
     else kthen (kdo [
         upd_pipe pi (\<lambda>_. new_pipe),
         initlock (PipeLock pi),
         upd_file a (\<lambda>x. x\<lparr>f_type := FD_PIPE, f_readable := True, f_writable := False, f_pipe := pi\<rparr>),
         upd_file b (\<lambda>x. x\<lparr>f_type := FD_PIPE, f_readable := False, f_writable := True, f_pipe := pi\<rparr>)])
       (kret (Some (a, b))))))"

end
