(* ===== verification/Procs.thy ===== *)
theory Procs
  imports File
begin

text \<open>
  Creating processes, exit and wait: the rest of \<^verbatim>\<open>kernel/proc.c\<close>, and \<open>kexec\<close> of
  \<^verbatim>\<open>kernel/exec.c\<close>.
\<close>

subsection \<open>Fork\<close>

definition fork_file :: "nat \<Rightarrow> nat \<Rightarrow> nat \<Rightarrow> unit option k" where
  "fork_file p np i =
     kbind (pget p (\<lambda>pr. p_ofile pr i)) (\<lambda>f. case f of
       None \<Rightarrow> kret None
     | Some f \<Rightarrow> kbind (filedup f) (\<lambda>f'.
         kthen (pset np (\<lambda>pr. pr\<lparr>p_ofile := (p_ofile pr)(i := Some f')\<rparr>)) (kret None)))"

definition kfork :: "int k" where
  "kfork =
     kbind curproc (\<lambda>p.
     kbind allocproc (\<lambda>npo. case npo of
       None \<Rightarrow> kret (- 1)
     | Some np \<Rightarrow>
         kbind (kget (\<lambda>s. (p_pagetable (procs s p), p_pagetable (procs s np), p_sz (procs s p)))) (\<lambda>(old, new, sz).
         kbind (uvmcopy old new sz) (\<lambda>r.
         if r < 0 then kthen (freeproc np) (kthen (release (ProcLock np)) (kret (- 1)))
         else kthen (pset np (\<lambda>pr. pr\<lparr>p_sz := sz\<rparr>))
        (kbind (kget (\<lambda>s. (p_trapframe (procs s np), p_trapframe (procs s p)))) (\<lambda>(ntf, tf).
         kthen (kmodify (\<lambda>s. s\<lparr>mem := memmove (mem s) ntf tf TF_size\<rparr>))
        (kthen (tf_set np TF_a0 0)
        (kthen (kfor (fork_file p np) [0..<NOFILE])
        (kbind (pget p p_cwd) (\<lambda>cwd.
         kbind (idup cwd) (\<lambda>cwd'.
         kthen (pset np (\<lambda>pr. pr\<lparr>p_cwd := cwd'\<rparr>))
        (kbind (pget p p_name) (\<lambda>nm.
         kthen (pset np (\<lambda>pr. pr\<lparr>p_name := safestrcpy (p_name pr) nm 16\<rparr>))
        (kbind (pget np p_pid) (\<lambda>pid.
         kthen (kdo [
           release (ProcLock np),
           acquire WaitLock,
           pset np (\<lambda>pr. pr\<lparr>p_parent := Some p\<rparr>),
           release WaitLock,
           acquire (ProcLock np),
           pset np (\<lambda>pr. pr\<lparr>p_state := RUNNABLE\<rparr>),
           release (ProcLock np)])
        (kret pid))))))))))))))))"

definition userinit :: "unit k" where
  "userinit =
     kbind allocproc (\<lambda>npo.
     kthen (kmodify (\<lambda>s. s\<lparr>initproc := npo\<rparr>))
    (kbind (namei (bytes ''/'')) (\<lambda>ip.
     deref npo (\<lambda>p. kdo [
       pset p (\<lambda>pr. pr\<lparr>p_cwd := ip\<rparr>),
       pset p (\<lambda>pr. pr\<lparr>p_state := RUNNABLE\<rparr>),
       release (ProcLock p)]))))"

subsection \<open>Exit and wait\<close>

text \<open>The channel of a \<^verbatim>\<open>struct proc *\<close>.\<close>

definition proc_chan :: "nat option \<Rightarrow> chan" where
  "proc_chan p = (case p of None \<Rightarrow> NoChan | Some i \<Rightarrow> ChanProc i)"

definition reparent_one :: "nat \<Rightarrow> nat \<Rightarrow> unit option k" where
  "reparent_one p pp =
     kbind (pget pp p_parent) (\<lambda>par.
     kthen (kwhen (par = Some p)
       (kbind (kget initproc) (\<lambda>ini. kdo [
          pset pp (\<lambda>pr. pr\<lparr>p_parent := ini\<rparr>),
          wakeup (proc_chan ini)])))
    (kret None))"

definition reparent :: "nat \<Rightarrow> unit k" where
  "reparent p = kthen (kfor (reparent_one p) [0..<NPROC]) (kret ())"

definition exit_file :: "nat \<Rightarrow> nat \<Rightarrow> unit option k" where
  "exit_file p fd =
     kbind (pget p (\<lambda>pr. p_ofile pr fd)) (\<lambda>f. case f of
       None \<Rightarrow> kret None
     | Some f \<Rightarrow>
         kthen (fileclose f)
        (kthen (pset p (\<lambda>pr. pr\<lparr>p_ofile := (p_ofile pr)(fd := None)\<rparr>)) (kret None)))"

text \<open>
  The switch to the scheduler of an exiting process: nobody switches back to a zombie. \<open>env\<close> is
  what the rest of the system does from then on.
\<close>

definition kexit_with :: "unit k \<Rightarrow> int \<Rightarrow> unit k" where
  "kexit_with env status =
     kbind curproc (\<lambda>p.
     kbind (kget initproc) (\<lambda>ini.
     kthen (kpanic_if (Some p = ini) ''init exiting'')
    (kthen (kfor (exit_file p) [0..<NOFILE])
    (kthen begin_op
    (kbind (pget p p_cwd) (\<lambda>cwd.
     kthen (kdo [
       iput cwd,
       end_op,
       pset p (\<lambda>pr. pr\<lparr>p_cwd := None\<rparr>),
       acquire WaitLock,
       reparent p])
    (kbind (pget p p_parent) (\<lambda>par.
     kdo [
       wakeup (proc_chan par),
       acquire (ProcLock p),
       pset p (\<lambda>pr. pr\<lparr>p_xstate := status\<rparr>),
       pset p (\<lambda>pr. pr\<lparr>p_state := ZOMBIE\<rparr>),
       release WaitLock,
       sched (scheduler_turn env p),
       kpanic ''zombie exit'']))))))))"

definition kexit :: "int \<Rightarrow> unit k" where
  "kexit = kexit_with Blocked"

text \<open>
  One entry of the scan of \<open>kwait\<close>: the result of the call if a zombie child is found (or its
  status cannot be copied out), else whether the entry was a child.
\<close>

definition kwait_one :: "nat \<Rightarrow> u64 \<Rightarrow> nat \<Rightarrow> (int + bool) k" where
  "kwait_one p addr pp =
     kbind (pget pp p_parent) (\<lambda>par.
     if par \<noteq> Some p then kret (Inr False)
     else kthen (acquire (ProcLock pp))
    (kbind (kget (\<lambda>s. procs s pp)) (\<lambda>pr.
     if p_state pr \<noteq> ZOMBIE then kthen (release (ProcLock pp)) (kret (Inr True))
     else kbind (if addr = 0 then kret 0
                 else kbind (pget p p_pagetable) (\<lambda>pt.
                      copyout pt addr (le32 (word_of_int (p_xstate pr))))) (\<lambda>r.
     if r < 0 then kthen (release (ProcLock pp)) (kthen (release WaitLock) (kret (Inl (- 1))))
     else kthen (freeproc pp)
         (kthen (release (ProcLock pp))
         (kthen (release WaitLock)
         (kret (Inl (p_pid pr)))))))))"

fun kwait_scan :: "nat \<Rightarrow> u64 \<Rightarrow> bool \<Rightarrow> nat list \<Rightarrow> (int + bool) k" where
  "kwait_scan p addr havekids [] = kret (Inr havekids)"
| "kwait_scan p addr havekids (pp # pps) =
     kbind (kwait_one p addr pp) (\<lambda>r. case r of
       Inl v \<Rightarrow> kret (Inl v)
     | Inr kid \<Rightarrow> kwait_scan p addr (havekids \<or> kid) pps)"

fun kwait_loop :: "unit k \<Rightarrow> nat \<Rightarrow> nat \<Rightarrow> u64 \<Rightarrow> int k" where
  "kwait_loop env 0 p addr = (\<lambda>s. Diverge)"
| "kwait_loop env (Suc fuel) p addr =
     kbind (kwait_scan p addr False [0..<NPROC]) (\<lambda>r. case r of
       Inl v \<Rightarrow> kret v
     | Inr havekids \<Rightarrow>
         kbind (if \<not> havekids then kret True else kbind (killed p) (\<lambda>k. kret (k \<noteq> 0))) (\<lambda>stop.
         if stop then kthen (release WaitLock) (kret (- 1))
         else kthen (sleep_with env (ChanProc p) WaitLock) (kwait_loop env fuel p addr)))"

definition kwait_with :: "unit k \<Rightarrow> nat \<Rightarrow> u64 \<Rightarrow> int k" where
  "kwait_with env fuel addr =
     kbind curproc (\<lambda>p. kthen (acquire WaitLock) (kwait_loop env fuel p addr))"

definition kwait :: "u64 \<Rightarrow> int k" where
  "kwait = kwait_with Blocked 1"

end
