(* ===== verification/Exec.thy ===== *)
theory Exec
  imports Procs
begin

text \<open>
  \<^verbatim>\<open>kernel/exec.c\<close>: loading a program. The structs of \<^verbatim>\<open>elf.h\<close> are read from the file at the
  offsets of their fields. The path and the arguments are strings in the kernel, without their
  NUL.
\<close>

abbreviation (input) ELF_MAGIC :: u32 where "ELF_MAGIC \<equiv> 0x464C457F"
abbreviation (input) ELF_PROG_LOAD :: u32 where "ELF_PROG_LOAD \<equiv> 1"
abbreviation (input) ELFHDR_SIZE :: nat where "ELFHDR_SIZE \<equiv> 64"
abbreviation (input) PROGHDR_SIZE :: nat where "PROGHDR_SIZE \<equiv> 56"

record elfhdr =
  elf_magic :: u32
  elf_entry :: u64
  elf_phoff :: u64
  elf_phnum :: u16

definition get_elfhdr :: "u8 list \<Rightarrow> elfhdr" where
  "get_elfhdr d = \<lparr>elf_magic = get32 d 0, elf_entry = get64 d 24, elf_phoff = get64 d 32,
     elf_phnum = get16 d 56\<rparr>"

record proghdr =
  ph_type :: u32
  ph_flags :: u32
  ph_off :: u64
  ph_vaddr :: u64
  ph_filesz :: u64
  ph_memsz :: u64

definition get_proghdr :: "u8 list \<Rightarrow> proghdr" where
  "get_proghdr d = \<lparr>ph_type = get32 d 0, ph_flags = get32 d 4, ph_off = get64 d 8,
     ph_vaddr = get64 d 16, ph_filesz = get64 d 32, ph_memsz = get64 d 40\<rparr>"

definition flags2perm :: "u32 \<Rightarrow> u64" where
  "flags2perm flags =
    (let perm = (if flags AND 1 \<noteq> 0 then PTE_X else 0) in
     if flags AND 2 \<noteq> 0 then perm OR PTE_W else perm)"

text \<open>One page of a segment; \<open>Some (- 1)\<close> ends \<open>loadseg\<close>.\<close>

definition loadseg_page :: "u64 \<Rightarrow> u64 \<Rightarrow> nat \<Rightarrow> u32 \<Rightarrow> u32 \<Rightarrow> u32 \<Rightarrow> int option k" where
  "loadseg_page pagetable va ip offset sz i =
     kbind (walkaddr pagetable (va + ucast i)) (\<lambda>pa.
     kthen (kpanic_if (pa = 0) ''loadseg: address should exist'')
    (let n = (if sz - i < 4096 then sz - i else 4096) in
     kbind (readi ip False pa (offset + i) n) (\<lambda>(r, bs).
     kthen (kmodify (\<lambda>s. s\<lparr>mem := mem_write (mem s) pa bs\<rparr>))
    (kret (if r \<noteq> uint n then Some (- 1) else None)))))"

definition loadseg :: "u64 \<Rightarrow> u64 \<Rightarrow> nat \<Rightarrow> u32 \<Rightarrow> u32 \<Rightarrow> int k" where
  "loadseg pagetable va ip offset sz =
     kbind (kfor (loadseg_page pagetable va ip offset sz)
              (map (\<lambda>k. of_nat (k * 4096)) [0..<(unat sz + 4095) div 4096])) (\<lambda>r.
     case r of Some v \<Rightarrow> kret v | None \<Rightarrow> kret 0)"

text \<open>The checks on a program header before it is loaded.\<close>

definition ph_bad :: "proghdr \<Rightarrow> bool" where
  "ph_bad ph \<longleftrightarrow> ph_memsz ph < ph_filesz ph \<or> ph_vaddr ph + ph_memsz ph < ph_vaddr ph \<or>
     ph_vaddr ph mod PGSIZE \<noteq> 0"

text \<open>
  The program headers from the one at \<open>off\<close> on; whether all were loaded, and the size reached,
  which the error path needs too.
\<close>

fun exec_segments :: "nat \<Rightarrow> u64 \<Rightarrow> u32 \<Rightarrow> nat \<Rightarrow> u64 \<Rightarrow> (bool \<times> u64) k" where
  "exec_segments ip pagetable off 0 sz = kret (True, sz)"
| "exec_segments ip pagetable off (Suc n) sz =
     kbind (readi ip False 0 off (of_nat PROGHDR_SIZE)) (\<lambda>(r, d).
     if r \<noteq> int PROGHDR_SIZE then kret (False, sz)
     else let ph = get_proghdr d; off' = off + of_nat PROGHDR_SIZE in
     if ph_type ph \<noteq> ELF_PROG_LOAD then exec_segments ip pagetable off' n sz
     else if ph_bad ph then kret (False, sz)
     else kbind (uvmalloc pagetable sz (ph_vaddr ph + ph_memsz ph) (flags2perm (ph_flags ph))) (\<lambda>sz1.
     if sz1 = 0 then kret (False, sz)
     else kbind (loadseg pagetable (ph_vaddr ph) ip (ucast (ph_off ph)) (ucast (ph_filesz ph))) (\<lambda>l.
     if l < 0 then kret (False, sz1)
     else exec_segments ip pagetable off' n sz1)))"

text \<open>
  Pushing the argument strings: the stack pointer and the addresses of the strings, \<open>None\<close> where
  the source jumps to \<^verbatim>\<open>bad\<close>.
\<close>

definition push_aligned :: "u64 \<Rightarrow> u64 \<Rightarrow> u64" where
  "push_aligned sp len = (let sp' = sp - len in sp' - sp' mod 16)"

fun exec_args :: "u64 \<Rightarrow> u64 \<Rightarrow> u64 \<Rightarrow> u64 list \<Rightarrow> u8 list list \<Rightarrow> (u64 \<times> u64 list) option k" where
  "exec_args pagetable stackbase sp ustack [] = kret (Some (sp, ustack))"
| "exec_args pagetable stackbase sp ustack (a # args) =
    (if MAXARG \<le> length ustack then kret None
     else let sp' = push_aligned sp (of_nat (length a + 1)) in
     if sp' < stackbase then kret None
     else kbind (copyout pagetable sp' (a @ [0])) (\<lambda>r.
     if r < 0 then kret None
     else exec_args pagetable stackbase sp' (ustack @ [sp']) args))"

definition exec_bad :: "u64 \<Rightarrow> u64 \<Rightarrow> nat option \<Rightarrow> int k" where
  "exec_bad pagetable sz ipo =
     kthen (kwhen (pagetable \<noteq> 0) (proc_freepagetable pagetable sz))
    (kthen (case ipo of None \<Rightarrow> kret () | Some ip \<Rightarrow> kdo [iunlockput (Some ip), end_op])
    (kret (- 1)))"

text \<open>The part of a path after its last slash.\<close>

definition path_last :: "u8 list \<Rightarrow> u8 list" where
  "path_last path = rev (takeWhile (\<lambda>c. c \<noteq> 47) (rev path))"

definition str_fun :: "u8 list \<Rightarrow> nat \<Rightarrow> u8" where
  "str_fun bs = (\<lambda>i. if i < length bs then bs ! i else 0)"

text \<open>The stack and the commit to the new image.\<close>

definition exec_commit :: "nat \<Rightarrow> u8 list \<Rightarrow> elfhdr \<Rightarrow> u64 \<Rightarrow> u64 \<Rightarrow> u64 \<Rightarrow> u64 \<Rightarrow> u64 list \<Rightarrow> int k" where
  "exec_commit p path elf pagetable oldsz sz sp ustack =
     kthen (tf_set p TF_a1 sp)
    (kthen (pset p (\<lambda>pr. pr\<lparr>p_name := safestrcpy (p_name pr) (str_fun (path_last path)) 16\<rparr>))
    (kbind (pget p p_pagetable) (\<lambda>oldpagetable.
     kthen (kdo [
       pset p (\<lambda>pr. pr\<lparr>p_pagetable := pagetable\<rparr>),
       pset p (\<lambda>pr. pr\<lparr>p_sz := sz\<rparr>),
       tf_set p TF_epc (elf_entry elf),
       tf_set p TF_sp sp,
       proc_freepagetable oldpagetable oldsz])
    (kret (int (length ustack))))))"

definition exec_stack :: "nat \<Rightarrow> u8 list \<Rightarrow> u8 list list \<Rightarrow> elfhdr \<Rightarrow> u64 \<Rightarrow> u64 \<Rightarrow> int k" where
  "exec_stack p path argv elf pagetable sz0 =
     kbind (pget p p_sz) (\<lambda>oldsz.
     let szr = PGROUNDUP sz0 in
     kbind (uvmalloc pagetable szr (szr + (USERSTACK + 1) * PGSIZE) PTE_W) (\<lambda>sz.
     if sz = 0 then exec_bad pagetable szr None
     else kthen (uvmclear pagetable (sz - (USERSTACK + 1) * PGSIZE))
    (let stackbase = sz - USERSTACK * PGSIZE in
     kbind (exec_args pagetable stackbase sz [] argv) (\<lambda>r. case r of
       None \<Rightarrow> exec_bad pagetable sz None
     | Some (sp, ustack) \<Rightarrow>
         if MAXARG \<le> length ustack then kfault ''kexec: ustack''
         else let sp' = push_aligned sp (of_nat ((length ustack + 1) * 8)) in
         if sp' < stackbase then exec_bad pagetable sz None
         else kbind (copyout pagetable sp' (concat (map le64 (ustack @ [0])))) (\<lambda>c.
         if c < 0 then exec_bad pagetable sz None
         else exec_commit p path elf pagetable oldsz sz sp' ustack)))))"

definition kexec :: "u8 list \<Rightarrow> u8 list list \<Rightarrow> int k" where
  "kexec path argv =
     kbind curproc (\<lambda>p.
     kthen begin_op
    (kbind (namei path) (\<lambda>ipo. case ipo of
       None \<Rightarrow> kthen end_op (kret (- 1))
     | Some ip \<Rightarrow>
         kthen (ilock (Some ip))
        (kbind (readi ip False 0 0 (of_nat ELFHDR_SIZE)) (\<lambda>(r, d).
         let elf = get_elfhdr d in
         if r \<noteq> int ELFHDR_SIZE then exec_bad 0 0 (Some ip)
         else if elf_magic elf \<noteq> ELF_MAGIC then exec_bad 0 0 (Some ip)
         else kbind (proc_pagetable p) (\<lambda>pagetable.
         if pagetable = 0 then exec_bad 0 0 (Some ip)
         else kbind (exec_segments ip pagetable (ucast (elf_phoff elf)) (unat (elf_phnum elf)) 0) (\<lambda>(ok, sz).
         if \<not> ok then exec_bad pagetable sz (Some ip)
         else kthen (iunlockput (Some ip))
             (kthen end_op
             (exec_stack p path argv elf pagetable sz)))))))))"

end
