(* ===== verification/Sysfile.thy ===== *)
theory Sysfile
  imports Exec
begin

text \<open>
  The fetching of system-call arguments (\<^verbatim>\<open>kernel/syscall.c\<close>) and the system calls on files
  (\<^verbatim>\<open>kernel/sysfile.c\<close>). A system call returns the \<^verbatim>\<open>uint64\<close> that goes into \<^verbatim>\<open>a0\<close>; an \<^verbatim>\<open>int\<close>
  is sign-extended to it.
\<close>

abbreviation (input) ret_int :: "int \<Rightarrow> u64 k" where
  "ret_int r \<equiv> kret (word_of_int r)"

subsection \<open>Arguments\<close>

definition fetchaddr :: "u64 \<Rightarrow> (int \<times> u64) k" where
  "fetchaddr addr =
     kbind curproc (\<lambda>p.
     kbind (pget p (\<lambda>pr. (p_sz pr, p_pagetable pr))) (\<lambda>(sz, pt).
     if sz \<le> addr \<or> sz < addr + 8 then kret (- 1, 0)
     else kbind (copyin pt addr 8) (\<lambda>(r, bs).
     if r \<noteq> 0 then kret (- 1, 0) else kret (0, get64 bs 0))))"

text \<open>The length of the string and its bytes, without the NUL.\<close>

definition fetchstr :: "u64 \<Rightarrow> nat \<Rightarrow> (int \<times> u8 list) k" where
  "fetchstr addr mx =
     kbind curproc (\<lambda>p.
     kbind (pget p p_pagetable) (\<lambda>pt.
     kbind (copyinstr pt addr mx) (\<lambda>(r, bs).
     if r < 0 then kret (- 1, bs) else kret (int (length (butlast bs)), butlast bs))))"

definition argraw :: "int \<Rightarrow> u64 k" where
  "argraw n =
     kbind curproc (\<lambda>p.
     if 0 \<le> n \<and> n \<le> 5 then tf_get p (TF_a0 + 8 * word_of_int n) else kpanic ''argraw'')"

definition argint :: "int \<Rightarrow> int k" where
  "argint n = kbind (argraw n) (\<lambda>x. kret (sint (ucast x :: u32)))"

definition argaddr :: "int \<Rightarrow> u64 k" where
  "argaddr n = argraw n"

definition argstr :: "int \<Rightarrow> nat \<Rightarrow> (int \<times> u8 list) k" where
  "argstr n mx = kbind (argaddr n) (\<lambda>addr. fetchstr addr mx)"

subsection \<open>File descriptors\<close>

definition argfd :: "int \<Rightarrow> (nat \<times> nat) option k" where
  "argfd n =
     kbind (argint n) (\<lambda>fd.
     if fd < 0 \<or> int NOFILE \<le> fd then kret None
     else kbind curproc (\<lambda>p.
     kbind (pget p (\<lambda>pr. p_ofile pr (nat fd))) (\<lambda>f. case f of
       None \<Rightarrow> kret None
     | Some f \<Rightarrow> kret (Some (nat fd, f)))))"

definition fdalloc :: "nat \<Rightarrow> int k" where
  "fdalloc f =
     kbind curproc (\<lambda>p.
     kbind (pget p p_ofile) (\<lambda>tab. case find (\<lambda>fd. tab fd = None) [0..<NOFILE] of
       Some fd \<Rightarrow>
         kthen (pset p (\<lambda>pr. pr\<lparr>p_ofile := (p_ofile pr)(fd := Some f)\<rparr>)) (kret (int fd))
     | None \<Rightarrow> kret (- 1)))"

definition set_ofile :: "nat \<Rightarrow> nat option \<Rightarrow> unit k" where
  "set_ofile fd v = kbind curproc (\<lambda>p. pset p (\<lambda>pr. pr\<lparr>p_ofile := (p_ofile pr)(fd := v)\<rparr>))"

definition sys_dup :: "u64 k" where
  "sys_dup =
     kbind (argfd 0) (\<lambda>a. case a of
       None \<Rightarrow> ret_int (- 1)
     | Some (_, f) \<Rightarrow>
         kbind (fdalloc f) (\<lambda>fd.
         if fd < 0 then ret_int (- 1) else kthen (filedup f) (ret_int fd)))"

definition sys_read :: "u64 k" where
  "sys_read =
     kbind (argaddr 1) (\<lambda>p.
     kbind (argint 2) (\<lambda>n.
     kbind (argfd 0) (\<lambda>a. case a of
       None \<Rightarrow> ret_int (- 1)
     | Some (_, f) \<Rightarrow> kbind (fileread f p n) (\<lambda>r. ret_int r))))"

definition sys_write :: "u64 k" where
  "sys_write =
     kbind (argaddr 1) (\<lambda>p.
     kbind (argint 2) (\<lambda>n.
     kbind (argfd 0) (\<lambda>a. case a of
       None \<Rightarrow> ret_int (- 1)
     | Some (_, f) \<Rightarrow> kbind (filewrite f p n) (\<lambda>r. ret_int r))))"

definition sys_close :: "u64 k" where
  "sys_close =
     kbind (argfd 0) (\<lambda>a. case a of
       None \<Rightarrow> ret_int (- 1)
     | Some (fd, f) \<Rightarrow> kthen (set_ofile fd None) (kthen (fileclose f) (ret_int 0)))"

definition sys_fstat :: "u64 k" where
  "sys_fstat =
     kbind (argaddr 1) (\<lambda>st.
     kbind (argfd 0) (\<lambda>a. case a of
       None \<Rightarrow> ret_int (- 1)
     | Some (_, f) \<Rightarrow> kbind (filestat f st) (\<lambda>r. ret_int r)))"

subsection \<open>Links\<close>

text \<open>The conversion to a C \<^verbatim>\<open>short\<close>.\<close>

definition to_short :: "int \<Rightarrow> int" where
  "to_short x = sint (word_of_int x :: u16)"

definition add_nlink :: "nat \<Rightarrow> int \<Rightarrow> unit k" where
  "add_nlink ip d = upd_inode ip (\<lambda>i. i\<lparr>i_nlink := to_short (i_nlink i + d)\<rparr>)"

definition end_ret :: "int \<Rightarrow> u64 k" where
  "end_ret r = kthen end_op (ret_int r)"

definition link_bad :: "nat \<Rightarrow> u64 k" where
  "link_bad ip =
     kthen (kdo [
       ilock (Some ip),
       add_nlink ip (- 1),
       iupdate ip,
       iunlockput (Some ip)])
    (end_ret (- 1))"

definition sys_link :: "u64 k" where
  "sys_link =
     kbind (argstr 0 MAXPATH) (\<lambda>(n0, old).
     if n0 < 0 then ret_int (- 1)
     else kbind (argstr 1 MAXPATH) (\<lambda>(n1, new).
     if n1 < 0 then ret_int (- 1)
     else kthen begin_op
    (kbind (namei old) (\<lambda>ipo. case ipo of
       None \<Rightarrow> end_ret (- 1)
     | Some ip \<Rightarrow>
         kthen (ilock (Some ip))
        (kbind (ino ip) (\<lambda>i.
         if i_type i = T_DIR then kthen (iunlockput (Some ip)) (end_ret (- 1))
         else kthen (kdo [
           add_nlink ip 1,
           iupdate ip,
           iunlock (Some ip)])
        (kbind (nameiparent new (\<lambda>_. 0)) (\<lambda>(dpo, nm). case dpo of
           None \<Rightarrow> link_bad ip
         | Some dp \<Rightarrow>
             kthen (ilock (Some dp))
            (kbind (kget (\<lambda>s. (itable (fs s) dp, itable (fs s) ip))) (\<lambda>(d, i).
             kbind (if i_dev d \<noteq> i_dev i then kret (- 1) else dirlink dp nm (i_inum i)) (\<lambda>r.
             if r < 0 then kthen (iunlockput (Some dp)) (link_bad ip)
             else kthen (iunlockput (Some dp))
                 (kthen (iput (Some ip))
                 (end_ret 0)))))))))))) )"

definition isdirempty_at :: "nat \<Rightarrow> nat \<Rightarrow> bool option k" where
  "isdirempty_at dp off =
     kbind (read_dirent ''isdirempty: readi'' dp off) (\<lambda>de.
     kret (if de_inum de \<noteq> 0 then Some False else None))"

definition isdirempty :: "nat \<Rightarrow> bool k" where
  "isdirempty dp =
     kbind (ino dp) (\<lambda>i.
     kbind (kfor (isdirempty_at dp) (drop 2 (dir_offsets (i_size i)))) (\<lambda>r.
     case r of Some b \<Rightarrow> kret b | None \<Rightarrow> kret True))"

definition unlink_bad :: "nat \<Rightarrow> u64 k" where
  "unlink_bad dp = kthen (iunlockput (Some dp)) (end_ret (- 1))"

definition dot_name :: "string \<Rightarrow> nat \<Rightarrow> u8" where
  "dot_name s = str_fun (bytes s)"

definition unlink_entry :: "nat \<Rightarrow> nat \<Rightarrow> nat \<Rightarrow> u64 k" where
  "unlink_entry dp ip off =
     kbind (writei dp (WKern (replicate DIRENT_SIZE 0)) (of_nat off) (of_nat DIRENT_SIZE)) (\<lambda>r.
     kthen (kpanic_if (r \<noteq> int DIRENT_SIZE) ''unlink: writei'')
    (kbind (ino ip) (\<lambda>i.
     kthen (kdo [
       kwhen (i_type i = T_DIR) (kdo [
         add_nlink dp (- 1),
         iupdate dp]),
       iunlockput (Some dp),
       add_nlink ip (- 1),
       iupdate ip,
       iunlockput (Some ip)])
    (end_ret 0))))"

definition sys_unlink :: "u64 k" where
  "sys_unlink =
     kbind (argstr 0 MAXPATH) (\<lambda>(n0, path).
     if n0 < 0 then ret_int (- 1)
     else kthen begin_op
    (kbind (nameiparent path (\<lambda>_. 0)) (\<lambda>(dpo, nm). case dpo of
       None \<Rightarrow> end_ret (- 1)
     | Some dp \<Rightarrow>
         kthen (ilock (Some dp))
        (if namecmp nm (dot_name ''.'') = 0 \<or> namecmp nm (dot_name ''..'') = 0 then unlink_bad dp
         else kbind (dirlookup dp nm) (\<lambda>found. case found of
           None \<Rightarrow> unlink_bad dp
         | Some (ip, off) \<Rightarrow>
             kthen (ilock (Some ip))
            (kbind (ino ip) (\<lambda>i.
             kthen (kpanic_if (i_nlink i < 1) ''unlink: nlink < 1'')
            (kbind (if i_type i = T_DIR then isdirempty ip else kret True) (\<lambda>ok.
             if \<not> ok then kthen (iunlockput (Some ip)) (unlink_bad dp)
             else unlink_entry dp ip off)))))))))"

subsection \<open>Creating and opening\<close>

definition create_fail :: "nat \<Rightarrow> nat \<Rightarrow> nat option k" where
  "create_fail dp ip =
     kthen (kdo [
       upd_inode ip (\<lambda>i. i\<lparr>i_nlink := 0\<rparr>),
       iupdate ip,
       iunlockput (Some ip),
       iunlockput (Some dp)])
    (kret None)"

text \<open>The entries \<^verbatim>\<open>.\<close> and \<^verbatim>\<open>..\<close> of a new directory.\<close>

definition create_dots :: "nat \<Rightarrow> nat \<Rightarrow> bool k" where
  "create_dots dp ip =
     kbind (kget (\<lambda>s. (i_inum (itable (fs s) ip), i_inum (itable (fs s) dp)))) (\<lambda>(inum, dnum).
     kbind (dirlink ip (dot_name ''.'') inum) (\<lambda>r.
     if r < 0 then kret False
     else kbind (dirlink ip (dot_name ''..'') dnum) (\<lambda>r. kret (0 \<le> r))))"

definition create_new :: "nat \<Rightarrow> (nat \<Rightarrow> u8) \<Rightarrow> nat \<Rightarrow> int \<Rightarrow> int \<Rightarrow> int \<Rightarrow> nat option k" where
  "create_new dp nm ip typ major minor =
     kthen (kdo [
       ilock (Some ip),
       upd_inode ip (\<lambda>i. i\<lparr>i_major := major, i_minor := minor, i_nlink := 1\<rparr>),
       iupdate ip])
    (kbind (if typ = T_DIR then create_dots dp ip else kret True) (\<lambda>ok.
     if \<not> ok then create_fail dp ip
     else kbind (ino ip) (\<lambda>i.
     kbind (dirlink dp nm (i_inum i)) (\<lambda>r.
     if r < 0 then create_fail dp ip
     else kthen (kdo [
       kwhen (typ = T_DIR) (kdo [add_nlink dp 1, iupdate dp]),
       iunlockput (Some dp)])
    (kret (Some ip))))))"

definition create :: "u8 list \<Rightarrow> int \<Rightarrow> int \<Rightarrow> int \<Rightarrow> nat option k" where
  "create path typ major minor =
     kbind (nameiparent path (\<lambda>_. 0)) (\<lambda>(dpo, nm). case dpo of
       None \<Rightarrow> kret None
     | Some dp \<Rightarrow>
         kthen (ilock (Some dp))
        (kbind (dirlookup dp nm) (\<lambda>found. case found of
           Some (ip, _) \<Rightarrow>
             kthen (iunlockput (Some dp))
            (kthen (ilock (Some ip))
            (kbind (ino ip) (\<lambda>i.
             if typ = T_FILE \<and> (i_type i = T_FILE \<or> i_type i = T_DEVICE) then kret (Some ip)
             else kthen (iunlockput (Some ip)) (kret None))))
         | None \<Rightarrow>
             kbind (ino dp) (\<lambda>d.
             kbind (ialloc (i_dev d) typ) (\<lambda>ipo. case ipo of
               None \<Rightarrow> kthen (iunlockput (Some dp)) (kret None)
             | Some ip \<Rightarrow> create_new dp nm ip typ major minor)))))"

abbreviation (input) O_RDONLY :: int where "O_RDONLY \<equiv> 0"
abbreviation (input) O_WRONLY :: int where "O_WRONLY \<equiv> 1"
abbreviation (input) O_RDWR :: int where "O_RDWR \<equiv> 2"
abbreviation (input) O_CREATE :: int where "O_CREATE \<equiv> 0x200"
abbreviation (input) O_TRUNC :: int where "O_TRUNC \<equiv> 0x400"

definition omode_readable :: "int \<Rightarrow> bool" where
  "omode_readable omode \<longleftrightarrow> omode AND O_WRONLY = 0"

definition omode_writable :: "int \<Rightarrow> bool" where
  "omode_writable omode \<longleftrightarrow> omode AND O_WRONLY \<noteq> 0 \<or> omode AND O_RDWR \<noteq> 0"

text \<open>The inode that \<open>sys_open\<close> opens, locked; \<open>None\<close> where the source ends the call with \<open>- 1\<close>.\<close>

definition open_inode :: "u8 list \<Rightarrow> int \<Rightarrow> nat option k" where
  "open_inode path omode =
    (if omode AND O_CREATE \<noteq> 0 then create path T_FILE 0 0
     else kbind (namei path) (\<lambda>ipo. case ipo of
       None \<Rightarrow> kret None
     | Some ip \<Rightarrow>
         kthen (ilock (Some ip))
        (kbind (ino ip) (\<lambda>i.
         if i_type i = T_DIR \<and> omode \<noteq> O_RDONLY then kthen (iunlockput (Some ip)) (kret None)
         else kret (Some ip)))))"

definition open_bad :: "nat option \<Rightarrow> nat \<Rightarrow> u64 k" where
  "open_bad f ip =
     kthen (case f of None \<Rightarrow> kret () | Some f \<Rightarrow> fileclose f)
    (kthen (iunlockput (Some ip)) (end_ret (- 1)))"

definition open_file :: "nat \<Rightarrow> int \<Rightarrow> kfile \<Rightarrow> inode \<Rightarrow> kfile" where
  "open_file ip omode fl i =
     (if i_type i = T_DEVICE then fl\<lparr>f_type := FD_DEVICE, f_major := i_major i\<rparr>
      else fl\<lparr>f_type := FD_INODE, f_off := 0\<rparr>)
     \<lparr>f_ip := Some ip, f_readable := omode_readable omode, f_writable := omode_writable omode\<rparr>"

definition sys_open :: "u64 k" where
  "sys_open =
     kbind (argint 1) (\<lambda>omode.
     kbind (argstr 0 MAXPATH) (\<lambda>(n, path).
     if n < 0 then ret_int (- 1)
     else kthen begin_op
    (kbind (open_inode path omode) (\<lambda>ipo. case ipo of
       None \<Rightarrow> end_ret (- 1)
     | Some ip \<Rightarrow>
         kbind (ino ip) (\<lambda>i.
         if i_type i = T_DEVICE \<and> (i_major i < 0 \<or> int NDEV \<le> i_major i) then open_bad None ip
         else kbind filealloc (\<lambda>fo. case fo of
           None \<Rightarrow> open_bad None ip
         | Some f \<Rightarrow>
             kbind (fdalloc f) (\<lambda>fd.
             if fd < 0 then open_bad (Some f) ip
             else kthen (kdo [
               upd_file f (\<lambda>fl. open_file ip omode fl i),
               kwhen (omode AND O_TRUNC \<noteq> 0 \<and> i_type i = T_FILE) (itrunc ip),
               iunlock (Some ip)])
            (end_ret fd))))))))"

subsection \<open>Directories\<close>

text \<open>The end of \<open>sys_mkdir\<close> and \<open>sys_mknod\<close>.\<close>

definition created_end :: "nat option \<Rightarrow> u64 k" where
  "created_end ipo = (case ipo of
       None \<Rightarrow> end_ret (- 1)
     | Some ip \<Rightarrow> kthen (iunlockput (Some ip)) (end_ret 0))"

definition sys_mkdir :: "u64 k" where
  "sys_mkdir =
     kthen begin_op
    (kbind (argstr 0 MAXPATH) (\<lambda>(n, path).
     if n < 0 then end_ret (- 1) else kbind (create path T_DIR 0 0) created_end))"

definition sys_mknod :: "u64 k" where
  "sys_mknod =
     kthen begin_op
    (kbind (argint 1) (\<lambda>major.
     kbind (argint 2) (\<lambda>minor.
     kbind (argstr 0 MAXPATH) (\<lambda>(n, path).
     if n < 0 then end_ret (- 1)
     else kbind (create path T_DEVICE (to_short major) (to_short minor)) created_end))))"

definition sys_chdir :: "u64 k" where
  "sys_chdir =
     kbind curproc (\<lambda>p.
     kthen begin_op
    (kbind (argstr 0 MAXPATH) (\<lambda>(n, path).
     if n < 0 then end_ret (- 1)
     else kbind (namei path) (\<lambda>ipo. case ipo of
       None \<Rightarrow> end_ret (- 1)
     | Some ip \<Rightarrow>
         kthen (ilock (Some ip))
        (kbind (ino ip) (\<lambda>i.
         if i_type i \<noteq> T_DIR then kthen (iunlockput (Some ip)) (end_ret (- 1))
         else kthen (iunlock (Some ip))
             (kbind (pget p p_cwd) (\<lambda>cwd.
              kthen (kdo [
                iput cwd,
                end_op,
                pset p (\<lambda>pr. pr\<lparr>p_cwd := Some ip\<rparr>)])
             (ret_int 0)))))))))"

subsection \<open>Exec and pipe\<close>

text \<open>
  The argument strings, each fetched into a page of its own. The result has the pages and the
  strings read so far, and whether the terminating null pointer was reached.
\<close>

function exec_fetch :: "u64 \<Rightarrow> nat \<Rightarrow> u64 list \<Rightarrow> u8 list list \<Rightarrow> (bool \<times> u64 list \<times> u8 list list) k" where
  "exec_fetch uargv i pages args =
    (if MAXARG \<le> i then kret (False, pages, args)
     else kbind (fetchaddr (uargv + 8 * of_nat i)) (\<lambda>(r, uarg).
     if r < 0 then kret (False, pages, args)
     else if uarg = 0 then kret (True, pages, args)
     else kbind kalloc (\<lambda>pg.
     if pg = 0 then kret (False, pages, args)
     else kbind (fetchstr uarg 4096) (\<lambda>(r, bs).
     kthen (kmodify (\<lambda>s. s\<lparr>mem := mem_write (mem s) pg (if r < 0 then bs else bs @ [0])\<rparr>))
    (if r < 0 then kret (False, pages @ [pg], args)
     else exec_fetch uargv (Suc i) (pages @ [pg]) (args @ [bs]))))))"
  by pat_completeness auto

termination
  by (relation "measure (\<lambda>(u, i, pages, args). MAXARG - i)") auto

declare exec_fetch.simps [simp del]

definition kfree_all :: "u64 list \<Rightarrow> unit k" where
  "kfree_all pages = kdo (map kfree pages)"

definition sys_exec :: "u64 k" where
  "sys_exec =
     kbind (argaddr 1) (\<lambda>uargv.
     kbind (argstr 0 MAXPATH) (\<lambda>(n, path).
     if n < 0 then ret_int (- 1)
     else kbind (exec_fetch uargv 0 [] []) (\<lambda>(ok, pages, args).
     if \<not> ok then kthen (kfree_all pages) (ret_int (- 1))
     else kbind (kexec path args) (\<lambda>r. kthen (kfree_all pages) (ret_int r)))))"

definition pipe_fail :: "nat \<Rightarrow> nat \<Rightarrow> u64 k" where
  "pipe_fail rf wrf = kthen (fileclose rf) (kthen (fileclose wrf) (ret_int (- 1)))"

definition sys_pipe :: "u64 k" where
  "sys_pipe =
     kbind curproc (\<lambda>p.
     kbind (argaddr 0) (\<lambda>fdarray.
     kbind pipealloc (\<lambda>po. case po of
       None \<Rightarrow> ret_int (- 1)
     | Some (rf, wrf) \<Rightarrow>
         kbind (fdalloc rf) (\<lambda>fd0.
         if fd0 < 0 then pipe_fail rf wrf
         else kbind (fdalloc wrf) (\<lambda>fd1.
         if fd1 < 0 then kthen (set_ofile (nat fd0) None) (pipe_fail rf wrf)
         else kbind (pget p p_pagetable) (\<lambda>pt.
         kbind (copyout pt fdarray (le32 (word_of_int fd0))) (\<lambda>r0.
         kbind (if r0 < 0 then kret r0 else copyout pt (fdarray + 4) (le32 (word_of_int fd1))) (\<lambda>r1.
         if r0 < 0 \<or> r1 < 0
         then kthen (set_ofile (nat fd0) None)
             (kthen (set_ofile (nat fd1) None) (pipe_fail rf wrf))
         else ret_int 0))))))))"

end
