(* ===== verification/Syscall.thy ===== *)
theory Syscall
  imports Sysfile
begin

text \<open>
  The system calls on processes (\<^verbatim>\<open>kernel/sysproc.c\<close>) and the dispatch of a system call by its
  number (\<^verbatim>\<open>kernel/syscall.c\<close>).
\<close>

subsection \<open>Processes (sysproc.c)\<close>

definition sys_exit :: "u64 k" where
  "sys_exit = kbind (argint 0) (\<lambda>n. kthen (kexit n) (kret 0))"

definition sys_getpid :: "u64 k" where
  "sys_getpid = kbind curproc (\<lambda>p. kbind (pget p p_pid) (\<lambda>pid. ret_int pid))"

definition sys_fork :: "u64 k" where
  "sys_fork = kbind kfork (\<lambda>r. ret_int r)"

definition sys_wait :: "u64 k" where
  "sys_wait = kbind (argaddr 0) (\<lambda>p. kbind (kwait p) (\<lambda>r. ret_int r))"

abbreviation (input) SBRK_EAGER :: int where "SBRK_EAGER \<equiv> 1"

definition sys_sbrk :: "u64 k" where
  "sys_sbrk =
     kbind (argint 0) (\<lambda>n.
     kbind (argint 1) (\<lambda>t.
     kbind curproc (\<lambda>p.
     kbind (pget p p_sz) (\<lambda>addr.
     if t = SBRK_EAGER \<or> n < 0
     then kbind (growproc n) (\<lambda>r. if r < 0 then ret_int (- 1) else kret addr)
     else if addr + word_of_int n < addr then ret_int (- 1)
     else if addr + word_of_int n > TRAPFRAME then ret_int (- 1)
     else kthen (pset p (\<lambda>pr. pr\<lparr>p_sz := p_sz pr + word_of_int n\<rparr>)) (kret addr)))))"

text \<open>
  The loop of \<open>sys_pause\<close>, entered with \<open>TicksLock\<close> held; \<open>env\<close> runs while the process sleeps,
  \<open>fuel\<close> bounds the number of rounds.
\<close>

fun pause_loop :: "unit k \<Rightarrow> nat \<Rightarrow> u32 \<Rightarrow> int \<Rightarrow> u64 k" where
  "pause_loop env 0 ticks0 n = (\<lambda>s. Diverge)"
| "pause_loop env (Suc fuel) ticks0 n =
     kbind (kget ticks) (\<lambda>now.
     if now - ticks0 < word_of_int n
     then kbind curproc (\<lambda>p. kbind (killed p) (\<lambda>k.
          if k \<noteq> 0 then kthen (release TicksLock) (ret_int (- 1))
          else kthen (sleep_with env ChanTicks TicksLock) (pause_loop env fuel ticks0 n)))
     else kthen (release TicksLock) (ret_int 0))"

definition sys_pause_with :: "unit k \<Rightarrow> nat \<Rightarrow> u64 k" where
  "sys_pause_with env fuel =
     kbind (argint 0) (\<lambda>n.
     kthen (acquire TicksLock)
    (kbind (kget ticks) (\<lambda>ticks0. pause_loop env fuel ticks0 (if n < 0 then 0 else n))))"

definition sys_pause :: "u64 k" where
  "sys_pause = sys_pause_with Blocked 1"

definition sys_kill :: "u64 k" where
  "sys_kill = kbind (argint 0) (\<lambda>pid. kbind (kkill pid) (\<lambda>r. ret_int r))"

definition sys_uptime :: "u64 k" where
  "sys_uptime =
     kthen (acquire TicksLock)
    (kbind (kget ticks) (\<lambda>xticks.
     kthen (release TicksLock) (kret (ucast xticks))))"

definition sys_memstats :: "u64 k" where
  "sys_memstats =
     kbind (argaddr 0) (\<lambda>addr.
     kbind memstats_get (\<lambda>st.
     kbind curproc (\<lambda>p.
     kbind (pget p p_pagetable) (\<lambda>pt.
     kbind (copyout pt addr (concat (map le64 st))) (\<lambda>r.
     if r < 0 then ret_int (- 1) else ret_int 0)))))"

subsection \<open>Dispatch (syscall.c)\<close>

text \<open>The table of the handlers; the entry 0 is null.\<close>

definition syscalls :: "u64 k option list" where
  "syscalls = None # map Some
     [sys_fork, sys_exit, sys_wait, sys_pipe, sys_read, sys_kill, sys_exec, sys_fstat, sys_chdir,
      sys_dup, sys_getpid, sys_sbrk, sys_pause, sys_uptime, sys_open, sys_write, sys_mknod,
      sys_unlink, sys_link, sys_mkdir, sys_close, sys_memstats]"

definition handler :: "int \<Rightarrow> u64 k option" where
  "handler num = (if 0 < num \<and> num < int (length syscalls) then syscalls ! nat num else None)"

definition syscall :: "unit k" where
  "syscall =
     kbind curproc (\<lambda>p.
     kbind (tf_get p TF_a7) (\<lambda>a7.
     let num = sint (ucast a7 :: u32) in
     case handler num of
       Some h \<Rightarrow> kbind h (\<lambda>r. tf_set p TF_a0 r)
     | None \<Rightarrow>
         kbind (pget p (\<lambda>pr. (p_pid pr, p_name pr))) (\<lambda>(pid, nm). case proc_name nm of
           None \<Rightarrow> kfault ''syscall: name''
         | Some nm \<Rightarrow>
             kthen (printf (''%d %s: unknown sys call %d'' @ [CHR 0x0A])
               [PNum (word_of_int pid), PStr (Some nm), PNum (word_of_int num)])
            (tf_set p TF_a0 (- 1)))))"

end
