(* ===== verification/Trap.thy ===== *)
theory Trap
  imports Syscall Vmdata
begin

text \<open>
  Traps and interrupts (\<^verbatim>\<open>kernel/trap.c\<close>) and the first return of a process to user space
  (\<^verbatim>\<open>forkret\<close> of \<^verbatim>\<open>kernel/proc.c\<close>). The interrupt controller and the UART are devices: \<open>irq\<close> is
  the interrupt the PLIC reports when it is asked for one, \<open>idle\<close> the UART's transmitter-idle bit.
  The page-fault arms of \<open>usertrap\<close> are definitions of their own.
\<close>

subsection \<open>Registers\<close>

definition set_cpu :: "(cpu \<Rightarrow> cpu) \<Rightarrow> unit k" where
  "set_cpu f = kmodify (\<lambda>s. s\<lparr>cpu := f (cpu s)\<rparr>)"

definition trapinit :: "unit k" where
  "trapinit = initlock TicksLock"

definition trapinithart :: "unit k" where
  "trapinithart = kmodify (\<lambda>s. s\<lparr>cpu := (cpu s)\<lparr>c_stvec := sym_kernelvec (syms s)\<rparr>\<rparr>)"

subsection \<open>Device interrupts\<close>

text \<open>The clock comparator, which asks for the next interrupt, is not part of the state.\<close>

definition clockintr :: "unit k" where
  "clockintr =
     kbind (kget (\<lambda>s. c_id (cpu s))) (\<lambda>c.
     kwhen (c = 0) (kdo [
       acquire TicksLock,
       kmodify (\<lambda>s. s\<lparr>ticks := ticks s + 1\<rparr>),
       wakeup ChanTicks,
       release TicksLock]))"

abbreviation (input) UART0_IRQ :: int where "UART0_IRQ \<equiv> 10"
abbreviation (input) VIRTIO0_IRQ :: int where "VIRTIO0_IRQ \<equiv> 1"

definition devintr :: "int \<Rightarrow> bool \<Rightarrow> int k" where
  "devintr irq idle =
     kbind (kget (\<lambda>s. c_scause (cpu s))) (\<lambda>scause.
     if scause = 0x8000000000000009
     then kthen (if irq = UART0_IRQ then uartintr idle
                 else if irq = VIRTIO0_IRQ then virtio_disk_intr
                 else kwhen (irq \<noteq> 0)
                   (printf (''unexpected interrupt irq=%d'' @ [CHR 0x0A]) [PNum (word_of_int irq)]))
         (kret 1)
     else if scause = 0x8000000000000005 then kthen clockintr (kret 2)
     else kret 0)"

subsection \<open>Page faults from user space\<close>

text \<open>The entry for the faulting address, \<open>None\<close> where \<open>walk\<close> finds none.\<close>

definition fault_pte :: "u64 \<Rightarrow> u64 \<Rightarrow> u64 option k" where
  "fault_pte pagetable va =
     kbind (walk pagetable va False) (\<lambda>pte.
     if pte = 0 then kret None else kbind (rd64 pte) (\<lambda>e. kret (Some e)))"

definition fault_swapin :: "nat \<Rightarrow> u64 \<Rightarrow> u64 \<Rightarrow> unit k" where
  "fault_swapin p pagetable va =
     kthen memstats_inc_swap_in
    (kbind (swapin pagetable va) (\<lambda>r. kwhen (r = 0) (setkilled p)))"

text \<open>
  The arm for lazy allocation. \<open>vmfault\<close> returns the address of the new page and 0 on failure, but
  the source tests for \<^verbatim>\<open>!= 0\<close> and kills the process then.
\<close>

definition fault_lazy :: "nat \<Rightarrow> u64 \<Rightarrow> u64 \<Rightarrow> bool \<Rightarrow> unit k" where
  "fault_lazy p pagetable va rd =
     kbind (vmfault pagetable va rd) (\<lambda>r.
     if r \<noteq> 0 then kthen memstats_inc_lazy_alloc (setkilled p)
     else memstats_inc_lazy_alloc)"

definition store_fault :: "nat \<Rightarrow> unit k" where
  "store_fault p =
     kbind (kget (\<lambda>s. (c_stval (cpu s), p_pagetable (procs s p)))) (\<lambda>(va, pt).
     kbind (fault_pte pt va) (\<lambda>e.
     kthen (case e of
         Some e \<Rightarrow>
           if has_flag e PTE_SWAPPED then fault_swapin p pt va
           else if has_flag e PTE_V \<and> has_flag e PTE_COW
           then kthen memstats_inc_cow_fault
               (kbind (cowfault pt va) (\<lambda>r. kwhen (r \<noteq> 0) (setkilled p)))
           else fault_lazy p pt va False
       | None \<Rightarrow> fault_lazy p pt va False)
    (memstats_inc_page_fault False)))"

definition load_fault :: "nat \<Rightarrow> unit k" where
  "load_fault p =
     kbind (kget (\<lambda>s. (c_stval (cpu s), p_pagetable (procs s p)))) (\<lambda>(va, pt).
     kbind (fault_pte pt va) (\<lambda>e.
     kthen (case e of
         Some e \<Rightarrow> if has_flag e PTE_SWAPPED then fault_swapin p pt va else fault_lazy p pt va True
       | None \<Rightarrow> fault_lazy p pt va True)
    (memstats_inc_page_fault True)))"

definition unexpected_trap :: "nat \<Rightarrow> unit k" where
  "unexpected_trap p =
     kbind (kget (\<lambda>s. (cpu s, p_pid (procs s p)))) (\<lambda>(c, pid). kdo [
       printf (''usertrap(): unexpected scause 0x%lx pid=%d'' @ [CHR 0x0A])
         [PNum (c_scause c), PNum (word_of_int pid)],
       printf (''            sepc=0x%lx stval=0x%lx'' @ [CHR 0x0A]) [PNum (c_sepc c), PNum (c_stval c)],
       setkilled p])"

subsection \<open>Traps\<close>

definition prepare_return :: "unit k" where
  "prepare_return =
     kbind curproc (\<lambda>p.
     kthen intr_off
    (kthen (kmodify (\<lambda>s. s\<lparr>cpu := (cpu s)
       \<lparr>c_stvec := TRAMPOLINE + (sym_uservec (syms s) - sym_trampoline (syms s))\<rparr>\<rparr>))
    (kbind (kget (\<lambda>s. (c_satp (cpu s), p_kstack (procs s p), sym_usertrap (syms s), c_id (cpu s))))
      (\<lambda>(satp, kstack, utrap, hart).
     kthen (kdo [
       tf_set p TF_kernel_satp satp,
       tf_set p TF_kernel_sp (kstack + PGSIZE),
       tf_set p TF_kernel_trap utrap,
       tf_set p TF_kernel_hartid (of_nat hart),
       set_cpu (\<lambda>c. c\<lparr>c_spp := False, c_spie := True\<rparr>)])
    (kbind (tf_get p TF_epc) (\<lambda>epc. set_cpu (\<lambda>c. c\<lparr>c_sepc := epc\<rparr>)))))))"

text \<open>The arms of \<open>usertrap\<close>; the result is \<^verbatim>\<open>which_dev\<close>.\<close>

definition usertrap_cause :: "int \<Rightarrow> bool \<Rightarrow> nat \<Rightarrow> int k" where
  "usertrap_cause irq idle p =
     kbind (kget (\<lambda>s. c_scause (cpu s))) (\<lambda>scause.
     if scause = 8
     then kbind (killed p) (\<lambda>k.
          kthen (kwhen (k \<noteq> 0) (kexit (- 1)))
         (kbind (tf_get p TF_epc) (\<lambda>epc.
          kthen (kdo [tf_set p TF_epc (epc + 4), intr_on, syscall]) (kret 0))))
     else kbind (devintr irq idle) (\<lambda>which_dev.
          if which_dev \<noteq> 0 then kret which_dev
          else kthen (if scause = 15 then store_fault p
                      else if scause = 13 then load_fault p
                      else unexpected_trap p)
              (kret 0)))"

definition usertrap :: "unit k \<Rightarrow> int \<Rightarrow> bool \<Rightarrow> u64 k" where
  "usertrap env irq idle =
     kbind (kget (\<lambda>s. c_spp (cpu s))) (\<lambda>spp.
     kthen (kpanic_if spp ''usertrap: not from user mode'')
    (kthen trapinithart
    (kbind curproc (\<lambda>p.
     kbind (kget (\<lambda>s. c_sepc (cpu s))) (\<lambda>sepc.
     kthen (tf_set p TF_epc sepc)
    (kbind (usertrap_cause irq idle p) (\<lambda>which_dev.
     kbind (killed p) (\<lambda>k.
     kthen (kdo [
       kwhen (k \<noteq> 0) (kexit (- 1)),
       kwhen (which_dev = 2) (yield env),
       prepare_return])
    (kbind (pget p p_pagetable) (\<lambda>pt. kret (MAKE_SATP pt)))))))))))"

definition kerneltrap :: "unit k \<Rightarrow> int \<Rightarrow> bool \<Rightarrow> unit k" where
  "kerneltrap env irq idle =
     kbind (kget cpu) (\<lambda>c.
     kthen (kpanic_if (\<not> c_spp c) ''kerneltrap: not from supervisor mode'')
    (kbind intr_get (\<lambda>on.
     kthen (kpanic_if on ''kerneltrap: interrupts enabled'')
    (kbind (devintr irq idle) (\<lambda>which_dev.
     kthen (kwhen (which_dev = 0) (kbind (kget cpu) (\<lambda>c'.
       kthen (printf (''scause=0x%lx sepc=0x%lx stval=0x%lx'' @ [CHR 0x0A])
               [PNum (c_scause c), PNum (c_sepc c'), PNum (c_stval c')])
             (kpanic ''kerneltrap''))))
    (kbind myproc (\<lambda>p.
     kthen (kwhen (which_dev = 2 \<and> p \<noteq> None) (yield env))
    (set_cpu (\<lambda>c'. c'\<lparr>c_sepc := c_sepc c, c_intr := c_intr c, c_spp := c_spp c,
       c_spie := c_spie c\<rparr>)))))))))"

subsection \<open>The first return to user space\<close>

text \<open>
  \<open>first\<close> is the value of the static variable of that name; it is false from the first call on.
  The result is the \<^verbatim>\<open>satp\<close> that is passed to \<^verbatim>\<open>userret\<close>.
\<close>

definition forkret_first :: "nat \<Rightarrow> unit k" where
  "forkret_first p =
     kthen (fsinit ROOTDEV)
    (kthen swapinit
    (kbind (kexec (bytes ''/init'') [bytes ''/init'']) (\<lambda>r.
     kthen (tf_set p TF_a0 (word_of_int r))
    (kbind (tf_get p TF_a0) (\<lambda>a0. kpanic_if (a0 = - 1) ''exec'')))))"

definition forkret :: "bool \<Rightarrow> u64 k" where
  "forkret first =
     kbind curproc (\<lambda>p.
     kthen (kdo [
       release (ProcLock p),
       kwhen first (forkret_first p),
       prepare_return])
    (kbind (pget p p_pagetable) (\<lambda>pt. kret (MAKE_SATP pt))))"

subsection \<open>What a page fault does to the process\<close>

lemma fault_pte_unmapped:
  assumes "as_ok s pt" "va < MAXVA"
  obtains e where "fault_pte pt va s = Ok e s" "case e of None \<Rightarrow> True | Some e \<Rightarrow> upte s pt va = e"
  using assms pte_at_slot [of "mem s" 2 pt va] that
  by (cases "ptslot (mem s) va 2 pt = 0") (auto simp: fault_pte_def walk_lookup kmonad as_ok_def)

lemma fault_lazy_apply:
  assumes "vmfault pt va rd s = Ok r s1" "locks s1 MemstatsLock = free_lock" "locks s1 (ProcLock p) = free_lock"
  obtains s' where "fault_lazy p pt va rd s = Ok () s'" "mem s' = mem s1" "locks s' = locks s1"
    "procs s' = (if r \<noteq> 0 then (procs s1)(p := (procs s1 p)\<lparr>p_killed := 1\<rparr>) else procs s1)"
  using assms that
  by (cases "r = 0") (auto simp: fault_lazy_def kmonad memstats_ops with_stats_apply setkilled_apply upd_proc_def)

lemma page_fault_apply:
  assumes "locks s MemstatsLock = free_lock"
  obtains s' where "memstats_inc_page_fault b s = Ok () s'" "mem s' = mem s" "procs s' = procs s"
  using assms that by (cases b) (auto simp: memstats_ops with_stats_apply)

text \<open>A load from an address whose page is neither mapped nor swapped out.\<close>

lemma load_fault_lazy:
  assumes "c_stval (cpu s) = va" "p_pagetable (procs s p) = pt" "as_ok s pt" "va < MAXVA"
    and "\<not> has_flag (upte s pt va) PTE_SWAPPED" "vmfault pt va True s = Ok r s1"
    and "locks s1 MemstatsLock = free_lock" "locks s1 (ProcLock p) = free_lock"
  obtains s' where "load_fault p s = Ok () s'" "mem s' = mem s1"
    "procs s' = (if r \<noteq> 0 then (procs s1)(p := (procs s1 p)\<lparr>p_killed := 1\<rparr>) else procs s1)"
proof -
  obtain e where e: "fault_pte pt va s = Ok e s" "case e of None \<Rightarrow> True | Some e \<Rightarrow> upte s pt va = e"
    using assms(3,4) by (rule fault_pte_unmapped)
  obtain s2 where s2: "fault_lazy p pt va True s = Ok () s2" "mem s2 = mem s1" "locks s2 = locks s1"
    "procs s2 = (if r \<noteq> 0 then (procs s1)(p := (procs s1 p)\<lparr>p_killed := 1\<rparr>) else procs s1)"
    by (rule fault_lazy_apply [OF assms(6-8)])
  obtain s3 where s3: "memstats_inc_page_fault True s2 = Ok () s3" "mem s3 = mem s2" "procs s3 = procs s2"
    using page_fault_apply [of s2 True] s2(3) assms(7) by auto
  have "load_fault p s = Ok () s3"
    using assms(1,2,5) e s2(1) s3(1) by (cases e) (simp_all add: load_fault_def kmonad)
  with s2 s3 show thesis by (intro that [of s3]) simp_all
qed

text \<open>
  C37. A load fault on a page to be allocated lazily kills the process exactly when the allocation
  succeeds. Below the size of the process, with pages left, the fault handler maps a fresh page
  and marks the process killed, so that it exits instead of using the page; beyond the size
  of the process it maps nothing and leaves the process running, to fault on the same address
  again.
\<close>

theorem lazy_fault_inverted:
  assumes "c_proc (cpu s) = Some p" "p_pagetable (procs s p) = pt" "available s (pg # F)" "as_ok s pt"
    and "2 \<le> length F" "c_stval (cpu s) = va" "va < MAXVA" "locks s (ProcLock p) = free_lock"
    and "upte s pt va = 0"
  shows "\<exists>s'. load_fault p s = Ok () s' \<and>
    (if va < p_sz (procs s p)
     then p_killed (procs s' p) = 1 \<and> has_flag (upte s' pt va) PTE_V
     else p_killed (procs s' p) = p_killed (procs s p) \<and> upte s' pt va = 0)"
proof -
  have unl: "locks s MemstatsLock = free_lock" using assms(3) by (simp add: available_def kmem_unlocked_def)
  show ?thesis
  proof (cases "va < p_sz (procs s p)")
    case True
    obtain s1 where v: "vmfault pt va True s = Ok pg s1" "frame_mm s s1"
      "\<forall>a < MAXVA. upte s1 pt a = (if PGROUNDDOWN a = PGROUNDDOWN va
         then PA2PTE pg OR (PTE_W OR PTE_U OR PTE_R) OR PTE_V else upte s pt a)"
      by (rule vmfault_maps [OF assms(1-5) True assms(7)]) (use assms(9) in simp_all)
    have "pg \<noteq> 0" using kmem.avail_pages [OF assms(3)] by (auto simp: page_ok_def)
    moreover obtain s' where "load_fault p s = Ok () s'" "mem s' = mem s1"
      "procs s' = (if pg \<noteq> 0 then (procs s1)(p := (procs s1 p)\<lparr>p_killed := 1\<rparr>) else procs s1)"
      by (rule load_fault_lazy [OF assms(6,2,4,7) _ v(1)])
        (use assms(8,9) unl frame_mm_same(2) [OF v(2)] in simp_all)
    moreover have "has_flag (PA2PTE pg OR (PTE_W OR PTE_U OR PTE_R) OR PTE_V) PTE_V"
      by (simp add: bit.conj_disj_distrib2 or_eq_0_iff)
    ultimately show ?thesis using True v(3) assms(7) by auto
  next
    case False
    then have v: "vmfault pt va True s = Ok 0 (s\<lparr>cpu := settle (cpu s)\<rparr>)"
      by (intro vmfault_none [OF assms(1)]) (simp add: not_less)
    obtain s' where "load_fault p s = Ok () s'" "mem s' = mem s" "procs s' = procs s"
      by (rule load_fault_lazy [OF assms(6,2,4,7) _ v]) (use assms(8,9) unl in simp_all)
    with False assms(9) show ?thesis by simp
  qed
qed

theorem lazy_fault_inverted_witness:
  "\<exists>s'. load_fault 0 (demo_mm\<lparr>cpu := (cpu demo_mm)\<lparr>c_proc := Some 0, c_stval := 0x123\<rparr>,
        procs := (procs demo_mm)(0 := (procs demo_mm 0)\<lparr>p_pagetable := 0x80101000, p_sz := 0x2000\<rparr>)\<rparr>)
      = Ok () s' \<and> p_killed (procs s' 0) = 1"
proof -
  let ?s = "demo_mm\<lparr>cpu := (cpu demo_mm)\<lparr>c_proc := Some 0, c_stval := 0x123\<rparr>,
        procs := (procs demo_mm)(0 := (procs demo_mm 0)\<lparr>p_pagetable := 0x80101000, p_sz := 0x2000\<rparr>)\<rparr>"
  have av: "available ?s (0x80103000 # tl demo_free)"
    using demo_mm_available by (simp add: available_def kmem_inv_def kmem_unlocked_def page_ok_def demo_free_def)
  have as: "as_ok ?s 0x80101000"
    using demo_fork_ok by (simp add: fork_ok_def as_ok_def page_ok_def)
  have "upte demo_mm 0x80101000 0x123 = 0" by (rule demo_empty) (simp_all add: demo_free_def)
  then have u: "upte ?s 0x80101000 0x123 = 0" by simp
  have len: "2 \<le> length (tl demo_free)" by (simp add: demo_free_def)
  have c: "c_proc (cpu ?s) = Some 0" "p_pagetable (procs ?s 0) = 0x80101000" "c_stval (cpu ?s) = 0x123"
    "(0x123 :: u64) < MAXVA" "locks ?s (ProcLock 0) = free_lock" "0x123 < p_sz (procs ?s 0)"
    by (simp_all add: demo_mm_def demo_simps)
  from lazy_fault_inverted [OF c(1,2) av as len c(3-5) u, unfolded if_P [OF c(6)]] show ?thesis by blast
qed

end
