(* ===== verification/Boot.thy ===== *)
theory Boot
  imports Trap
begin

text \<open>
  From machine mode to the first process: \<open>start\<close> and \<open>timerinit\<close> (\<^verbatim>\<open>kernel/start.c\<close>) on the
  machine-mode registers, the interrupt controller (\<^verbatim>\<open>kernel/plic.c\<close>) as the device registers it
  writes, \<open>virtio_disk_init\<close> (\<^verbatim>\<open>kernel/virtio_disk.c\<close>) and \<open>main\<close> (\<^verbatim>\<open>kernel/main.c\<close>).
\<close>

subsection \<open>Machine mode (start.c)\<close>

record mregs =
  m_status :: u64
  m_epc :: u64
  m_satp :: u64
  m_edeleg :: u64
  m_ideleg :: u64
  m_sie :: u64
  m_pmpaddr0 :: u64
  m_pmpcfg0 :: u64
  m_ie :: u64
  m_envcfg :: u64
  m_counteren :: u64
  m_stimecmp :: u64
  m_time :: u64
  m_hartid :: u64
  m_tp :: u64

abbreviation (input) MSTATUS_MPP_MASK :: u64 where "MSTATUS_MPP_MASK \<equiv> push_bit 11 3"
abbreviation (input) MSTATUS_MPP_S :: u64 where "MSTATUS_MPP_S \<equiv> push_bit 11 1"
abbreviation (input) SIE_SEIE :: u64 where "SIE_SEIE \<equiv> push_bit 9 1"
abbreviation (input) SIE_STIE :: u64 where "SIE_STIE \<equiv> push_bit 5 1"
abbreviation (input) MIE_STIE :: u64 where "MIE_STIE \<equiv> push_bit 5 1"

definition timerinit :: "mregs \<Rightarrow> mregs" where
  "timerinit r = r\<lparr>
     m_ie := m_ie r OR MIE_STIE,
     m_envcfg := m_envcfg r OR push_bit 63 1,
     m_counteren := m_counteren r OR 2,
     m_stimecmp := m_time r + 1000000\<rparr>"

text \<open>The registers at the \<^verbatim>\<open>mret\<close>; \<open>main_addr\<close> is the address of \<open>main\<close>.\<close>

definition start :: "u64 \<Rightarrow> mregs \<Rightarrow> mregs" where
  "start main_addr r =
    (let r = r\<lparr>m_status := (m_status r AND NOT MSTATUS_MPP_MASK) OR MSTATUS_MPP_S,
               m_epc := main_addr,
               m_satp := 0,
               m_edeleg := 0xffff,
               m_ideleg := 0xffff,
               m_sie := m_sie r OR SIE_SEIE OR SIE_STIE,
               m_pmpaddr0 := 0x3fffffffffffff,
               m_pmpcfg0 := 0xf\<rparr>;
         r = timerinit r
     in r\<lparr>m_tp := scast (ucast (m_hartid r) :: u32)\<rparr>)"

subsection \<open>Interrupt controller (plic.c)\<close>

text \<open>A write to a device register: its address and the word written.\<close>

type_synonym reg_write = "u64 \<times> u32"

definition PLIC_SENABLE :: "nat \<Rightarrow> u64" where
  "PLIC_SENABLE hart = PLIC + 0x2080 + of_nat hart * 0x100"

definition PLIC_SPRIORITY :: "nat \<Rightarrow> u64" where
  "PLIC_SPRIORITY hart = PLIC + 0x201000 + of_nat hart * 0x2000"

definition PLIC_SCLAIM :: "nat \<Rightarrow> u64" where
  "PLIC_SCLAIM hart = PLIC + 0x201004 + of_nat hart * 0x2000"

definition plicinit :: "reg_write list" where
  "plicinit = [(PLIC + word_of_int UART0_IRQ * 4, 1), (PLIC + word_of_int VIRTIO0_IRQ * 4, 1)]"

definition plicinithart :: "nat \<Rightarrow> reg_write list" where
  "plicinithart hart =
     [(PLIC_SENABLE hart, push_bit (nat UART0_IRQ) 1 OR push_bit (nat VIRTIO0_IRQ) 1),
      (PLIC_SPRIORITY hart, 0)]"

definition plic_complete :: "nat \<Rightarrow> int \<Rightarrow> reg_write list" where
  "plic_complete hart irq = [(PLIC_SCLAIM hart, word_of_int irq)]"

subsection \<open>The disk (virtio\_disk.c)\<close>

text \<open>
  \<open>regs\<close> is what the device answers when the register at an offset is read: the device is not part
  of the sources. The result is the list of the writes to its registers.
\<close>

definition virtio_features :: "u64 \<Rightarrow> u64" where
  "virtio_features f = f AND NOT (push_bit 5 1) AND NOT (push_bit 7 1) AND NOT (push_bit 11 1)
     AND NOT (push_bit 12 1) AND NOT (push_bit 27 1) AND NOT (push_bit 29 1) AND NOT (push_bit 28 1)"

definition virtio_reg :: "u64 \<Rightarrow> u32 \<Rightarrow> reg_write" where
  "virtio_reg off v = (VIRTIO0 + off, v)"

definition virtio_probe :: "(u64 \<Rightarrow> u32) \<Rightarrow> bool" where
  "virtio_probe regs \<longleftrightarrow> regs 0 = 0x74726976 \<and> regs 4 = 2 \<and> regs 8 = 2 \<and> regs 0xc = 0x554d4551"

definition virtio_setup :: "(u64 \<Rightarrow> u32) \<Rightarrow> u64 \<Rightarrow> u64 \<Rightarrow> u64 \<Rightarrow> reg_write list" where
  "virtio_setup regs desc avail used =
     [virtio_reg 0x70 0, virtio_reg 0x70 1, virtio_reg 0x70 3,
      virtio_reg 0x20 (ucast (virtio_features (ucast (regs 0x10)))),
      virtio_reg 0x70 11, virtio_reg 0x30 0,
      virtio_reg 0x38 (of_nat NUM),
      virtio_reg 0x80 (ucast desc), virtio_reg 0x84 (ucast (drop_bit 32 desc)),
      virtio_reg 0x90 (ucast avail), virtio_reg 0x94 (ucast (drop_bit 32 avail)),
      virtio_reg 0xa0 (ucast used), virtio_reg 0xa4 (ucast (drop_bit 32 used)),
      virtio_reg 0x44 1,
      virtio_reg 0x70 (regs 0x70 OR 4)]"

definition virtio_disk_init :: "(u64 \<Rightarrow> u32) \<Rightarrow> reg_write list k" where
  "virtio_disk_init regs =
     kthen (kdo [
       initlock VdiskLock,
       kpanic_if (\<not> virtio_probe regs) ''could not find virtio disk'',
       kpanic_if (regs 0x70 AND 8 = 0) ''virtio disk FEATURES_OK unset'',
       kpanic_if (regs 0x44 \<noteq> 0) ''virtio disk should not be ready'',
       kpanic_if (regs 0x34 = 0) ''virtio disk has no queue 0'',
       kpanic_if (regs 0x34 < of_nat NUM) ''virtio disk max queue too short''])
    (kbind kalloc (\<lambda>desc.
     kbind kalloc (\<lambda>avail.
     kbind kalloc (\<lambda>used.
     kthen (kpanic_if (desc = 0 \<or> avail = 0 \<or> used = 0) ''virtio disk kalloc'')
    (kthen (kdo [
       memset_k desc 0 PGSIZE,
       memset_k avail 0 PGSIZE,
       memset_k used 0 PGSIZE,
       upd_vdisk (\<lambda>v. v\<lparr>
         d_desc := (\<lambda>_. \<lparr>vd_addr = DNull, vd_len = 0, vd_flags = 0, vd_next = 0\<rparr>),
         d_avail_idx := 0, d_avail_ring := (\<lambda>_. 0), d_used_ridx := 0, d_used_ring := (\<lambda>_. 0),
         d_free := (\<lambda>i. i < NUM)\<rparr>)])
    (kret (virtio_setup regs desc avail used)))))))"

subsection \<open>main (main.c)\<close>

text \<open>
  Hart 0 initialises everything; \<open>n\<close> and \<open>run\<close> are the rounds of the scheduler and what the
  processes do when they run.
\<close>

definition boot_hart0 :: "(u64 \<Rightarrow> u32) \<Rightarrow> unit k" where
  "boot_hart0 regs = kdo [
     consoleinit,
     printfinit,
     printf [CHR 0x0A] [],
     printf (''xv6 kernel is booting'' @ [CHR 0x0A]) [],
     printf [CHR 0x0A] [],
     kinit,
     kvminit,
     kvminithart,
     procinit,
     trapinit,
     trapinithart,
     binit,
     iinit,
     fileinit,
     kthen (virtio_disk_init regs) (kret ()),
     memstats_init,
     userinit]"

text \<open>A hart other than 0 runs once \<^verbatim>\<open>started\<close> is set.\<close>

definition boot_hart :: "unit k" where
  "boot_hart =
     kbind (kget (\<lambda>s. c_id (cpu s))) (\<lambda>c. kdo [
       printf (''hart %d starting'' @ [CHR 0x0A]) [PNum (of_nat c)],
       kvminithart,
       trapinithart])"

definition kernel_main :: "(u64 \<Rightarrow> u32) \<Rightarrow> nat \<Rightarrow> (nat \<Rightarrow> unit k) \<Rightarrow> unit k" where
  "kernel_main regs n run =
     kbind (kget (\<lambda>s. c_id (cpu s))) (\<lambda>c.
     kthen (if c = 0 then boot_hart0 regs else boot_hart)
    (scheduler n run))"

subsection \<open>Booting\<close>

text \<open>
  C38. The kernel does not boot: \<open>main\<close> on hart 0, from the state the C runtime leaves and with any
  disk, prints its banner and panics in \<open>kinit\<close>, before there is a page table or a process.
\<close>

theorem boot_panics:
  assumes "KERNBASE \<le> e" "e \<le> PHYSTOP - 2 * PGSIZE"
  shows "kernel_main regs n run (zero_state e blk dev) = Panic ''krefdec: refcount <= 0''"
proof -
  let ?s = "(zero_state e blk dev)\<lparr>locks := (locks (zero_state e blk dev))
    (ConsLock := free_lock, UartLock := free_lock, PrLock := free_lock)\<rparr>"
  have l: "locks ?s = (\<lambda>_. free_lock)" by (simp add: zero_state_def fun_eq_iff)
  obtain s1 where s1: "printf [CHR 0x0A] [] ?s = Ok () s1" "locks s1 = locks ?s" "syms s1 = syms ?s"
    using printf_plain [of ?s "[CHR 0x0A]" "[]"] l by (auto simp: bytes_def)
  obtain s2 where s2: "printf (''xv6 kernel is booting'' @ [CHR 0x0A]) [] s1 = Ok () s2"
    "locks s2 = locks s1" "syms s2 = syms s1"
    using printf_plain [of s1 "''xv6 kernel is booting'' @ [CHR 0x0A]" "[]"] l s1 by (auto simp: bytes_def)
  obtain s3 where s3: "printf [CHR 0x0A] [] s2 = Ok () s3" "syms s3 = syms s2"
    using printf_plain [of s2 "[CHR 0x0A]" "[]"] l s1 s2 by (auto simp: bytes_def)
  have "kinit s3 = Panic ''krefdec: refcount <= 0''"
    by (rule kinit_panics) (use assms s1 s2 s3 in \<open>simp_all add: zero_state_def\<close>)
  with s1 s2 s3 show ?thesis
    by (simp add: kernel_main_def boot_hart0_def consoleinit_def uartinit_def printfinit_def kmonad
       zero_state_def zero_cpu_def)
qed

theorem boot_panics_witness:
  "kernel_main (\<lambda>_. 0) 1 (\<lambda>_. kret ()) demo_state = Panic ''krefdec: refcount <= 0''"
  unfolding demo_state_def by (rule boot_panics) simp_all

end
