(* ===== verification/Diskio.thy ===== *)
theory Diskio
  imports Virtio
begin

text \<open>
  What a disk request does. The device is a parameter of the kernel; \<open>device_ok\<close> is what the virtio
  block specification promises for a request in the form this driver gives it, and
  \<open>virtio_disk_rw_ok\<close> shows that the driver, from an idle state, carries out one request, is woken by
  its own interrupt and leaves the driver idle again.
\<close>

subsection \<open>The device\<close>

text \<open>
  The one new request in the available ring: a chain of three descriptors from \<open>h\<close> on, for the
  data of buffer \<open>b\<close>.
\<close>

definition request :: "vdisk \<Rightarrow> nat \<Rightarrow> nat \<Rightarrow> bool \<Rightarrow> u64 \<Rightarrow> bool" where
  "request v h b wr sector \<longleftrightarrow>
     d_avail_idx v = d_used_ridx v + 1 \<and> h < NUM \<and>
     d_avail_ring v (unat (d_used_ridx v) mod NUM) = of_nat h \<and>
     d_ops v h = \<lparr>rq_type = (if wr then VIRTIO_BLK_T_OUT else VIRTIO_BLK_T_IN), rq_reserved = 0,
       rq_sector = sector\<rparr> \<and>
     (\<exists>i1 i2. i1 < NUM \<and> i2 < NUM \<and>
       d_desc v h = \<lparr>vd_addr = DReq h, vd_len = 16, vd_flags = VRING_DESC_F_NEXT, vd_next = of_nat i1\<rparr> \<and>
       d_desc v i1 = \<lparr>vd_addr = DData b, vd_len = of_nat BSIZE,
         vd_flags = (if wr then 0 else VRING_DESC_F_WRITE) OR VRING_DESC_F_NEXT, vd_next = of_nat i2\<rparr> \<and>
       d_desc v i2 = \<lparr>vd_addr = DStatus h, vd_len = 1, vd_flags = VRING_DESC_F_WRITE, vd_next = 0\<rparr>)"

text \<open>
  The answer: the status byte is 0, the head of the chain is in the used ring, and the block of two
  sectors has been written or read.
\<close>

definition device_ok :: "device \<Rightarrow> bool" where
  "device_ok dev \<longleftrightarrow> (\<forall>v data blk h b wr sector. request v h b wr sector \<longrightarrow>
     dev v data blk =
      (v\<lparr>d_info_status := (d_info_status v)(h := 0), d_used_ridx := d_used_ridx v + 1,
         d_used_ring := (d_used_ring v)(unat (d_used_ridx v) mod NUM := of_nat h)\<rparr>,
       if wr then data else data(b := blk (sector div 2)),
       if wr then blk(sector div 2 := data b) else blk))"

text \<open>A device that keeps its promise.\<close>

definition virtio_device :: device where
  "virtio_device v data blk =
    (let h = unat (d_avail_ring v (unat (d_used_ridx v) mod NUM));
         r = d_ops v h
     in case vd_addr (d_desc v (unat (vd_next (d_desc v h)))) of
       DData b \<Rightarrow>
        (v\<lparr>d_info_status := (d_info_status v)(h := 0), d_used_ridx := d_used_ridx v + 1,
           d_used_ring := (d_used_ring v)(unat (d_used_ridx v) mod NUM := of_nat h)\<rparr>,
         if rq_type r = VIRTIO_BLK_T_OUT then data else data(b := blk (rq_sector r div 2)),
         if rq_type r = VIRTIO_BLK_T_OUT then blk(rq_sector r div 2 := data b) else blk)
     | _ \<Rightarrow> (v, data, blk))"

lemma virtio_device_ok: "device_ok virtio_device"
proof -
  have "virtio_device v data blk =
      (v\<lparr>d_info_status := (d_info_status v)(h := 0), d_used_ridx := d_used_ridx v + 1,
         d_used_ring := (d_used_ring v)(unat (d_used_ridx v) mod NUM := of_nat h)\<rparr>,
       if wr then data else data(b := blk (sector div 2)),
       if wr then blk(sector div 2 := data b) else blk)"
    if r: "request v h b wr sector" for v data blk h b wr sector
  proof -
    have small: "unat (of_nat i :: u16) = i" if "i < 8" for i using that by (simp add: unat_of_nat)
    from r show ?thesis unfolding request_def
      by (elim conjE exE) (simp add: virtio_device_def Let_def small)
  qed
  then show ?thesis by (simp add: device_ok_def)
qed

subsection \<open>Idle states\<close>

definition vdisk_idle :: "vdisk \<Rightarrow> bool" where
  "vdisk_idle v \<longleftrightarrow> (\<forall>i < NUM. d_free v i) \<and> d_used_idx v = d_used_ridx v \<and> d_avail_idx v = d_used_ridx v"

text \<open>Process \<open>p\<close> runs with no lock held and no disk request under way.\<close>

definition quiet :: "nat \<Rightarrow> int \<Rightarrow> kstate \<Rightarrow> bool" where
  "quiet p pid s \<longleftrightarrow> locks s = (\<lambda>_. free_lock) \<and> c_noff (cpu s) = 0 \<and> c_proc (cpu s) = Some p \<and> p < NPROC \<and>
     p_pid (procs s p) = pid \<and> vdisk_idle (vdisk s) \<and> device_ok (disk_dev s)"

lemma alloc_desc_apply:
  assumes "d_free (vdisk s) i" "i < NUM" "\<forall>j < i. \<not> d_free (vdisk s) j"
  shows "alloc_desc s = Ok (int i) (s\<lparr>vdisk := (vdisk s)\<lparr>d_free := (d_free (vdisk s))(i := False)\<rparr>\<rparr>)"
proof -
  have "[0..<NUM] = [0..<i] @ i # [Suc i..<NUM]"
    using assms(2) upt_add_eq_append [of 0 i "NUM - i"] by (simp add: upt_conv_Cons)
  with assms show ?thesis
    by (simp add: alloc_desc_def kfor_append kfor_skip kmonad upd_vdisk_def del: upt_Suc)
qed

lemma alloc3_idle:
  assumes "\<forall>i < NUM. d_free (vdisk s) i"
  shows "alloc3_desc s = Ok (Some [0, 1, 2])
    (s\<lparr>vdisk := (vdisk s)\<lparr>d_free := (d_free (vdisk s))(0 := False, 1 := False, 2 := False)\<rparr>\<rparr>)"
  using assms alloc_desc_apply [of s 0]
    alloc_desc_apply [of "s\<lparr>vdisk := (vdisk s)\<lparr>d_free := (d_free (vdisk s))(0 := False)\<rparr>\<rparr>" 1]
    alloc_desc_apply [of "s\<lparr>vdisk := (vdisk s)\<lparr>d_free := (d_free (vdisk s))(0 := False, 1 := False)\<rparr>\<rparr>" 2]
  by (simp add: alloc3_desc_def kmonad less_Suc_eq numeral_2_eq_2)


subsection \<open>A request\<close>

text \<open>The driver's structures with the request in them, and after the device's answer.\<close>

definition posted :: "nat \<Rightarrow> bool \<Rightarrow> u64 \<Rightarrow> vdisk \<Rightarrow> vdisk" where
  "posted b wr sector v = v\<lparr>d_free := (d_free v)(0 := False, 1 := False, 2 := False),
     d_ops := (d_ops v)(0 := \<lparr>rq_type = (if wr then VIRTIO_BLK_T_OUT else VIRTIO_BLK_T_IN), rq_reserved = 0,
       rq_sector = sector\<rparr>),
     d_desc := (d_desc v)
       (0 := \<lparr>vd_addr = DReq 0, vd_len = 16, vd_flags = VRING_DESC_F_NEXT, vd_next = 1\<rparr>,
        1 := \<lparr>vd_addr = DData b, vd_len = of_nat BSIZE,
          vd_flags = (if wr then 0 else VRING_DESC_F_WRITE) OR VRING_DESC_F_NEXT, vd_next = 2\<rparr>,
        2 := \<lparr>vd_addr = DStatus 0, vd_len = 1, vd_flags = VRING_DESC_F_WRITE, vd_next = 0\<rparr>),
     d_info_status := (d_info_status v)(0 := 0xff), d_info_b := (d_info_b v)(0 := Some b),
     d_avail_ring := (d_avail_ring v)(unat (d_avail_idx v) mod NUM := 0),
     d_avail_idx := d_avail_idx v + 1\<rparr>"

definition answered :: "vdisk \<Rightarrow> vdisk" where
  "answered v = v\<lparr>d_info_status := (d_info_status v)(0 := 0), d_used_ridx := d_used_ridx v + 1,
     d_used_ring := (d_used_ring v)(unat (d_used_ridx v) mod NUM := 0)\<rparr>"

lemma posted_request: "vdisk_idle v \<Longrightarrow> request (posted b wr sector v) 0 b wr sector"
  unfolding request_def
  by (intro conjI exI [of _ 1] exI [of _ 2]) (simp_all add: posted_def vdisk_idle_def)

definition transfer_data :: "nat \<Rightarrow> bool \<Rightarrow> u64 \<Rightarrow> blocks \<Rightarrow> (nat \<Rightarrow> buf) \<Rightarrow> nat \<Rightarrow> buf" where
  "transfer_data b wr key blk bufs = bufs(b := (bufs b)\<lparr>
     b_data := (if wr then b_data (bufs b) else blk key), b_disk := False\<rparr>)"

definition transfer_disk :: "nat \<Rightarrow> bool \<Rightarrow> u64 \<Rightarrow> blocks \<Rightarrow> (nat \<Rightarrow> buf) \<Rightarrow> blocks" where
  "transfer_disk b wr key blk bufs = (if wr then blk(key := b_data (bufs b)) else blk)"

lemma transfer_again:
  "transfer_data b wr key blk (bufs(b := (bufs b)\<lparr>b_disk := d\<rparr>)) = transfer_data b wr key blk bufs"
  "transfer_disk b wr key blk (bufs(b := (bufs b)\<lparr>b_disk := d\<rparr>)) = transfer_disk b wr key blk bufs"
  by (simp_all add: transfer_data_def transfer_disk_def)

lemma sector_block:
  fixes bn :: u32
  assumes "bn < 2 ^ 31"
  shows "ucast (bn * 2) div 2 = (ucast bn :: u64)"
proof -
  have lt: "unat bn < 2 ^ 31" using assms by (simp add: word_less_nat_alt)
  then have "unat (bn * 2) = unat bn * 2" by (simp add: unat_word_ariths)
  with lt show ?thesis
    by (simp add: word_unat_eq_iff unat_div unsigned_ucast_eq take_bit_nat_def)
qed

lemma format_req_apply:
  "format_req b wr sector 0 (Suc 0) 2 (s\<lparr>vdisk := v\<lparr>d_free := (d_free v)(0 := False, Suc 0 := False, 2 := False)\<rparr>\<rparr>) =
     Ok () (upd_buf b (b_disk_update (\<lambda>_. True)) (s\<lparr>vdisk := posted b wr sector v\<rparr>))"
  by (simp add: format_req_def set_desc_def upd_vdisk_def posted_def upd_buf_def kmonad fun_upd_twist)

lemma device_step_apply:
  assumes "device_ok (disk_dev s)" "request (vdisk s) 0 b wr sector"
  shows "device_step s = Ok () (s\<lparr>vdisk := answered (vdisk s),
     disk := transfer_disk b wr (sector div 2) (disk s) (bc_buf (bcache s)),
     disk_hist := disk s # disk_hist s,
     bcache := (bcache s)\<lparr>bc_buf := (bc_buf (bcache s))(b := (bc_buf (bcache s) b)
       \<lparr>b_data := (if wr then b_data (bc_buf (bcache s) b) else disk s (sector div 2))\<rparr>)\<rparr>\<rparr>)"
proof -
  have "disk_dev s (vdisk s) (\<lambda>i. b_data (bc_buf (bcache s) i)) (disk s) = (answered (vdisk s),
      if wr then (\<lambda>i. b_data (bc_buf (bcache s) i)) else (\<lambda>i. b_data (bc_buf (bcache s) i))(b := disk s (sector div 2)),
      if wr then (disk s)(sector div 2 := b_data (bc_buf (bcache s) b)) else disk s)"
    using assms unfolding device_ok_def answered_def by auto
  then show ?thesis by (auto simp: device_step_def kmonad transfer_disk_def fun_eq_iff)
qed


lemma virtio_disk_intr_apply:
  assumes "locks s VdiskLock = free_lock" "proc_locks_free s"
    and "d_used_ridx (vdisk s) = d_used_idx (vdisk s) + 1"
    and "d_used_ring (vdisk s) (unat (d_used_idx (vdisk s)) mod NUM) = 0"
    and "d_info_status (vdisk s) 0 = 0" "d_info_b (vdisk s) 0 = Some b"
  shows "virtio_disk_intr s = Ok () (upd_buf b (b_disk_update (\<lambda>_. False)) (s\<lparr>
     vdisk := (vdisk s)\<lparr>d_used_idx := d_used_idx (vdisk s) + 1\<rparr>, cpu := settle (cpu s),
     procs := woken {..<NPROC} (ChanBuf b) (c_proc (cpu s)) (procs s)\<rparr>))"
proof -
  let ?s = "upd_buf b (b_disk_update (\<lambda>_. False)) (s\<lparr>cpu := push_cpu (cpu s),
    locks := (locks s)(VdiskLock := held_by (c_id (cpu s)))\<rparr>)"
  have "proc_locks_free ?s" using assms(2) by (simp add: proc_locks_free_def upd_buf_def)
  note w = wakeup_apply [OF this, of "ChanBuf b"]
  show ?thesis using assms w
    by (simp add: virtio_disk_intr_def acquire_free kmonad intr_round_def upd_vdisk_def Let_def release_held
        upd_buf_def numeral_2_eq_2 add.commute)
qed

lemma disk_interrupt_apply:
  assumes "device_ok (disk_dev s)" "vdisk_idle v" "vdisk s = posted b wr sector v"
    and "locks s VdiskLock = free_lock" "proc_locks_free s" "c_noff (cpu s) = 0"
  shows "\<exists>c. disk_interrupt s = Ok () (s\<lparr>
     vdisk := (answered (posted b wr sector v))\<lparr>d_used_idx := d_used_idx v + 1\<rparr>,
     disk := transfer_disk b wr (sector div 2) (disk s) (bc_buf (bcache s)),
     disk_hist := disk s # disk_hist s, cpu := c,
     procs := woken {..<NPROC} (ChanBuf b) (c_proc (cpu s)) (procs s),
     bcache := (bcache s)\<lparr>bc_buf := transfer_data b wr (sector div 2) (disk s) (bc_buf (bcache s))\<rparr>\<rparr>) \<and>
     c_noff c = 0 \<and> c_id c = c_id (cpu s)"
proof -
  let ?t = "s\<lparr>cpu := (cpu s)\<lparr>c_intr := False\<rparr>\<rparr>"
  have d: "device_step ?t = Ok () (?t\<lparr>vdisk := answered (vdisk ?t),
     disk := transfer_disk b wr (sector div 2) (disk ?t) (bc_buf (bcache ?t)),
     disk_hist := disk ?t # disk_hist ?t,
     bcache := (bcache ?t)\<lparr>bc_buf := (bc_buf (bcache ?t))(b := (bc_buf (bcache ?t) b)
       \<lparr>b_data := (if wr then b_data (bc_buf (bcache ?t) b) else disk ?t (sector div 2))\<rparr>)\<rparr>\<rparr>)"
    by (rule device_step_apply) (use assms posted_request in simp_all)
  let ?u = "?t\<lparr>vdisk := answered (vdisk ?t),
     disk := transfer_disk b wr (sector div 2) (disk ?t) (bc_buf (bcache ?t)),
     disk_hist := disk ?t # disk_hist ?t,
     bcache := (bcache ?t)\<lparr>bc_buf := (bc_buf (bcache ?t))(b := (bc_buf (bcache ?t) b)
       \<lparr>b_data := (if wr then b_data (bc_buf (bcache ?t) b) else disk ?t (sector div 2))\<rparr>)\<rparr>\<rparr>"
  have i: "virtio_disk_intr ?u = Ok () (upd_buf b (b_disk_update (\<lambda>_. False)) (?u\<lparr>
     vdisk := (vdisk ?u)\<lparr>d_used_idx := d_used_idx (vdisk ?u) + 1\<rparr>, cpu := settle (cpu ?u),
     procs := woken {..<NPROC} (ChanBuf b) (c_proc (cpu ?u)) (procs ?u)\<rparr>))"
    by (rule virtio_disk_intr_apply)
      (use assms(2-5) in \<open>simp_all add: proc_locks_free_def vdisk_idle_def posted_def answered_def\<close>)
  have "d_used_idx (answered (posted b wr sector v)) = d_used_idx v" by (simp add: answered_def posted_def)
  with assms(3,6) d i show ?thesis
    by (intro exI [of _ "(settle ((cpu s)\<lparr>c_intr := False\<rparr>))\<lparr>c_intr := True\<rparr>"])
      (cases wr; simp add: disk_interrupt_def intr_apply kmonad upd_buf_def transfer_data_def o_def)
qed


text \<open>The driver sleeps until the interrupt, and finds its request done.\<close>

lemma request_sleep:
  assumes "may_sleep VdiskLock p s" "p < NPROC" "locks s = (\<lambda>_. free_lock)(VdiskLock := held_by (c_id (cpu s)))"
    and "device_ok (disk_dev s)" "vdisk_idle v" "vdisk s = posted b wr sector v"
  shows "\<exists>P c. sleep_with disk_interrupt (ChanBuf b) VdiskLock s = Ok () (s\<lparr>
     vdisk := (answered (posted b wr sector v))\<lparr>d_used_idx := d_used_idx v + 1\<rparr>,
     disk := transfer_disk b wr (sector div 2) (disk s) (bc_buf (bcache s)),
     disk_hist := disk s # disk_hist s, cpu := c, procs := P,
     bcache := (bcache s)\<lparr>bc_buf := transfer_data b wr (sector div 2) (disk s) (bc_buf (bcache s))\<rparr>\<rparr>) \<and>
     c_noff c = 1 \<and> \<not> c_intr c \<and> c_id c = c_id (cpu s) \<and> c_proc c = Some p \<and>
     p_pid (P p) = p_pid (procs s p)"
proof -
  let ?t = "asleep (ChanBuf b) VdiskLock p s"
  have t: "device_ok (disk_dev ?t)" "vdisk ?t = posted b wr sector v" "locks ?t = (\<lambda>_. free_lock)"
    "c_noff (cpu ?t) = 0" "c_proc (cpu ?t) = None" "c_id (cpu ?t) = c_id (cpu s)"
    using assms by (simp_all add: asleep_def)
  obtain c where i: "disk_interrupt ?t = Ok () (?t\<lparr>
     vdisk := (answered (posted b wr sector v))\<lparr>d_used_idx := d_used_idx v + 1\<rparr>,
     disk := transfer_disk b wr (sector div 2) (disk ?t) (bc_buf (bcache ?t)),
     disk_hist := disk ?t # disk_hist ?t, cpu := c,
     procs := woken {..<NPROC} (ChanBuf b) (c_proc (cpu ?t)) (procs ?t),
     bcache := (bcache ?t)\<lparr>bc_buf := transfer_data b wr (sector div 2) (disk ?t) (bc_buf (bcache ?t))\<rparr>\<rparr>)"
    (is "_ = Ok () ?u") and c: "c_noff c = 0" "c_id c = c_id (cpu ?t)"
    using disk_interrupt_apply [OF t(1) assms(5) t(2)] t(3,4) by (auto simp: proc_locks_free_def)
  have b: "back_ok VdiskLock p s ?u" using t c by (simp add: back_ok_def)
  have "p_state (procs ?u p) = RUNNABLE" using assms(2) t(5) by (simp add: woken_def asleep_def)
  then have "sleep_with disk_interrupt (ChanBuf b) VdiskLock s = Ok () (awake VdiskLock p s ?u)"
    by (rule sleep_with_apply(1) [where env = disk_interrupt, OF assms(1) i b])
  then show ?thesis
    using t(3) c
    by (intro exI [of _ "procs (awake VdiskLock p s ?u)"] exI [of _ "cpu (awake VdiskLock p s ?u)"])
      (simp add: awake_def, simp add: asleep_def assms(3))
qed


text \<open>The chain of the request is given back.\<close>

definition no_desc :: virtq_desc where
  "no_desc = \<lparr>vd_addr = DNull, vd_len = 0, vd_flags = 0, vd_next = 0\<rparr>"

lemma free_desc_apply:
  assumes "i < NUM" "\<not> d_free (vdisk s) i" "proc_locks_free s" "settle (cpu s) = cpu s"
  shows "free_desc i s = Ok () (s\<lparr>vdisk := (vdisk s)\<lparr>d_desc := (d_desc (vdisk s))(i := no_desc),
       d_free := (d_free (vdisk s))(i := True)\<rparr>,
     procs := woken {..<NPROC} ChanDiskFree (c_proc (cpu s)) (procs s)\<rparr>)"
proof -
  let ?s = "s\<lparr>vdisk := (vdisk s)\<lparr>d_desc := (d_desc (vdisk s))(i := no_desc),
     d_free := (d_free (vdisk s))(i := True)\<rparr>\<rparr>"
  have "proc_locks_free ?s" using assms(3) by (simp add: proc_locks_free_def)
  from wakeup_apply [OF this, of ChanDiskFree] assms show ?thesis
    by (simp add: free_desc_def kmonad upd_vdisk_def no_desc_def)
qed

lemma free_request:
  assumes "proc_locks_free s" "settle (cpu s) = cpu s"
    and "\<not> d_free (vdisk s) 0" "\<not> d_free (vdisk s) 1" "\<not> d_free (vdisk s) 2"
    and "vd_flags (d_desc (vdisk s) 0) AND VRING_DESC_F_NEXT \<noteq> 0" "vd_next (d_desc (vdisk s) 0) = 1"
    and "vd_flags (d_desc (vdisk s) 1) AND VRING_DESC_F_NEXT \<noteq> 0" "vd_next (d_desc (vdisk s) 1) = 2"
    and "vd_flags (d_desc (vdisk s) 2) AND VRING_DESC_F_NEXT = 0"
  shows "free_desc_chain 0 s = Ok () (s\<lparr>
     vdisk := (vdisk s)\<lparr>d_desc := (d_desc (vdisk s))(0 := no_desc, 1 := no_desc, 2 := no_desc),
       d_free := (d_free (vdisk s))(0 := True, 1 := True, 2 := True)\<rparr>,
     procs := woken {..<NPROC} ChanDiskFree (c_proc (cpu s)) (procs s)\<rparr>)"
proof -
  have "free_chain_from (Suc (Suc (Suc n))) 0 s = Ok () (s\<lparr>
     vdisk := (vdisk s)\<lparr>d_desc := (d_desc (vdisk s))(0 := no_desc, 1 := no_desc, 2 := no_desc),
       d_free := (d_free (vdisk s))(0 := True, 1 := True, 2 := True)\<rparr>,
     procs := woken {..<NPROC} ChanDiskFree (c_proc (cpu s)) (procs s)\<rparr>)" for n
    using assms by (simp add: kmonad free_desc_apply proc_locks_free_def woken_woken)
  from this [of 6] show ?thesis by (simp add: free_desc_chain_def numeral_eq_Suc)
qed

text \<open>
  The whole request: from a quiet state \<open>virtio_disk_rw\<close> transfers the block and ends in a quiet
  state; only the buffer, the disk and the driver's own structures have changed, and the processes
  that waited for descriptors have been woken.
\<close>

lemma virtio_disk_rw_ok:
  assumes q: "quiet p pid s" and bn: "b_blockno (bc_buf (bcache s) b) < 2 ^ 31"
  shows "\<exists>P c v. virtio_disk_rw b wr s = Ok () (s\<lparr>vdisk := v,
     disk := transfer_disk b wr (ucast (b_blockno (bc_buf (bcache s) b))) (disk s) (bc_buf (bcache s)),
     disk_hist := disk s # disk_hist s, cpu := c, procs := P,
     bcache := (bcache s)\<lparr>bc_buf := transfer_data b wr (ucast (b_blockno (bc_buf (bcache s) b))) (disk s)
       (bc_buf (bcache s))\<rparr>\<rparr>) \<and>
     quiet p pid (s\<lparr>vdisk := v, cpu := c, procs := P\<rparr>)"
proof -
  let ?v = "vdisk s" and ?bn = "b_blockno (bc_buf (bcache s) b)"
  let ?sec = "ucast (?bn * of_nat (BSIZE div 512)) :: u64"
  have sec: "?sec div 2 = ucast ?bn" using bn by (simp add: sector_block)
  let ?s1 = "s\<lparr>cpu := push_cpu (cpu s), locks := (\<lambda>_. free_lock)(VdiskLock := held_by (c_id (cpu s)))\<rparr>"
  let ?s2 = "upd_buf b (b_disk_update (\<lambda>_. True)) (?s1\<lparr>vdisk := posted b wr ?sec ?v\<rparr>)"
  have q': "locks s = (\<lambda>_. free_lock)" "c_noff (cpu s) = 0" "c_proc (cpu s) = Some p" "p < NPROC"
    "p_pid (procs s p) = pid" "vdisk_idle ?v" "device_ok (disk_dev s)"
    using q by (simp_all add: quiet_def)
  have "alloc3_desc ?s1 = Ok (Some [0, 1, 2])
      (?s1\<lparr>vdisk := ?v\<lparr>d_free := (d_free ?v)(0 := False, 1 := False, 2 := False)\<rparr>\<rparr>)"
    using alloc3_idle [of ?s1] q'(6) by (simp add: vdisk_idle_def)
  then have start: "virtio_disk_rw b wr s =
    kthen (kloop 2 (kget (\<lambda>s. b_disk (bc_buf (bcache s) b))) (sleep_with disk_interrupt (ChanBuf b) VdiskLock))
    (kthen (upd_vdisk (\<lambda>v. v\<lparr>d_info_b := (d_info_b v)(0 := None)\<rparr>))
    (kthen (free_desc_chain 0) (release VdiskLock))) ?s2"
    using q'(1) format_req_apply [of b wr ?sec ?v ?s1]
    by (simp add: virtio_disk_rw_def alloc3_wait_def acquire_free kmonad)
  obtain P c where sl: "sleep_with disk_interrupt (ChanBuf b) VdiskLock ?s2 = Ok () (?s2\<lparr>
     vdisk := (answered (posted b wr ?sec ?v))\<lparr>d_used_idx := d_used_idx ?v + 1\<rparr>,
     disk := transfer_disk b wr (?sec div 2) (disk ?s2) (bc_buf (bcache ?s2)),
     disk_hist := disk ?s2 # disk_hist ?s2, cpu := c, procs := P,
     bcache := (bcache ?s2)\<lparr>bc_buf := transfer_data b wr (?sec div 2) (disk ?s2) (bc_buf (bcache ?s2))\<rparr>\<rparr>)"
    (is "_ = Ok () ?s3")
    and c: "c_noff c = 1" "\<not> c_intr c" "c_id c = c_id (cpu ?s2)" "c_proc c = Some p" "p_pid (P p) = p_pid (procs ?s2 p)"
    using request_sleep [of p ?s2 ?v b wr ?sec] q' by (auto simp: may_sleep_def upd_buf_def)
  let ?s4 = "?s3\<lparr>vdisk := (vdisk ?s3)\<lparr>d_info_b := (d_info_b (vdisk ?s3))(0 := None)\<rparr>\<rparr>"
  have fr: "free_desc_chain 0 ?s4 = Ok () (?s4\<lparr>
     vdisk := (vdisk ?s4)\<lparr>d_desc := (d_desc (vdisk ?s4))(0 := no_desc, 1 := no_desc, 2 := no_desc),
       d_free := (d_free (vdisk ?s4))(0 := True, 1 := True, 2 := True)\<rparr>,
     procs := woken {..<NPROC} ChanDiskFree (c_proc (cpu ?s4)) (procs ?s4)\<rparr>)" (is "_ = Ok () ?s5")
    by (rule free_request) (use c in \<open>simp_all add: proc_locks_free_def upd_buf_def settle_def posted_def answered_def\<close>)
  have "virtio_disk_rw b wr s = release VdiskLock ?s5"
    using sl fr unfolding start
    by (simp add: kmonad numeral_2_eq_2 upd_vdisk_def upd_buf_def transfer_data_def)
  also have "\<dots> = Ok () (?s5\<lparr>cpu := pop_cpu c, locks := \<lambda>_. free_lock\<rparr>)"
    using c by (simp add: release_held upd_buf_def fun_eq_iff)
  finally have run: "virtio_disk_rw b wr s = Ok () (?s5\<lparr>cpu := pop_cpu c, locks := \<lambda>_. free_lock\<rparr>)" .
  have "vdisk_idle (vdisk ?s5)"
    using q'(6) by (auto simp: vdisk_idle_def posted_def answered_def)
  then have "quiet p pid (s\<lparr>vdisk := vdisk ?s5, cpu := pop_cpu c, procs := procs ?s5\<rparr>)"
    using q' c by (simp add: quiet_def upd_buf_def)
  with run show ?thesis
    by (intro exI [of _ "procs ?s5"] exI [of _ "pop_cpu c"] exI [of _ "vdisk ?s5"])
      (simp add: upd_buf_def sector_block [OF bn] transfer_again q'(1))
qed

end
