(* ===== verification/Bcache.thy ===== *)
theory Bcache
  imports Bio Diskio
begin

text \<open>
  The buffer cache. \<open>lru\<close> relates the links of the buffers to the list they stand for, and the
  pointer surgery of \<open>brelse\<close> is shown to be move-to-front. \<open>store\<close> is what the
  cache's clients see of a state; the operations of \<^verbatim>\<open>bio.c\<close> are specified on it.
\<close>

subsection \<open>The list of buffers\<close>

fun lpath :: "(bufref \<Rightarrow> bufref) \<Rightarrow> bufref \<Rightarrow> nat list \<Rightarrow> bufref \<Rightarrow> bool" where
  "lpath nxt a [] z \<longleftrightarrow> nxt a = z"
| "lpath nxt a (x # xs) z \<longleftrightarrow> nxt a = BBuf x \<and> lpath nxt (BBuf x) xs z"

definition lru :: "bcache \<Rightarrow> nat list \<Rightarrow> bool" where
  "lru bc xs \<longleftrightarrow> lpath (bc_next bc) BHead xs BHead \<and> lpath (bc_prev bc) BHead (rev xs) BHead \<and>
     distinct xs \<and> set xs = {..<NBUF}"

text \<open>The last element before the end of a path.\<close>

definition path_end :: "bufref \<Rightarrow> nat list \<Rightarrow> bufref" where
  "path_end a xs = (if xs = [] then a else BBuf (last xs))"

lemma lpath_start: "lpath nxt a xs z \<Longrightarrow> nxt a = (if xs = [] then z else BBuf (hd xs))"
  by (cases xs) simp_all

lemma lpath_upd: "r \<noteq> a \<Longrightarrow> r \<notin> BBuf ` set xs \<Longrightarrow> lpath (nxt(r := v)) a xs z = lpath nxt a xs z"
  by (induction xs arbitrary: a) auto

lemma lpath_restart: "nxt' b = nxt a \<Longrightarrow> (\<And>x. x \<in> set xs \<Longrightarrow> nxt' (BBuf x) = nxt (BBuf x)) \<Longrightarrow>
    lpath nxt' b xs z = lpath nxt a xs z"
  by (induction xs arbitrary: a b) auto

lemma lpath_snoc: "lpath nxt a (xs @ [x]) z \<longleftrightarrow> lpath nxt a xs (BBuf x) \<and> nxt (BBuf x) = z"
  by (induction xs arbitrary: a) auto

lemma path_end_in: "path_end a xs \<in> insert a (BBuf ` set xs)"
  by (simp add: path_end_def)

text \<open>Taking an element out of a path.\<close>

lemma lpath_splice:
  assumes "lpath nxt a (us @ i # vs) z" "distinct (us @ i # vs)" "a \<notin> BBuf ` set (us @ i # vs)"
  shows "lpath (nxt(path_end a us := nxt (BBuf i))) a (us @ vs) z"
  using assms
proof (induction us arbitrary: a)
  case Nil
  have "lpath (nxt(a := nxt (BBuf i))) a vs z = lpath nxt (BBuf i) vs z"
    by (rule lpath_restart) (use Nil in auto)
  with Nil show ?case by (simp add: path_end_def del: fun_upd_apply)
next
  case (Cons u us)
  have e: "path_end a (u # us) = path_end (BBuf u) us" by (simp add: path_end_def)
  have "path_end (BBuf u) us \<noteq> a" using path_end_in [of "BBuf u" us] Cons.prems(3) by auto
  moreover have "lpath (nxt(path_end (BBuf u) us := nxt (BBuf i))) (BBuf u) (us @ vs) z"
    by (rule Cons.IH) (use Cons.prems in auto)
  ultimately show ?case using Cons.prems(1) by (simp add: e del: fun_upd_apply add: fun_upd_other)
qed

text \<open>Changing where a path ends.\<close>

lemma lpath_retarget:
  assumes "lpath nxt a xs z" "distinct xs" "a \<notin> BBuf ` set xs"
  shows "lpath (nxt(path_end a xs := z')) a xs z'"
  using assms
proof (induction xs arbitrary: a)
  case (Cons x xs)
  have e: "path_end a (x # xs) = path_end (BBuf x) xs" by (simp add: path_end_def)
  have "path_end (BBuf x) xs \<noteq> a" using path_end_in [of "BBuf x" xs] Cons.prems(3) by auto
  moreover have "lpath (nxt(path_end (BBuf x) xs := z')) (BBuf x) xs z'" by (rule Cons.IH) (use Cons.prems in auto)
  ultimately show ?case using Cons.prems(1) by (simp add: e del: fun_upd_apply add: fun_upd_other)
qed (simp add: path_end_def)

lemma lpath_mid: "lpath nxt a (us @ i # vs) BHead \<Longrightarrow> nxt (BBuf i) = path_end BHead (rev vs)"
  by (induction us arbitrary: a) (auto simp: path_end_def last_rev dest: lpath_start)

lemma lru_unlink:
  assumes "lpath (bc_next bc) BHead (us @ i # vs) BHead" "lpath (bc_prev bc) BHead (rev (us @ i # vs)) BHead"
    and "distinct (us @ i # vs)"
  shows "lpath (bc_next (unlink i bc)) BHead (us @ vs) BHead" "lpath (bc_prev (unlink i bc)) BHead (rev (us @ vs)) BHead"
proof -
  have n: "bc_next bc (BBuf i) = path_end BHead (rev vs)" using assms(1) by (rule lpath_mid)
  have p: "bc_prev bc (BBuf i) = path_end BHead us"
    using lpath_mid [of "bc_prev bc" BHead "rev vs" i "rev us"] assms(2) by simp
  have "bc_next bc (BBuf i) \<noteq> BBuf i" using n path_end_in [of BHead "rev vs"] assms(3) by auto
  then have u: "bc_next (unlink i bc) = (bc_next bc)(path_end BHead us := bc_next bc (BBuf i))"
    "bc_prev (unlink i bc) = (bc_prev bc)(path_end BHead (rev vs) := bc_prev bc (BBuf i))"
    by (simp_all add: unlink_def set_next_def set_prev_def p n)
  show "lpath (bc_next (unlink i bc)) BHead (us @ vs) BHead"
    unfolding u by (rule lpath_splice) (use assms in auto)
  have "lpath ((bc_prev bc)(path_end BHead (rev vs) := bc_prev bc (BBuf i))) BHead (rev vs @ rev us) BHead"
    by (rule lpath_splice) (use assms in auto)
  then show "lpath (bc_prev (unlink i bc)) BHead (rev (us @ vs)) BHead" unfolding u by simp
qed

lemma lru_link:
  assumes "lpath (bc_next bc) BHead ys BHead" "lpath (bc_prev bc) BHead (rev ys) BHead"
    and "distinct ys" "i \<notin> set ys"
  shows "lpath (bc_next (link_front i bc)) BHead (i # ys) BHead"
    "lpath (bc_prev (link_front i bc)) BHead (rev (i # ys)) BHead"
proof -
  have n: "bc_next bc BHead = path_end BHead (rev ys)"
    using assms(1) by (cases ys) (auto simp: path_end_def)
  have l: "bc_next (link_front i bc) = (bc_next bc)(BBuf i := bc_next bc BHead, BHead := BBuf i)"
    "bc_prev (link_front i bc) = (bc_prev bc)(BBuf i := BHead, path_end BHead (rev ys) := BBuf i)"
    using n by (simp_all add: link_front_def set_next_def set_prev_def Let_def)
  show "lpath (bc_next (link_front i bc)) BHead (i # ys) BHead"
  proof -
    have "lpath ((bc_next bc)(BBuf i := bc_next bc BHead, BHead := BBuf i)) (BBuf i) ys BHead =
        lpath (bc_next bc) BHead ys BHead"
      by (rule lpath_restart) (use assms(4) in auto)
    with assms(1) show ?thesis unfolding l by (simp del: fun_upd_apply add: fun_upd_same)
  qed
  have "lpath ((bc_prev bc)(BBuf i := BHead)) BHead (rev ys) BHead" using assms by (subst lpath_upd) auto
  then have "lpath ((bc_prev bc)(BBuf i := BHead, path_end BHead (rev ys) := BBuf i)) BHead (rev ys) (BBuf i)"
    by (rule lpath_retarget) (use assms in auto)
  moreover have "path_end BHead (rev ys) \<noteq> BBuf i" using path_end_in [of BHead "rev ys"] assms(4) by auto
  ultimately show "lpath (bc_prev (link_front i bc)) BHead (rev (i # ys)) BHead"
    unfolding l by (simp add: lpath_snoc)
qed

text \<open>\<open>brelse\<close> moves the buffer to the front.\<close>

lemma lru_move_front:
  assumes "lru bc xs" "i < NBUF"
  shows "lru (link_front i (unlink i bc)) (i # remove1 i xs)"
proof -
  have i: "i \<in> set xs" using assms by (auto simp: lru_def)
  then obtain us vs where xs: "xs = us @ i # vs" "i \<notin> set us" by (meson split_list_first)
  have d: "distinct (us @ i # vs)" using assms(1) by (simp add: lru_def xs)
  note u = lru_unlink [of bc us i vs, OF _ _ d]
  have "lpath (bc_next bc) BHead (us @ i # vs) BHead" "lpath (bc_prev bc) BHead (rev (us @ i # vs)) BHead"
    using assms(1) by (simp_all add: lru_def xs)
  note l = lru_link [OF u(1) [OF this] u(2) [OF this], of i]
  have "remove1 i xs = us @ vs" using xs by (simp add: remove1_append)
  moreover have "set (i # us @ vs) = {..<NBUF}" using assms(1) by (auto simp: lru_def xs)
  ultimately show ?thesis using l d unfolding lru_def by simp
qed

lemma lru_buf [simp]: "lru (bc\<lparr>bc_buf := f\<rparr>) = lru bc"
  by (simp add: lru_def fun_eq_iff)

text \<open>The scans of \<open>bget\<close> look through the list in one direction or the other.\<close>

lemma bscan_path:
  "lpath nxt a xs BHead \<Longrightarrow> length xs < n \<Longrightarrow> bscan n nxt P (nxt a) s = Ok (find P xs) s"
proof (induction xs arbitrary: a n)
  case Nil
  then show ?case by (cases n) (simp_all add: kmonad)
next
  case (Cons x xs)
  then show ?case by (cases n) (simp_all add: kmonad)
qed

lemma lru_scans:
  assumes "lru bc xs"
  shows "bscan (Suc NBUF) (bc_next bc) P (bc_next bc BHead) s = Ok (find P xs) s"
    "bscan (Suc NBUF) (bc_prev bc) P (bc_prev bc BHead) s = Ok (find P (rev xs)) s"
proof -
  have l: "length xs < Suc NBUF" using assms distinct_card [of xs] by (simp add: lru_def)
  show "bscan (Suc NBUF) (bc_next bc) P (bc_next bc BHead) s = Ok (find P xs) s"
    by (rule bscan_path [OF _ l]) (use assms in \<open>simp add: lru_def\<close>)
  show "bscan (Suc NBUF) (bc_prev bc) P (bc_prev bc BHead) s = Ok (find P (rev xs)) s"
    by (rule bscan_path) (use assms l in \<open>simp_all add: lru_def\<close>)
qed

subsection \<open>What the clients see\<close>

record storage =
  st_buf :: "nat \<Rightarrow> buf"
  st_disk :: blocks
  st_hist :: "blocks list"
  st_sl :: "slid \<Rightarrow> sleeplock"
  st_fs :: fsstate

definition store :: "kstate \<Rightarrow> storage" where
  "store s = \<lparr>st_buf = bc_buf (bcache s), st_disk = disk s, st_hist = disk_hist s, st_sl = sleeplocks s,
     st_fs = fs s\<rparr>"

text \<open>Process \<open>p\<close> can use the cache.\<close>

definition ready :: "nat \<Rightarrow> int \<Rightarrow> kstate \<Rightarrow> bool" where
  "ready p pid s \<longleftrightarrow> quiet p pid s \<and> (\<exists>xs. lru (bcache s) xs)"

definition held_sl :: "int \<Rightarrow> sleeplock" where
  "held_sl pid = \<lparr>sl_locked = True, sl_pid = pid\<rparr>"

definition free_sl :: sleeplock where
  "free_sl = \<lparr>sl_locked = False, sl_pid = 0\<rparr>"

definition upd_st_buf :: "nat \<Rightarrow> (buf \<Rightarrow> buf) \<Rightarrow> storage \<Rightarrow> storage" where
  "upd_st_buf i f st = st\<lparr>st_buf := (st_buf st)(i := f (st_buf st i))\<rparr>"

definition has_block :: "u32 \<Rightarrow> u32 \<Rightarrow> storage \<Rightarrow> nat \<Rightarrow> bool" where
  "has_block dev bn st i \<longleftrightarrow> b_dev (st_buf st i) = dev \<and> b_blockno (st_buf st i) = bn"

lemma find_SomeD: "find P xs = Some x \<Longrightarrow> x \<in> set xs \<and> P x"
  by (induction xs) (auto split: if_splits)

lemma find_lru:
  assumes "lru bc xs" "i < NBUF" "P i"
  obtains j where "find P xs = Some j" "j < NBUF" "P j"
proof -
  have "i \<in> set xs" using assms by (simp add: lru_def)
  then have "find P xs \<noteq> None" using assms(3) by (auto simp: find_None_iff)
  then obtain j where j: "find P xs = Some j" by auto
  then have "P j" "j \<in> set xs" by (auto dest: find_SomeD)
  with j assms(1) that show thesis by (auto simp: lru_def)
qed

lemma bget_tail:
  assumes "quiet p pid s" "\<not> sl_locked (sleeplocks s (BufSL i))"
  shows "\<exists>s'. kthen (release BcacheLock) (kthen (acquiresleep (BufSL i)) (kret i))
      (s\<lparr>cpu := push_cpu (cpu s), locks := (\<lambda>_. free_lock)(BcacheLock := held_by (c_id (cpu s))), bcache := bc\<rparr>) = Ok i s' \<and>
    (quiet p pid s') \<and> bcache s' = bc \<and>
    store s' = (store s)\<lparr>st_buf := bc_buf bc, st_sl := (st_sl (store s))(BufSL i := held_sl pid)\<rparr>"
  using assms
  by (simp add: quiet_def kmonad release_held acquiresleep_free store_def held_sl_def)

lemma bget_hit:
  assumes r: "ready p pid s" and i: "i < NBUF" "has_block dev bn (store s) i"
    and one: "\<forall>j < NBUF. has_block dev bn (store s) j \<longrightarrow> j = i"
    and free: "\<not> sl_locked (st_sl (store s) (BufSL i))"
  shows "\<exists>s'. bget dev bn s = Ok i s' \<and> ready p pid s' \<and>
    store s' = (upd_st_buf i (b_refcnt_update (\<lambda>x. x + 1)) (store s))
      \<lparr>st_sl := (st_sl (store s))(BufSL i := held_sl pid)\<rparr>"
proof -
  obtain xs where q: "quiet p pid s" and xs: "lru (bcache s) xs" using r by (auto simp: ready_def)
  let ?P = "\<lambda>i. b_dev (bc_buf (bcache s) i) = dev \<and> b_blockno (bc_buf (bcache s) i) = bn"
  have "find ?P xs = Some i"
    by (rule find_lru [OF xs i(1), of ?P]) (use i(2) one in \<open>auto simp: has_block_def store_def\<close>)
  then have sc: "bscan (Suc NBUF) (bc_next (bcache s)) ?P (bc_next (bcache s) BHead) t = Ok (Some i) t" for t
    using lru_scans(1) [OF xs] by simp
  let ?bc = "(bcache s)\<lparr>bc_buf := (bc_buf (bcache s))(i := b_refcnt_update (\<lambda>x. x + 1) (bc_buf (bcache s) i))\<rparr>"
  have "bget dev bn s = kthen (release BcacheLock) (kthen (acquiresleep (BufSL i)) (kret i))
      (s\<lparr>cpu := push_cpu (cpu s), locks := (\<lambda>_. free_lock)(BcacheLock := held_by (c_id (cpu s))), bcache := ?bc\<rparr>)"
    using q sc by (simp add: bget_def quiet_def acquire_free kmonad upd_buf_def del: bscan.simps)
  with bget_tail [OF q, of i ?bc] free xs show ?thesis
    by (auto simp: ready_def store_def upd_st_buf_def)
qed

lemma bget_miss:
  assumes r: "ready p pid s" and none: "\<forall>j < NBUF. \<not> has_block dev bn (store s) j"
    and k: "k < NBUF" "b_refcnt (st_buf (store s) k) = 0"
    and free: "\<forall>i < NBUF. b_refcnt (st_buf (store s) i) = 0 \<longrightarrow> \<not> sl_locked (st_sl (store s) (BufSL i))"
  shows "\<exists>i s'. bget dev bn s = Ok i s' \<and> ready p pid s' \<and> i < NBUF \<and> b_refcnt (st_buf (store s) i) = 0 \<and>
    store s' = (upd_st_buf i (\<lambda>b. b\<lparr>b_dev := dev, b_blockno := bn, b_valid := False, b_refcnt := 1\<rparr>) (store s))
      \<lparr>st_sl := (st_sl (store s))(BufSL i := held_sl pid)\<rparr>"
proof -
  obtain xs where q: "quiet p pid s" and xs: "lru (bcache s) xs" using r by (auto simp: ready_def)
  let ?P = "\<lambda>i. b_dev (bc_buf (bcache s) i) = dev \<and> b_blockno (bc_buf (bcache s) i) = bn"
  let ?F = "\<lambda>i. b_refcnt (bc_buf (bcache s) i) = 0"
  have "find ?P xs = None"
    using none xs by (auto simp: find_None_iff has_block_def store_def lru_def)
  then have sc: "bscan (Suc NBUF) (bc_next (bcache s)) ?P (bc_next (bcache s) BHead) t = Ok None t" for t
    using lru_scans(1) [OF xs] by simp
  have "k \<in> set (rev xs)" using xs k(1) by (simp add: lru_def)
  then have "find ?F (rev xs) \<noteq> None" using k(2) by (auto simp: find_None_iff store_def)
  then obtain i where i: "find ?F (rev xs) = Some i" by auto
  then have i': "i < NBUF" "?F i" using xs find_SomeD [OF i] by (auto simp: lru_def)
  have sf: "bscan (Suc NBUF) (bc_prev (bcache s)) ?F (bc_prev (bcache s) BHead) t = Ok (Some i) t" for t
    using lru_scans(2) [OF xs] i by simp
  let ?bc = "(bcache s)\<lparr>bc_buf := (bc_buf (bcache s))(i := (bc_buf (bcache s) i)
    \<lparr>b_dev := dev, b_blockno := bn, b_valid := False, b_refcnt := 1\<rparr>)\<rparr>"
  have "bget dev bn s = kthen (release BcacheLock) (kthen (acquiresleep (BufSL i)) (kret i))
      (s\<lparr>cpu := push_cpu (cpu s), locks := (\<lambda>_. free_lock)(BcacheLock := held_by (c_id (cpu s))), bcache := ?bc\<rparr>)"
    using q sc sf by (simp add: bget_def quiet_def acquire_free kmonad upd_buf_def del: bscan.simps)
  with bget_tail [OF q, of i ?bc] free xs i' show ?thesis
    by (auto simp: ready_def store_def upd_st_buf_def)
qed

text \<open>A request on the storage: \<open>blk_key\<close> is where the device keeps a block.\<close>

definition blk_key :: "u32 \<Rightarrow> u64" where
  "blk_key bn = ucast bn"

lemma rw_store:
  assumes "ready p pid s" "b_blockno (st_buf (store s) b) < 2 ^ 31"
  shows "\<exists>s'. virtio_disk_rw b wr s = Ok () s' \<and> ready p pid s' \<and>
    store s' = (store s)
     \<lparr>st_buf := transfer_data b wr (blk_key (b_blockno (st_buf (store s) b))) (st_disk (store s)) (st_buf (store s)),
      st_disk := transfer_disk b wr (blk_key (b_blockno (st_buf (store s) b))) (st_disk (store s)) (st_buf (store s)),
      st_hist := st_disk (store s) # st_hist (store s)\<rparr>"
proof -
  obtain xs where q: "quiet p pid s" and xs: "lru (bcache s) xs" using assms(1) by (auto simp: ready_def)
  obtain P c v where "virtio_disk_rw b wr s = Ok () (s\<lparr>vdisk := v,
     disk := transfer_disk b wr (ucast (b_blockno (bc_buf (bcache s) b))) (disk s) (bc_buf (bcache s)),
     disk_hist := disk s # disk_hist s, cpu := c, procs := P,
     bcache := (bcache s)\<lparr>bc_buf := transfer_data b wr (ucast (b_blockno (bc_buf (bcache s) b))) (disk s)
       (bc_buf (bcache s))\<rparr>\<rparr>)" "quiet p pid (s\<lparr>vdisk := v, cpu := c, procs := P\<rparr>)"
    using virtio_disk_rw_ok [OF q, of b wr] assms(2) by (auto simp: store_def)
  with xs show ?thesis by (auto simp: ready_def store_def blk_key_def quiet_def)
qed

definition brelsed :: "nat \<Rightarrow> storage \<Rightarrow> storage" where
  "brelsed b st = (upd_st_buf b (b_refcnt_update (\<lambda>x. x - 1)) st)\<lparr>st_sl := (st_sl st)(BufSL b := free_sl)\<rparr>"

lemma brelse_store:
  assumes "ready p pid s" "b < NBUF" "st_sl (store s) (BufSL b) = held_sl pid"
  shows "\<exists>s'. brelse b s = Ok () s' \<and> ready p pid s' \<and> store s' = brelsed b (store s)"
proof -
  obtain xs where q: "quiet p pid s" and xs: "lru (bcache s) xs" using assms(1) by (auto simp: ready_def)
  let ?rel = "woken {..<NPROC} (ChanSleep (BufSL b)) (Some p) (procs s)"
  let ?sl = "(sleeplocks s)(BufSL b := free_sl)"
  let ?buf = "(bc_buf (bcache s))(b := b_refcnt_update (\<lambda>x. x - 1) (bc_buf (bcache s) b))"
  let ?bc = "(bcache s)\<lparr>bc_buf := ?buf\<rparr>"
  let ?bc' = "if b_refcnt (?buf b) = 0 then link_front b (unlink b ?bc) else ?bc"
  have "\<exists>ys. lru ?bc' ys" using lru_move_front [of ?bc xs b] xs assms(2) by auto
  moreover have "bc_buf ?bc' = ?buf"
    by (simp add: link_front_def unlink_def set_next_def set_prev_def Let_def)
  moreover have h: "holdingsleep (BufSL b) s = Ok True (s\<lparr>cpu := settle (cpu s)\<rparr>)"
    using q assms(3) by (simp add: holdingsleep_apply [of _ _ p] quiet_def store_def held_sl_def)
  moreover have "releasesleep (BufSL b) (s\<lparr>cpu := settle (cpu s)\<rparr>) =
      Ok () (s\<lparr>cpu := settle (cpu s), sleeplocks := ?sl, procs := ?rel\<rparr>)"
    using q releasesleep_apply [of "s\<lparr>cpu := settle (cpu s)\<rparr>" "BufSL b"]
    by (simp add: quiet_def proc_locks_free_def free_sl_def)
  ultimately have "brelse b s = Ok () (s\<lparr>cpu := settle (cpu s), sleeplocks := ?sl, procs := ?rel, bcache := ?bc'\<rparr>)"
    using q by (simp add: brelse_def kmonad acquire_free release_held upd_buf_def upd_bcache_def quiet_def)
  with \<open>\<exists>ys. lru ?bc' ys\<close> \<open>bc_buf ?bc' = ?buf\<close> q show ?thesis
    by (auto simp: ready_def quiet_def store_def brelsed_def upd_st_buf_def)
qed

text \<open>
  What \<open>bread\<close> does: buffer \<open>b\<close> holds the block, locked for the caller; it had the block before or
  nobody referred to it and no buffer had the block.
\<close>

definition got :: "int \<Rightarrow> u32 \<Rightarrow> u32 \<Rightarrow> storage \<Rightarrow> nat \<Rightarrow> storage \<Rightarrow> bool" where
  "got pid dev bn st b st' \<longleftrightarrow> b < NBUF \<and> \<not> sl_locked (st_sl st (BufSL b)) \<and>
     st_disk st' = st_disk st \<and> st_fs st' = st_fs st \<and>
     st_hist st' \<in> {st_hist st, st_disk st # st_hist st} \<and>
     st_sl st' = (st_sl st)(BufSL b := held_sl pid) \<and> (\<forall>i. i \<noteq> b \<longrightarrow> st_buf st' i = st_buf st i) \<and>
     has_block dev bn st' b \<and> b_valid (st_buf st' b) \<and>
     b_data (st_buf st' b) = (if has_block dev bn st b \<and> b_valid (st_buf st b) then b_data (st_buf st b)
       else st_disk st (blk_key bn)) \<and>
     (if has_block dev bn st b then b_refcnt (st_buf st' b) = b_refcnt (st_buf st b) + 1
      else b_refcnt (st_buf st b) = 0 \<and> b_refcnt (st_buf st' b) = 1 \<and> (\<forall>j < NBUF. \<not> has_block dev bn st j))"

lemma bread_after_bget:
  assumes g: "bget dev bn s = Ok b s1" and r: "ready p pid s1"
    and h: "has_block dev bn (store s1) b" and bn: "bn < 2 ^ 31"
  shows "\<exists>s'. bread dev bn s = Ok b s' \<and> ready p pid s' \<and>
    (if b_valid (st_buf (store s1) b) then store s' = store s1
     else store s' = (upd_st_buf b (\<lambda>x. x\<lparr>b_data := st_disk (store s1) (blk_key bn), b_disk := False, b_valid := True\<rparr>)
       (store s1))\<lparr>st_hist := st_disk (store s1) # st_hist (store s1)\<rparr>)"
proof (cases "b_valid (st_buf (store s1) b)")
  case True
  with g r show ?thesis by (simp add: bread_def kmonad store_def)
next
  case False
  from h have "b_blockno (st_buf (store s1) b) = bn" by (simp add: has_block_def)
  with rw_store [OF r, of b False] bn obtain s2 where s2: "virtio_disk_rw b False s1 = Ok () s2" "ready p pid s2"
    "store s2 = (store s1)
     \<lparr>st_buf := transfer_data b False (blk_key bn) (st_disk (store s1)) (st_buf (store s1)),
      st_disk := transfer_disk b False (blk_key bn) (st_disk (store s1)) (st_buf (store s1)),
      st_hist := st_disk (store s1) # st_hist (store s1)\<rparr>"
    by auto
  let ?s3 = "upd_buf b (b_valid_update (\<lambda>_. True)) s2"
  have "bread dev bn s = Ok b ?s3" using g s2(1) False by (simp add: bread_def kmonad store_def)
  moreover have "ready p pid ?s3" using s2(2) by (simp add: ready_def quiet_def upd_buf_def)
  moreover have "store ?s3 = upd_st_buf b (b_valid_update (\<lambda>_. True)) (store s2)"
    by (simp add: store_def upd_buf_def upd_st_buf_def)
  ultimately show ?thesis using False
    by (simp add: s2(3) upd_st_buf_def transfer_data_def transfer_disk_def)
qed

lemma bread_store:
  assumes r: "ready p pid s" and bn: "bn < 2 ^ 31"
    and one: "\<forall>i < NBUF. \<forall>j < NBUF. has_block dev bn (store s) i \<longrightarrow> has_block dev bn (store s) j \<longrightarrow> i = j"
    and hit: "\<forall>i < NBUF. has_block dev bn (store s) i \<longrightarrow> \<not> sl_locked (st_sl (store s) (BufSL i))"
    and free: "\<forall>i < NBUF. b_refcnt (st_buf (store s) i) = 0 \<longrightarrow> \<not> sl_locked (st_sl (store s) (BufSL i))"
    and ex: "\<exists>i < NBUF. has_block dev bn (store s) i \<or> b_refcnt (st_buf (store s) i) = 0"
  shows "\<exists>b s'. bread dev bn s = Ok b s' \<and> ready p pid s' \<and> got pid dev bn (store s) b (store s')"
proof (cases "\<exists>i < NBUF. has_block dev bn (store s) i")
  case True
  then obtain i where i: "i < NBUF" "has_block dev bn (store s) i" by blast
  with bget_hit [OF r i] one hit obtain s1 where s1: "bget dev bn s = Ok i s1" "ready p pid s1"
    "store s1 = (upd_st_buf i (b_refcnt_update (\<lambda>x. x + 1)) (store s))
      \<lparr>st_sl := (st_sl (store s))(BufSL i := held_sl pid)\<rparr>"
    by blast
  have h: "has_block dev bn (store s1) i" using i(2) by (simp add: has_block_def s1(3) upd_st_buf_def)
  obtain s' where s': "bread dev bn s = Ok i s'" "ready p pid s'"
    "if b_valid (st_buf (store s1) i) then store s' = store s1
     else store s' = (upd_st_buf i (\<lambda>x. x\<lparr>b_data := st_disk (store s1) (blk_key bn), b_disk := False, b_valid := True\<rparr>)
       (store s1))\<lparr>st_hist := st_disk (store s1) # st_hist (store s1)\<rparr>"
    using bread_after_bget [OF s1(1,2) h bn] by blast
  have "got pid dev bn (store s) i (store s')"
    using s'(3) i hit by (auto simp: got_def s1(3) upd_st_buf_def has_block_def split: if_splits)
  with s' show ?thesis by blast
next
  case False
  with ex obtain k where k: "k < NBUF" "b_refcnt (st_buf (store s) k) = 0" by blast
  with bget_miss [OF r, of dev bn k] False free obtain i s1 where s1: "bget dev bn s = Ok i s1" "ready p pid s1"
    "store s1 = (upd_st_buf i (\<lambda>b. b\<lparr>b_dev := dev, b_blockno := bn, b_valid := False, b_refcnt := 1\<rparr>) (store s))
      \<lparr>st_sl := (st_sl (store s))(BufSL i := held_sl pid)\<rparr>"
    and i: "i < NBUF" "b_refcnt (st_buf (store s) i) = 0"
    by blast
  have h: "has_block dev bn (store s1) i" by (simp add: has_block_def s1(3) upd_st_buf_def)
  obtain s' where s': "bread dev bn s = Ok i s'" "ready p pid s'"
    "if b_valid (st_buf (store s1) i) then store s' = store s1
     else store s' = (upd_st_buf i (\<lambda>x. x\<lparr>b_data := st_disk (store s1) (blk_key bn), b_disk := False, b_valid := True\<rparr>)
       (store s1))\<lparr>st_hist := st_disk (store s1) # st_hist (store s1)\<rparr>"
    using bread_after_bget [OF s1(1,2) h bn] by blast
  have "got pid dev bn (store s) i (store s')"
    using s'(3) i free False by (auto simp: got_def s1(3) upd_st_buf_def has_block_def split: if_splits)
  with s' show ?thesis by blast
qed

text \<open>A write of a buffer the caller holds.\<close>

lemma bwrite_store:
  assumes "ready p pid s" "st_sl (store s) (BufSL b) = held_sl pid" "b_blockno (st_buf (store s) b) < 2 ^ 31"
  shows "\<exists>s'. bwrite b s = Ok () s' \<and> ready p pid s' \<and> store s' = (upd_st_buf b (b_disk_update (\<lambda>_. False)) (store s))
    \<lparr>st_disk := (st_disk (store s))(blk_key (b_blockno (st_buf (store s) b)) := b_data (st_buf (store s) b)),
     st_hist := st_disk (store s) # st_hist (store s)\<rparr>"
proof -
  let ?s = "s\<lparr>cpu := settle (cpu s)\<rparr>"
  have "holdingsleep (BufSL b) s = Ok True ?s"
    using assms(1,2) by (simp add: holdingsleep_apply [of _ _ p] ready_def quiet_def store_def held_sl_def)
  then have w: "bwrite b s = virtio_disk_rw b True ?s" by (simp add: bwrite_def kmonad)
  have "ready p pid ?s" "store ?s = store s" using assms(1) by (simp_all add: ready_def quiet_def store_def)
  with rw_store [of p pid ?s b True] assms(3) show ?thesis
    by (auto simp: w upd_st_buf_def transfer_data_def transfer_disk_def)
qed

lemma pin_store:
  assumes "ready p pid s"
  shows "\<exists>s'. bpin b s = Ok () s' \<and> ready p pid s' \<and> store s' = upd_st_buf b (b_refcnt_update (\<lambda>x. x + 1)) (store s)"
    "\<exists>s'. bunpin b s = Ok () s' \<and> ready p pid s' \<and> store s' = upd_st_buf b (b_refcnt_update (\<lambda>x. x - 1)) (store s)"
  using assms
  by (simp_all add: bpin_def bunpin_def kmonad acquire_free release_held upd_buf_def ready_def quiet_def store_def
      upd_st_buf_def)

end
