(* ===== verification/Logrec.thy ===== *)
theory Logrec
  imports Log Bcache
begin

text \<open>
  The commit of a transaction. \<open>at_rest\<close> describes the cache between two operations of the
  log: no buffer is locked, the blocks of the transaction are pinned and hold their new contents, every other
  cached block is as on the disk. \<open>commit_atomic\<close> follows the disk through \<open>commit\<close> and shows that
  whatever it holds at any moment, replaying the log on it gives all of the transaction or nothing.
\<close>

subsection \<open>The cache between operations\<close>

definition at_rest :: "u32 \<Rightarrow> u32 set \<Rightarrow> (u32 \<Rightarrow> u8 list) \<Rightarrow> storage \<Rightarrow> bool" where
  "at_rest dev L N st \<longleftrightarrow>
     (\<forall>i < NBUF. \<not> sl_locked (st_sl st (BufSL i))) \<and>
     (\<forall>i < NBUF. \<forall>j < NBUF. \<forall>bn. has_block dev bn st i \<longrightarrow> has_block dev bn st j \<longrightarrow> i = j) \<and>
     (\<forall>i < NBUF. b_refcnt (st_buf st i) = (if \<exists>bn \<in> L. has_block dev bn st i then 1 else 0)) \<and>
     (\<forall>bn \<in> L. \<exists>i < NBUF. has_block dev bn st i \<and> b_valid (st_buf st i) \<and> b_data (st_buf st i) = N bn) \<and>
     (\<forall>i < NBUF. \<forall>bn. has_block dev bn st i \<longrightarrow> b_valid (st_buf st i) \<longrightarrow> bn \<notin> L \<longrightarrow>
        b_data (st_buf st i) = st_disk st (blk_key bn))"

lemma blk_key_eq [simp]: "blk_key a = blk_key b \<longleftrightarrow> a = b"
proof -
  have "unat (ucast x :: u64) = unat x" for x :: u32
  proof -
    have "unat x < 2 ^ 64" by (rule order_less_le_trans [OF unsigned_less]) simp
    then show ?thesis by (simp add: unsigned_ucast_eq take_bit_nat_def)
  qed
  then show ?thesis unfolding blk_key_def by (metis word_unat_eq_iff)
qed

lemma has_block_fun: "has_block dev bn st i \<Longrightarrow> has_block dev bn' st i \<longleftrightarrow> bn' = bn"
  by (auto simp: has_block_def)

lemma at_restD:
  assumes "at_rest dev L N st" "i < NBUF"
  shows "\<not> sl_locked (st_sl st (BufSL i))"
    "j < NBUF \<Longrightarrow> has_block dev bn st i \<Longrightarrow> has_block dev bn st j \<Longrightarrow> i = j"
    "bn \<in> L \<Longrightarrow> has_block dev bn st i \<Longrightarrow> b_refcnt (st_buf st i) = 1"
    "b_refcnt (st_buf st i) \<noteq> 0 \<Longrightarrow> \<exists>bn \<in> L. has_block dev bn st i"
    "bn \<notin> L \<Longrightarrow> has_block dev bn st i \<Longrightarrow> b_refcnt (st_buf st i) = 0"
    "has_block dev bn st i \<Longrightarrow> b_valid (st_buf st i) \<Longrightarrow> bn \<notin> L \<Longrightarrow> b_data (st_buf st i) = st_disk st (blk_key bn)"
proof -
  have c: "b_refcnt (st_buf st i) = (if \<exists>bn \<in> L. has_block dev bn st i then 1 else 0)"
    using assms unfolding at_rest_def by blast
  show "b_refcnt (st_buf st i) \<noteq> 0 \<Longrightarrow> \<exists>bn \<in> L. has_block dev bn st i"
    and "bn \<in> L \<Longrightarrow> has_block dev bn st i \<Longrightarrow> b_refcnt (st_buf st i) = 1"
    using c by (auto split: if_splits)
  show "bn \<notin> L \<Longrightarrow> has_block dev bn st i \<Longrightarrow> b_refcnt (st_buf st i) = 0"
    using c has_block_fun by (auto split: if_splits)
qed (use assms in \<open>unfold at_rest_def, blast+\<close>)

lemma at_rest_pinned:
  assumes "at_rest dev L N st" "bn \<in> L"
  obtains i where "i < NBUF" "has_block dev bn st i" "b_valid (st_buf st i)" "b_data (st_buf st i) = N bn"
  using assms unfolding at_rest_def by blast

lemma rest_free:
  assumes r: "at_rest dev L N st" and "finite L" "card L < NBUF"
  shows "\<exists>i < NBUF. b_refcnt (st_buf st i) = 0"
proof (rule ccontr)
  let ?f = "\<lambda>i. b_blockno (st_buf st i)"
  assume "\<not> ?thesis"
  then have "\<exists>bn \<in> L. has_block dev bn st i" if "i < NBUF" for i using at_restD(4) [OF r that] that by blast
  then have f: "?f i \<in> L \<and> has_block dev (?f i) st i" if "i < NBUF" for i using that by (force simp: has_block_def)
  have "inj_on ?f {..<NBUF}"
  proof (rule inj_onI)
    fix i j
    assume ij: "i \<in> {..<NBUF}" "j \<in> {..<NBUF}" "?f i = ?f j"
    show "i = j" by (rule at_restD(2) [OF r, where bn = "?f i"]) (use ij f [of i] f [of j] in auto)
  qed
  then have "card (?f ` {..<NBUF}) = NBUF" by (simp add: card_image)
  moreover have "?f ` {..<NBUF} \<subseteq> L" using f by blast
  ultimately show False using card_mono [OF assms(2), of "?f ` {..<NBUF}"] assms(3) by linarith
qed

text \<open>The fields of a buffer that matter.\<close>

definition same_buf :: "buf \<Rightarrow> buf \<Rightarrow> bool" where
  "same_buf a b \<longleftrightarrow> b_dev a = b_dev b \<and> b_blockno a = b_blockno b \<and> b_valid a = b_valid b \<and>
     b_refcnt a = b_refcnt b \<and> b_data a = b_data b"

lemma rest_replace:
  assumes r: "at_rest dev L N st" and t: "t < NBUF" "b_refcnt (st_buf st t) = 0"
    and was: "has_block dev bn st t \<or> (\<forall>j < NBUF. \<not> has_block dev bn st j)" and bn: "bn \<notin> L"
    and oth: "\<forall>i < NBUF. i \<noteq> t \<longrightarrow> same_buf (st_buf st' i) (st_buf st i)"
    and new: "has_block dev bn st' t" "b_refcnt (st_buf st' t) = 0" "b_data (st_buf st' t) = st_disk st' (blk_key bn)"
    and dsk: "\<forall>x. x \<noteq> blk_key bn \<longrightarrow> st_disk st' x = st_disk st x"
    and sl: "\<forall>i < NBUF. \<not> sl_locked (st_sl st' (BufSL i))"
  shows "at_rest dev L N st'"
proof -
  have h: "has_block dev b st' i = has_block dev b st i" if "i < NBUF" "i \<noteq> t" for i b
    using oth that by (auto simp: has_block_def same_buf_def)
  have ht: "has_block dev b st' t \<longleftrightarrow> b = bn" for b by (rule has_block_fun [OF new(1)])
  have no: "\<not> has_block dev bn st i" if "i < NBUF" "i \<noteq> t" for i
    using was that at_restD(2) [OF r that(1) t(1)] by blast
  have nl: "\<not> has_block dev b st t" if "b \<in> L" for b
    using t at_restD(3) [OF r t(1) that] by auto
  have 1: "i = j" if "i < NBUF" "j < NBUF" "has_block dev b st' i" "has_block dev b st' j" for i j b
    using that h ht no at_restD(2) [OF r that(1,2)] by metis
  have 2: "b_refcnt (st_buf st' i) = (if \<exists>b \<in> L. has_block dev b st' i then 1 else 0)" if "i < NBUF" for i
  proof (cases "i = t")
    case True
    with new(2) ht bn show ?thesis by auto
  next
    case False
    have "b_refcnt (st_buf st' i) = b_refcnt (st_buf st i)" using oth that False by (simp add: same_buf_def)
    moreover have "(\<exists>b \<in> L. has_block dev b st' i) = (\<exists>b \<in> L. has_block dev b st i)" using h that False by blast
    ultimately show ?thesis using at_restD(3,4) [OF r that] by (metis (full_types))
  qed
  have 3: "\<exists>i < NBUF. has_block dev b st' i \<and> b_valid (st_buf st' i) \<and> b_data (st_buf st' i) = N b" if bL: "b \<in> L" for b
  proof -
    obtain i where i: "i < NBUF" "has_block dev b st i" "b_valid (st_buf st i)" "b_data (st_buf st i) = N b"
      by (rule at_rest_pinned [OF r bL])
    have "i \<noteq> t" using nl [OF bL] i(2) by auto
    with i h oth show ?thesis by (auto simp: same_buf_def)
  qed
  have 4: "b_data (st_buf st' i) = st_disk st' (blk_key b)"
    if "i < NBUF" "has_block dev b st' i" "b_valid (st_buf st' i)" "b \<notin> L" for i b
  proof (cases "i = t")
    case True
    with that(2) ht new(3) show ?thesis by simp
  next
    case False
    with that h no have "has_block dev b st i" "b \<noteq> bn" by auto
    with that False oth at_restD(6) [OF r that(1)] dsk show ?thesis by (auto simp: same_buf_def)
  qed
  show ?thesis unfolding at_rest_def using 1 2 3 4 sl by blast
qed

text \<open>A pinned block that has been written to its place is unpinned.\<close>

lemma rest_unpin:
  assumes r: "at_rest dev L N st" and f: "f < NBUF" "has_block dev bn st f" and bn: "bn \<in> L"
    and oth: "\<forall>i < NBUF. i \<noteq> f \<longrightarrow> same_buf (st_buf st' i) (st_buf st i)"
    and new: "has_block dev bn st' f" "b_refcnt (st_buf st' f) = 0" "b_data (st_buf st' f) = st_disk st' (blk_key bn)"
    and dsk: "\<forall>x. x \<noteq> blk_key bn \<longrightarrow> st_disk st' x = st_disk st x"
    and sl: "\<forall>i < NBUF. \<not> sl_locked (st_sl st' (BufSL i))"
  shows "at_rest dev (L - {bn}) N st'"
proof -
  have h: "has_block dev b st' i = has_block dev b st i" if "i < NBUF" for i b
    using oth that new(1) f(2) by (cases "i = f") (auto simp: has_block_def same_buf_def)
  have no: "b \<noteq> bn" if "i < NBUF" "i \<noteq> f" "has_block dev b st i" for i b
    using that at_restD(2) [OF r f(1) that(1) f(2)] by blast
  have ff: "b = bn" if "has_block dev b st f" for b using has_block_fun [OF f(2)] that by blast
  have 2: "b_refcnt (st_buf st' i) = (if \<exists>b \<in> L - {bn}. has_block dev b st' i then 1 else 0)" if "i < NBUF" for i
  proof (cases "i = f")
    case True
    with new(2) h ff f(1) show ?thesis by auto
  next
    case False
    have "b_refcnt (st_buf st' i) = b_refcnt (st_buf st i)" using oth that False by (simp add: same_buf_def)
    moreover have "(\<exists>b \<in> L - {bn}. has_block dev b st' i) = (\<exists>b \<in> L. has_block dev b st i)"
      using h no that False by blast
    ultimately show ?thesis using at_restD(3,4) [OF r that] by (metis (full_types))
  qed
  have 3: "\<exists>i < NBUF. has_block dev b st' i \<and> b_valid (st_buf st' i) \<and> b_data (st_buf st' i) = N b"
    if bL: "b \<in> L - {bn}" for b
  proof -
    obtain i where i: "i < NBUF" "has_block dev b st i" "b_valid (st_buf st i)" "b_data (st_buf st i) = N b"
      by (rule at_rest_pinned [OF r, of b]) (use bL in auto)
    have "i \<noteq> f" using ff i(2) bL by auto
    with i h oth show ?thesis by (auto simp: same_buf_def)
  qed
  have 4: "b_data (st_buf st' i) = st_disk st' (blk_key b)"
    if "i < NBUF" "has_block dev b st' i" "b_valid (st_buf st' i)" "b \<notin> L - {bn}" for i b
  proof (cases "i = f")
    case True
    with that(1,2) h ff new(3) show ?thesis by auto
  next
    case False
    with that h no have "has_block dev b st i" "b \<noteq> bn" by auto
    with that False oth at_restD(6) [OF r that(1)] dsk show ?thesis by (auto simp: same_buf_def)
  qed
  have 1: "i = j" if "i < NBUF" "j < NBUF" "has_block dev b st' i" "has_block dev b st' j" for i j b
    using that h at_restD(2) [OF r that(1,2)] by blast
  show ?thesis unfolding at_rest_def using 1 2 3 4 sl by blast
qed

subsection \<open>Reading blocks\<close>

text \<open>What the disk has been in between is in \<open>G\<close>.\<close>

definition during :: "blocks set \<Rightarrow> storage \<Rightarrow> storage \<Rightarrow> bool" where
  "during G st st' \<longleftrightarrow> (\<exists>h. st_hist st' = h @ st_hist st \<and> set h \<subseteq> G)"

lemma during_refl [simp]: "during G st st"
  by (simp add: during_def)

lemma during_trans: "during G a b \<Longrightarrow> during G b c \<Longrightarrow> during G a c"
proof -
  assume "during G a b" "during G b c"
  then obtain h k where "st_hist b = h @ st_hist a" "st_hist c = k @ st_hist b" "set h \<subseteq> G" "set k \<subseteq> G"
    by (auto simp: during_def)
  then show ?thesis unfolding during_def by (intro exI [of _ "k @ h"]) simp
qed

lemma during_mono: "during G a b \<Longrightarrow> G \<subseteq> H \<Longrightarrow> during H a b"
  unfolding during_def by blast

lemma got_during: "got pid dev bn st b st' \<Longrightarrow> during {st_disk st} st st'"
  by (auto simp: got_def during_def)

lemma rest_bread:
  assumes r: "ready p pid s" and a: "at_rest dev L N (store s)" and L: "finite L" "card L < NBUF" "bn \<notin> L"
    and bn: "bn < 2 ^ 31"
  shows "\<exists>b s'. bread dev bn s = Ok b s' \<and> ready p pid s' \<and> got pid dev bn (store s) b (store s') \<and>
    b_data (st_buf (store s') b) = st_disk (store s) (blk_key bn) \<and>
    b_refcnt (st_buf (store s) b) = 0 \<and> b_refcnt (st_buf (store s') b) = 1"
proof -
  have "\<exists>b s'. bread dev bn s = Ok b s' \<and> ready p pid s' \<and> got pid dev bn (store s) b (store s')"
    by (rule bread_store [OF r bn]) (use at_restD(1,2) [OF a] rest_free [OF a L(1,2)] in blast)+
  then obtain b s' where g: "bread dev bn s = Ok b s'" "ready p pid s'" "got pid dev bn (store s) b (store s')" by blast
  have b: "b < NBUF" using g(3) by (simp add: got_def)
  from g at_restD(5,6) [OF a b] L(3) show ?thesis by (auto simp: got_def split: if_splits)
qed

lemma got_bread_pinned:
  assumes r: "ready p pid s" and a: "at_rest dev L N st" and g: "got pid dev bn st t (store s)"
    and L: "bn \<notin> L" "home \<in> L" "home < 2 ^ 31"
  shows "\<exists>f s'. bread dev home s = Ok f s' \<and> ready p pid s' \<and> got pid dev home (store s) f (store s') \<and>
    f \<noteq> t \<and> f < NBUF \<and> has_block dev home st f \<and> b_valid (st_buf st f) \<and> b_data (st_buf st f) = N home \<and>
    b_data (st_buf (store s') f) = N home \<and> b_refcnt (st_buf st f) = 1 \<and> b_refcnt (st_buf (store s') f) = 2"
proof -
  have t: "t < NBUF" "has_block dev bn (store s) t" using g by (simp_all add: got_def)
  have same: "st_buf (store s) i = st_buf st i" if "i \<noteq> t" for i using g that by (simp add: got_def)
  have h: "has_block dev b (store s) i = has_block dev b st i" if "i \<noteq> t" for i b
    using same [OF that] by (simp add: has_block_def)
  have ht: "\<not> has_block dev home (store s) t" using has_block_fun [OF t(2)] L by auto
  obtain f where f: "f < NBUF" "has_block dev home st f" "b_valid (st_buf st f)" "b_data (st_buf st f) = N home"
    by (rule at_rest_pinned [OF a L(2)])
  have r1: "b_refcnt (st_buf st f) = 1" by (rule at_restD(3) [OF a f(1) L(2) f(2)])
  have ft: "f \<noteq> t"
  proof
    assume "f = t"
    with g f(2) r1 has_block_fun [OF f(2), of bn] L show False by (auto simp: got_def split: if_splits)
  qed
  have rt: "b_refcnt (st_buf (store s) t) \<noteq> 0"
    using g at_restD(5) [OF a t(1) L(1)] by (auto simp: got_def split: if_splits)
  have sl: "st_sl (store s) (BufSL i) = st_sl st (BufSL i)" if "i \<noteq> t" for i using g that by (simp add: got_def)
  have "\<exists>b s'. bread dev home s = Ok b s' \<and> ready p pid s' \<and> got pid dev home (store s) b (store s')"
  proof (rule bread_store [OF r L(3)])
    show "\<forall>i < NBUF. \<forall>j < NBUF. has_block dev home (store s) i \<longrightarrow> has_block dev home (store s) j \<longrightarrow> i = j"
      using ht h at_restD(2) [OF a] by metis
    show "\<forall>i < NBUF. has_block dev home (store s) i \<longrightarrow> \<not> sl_locked (st_sl (store s) (BufSL i))"
      using ht sl at_restD(1) [OF a] by metis
    show "\<forall>i < NBUF. b_refcnt (st_buf (store s) i) = 0 \<longrightarrow> \<not> sl_locked (st_sl (store s) (BufSL i))"
      using rt sl at_restD(1) [OF a] by metis
    show "\<exists>i < NBUF. has_block dev home (store s) i \<or> b_refcnt (st_buf (store s) i) = 0"
      using f h ft by blast
  qed
  then obtain b s' where b: "bread dev home s = Ok b s'" "ready p pid s'" "got pid dev home (store s) b (store s')" by blast
  have "has_block dev home (store s) b"
  proof (rule ccontr)
    assume "\<not> ?thesis"
    with b(3) have "\<forall>j < NBUF. \<not> has_block dev home (store s) j" by (simp add: got_def)
    with f h ft show False by blast
  qed
  moreover have "b < NBUF" using b(3) by (simp add: got_def)
  ultimately have "b = f" using ht h [of b] at_restD(2) [OF a, of b f home] f by metis
  with b f r1 ft same [OF ft] h [OF ft] show ?thesis by (auto simp: got_def)
qed


subsection \<open>One block of the log\<close>

lemma copy_store:
  assumes "ready p pid s"
  shows "copy_buf to from s = Ok () (upd_buf to (b_data_update (\<lambda>_. b_data (bc_buf (bcache s) from))) s)"
    "ready p pid (upd_buf to f s)" "store (upd_buf to f s) = upd_st_buf to f (store s)"
  using assms
  by (simp_all add: copy_buf_def buf_data_def set_data_def kmonad ready_def quiet_def upd_buf_def store_def upd_st_buf_def)

lemma log_get_store: "log_get f s = Ok (f (fs_log (st_fs (store s)))) s"
  by (simp add: log_get_def kmonad store_def)

text \<open>
  \<open>write_log\<close> copies the new contents of a block to its place in the log; the transaction stays in
  the cache.
\<close>

lemma write_log_one_ok:
  assumes r: "ready p pid s" and a: "at_rest dev L N (store s)" and L: "finite L" "card L < NBUF"
    and l: "fs_log (st_fs (store s)) = l" "lg_dev l = dev" "lg_block l tail = home" "home \<in> L" "home < 2 ^ 31"
    and b: "word_of_int (lg_start l + int tail + 1) = bn" "bn \<notin> L" "bn < 2 ^ 31"
  shows "\<exists>s'. write_log_one tail s = Ok None s' \<and> ready p pid s' \<and> at_rest dev L N (store s') \<and>
    st_fs (store s') = st_fs (store s) \<and> st_disk (store s') = (st_disk (store s))(blk_key bn := N home) \<and>
    during {st_disk (store s)} (store s) (store s')"
proof -
  let ?st = "store s"
  obtain t s1 where 1: "bread dev bn s = Ok t s1" "ready p pid s1" "got pid dev bn ?st t (store s1)"
    "b_refcnt (st_buf ?st t) = 0" "b_refcnt (st_buf (store s1) t) = 1"
    using rest_bread [OF r a L b(2,3)] by blast
  obtain f s2 where 2: "bread dev home s1 = Ok f s2" "ready p pid s2" "got pid dev home (store s1) f (store s2)"
    and f: "f \<noteq> t" "f < NBUF" "has_block dev home ?st f" "b_valid (st_buf ?st f)" "b_data (st_buf ?st f) = N home"
      "b_data (st_buf (store s2) f) = N home" "b_refcnt (st_buf ?st f) = 1" "b_refcnt (st_buf (store s2) f) = 2"
    using got_bread_pinned [OF 1(2) a 1(3) b(2) l(4,5)] by blast
  let ?s3 = "upd_buf t (b_data_update (\<lambda>_. N home)) s2"
  let ?st3 = "upd_st_buf t (b_data_update (\<lambda>_. N home)) (store s2)"
  have 3: "copy_buf t f s2 = Ok () ?s3" "ready p pid ?s3" "store ?s3 = ?st3"
    using copy_store [OF 2(2)] f(6) by (simp_all add: store_def)
  have t: "t < NBUF" "has_block dev bn (store s2) t" "b_refcnt (st_buf (store s2) t) = 1"
    "st_sl (store s2) (BufSL t) = held_sl pid" "st_sl (store s2) (BufSL f) = held_sl pid"
    using 1(3,5) 2(3) f(1) by (simp_all add: got_def has_block_def)
  obtain s4 where 4: "bwrite t ?s3 = Ok () s4" "ready p pid s4"
    "store s4 = (upd_st_buf t (b_disk_update (\<lambda>_. False)) ?st3)
      \<lparr>st_disk := (st_disk ?st3)(blk_key bn := N home), st_hist := st_disk ?st3 # st_hist ?st3\<rparr>"
    using bwrite_store [OF 3(2), of t] t b(3) by (auto simp: 3(3) upd_st_buf_def has_block_def)
  obtain s5 where 5: "brelse f s4 = Ok () s5" "ready p pid s5" "store s5 = brelsed f (store s4)"
    using brelse_store [OF 4(2) f(2)] t(5) by (auto simp: 4(3) upd_st_buf_def)
  obtain s6 where 6: "brelse t s5 = Ok () s6" "ready p pid s6" "store s6 = brelsed t (store s5)"
    using brelse_store [OF 5(2) t(1)] t(4) f(1) by (auto simp: 5(3) 4(3) upd_st_buf_def brelsed_def)
  have run: "write_log_one tail s = Ok None s6"
    using 1(1) 2(1) 3(1) 4(1) 5(1) 6(1) l b(1) by (simp add: write_log_one_def kmonad log_get_store)
  note st = 6(3) 5(3) 4(3) brelsed_def upd_st_buf_def
  have d2: "st_disk (store s2) = st_disk ?st" "st_fs (store s2) = st_fs ?st" using 1(3) 2(3) by (simp_all add: got_def)
  have "at_rest dev L N (store s6)"
  proof (rule rest_replace [OF a t(1) 1(4) _ b(2)])
    show "has_block dev bn ?st t \<or> (\<forall>j < NBUF. \<not> has_block dev bn ?st j)"
      using 1(3) by (auto simp: got_def split: if_splits)
    show "has_block dev bn (store s6) t" "b_refcnt (st_buf (store s6) t) = 0"
      "b_data (st_buf (store s6) t) = st_disk (store s6) (blk_key bn)"
      using t f(1) by (simp_all add: st has_block_def)
    show "\<forall>x. x \<noteq> blk_key bn \<longrightarrow> st_disk (store s6) x = st_disk ?st x" by (simp add: st d2)
    show "\<forall>i < NBUF. \<not> sl_locked (st_sl (store s6) (BufSL i))"
      using at_restD(1) [OF a] 1(3) 2(3) by (simp add: st got_def free_sl_def)
    show "\<forall>i < NBUF. i \<noteq> t \<longrightarrow> same_buf (st_buf (store s6) i) (st_buf ?st i)"
      using 1(3) 2(3) f by (auto simp: st got_def same_buf_def has_block_def)
  qed
  moreover have "during {st_disk ?st} ?st (store s6)"
  proof (rule during_trans)
    show "during {st_disk ?st} ?st (store s1)" by (rule got_during [OF 1(3)])
    have "during {st_disk ?st} (store s1) (store s2)" using got_during [OF 2(3)] 1(3) by (simp add: got_def)
    then show "during {st_disk ?st} (store s1) (store s6)"
      by (rule during_trans) (simp add: st during_def d2)
  qed
  ultimately show ?thesis using run 6(2) by (simp add: st d2)
qed

text \<open>
  \<open>install_trans\<close> writes a block to its place. The log has its contents, the cache too; afterwards the
  block is not pinned any more.
\<close>

lemma install_one_ok:
  assumes r: "ready p pid s" and a: "at_rest dev L N (store s)" and L: "finite L" "card L < NBUF"
    and l: "fs_log (st_fs (store s)) = l" "lg_dev l = dev" "lg_block l tail = home" "home \<in> L" "home < 2 ^ 31"
    and b: "word_of_int (lg_start l + int tail + 1) = bn" "bn \<notin> L" "bn < 2 ^ 31"
    and logged: "st_disk (store s) (blk_key bn) = N home"
  shows "\<exists>s'. install_one False tail s = Ok None s' \<and> ready p pid s' \<and> at_rest dev (L - {home}) N (store s') \<and>
    st_fs (store s') = st_fs (store s) \<and> st_disk (store s') = (st_disk (store s))(blk_key home := N home) \<and>
    during {st_disk (store s)} (store s) (store s')"
proof -
  let ?st = "store s"
  obtain t s1 where 1: "bread dev bn s = Ok t s1" "ready p pid s1" "got pid dev bn ?st t (store s1)"
    "b_data (st_buf (store s1) t) = N home"
    "b_refcnt (st_buf ?st t) = 0" "b_refcnt (st_buf (store s1) t) = 1"
    using rest_bread [OF r a L b(2,3)] logged by auto
  obtain f s2 where 2: "bread dev home s1 = Ok f s2" "ready p pid s2" "got pid dev home (store s1) f (store s2)"
    and f: "f \<noteq> t" "f < NBUF" "has_block dev home ?st f" "b_refcnt (st_buf (store s2) f) = 2"
    using got_bread_pinned [OF 1(2) a 1(3) b(2) l(4,5)] by blast
  have t: "t < NBUF" "has_block dev bn (store s2) t" "b_refcnt (st_buf (store s2) t) = 1"
    "b_data (st_buf (store s2) t) = N home" "has_block dev home (store s2) f"
    "st_sl (store s2) (BufSL t) = held_sl pid" "st_sl (store s2) (BufSL f) = held_sl pid"
    using 1(3,4,6) 2(3) f(1) by (simp_all add: got_def has_block_def)
  let ?s3 = "upd_buf f (b_data_update (\<lambda>_. N home)) s2"
  let ?st3 = "upd_st_buf f (b_data_update (\<lambda>_. N home)) (store s2)"
  have 3: "copy_buf f t s2 = Ok () ?s3" "ready p pid ?s3" "store ?s3 = ?st3"
    using copy_store [OF 2(2)] t(4) by (simp_all add: store_def)
  obtain s4 where 4: "bwrite f ?s3 = Ok () s4" "ready p pid s4"
    "store s4 = (upd_st_buf f (b_disk_update (\<lambda>_. False)) ?st3)
      \<lparr>st_disk := (st_disk ?st3)(blk_key home := N home), st_hist := st_disk ?st3 # st_hist ?st3\<rparr>"
    using bwrite_store [OF 3(2), of f] t l(5) by (auto simp: 3(3) upd_st_buf_def has_block_def)
  obtain s5 where 5: "bunpin f s4 = Ok () s5" "ready p pid s5"
    "store s5 = upd_st_buf f (b_refcnt_update (\<lambda>x. x - 1)) (store s4)"
    using pin_store(2) [OF 4(2)] by blast
  obtain s6 where 6: "brelse t s5 = Ok () s6" "ready p pid s6" "store s6 = brelsed t (store s5)"
    using brelse_store [OF 5(2) t(1)] t(6) by (auto simp: 5(3) 4(3) upd_st_buf_def)
  obtain s7 where 7: "brelse f s6 = Ok () s7" "ready p pid s7" "store s7 = brelsed f (store s6)"
    using brelse_store [OF 6(2) f(2)] t(7) f(1) by (auto simp: 6(3) 5(3) 4(3) upd_st_buf_def brelsed_def)
  have run: "install_one False tail s = Ok None s7"
    using 1(1) 2(1) 3(1) 4(1) 5(1) 6(1) 7(1) l b(1) by (simp add: install_one_def kmonad log_get_store)
  note st = 7(3) 6(3) 5(3) 4(3) brelsed_def upd_st_buf_def
  have d2: "st_disk (store s2) = st_disk ?st" "st_fs (store s2) = st_fs ?st" using 1(3) 2(3) by (simp_all add: got_def)
  let ?mid = "?st\<lparr>st_buf := (st_buf ?st)(t := st_buf (store s7) t)\<rparr>"
  have mid: "at_rest dev L N ?mid"
  proof (rule rest_replace [OF a t(1) 1(5) _ b(2)])
    show "has_block dev bn ?st t \<or> (\<forall>j < NBUF. \<not> has_block dev bn ?st j)"
      using 1(3) by (auto simp: got_def split: if_splits)
    show "has_block dev bn ?mid t" "b_refcnt (st_buf ?mid t) = 0"
      "b_data (st_buf ?mid t) = st_disk ?mid (blk_key bn)"
      using t f(1) logged by (simp_all add: st has_block_def)
  qed (use at_restD(1) [OF a] in \<open>simp_all add: same_buf_def\<close>)
  have "at_rest dev (L - {home}) N (store s7)"
  proof (rule rest_unpin [OF mid f(2) _ l(4)])
    show "has_block dev home ?mid f" using f by (simp add: has_block_def)
    show "has_block dev home (store s7) f" "b_refcnt (st_buf (store s7) f) = 0"
      "b_data (st_buf (store s7) f) = st_disk (store s7) (blk_key home)"
      using t f(1,4) by (simp_all add: st has_block_def)
    show "\<forall>x. x \<noteq> blk_key home \<longrightarrow> st_disk (store s7) x = st_disk ?mid x" by (simp add: st d2)
    show "\<forall>i < NBUF. \<not> sl_locked (st_sl (store s7) (BufSL i))"
      using at_restD(1) [OF a] 1(3) 2(3) by (simp add: st got_def free_sl_def)
    show "\<forall>i < NBUF. i \<noteq> f \<longrightarrow> same_buf (st_buf (store s7) i) (st_buf ?mid i)"
      using 1(3) 2(3) by (auto simp: st got_def same_buf_def)
  qed
  moreover have "during {st_disk ?st} ?st (store s7)"
  proof (rule during_trans)
    show "during {st_disk ?st} ?st (store s1)" by (rule got_during [OF 1(3)])
    have "during {st_disk ?st} (store s1) (store s2)" using got_during [OF 2(3)] 1(3) by (simp add: got_def)
    then show "during {st_disk ?st} (store s1) (store s7)"
      by (rule during_trans) (simp add: st during_def d2)
  qed
  ultimately show ?thesis using run 7(2) by (simp add: st d2)
qed

text \<open>\<open>write_head\<close> writes the in-memory header over the one on the disk.\<close>

lemma write_head_ok:
  assumes r: "ready p pid s" and a: "at_rest dev L N (store s)" and L: "finite L" "card L < NBUF"
    and l: "fs_log (st_fs (store s)) = l" "lg_dev l = dev"
    and b: "word_of_int (lg_start l) = bn" "bn \<notin> L" "bn < 2 ^ 31"
  shows "\<exists>s'. write_head s = Ok () s' \<and> ready p pid s' \<and> at_rest dev L N (store s') \<and>
    st_fs (store s') = st_fs (store s) \<and>
    st_disk (store s') = (st_disk (store s))(blk_key bn := put_head (st_disk (store s) (blk_key bn)) (lg_n l) (lg_block l)) \<and>
    during {st_disk (store s)} (store s) (store s')"
proof -
  let ?st = "store s" and ?d = "put_head (st_disk (store s) (blk_key bn)) (lg_n l) (lg_block l)"
  obtain t s1 where 1: "bread dev bn s = Ok t s1" "ready p pid s1" "got pid dev bn ?st t (store s1)"
    "b_data (st_buf (store s1) t) = st_disk ?st (blk_key bn)"
    "b_refcnt (st_buf ?st t) = 0" "b_refcnt (st_buf (store s1) t) = 1"
    using rest_bread [OF r a L b(2,3)] by blast
  have t: "t < NBUF" "has_block dev bn (store s1) t" "st_sl (store s1) (BufSL t) = held_sl pid"
    using 1(3) by (simp_all add: got_def)
  let ?s2 = "upd_buf t (b_data_update (\<lambda>_. ?d)) s1" and ?st2 = "upd_st_buf t (b_data_update (\<lambda>_. ?d)) (store s1)"
  have 2: "set_data t ?d s1 = Ok () ?s2" "ready p pid ?s2" "store ?s2 = ?st2" "buf_data t s1 = Ok (st_disk ?st (blk_key bn)) s1"
    using copy_store(2,3) [OF 1(2)] 1(4) by (simp_all add: set_data_def buf_data_def kmonad store_def)
  obtain s3 where 3: "bwrite t ?s2 = Ok () s3" "ready p pid s3"
    "store s3 = (upd_st_buf t (b_disk_update (\<lambda>_. False)) ?st2)
      \<lparr>st_disk := (st_disk ?st2)(blk_key bn := ?d), st_hist := st_disk ?st2 # st_hist ?st2\<rparr>"
    using bwrite_store [OF 2(2), of t] t b(3) by (auto simp: 2(3) upd_st_buf_def has_block_def)
  obtain s4 where 4: "brelse t s3 = Ok () s4" "ready p pid s4" "store s4 = brelsed t (store s3)"
    using brelse_store [OF 3(2) t(1)] t(3) by (auto simp: 3(3) upd_st_buf_def)
  have run: "write_head s = Ok () s4"
    using 1(1) 2(1,4) 3(1) 4(1) l b(1) by (simp add: write_head_def kmonad log_get_store)
  note st = 4(3) 3(3) brelsed_def upd_st_buf_def
  have d1: "st_disk (store s1) = st_disk ?st" "st_fs (store s1) = st_fs ?st" using 1(3) by (simp_all add: got_def)
  have "at_rest dev L N (store s4)"
  proof (rule rest_replace [OF a t(1) 1(5) _ b(2)])
    show "has_block dev bn ?st t \<or> (\<forall>j < NBUF. \<not> has_block dev bn ?st j)"
      using 1(3) by (auto simp: got_def split: if_splits)
    show "has_block dev bn (store s4) t" "b_refcnt (st_buf (store s4) t) = 0"
      "b_data (st_buf (store s4) t) = st_disk (store s4) (blk_key bn)"
      using t 1(6) by (simp_all add: st has_block_def)
    show "\<forall>x. x \<noteq> blk_key bn \<longrightarrow> st_disk (store s4) x = st_disk ?st x" by (simp add: st d1)
    show "\<forall>i < NBUF. \<not> sl_locked (st_sl (store s4) (BufSL i))"
      using at_restD(1) [OF a] 1(3) by (simp add: st got_def free_sl_def)
    show "\<forall>i < NBUF. i \<noteq> t \<longrightarrow> same_buf (st_buf (store s4) i) (st_buf ?st i)"
      using 1(3) by (auto simp: st got_def same_buf_def)
  qed
  moreover have "during {st_disk ?st} ?st (store s4)"
    using got_during [OF 1(3)] by (rule during_trans) (simp add: st during_def d1)
  ultimately show ?thesis using run 4(2) by (simp add: st d1)
qed

end
