(* ===== verification/Commit.thy ===== *)
theory Commit
  imports Logrec
begin

text \<open>
  Crash safety of \<open>commit\<close>. \<open>replay\<close> is what recovery makes of a disk: the blocks in the log
  go to the places its header names. \<open>commit_atomic\<close> shows that at every moment of \<open>commit\<close> replaying
  the disk gives either the old contents of every block or the new ones of all blocks of the
  transaction.
\<close>

subsection \<open>The log on the disk\<close>

text \<open>Block \<open>k\<close> of the log; block 0 is its header.\<close>

definition log_blk :: "int \<Rightarrow> nat \<Rightarrow> u32" where
  "log_blk start k = word_of_int (start + int k)"

definition log_area :: "int \<Rightarrow> u32 set" where
  "log_area start = log_blk start ` {..LOGBLOCKS}"

definition head_count :: "u8 list \<Rightarrow> nat" where
  "head_count h = nat (sint (get32 h 0))"

definition head_block :: "u8 list \<Rightarrow> nat \<Rightarrow> u32" where
  "head_block h i = get32 h (4 + 4 * i)"

primrec copy_back :: "int \<Rightarrow> blocks \<Rightarrow> nat \<Rightarrow> blocks" where
  "copy_back start d 0 = d"
| "copy_back start d (Suc i) = (copy_back start d i)
     (blk_key (head_block (d (blk_key (log_blk start 0))) i) := d (blk_key (log_blk start (Suc i))))"

definition replay :: "int \<Rightarrow> blocks \<Rightarrow> blocks" where
  "replay start d = copy_back start d (head_count (d (blk_key (log_blk start 0))))"

lemma head_put:
  assumes "length d = BSIZE" "n \<le> LOGBLOCKS"
  shows "length (put_blocks d bl n) = BSIZE" "i < n \<Longrightarrow> head_block (put_blocks d bl n) i = bl i"
    "get32 (put_blocks d bl n) 0 = get32 d 0"
proof -
  have "length (put_blocks d bl n) = BSIZE \<and> (\<forall>i < n. head_block (put_blocks d bl n) i = bl i) \<and>
      get32 (put_blocks d bl n) 0 = get32 d 0"
    using assms(2)
  proof (induction n)
    case (Suc n)
    then show ?case by (auto simp: head_block_def less_Suc_eq get32_put get32_put_other)
  qed (simp add: assms(1))
  then show "length (put_blocks d bl n) = BSIZE" "i < n \<Longrightarrow> head_block (put_blocks d bl n) i = bl i"
    "get32 (put_blocks d bl n) 0 = get32 d 0" by simp_all
qed

lemma put_head_ok:
  assumes "length d = BSIZE" "n \<le> LOGBLOCKS"
  shows "length (put_head d (int n) bl) = BSIZE" "head_count (put_head d (int n) bl) = n"
    "i < n \<Longrightarrow> head_block (put_head d (int n) bl) i = bl i"
proof -
  let ?d = "put_bytes d 0 (le32 (word_of_int (int n)))"
  have l: "length ?d = BSIZE" using assms(1) by simp
  note h = head_put [OF l assms(2)]
  show "length (put_head d (int n) bl) = BSIZE" "i < n \<Longrightarrow> head_block (put_head d (int n) bl) i = bl i"
    using h by (simp_all add: put_head_def)
  have "get32 ?d 0 = word_of_int (int n)" using assms(1) by (intro get32_put) simp
  moreover have "sint (word_of_int (int n) :: u32) = int n"
    using assms(2) by (subst signed_of_int) (simp add: signed_take_bit_int_eq_self)
  ultimately show "head_count (put_head d (int n) bl) = n"
    using h(3) by (simp add: head_count_def put_head_def)
qed

text \<open>The log's blocks are different from each other.\<close>

lemma log_blk_uint:
  assumes "0 \<le> start" "start + int LOGBLOCKS < 2 ^ 31" "k \<le> LOGBLOCKS"
  shows "uint (log_blk start k) = start + int k"
  using assms unfolding log_blk_def by (subst uint_word_of_int) (simp add: mod_pos_pos_trivial)

lemma log_blk_eq:
  assumes "0 \<le> start" "start + int LOGBLOCKS < 2 ^ 31" "i \<le> LOGBLOCKS" "j \<le> LOGBLOCKS"
  shows "log_blk start i = log_blk start j \<longleftrightarrow> i = j" "log_blk start i < 2 ^ 31" "log_blk start i \<in> log_area start"
proof -
  note u = log_blk_uint [OF assms(1,2)]
  show "log_blk start i = log_blk start j \<longleftrightarrow> i = j"
    using u [OF assms(3)] u [OF assms(4)] by (metis add_left_cancel of_nat_eq_iff)
  show "log_blk start i < 2 ^ 31" using u [OF assms(3)] assms by (simp add: word_less_def)
  show "log_blk start i \<in> log_area start" using assms(3) by (simp add: log_area_def)
qed

subsection \<open>The loops of commit\<close>

primrec put_log :: "int \<Rightarrow> (nat \<Rightarrow> u8 list) \<Rightarrow> nat \<Rightarrow> blocks \<Rightarrow> blocks" where
  "put_log start c 0 d = d"
| "put_log start c (Suc m) d = (put_log start c m d)(blk_key (log_blk start (Suc m)) := c m)"

primrec put_home :: "(nat \<Rightarrow> u32) \<Rightarrow> (nat \<Rightarrow> u8 list) \<Rightarrow> nat \<Rightarrow> blocks \<Rightarrow> blocks" where
  "put_home hm c 0 d = d"
| "put_home hm c (Suc m) d = (put_home hm c m d)(blk_key (hm m) := c m)"

lemma put_log_at:
  assumes "0 \<le> start" "start + int LOGBLOCKS < 2 ^ 31" "m \<le> LOGBLOCKS"
  shows "i < m \<Longrightarrow> put_log start c m d (blk_key (log_blk start (Suc i))) = c i"
    "(\<And>i. i < m \<Longrightarrow> x \<noteq> blk_key (log_blk start (Suc i))) \<Longrightarrow> put_log start c m d x = d x"
proof -
  show "put_log start c m d x = d x" if "\<And>i. i < m \<Longrightarrow> x \<noteq> blk_key (log_blk start (Suc i))"
    using that by (induction m) auto
  show "put_log start c m d (blk_key (log_blk start (Suc i))) = c i" if "i < m"
    using that assms(3) by (induction m) (auto simp: log_blk_eq [OF assms(1,2)])
qed

lemma put_home_at:
  shows "inj_on hm {..<m} \<Longrightarrow> i < m \<Longrightarrow> put_home hm c m d (blk_key (hm i)) = c i"
    "(\<And>i. i < m \<Longrightarrow> x \<noteq> blk_key (hm i)) \<Longrightarrow> put_home hm c m d x = d x"
proof -
  show "put_home hm c m d x = d x" if "\<And>i. i < m \<Longrightarrow> x \<noteq> blk_key (hm i)"
    using that by (induction m) auto
  show "put_home hm c m d (blk_key (hm i)) = c i" if "inj_on hm {..<m}" "i < m"
    using that by (induction m) (auto simp: inj_on_def less_Suc_eq)
qed


text \<open>A transaction: \<open>n\<close> blocks with their new contents, pinned in the cache.\<close>

definition transaction :: "logstate \<Rightarrow> nat \<Rightarrow> (u32 \<Rightarrow> u8 list) \<Rightarrow> storage \<Rightarrow> bool" where
  "transaction l n N st \<longleftrightarrow> 0 \<le> lg_start l \<and> lg_start l + int LOGBLOCKS < 2 ^ 31 \<and> n < LOGBLOCKS \<and>
     inj_on (lg_block l) {..<n} \<and> (\<forall>i < n. lg_block l i < 2 ^ 31 \<and> lg_block l i \<notin> log_area (lg_start l)) \<and>
     fs_log (st_fs st) = l \<and> at_rest (lg_dev l) (lg_block l ` {..<n}) N st"

lemma transactionD:
  assumes "transaction l n N st"
  shows "0 \<le> lg_start l" "lg_start l + int LOGBLOCKS < 2 ^ 31" "n < LOGBLOCKS" "inj_on (lg_block l) {..<n}"
    "i < n \<Longrightarrow> lg_block l i < 2 ^ 31" "i < n \<Longrightarrow> lg_block l i \<notin> log_area (lg_start l)"
    "fs_log (st_fs st) = l" "at_rest (lg_dev l) (lg_block l ` {..<n}) N st"
  using assms by (simp_all add: transaction_def)

lemma log_blk_Suc: "word_of_int (lg_start l + int k + 1) = log_blk (lg_start l) (Suc k)"
  by (simp add: log_blk_def algebra_simps)

lemma write_log_ok:
  assumes r: "ready p pid s" and t: "transaction l n N (store s)" and m: "m \<le> n"
  shows "\<exists>s'. kfor write_log_one [0..<m] s = Ok None s' \<and> ready p pid s' \<and> transaction l n N (store s') \<and>
    st_fs (store s') = st_fs (store s) \<and>
    st_disk (store s') = put_log (lg_start l) (\<lambda>i. N (lg_block l i)) m (st_disk (store s)) \<and>
    during ((\<lambda>k. put_log (lg_start l) (\<lambda>i. N (lg_block l i)) k (st_disk (store s))) ` {..<m}) (store s) (store s')"
  using m
proof (induction m)
  case 0
  then show ?case using r t by (simp add: kmonad)
next
  case (Suc m)
  let ?d = "\<lambda>k. put_log (lg_start l) (\<lambda>i. N (lg_block l i)) k (st_disk (store s))"
  obtain s1 where 1: "kfor write_log_one [0..<m] s = Ok None s1" "ready p pid s1" "transaction l n N (store s1)"
    "st_fs (store s1) = st_fs (store s)" "st_disk (store s1) = ?d m" "during (?d ` {..<m}) (store s) (store s1)"
    using Suc by auto
  note T = transactionD [OF 1(3)]
  have bn: "log_blk (lg_start l) (Suc m) < 2 ^ 31" "log_blk (lg_start l) (Suc m) \<in> log_area (lg_start l)"
    using log_blk_eq(2,3) [OF T(1,2), of "Suc m" "Suc m"] T(3) Suc.prems by simp_all
  have nin: "log_blk (lg_start l) (Suc m) \<notin> lg_block l ` {..<n}" using T(6) bn(2) by auto
  have card: "card (lg_block l ` {..<n}) < NBUF" using T(3,4) by (simp add: card_image)
  have mn: "m < n" using Suc.prems by simp
  obtain s2 where 2: "write_log_one m s1 = Ok None s2" "ready p pid s2" "at_rest (lg_dev l) (lg_block l ` {..<n}) N (store s2)"
    "st_fs (store s2) = st_fs (store s1)"
    "st_disk (store s2) = (st_disk (store s1))(blk_key (log_blk (lg_start l) (Suc m)) := N (lg_block l m))"
    "during {st_disk (store s1)} (store s1) (store s2)"
    using write_log_one_ok [OF 1(2) T(8) _ card T(7) refl refl _ T(5) [OF mn] log_blk_Suc nin bn(1)] mn by auto
  have "kfor write_log_one [0..<Suc m] s = Ok None s2" using 1(1) 2(1) by (simp add: kfor_append kmonad)
  moreover have "transaction l n N (store s2)" using T 2(3,4) by (simp add: transaction_def)
  moreover have "during (?d ` {..<Suc m}) (store s) (store s2)"
    by (rule during_trans [OF during_mono [OF 1(6)] during_mono [OF 2(6)]]) (auto simp: 1(5))
  ultimately show ?case using 1 2 by auto
qed

text \<open>While the blocks are installed the log on the disk stays as it is.\<close>

lemma install_ok:
  assumes r: "ready p pid s" and t: "transaction l n N (store s)" and m: "m \<le> n"
    and logged: "\<forall>i < n. st_disk (store s) (blk_key (log_blk (lg_start l) (Suc i))) = N (lg_block l i)"
  shows "\<exists>s'. kfor (install_one False) [0..<m] s = Ok None s' \<and> ready p pid s' \<and>
    at_rest (lg_dev l) (lg_block l ` {m..<n}) N (store s') \<and> st_fs (store s') = st_fs (store s) \<and>
    st_disk (store s') = put_home (lg_block l) (\<lambda>i. N (lg_block l i)) m (st_disk (store s)) \<and>
    during ((\<lambda>k. put_home (lg_block l) (\<lambda>i. N (lg_block l i)) k (st_disk (store s))) ` {..<m}) (store s) (store s')"
  using m
proof (induction m)
  case 0
  then show ?case using r transactionD(8) [OF t] by (simp add: kmonad atLeast0LessThan)
next
  case (Suc m)
  let ?d = "\<lambda>k. put_home (lg_block l) (\<lambda>i. N (lg_block l i)) k (st_disk (store s))"
  obtain s1 where 1: "kfor (install_one False) [0..<m] s = Ok None s1" "ready p pid s1"
    "at_rest (lg_dev l) (lg_block l ` {m..<n}) N (store s1)"
    "st_fs (store s1) = st_fs (store s)" "st_disk (store s1) = ?d m" "during (?d ` {..<m}) (store s) (store s1)"
    using Suc by auto
  note T = transactionD [OF t]
  have mn: "m < n" using Suc.prems by simp
  have bn: "log_blk (lg_start l) (Suc m) < 2 ^ 31" "log_blk (lg_start l) (Suc m) \<in> log_area (lg_start l)"
    using log_blk_eq(2,3) [OF T(1,2), of "Suc m" "Suc m"] T(3) mn by simp_all
  have nin: "log_blk (lg_start l) (Suc m) \<notin> lg_block l ` {m..<n}" using T(6) bn(2) by auto
  have "inj_on (lg_block l) {m..<n}" by (rule inj_on_subset [OF T(4)]) auto
  then have card: "card (lg_block l ` {m..<n}) < NBUF" using T(3) by (simp add: card_image)
  have "st_disk (store s1) (blk_key (log_blk (lg_start l) (Suc m))) = st_disk (store s) (blk_key (log_blk (lg_start l) (Suc m)))"
    unfolding 1(5) by (rule put_home_at(2)) (use T(6) bn(2) mn in fastforce)
  then have lg: "st_disk (store s1) (blk_key (log_blk (lg_start l) (Suc m))) = N (lg_block l m)" using logged mn by simp
  have l1: "fs_log (st_fs (store s1)) = l" using T(7) 1(4) by simp
  obtain s2 where 2: "install_one False m s1 = Ok None s2" "ready p pid s2"
    "at_rest (lg_dev l) (lg_block l ` {m..<n} - {lg_block l m}) N (store s2)" "st_fs (store s2) = st_fs (store s1)"
    "st_disk (store s2) = (st_disk (store s1))(blk_key (lg_block l m) := N (lg_block l m))"
    "during {st_disk (store s1)} (store s1) (store s2)"
    using install_one_ok [OF 1(2,3) _ card l1 refl refl _ T(5) [OF mn] log_blk_Suc nin bn(1) lg] mn by auto
  have "lg_block l ` {m..<n} - {lg_block l m} = lg_block l ` {Suc m..<n}"
  proof -
    have "lg_block l ` ({m..<n} - {m}) = lg_block l ` {m..<n} - lg_block l ` {m}"
      by (rule inj_on_image_set_diff [OF T(4)]) (use mn in auto)
    moreover have "{m..<n} - {m} = {Suc m..<n}" by auto
    ultimately show ?thesis by simp
  qed
  with 2(3) have "at_rest (lg_dev l) (lg_block l ` {Suc m..<n}) N (store s2)" by simp
  moreover have "kfor (install_one False) [0..<Suc m] s = Ok None s2" using 1(1) 2(1) by (simp add: kfor_append kmonad)
  moreover have "during (?d ` {..<Suc m}) (store s) (store s2)"
    by (rule during_trans [OF during_mono [OF 1(6)] during_mono [OF 2(6)]]) (auto simp: 1(5))
  ultimately show ?case using 1 2 by auto
qed


subsection \<open>Replaying\<close>

lemma copy_back_at:
  assumes "inj_on (head_block (d (blk_key (log_blk start 0)))) {..<n}"
  shows "i < n \<Longrightarrow> copy_back start d n (blk_key (head_block (d (blk_key (log_blk start 0))) i)) = d (blk_key (log_blk start (Suc i)))"
    "(\<And>i. i < n \<Longrightarrow> x \<noteq> blk_key (head_block (d (blk_key (log_blk start 0))) i)) \<Longrightarrow> copy_back start d n x = d x"
proof -
  show "copy_back start d n x = d x" if "\<And>i. i < n \<Longrightarrow> x \<noteq> blk_key (head_block (d (blk_key (log_blk start 0))) i)"
    using that by (induction n) auto
  show "copy_back start d n (blk_key (head_block (d (blk_key (log_blk start 0))) i)) = d (blk_key (log_blk start (Suc i)))" if "i < n"
    using that assms by (induction n) (auto simp: inj_on_def less_Suc_eq)
qed

text \<open>The contents of the blocks outside the log, before and after the transaction.\<close>

definition old_blocks :: "int \<Rightarrow> blocks \<Rightarrow> blocks \<Rightarrow> bool" where
  "old_blocks start d0 d \<longleftrightarrow> (\<forall>bn. bn \<notin> log_area start \<longrightarrow> d (blk_key bn) = d0 (blk_key bn))"

definition new_blocks :: "int \<Rightarrow> u32 set \<Rightarrow> (u32 \<Rightarrow> u8 list) \<Rightarrow> blocks \<Rightarrow> blocks \<Rightarrow> bool" where
  "new_blocks start H N d0 d \<longleftrightarrow>
     (\<forall>bn. bn \<notin> log_area start \<longrightarrow> d (blk_key bn) = (if bn \<in> H then N bn else d0 (blk_key bn)))"

lemma replay_empty: "head_count (d (blk_key (log_blk start 0))) = 0 \<Longrightarrow> replay start d = d"
  by (simp add: replay_def)

text \<open>A disk whose log holds the transaction and whose other blocks are old or new.\<close>

lemma replay_logged:
  assumes s: "0 \<le> start" "start + int LOGBLOCKS < 2 ^ 31" "n \<le> LOGBLOCKS" and inj: "inj_on hm {..<n}"
    and h: "head_count (d (blk_key (log_blk start 0))) = n" "\<forall>i < n. head_block (d (blk_key (log_blk start 0))) i = hm i"
    and c: "\<forall>i < n. d (blk_key (log_blk start (Suc i))) = N (hm i)"
    and o: "\<forall>bn. bn \<notin> log_area start \<longrightarrow> bn \<notin> hm ` {..<n} \<longrightarrow> d (blk_key bn) = d0 (blk_key bn)"
  shows "new_blocks start (hm ` {..<n}) N d0 (replay start d)"
proof -
  have "inj_on (head_block (d (blk_key (log_blk start 0)))) {..<n}" using inj h(2) by (simp add: inj_on_def)
  note cb = copy_back_at [of d start n, OF this]
  have "copy_back start d n (blk_key (hm i)) = N (hm i)" if "i < n" for i using cb(1) [OF that] h(2) c that by simp
  moreover have "copy_back start d n (blk_key bn) = d (blk_key bn)" if "bn \<notin> hm ` {..<n}" for bn
    using that h(2) by (intro cb(2)) auto
  ultimately show ?thesis using o by (auto simp: new_blocks_def replay_def h(1))
qed

text \<open>The disk before a transaction: the log is empty and the transaction's blocks are not part of it.\<close>

definition log_ready :: "int \<Rightarrow> nat \<Rightarrow> (nat \<Rightarrow> u32) \<Rightarrow> blocks \<Rightarrow> bool" where
  "log_ready start n hm d \<longleftrightarrow> 0 \<le> start \<and> start + int LOGBLOCKS < 2 ^ 31 \<and> n < LOGBLOCKS \<and>
     inj_on hm {..<n} \<and> (\<forall>i < n. hm i < 2 ^ 31 \<and> hm i \<notin> log_area start) \<and>
     length (d (blk_key (log_blk start 0))) = BSIZE \<and> head_count (d (blk_key (log_blk start 0))) = 0"

text \<open>A log that recovery can replay.\<close>

definition log_sane :: "int \<Rightarrow> blocks \<Rightarrow> bool" where
  "log_sane start d \<longleftrightarrow> (let h = d (blk_key (log_blk start 0)) in
     0 \<le> start \<and> start + int LOGBLOCKS < 2 ^ 31 \<and> length h = BSIZE \<and> head_count h \<le> LOGBLOCKS \<and>
     (\<forall>i < head_count h. head_block h i < 2 ^ 31 \<and> head_block h i \<notin> log_area start))"

lemma phase_log:
  assumes r: "log_ready start n hm d" and k: "k \<le> n"
  shows "old_blocks start d (replay start (put_log start c k d))" "log_sane start (put_log start c k d)"
proof -
  have s: "0 \<le> start" "start + int LOGBLOCKS < 2 ^ 31" "k \<le> LOGBLOCKS" using r k by (simp_all add: log_ready_def)
  note at = put_log_at(2) [OF s, of _ c d]
  have h: "put_log start c k d (blk_key (log_blk start 0)) = d (blk_key (log_blk start 0))"
    by (rule at) (use log_blk_eq(1) [OF s(1,2), of 0] s(3) in simp)
  then show "log_sane start (put_log start c k d)" using r by (simp add: log_sane_def log_ready_def)
  from h have "replay start (put_log start c k d) = put_log start c k d"
    using r by (intro replay_empty) (simp add: log_ready_def)
  moreover have "put_log start c k d (blk_key bn) = d (blk_key bn)" if "bn \<notin> log_area start" for bn
    by (rule at) (use that s(3) in \<open>auto simp: log_area_def\<close>)
  ultimately show "old_blocks start d (replay start (put_log start c k d))" by (simp add: old_blocks_def)
qed

text \<open>The disk once the header is written, and while the blocks are installed.\<close>

definition logged_disk :: "int \<Rightarrow> nat \<Rightarrow> (nat \<Rightarrow> u32) \<Rightarrow> (nat \<Rightarrow> u8 list) \<Rightarrow> blocks \<Rightarrow> blocks" where
  "logged_disk start n hm c d = (put_log start c n d)
     (blk_key (log_blk start 0) := put_head (d (blk_key (log_blk start 0))) (int n) hm)"

lemma logged_disk_at:
  assumes r: "log_ready start n hm d" and k: "k \<le> n"
  shows "put_home hm c k (logged_disk start n hm c d) (blk_key (log_blk start 0)) =
      put_head (d (blk_key (log_blk start 0))) (int n) hm"
    "i < n \<Longrightarrow> put_home hm c k (logged_disk start n hm c d) (blk_key (log_blk start (Suc i))) = c i"
    "bn \<notin> log_area start \<Longrightarrow> bn \<notin> hm ` {..<n} \<Longrightarrow> put_home hm c k (logged_disk start n hm c d) (blk_key bn) = d (blk_key bn)"
proof -
  have s: "0 \<le> start" "start + int LOGBLOCKS < 2 ^ 31" "n \<le> LOGBLOCKS" using r by (simp_all add: log_ready_def)
  have nh: "x \<notin> hm ` {..<n} \<Longrightarrow> put_home hm c k e (blk_key x) = e (blk_key x)" for x e
    by (rule put_home_at(2)) (use k in auto)
  have a: "log_blk start j \<notin> hm ` {..<n}" if "j \<le> LOGBLOCKS" for j
    using log_blk_eq(3) [OF s(1,2) that that] r by (auto simp: log_ready_def)
  show "put_home hm c k (logged_disk start n hm c d) (blk_key (log_blk start 0)) =
      put_head (d (blk_key (log_blk start 0))) (int n) hm"
    using nh [OF a] by (simp add: logged_disk_def)
  show "put_home hm c k (logged_disk start n hm c d) (blk_key (log_blk start (Suc i))) = c i" if "i < n"
    using nh [OF a, of "Suc i"] that s(3) log_blk_eq(1) [OF s(1,2), of "Suc i" 0] put_log_at(1) [OF s that]
    by (simp add: logged_disk_def)
  show "put_home hm c k (logged_disk start n hm c d) (blk_key bn) = d (blk_key bn)"
    if "bn \<notin> log_area start" "bn \<notin> hm ` {..<n}"
  proof -
    have "bn \<noteq> log_blk start j" if "j \<le> n" for j using \<open>bn \<notin> log_area start\<close> that s(3) by (auto simp: log_area_def)
    then show ?thesis using nh [OF that(2)] put_log_at(2) [OF s, of "blk_key bn"] by (simp add: logged_disk_def)
  qed
qed

lemma phase_install:
  assumes r: "log_ready start n hm d" and k: "k \<le> n"
  shows "new_blocks start (hm ` {..<n}) N d (replay start (put_home hm (\<lambda>i. N (hm i)) k (logged_disk start n hm (\<lambda>i. N (hm i)) d)))"
    "log_sane start (put_home hm (\<lambda>i. N (hm i)) k (logged_disk start n hm (\<lambda>i. N (hm i)) d))"
proof -
  have s: "0 \<le> start" "start + int LOGBLOCKS < 2 ^ 31" "n \<le> LOGBLOCKS" "inj_on hm {..<n}"
    "length (d (blk_key (log_blk start 0))) = BSIZE" using r by (simp_all add: log_ready_def)
  note at = logged_disk_at [OF r k] and hd = put_head_ok [OF s(5,3)]
  show "new_blocks start (hm ` {..<n}) N d
      (replay start (put_home hm (\<lambda>i. N (hm i)) k (logged_disk start n hm (\<lambda>i. N (hm i)) d)))"
    by (rule replay_logged [OF s(1-4)]) (simp_all add: at hd)
  show "log_sane start (put_home hm (\<lambda>i. N (hm i)) k (logged_disk start n hm (\<lambda>i. N (hm i)) d))"
    using r by (simp add: log_sane_def at hd log_ready_def)
qed

lemma phase_done:
  assumes r: "log_ready start n hm d"
    and e_def: "e = (put_home hm (\<lambda>i. N (hm i)) n (logged_disk start n hm (\<lambda>i. N (hm i)) d))
      (blk_key (log_blk start 0) := put_head (put_head (d (blk_key (log_blk start 0))) (int n) hm) 0 hm)"
  shows "head_count (e (blk_key (log_blk start 0))) = 0" "new_blocks start (hm ` {..<n}) N d e"
    "new_blocks start (hm ` {..<n}) N d (replay start e)" "log_sane start e"
proof -
  have s: "0 \<le> start" "start + int LOGBLOCKS < 2 ^ 31" "n \<le> LOGBLOCKS" "inj_on hm {..<n}"
    "length (d (blk_key (log_blk start 0))) = BSIZE" using r by (simp_all add: log_ready_def)
  show h: "head_count (e (blk_key (log_blk start 0))) = 0"
    using put_head_ok(2) [of "put_head (d (blk_key (log_blk start 0))) (int n) hm" 0 hm] put_head_ok(1) [OF s(5,3), of hm]
    by (simp add: e_def)
  have "e (blk_key bn) = (if bn \<in> hm ` {..<n} then N bn else d (blk_key bn))" if "bn \<notin> log_area start" for bn
  proof -
    have "bn \<noteq> log_blk start 0" using that log_blk_eq(3) [OF s(1,2), of 0 0] by auto
    with logged_disk_at(3) [OF r order_refl that] put_home_at(1) [OF s(4)] show ?thesis by (auto simp: e_def)
  qed
  then show "new_blocks start (hm ` {..<n}) N d e" by (simp add: new_blocks_def)
  then show "new_blocks start (hm ` {..<n}) N d (replay start e)" by (simp add: replay_empty [of e start, OF h])
  have "length (e (blk_key (log_blk start 0))) = BSIZE"
    using put_head_ok(1) [of "put_head (d (blk_key (log_blk start 0))) (int n) hm" 0 hm] put_head_ok(1) [OF s(5,3), of hm]
    by (simp add: e_def)
  with s h show "log_sane start e" by (simp add: log_sane_def)
qed

subsection \<open>commit\<close>

lemma log_set_ok:
  assumes "ready p pid s"
  shows "\<exists>s'. log_set f s = Ok () s' \<and> ready p pid s' \<and>
    store s' = (store s)\<lparr>st_fs := (st_fs (store s))\<lparr>fs_log := f (fs_log (st_fs (store s)))\<rparr>\<rparr>"
  using assms by (simp add: log_set_def kmonad ready_def quiet_def store_def)

lemma at_rest_fs [simp]: "at_rest dev L N (st\<lparr>st_fs := f\<rparr>) = at_rest dev L N st"
  by (simp add: at_rest_def has_block_def)

lemma during_fs [simp]: "during G (st\<lparr>st_fs := f\<rparr>) st' = during G st st'"
  by (simp add: during_def)

lemma commit_runs:
  assumes r: "ready p pid s" and T: "transaction l n N (store s)" and n: "lg_n l = int n"
    and lr: "log_ready (lg_start l) n (lg_block l) (st_disk (store s))"
  defines "c \<equiv> \<lambda>i. N (lg_block l i)"
  defines "D \<equiv> \<lambda>k. put_home (lg_block l) c k (logged_disk (lg_start l) n (lg_block l) c (st_disk (store s)))"
  shows "\<exists>s'. kdo [write_log, write_head, install_trans False, log_set (\<lambda>l. l\<lparr>lg_n := 0\<rparr>), write_head] s = Ok () s' \<and>
    ready p pid s' \<and> at_rest (lg_dev l) {} N (store s') \<and> fs_log (st_fs (store s')) = l\<lparr>lg_n := 0\<rparr> \<and>
    st_disk (store s') = (D n)(blk_key (log_blk (lg_start l) 0) :=
      put_head (put_head (st_disk (store s) (blk_key (log_blk (lg_start l) 0))) (int n) (lg_block l)) 0 (lg_block l)) \<and>
    during ((\<lambda>k. put_log (lg_start l) c k (st_disk (store s))) ` {..n} \<union> D ` {..n}) (store s) (store s')"
    (is "\<exists>s'. _ \<and> _ \<and> _ \<and> _ \<and> _ \<and> during ?G _ _")
proof -
  note t = transactionD [OF T]
  let ?h = "log_blk (lg_start l) 0"
  have h: "word_of_int (lg_start l) = ?h" by (simp add: log_blk_def)
  have hb: "?h < 2 ^ 31" "?h \<in> log_area (lg_start l)" using log_blk_eq(2,3) [OF t(1,2), of 0 0] by simp_all
  have nin: "?h \<notin> lg_block l ` {..<n}" using t(6) hb(2) by auto
  have card: "card (lg_block l ` {..<n}) < NBUF" using t(3,4) by (simp add: card_image)
  obtain s1 where 1: "kfor write_log_one [0..<n] s = Ok None s1" "ready p pid s1" "transaction l n N (store s1)"
    "st_fs (store s1) = st_fs (store s)" "st_disk (store s1) = put_log (lg_start l) c n (st_disk (store s))"
    "during ((\<lambda>k. put_log (lg_start l) c k (st_disk (store s))) ` {..<n}) (store s) (store s1)"
    using write_log_ok [OF r T order_refl] unfolding c_def by blast
  have hd: "st_disk (store s1) (blk_key ?h) = st_disk (store s) (blk_key ?h)"
    unfolding 1(5) by (rule put_log_at(2) [OF t(1,2)]) (use t(3) log_blk_eq(1) [OF t(1,2), of 0] in auto)
  obtain s2 where 2: "write_head s1 = Ok () s2" "ready p pid s2" "at_rest (lg_dev l) (lg_block l ` {..<n}) N (store s2)"
    "st_fs (store s2) = st_fs (store s1)" "st_disk (store s2) = D 0" "during {st_disk (store s1)} (store s1) (store s2)"
    using write_head_ok [OF 1(2) transactionD(8) [OF 1(3)] _ card transactionD(7) [OF 1(3)] refl h nin hb(1)] n hd
    by (auto simp: D_def logged_disk_def 1(5))
  have T2: "transaction l n N (store s2)" using T 2(3,4) 1(4) by (simp add: transaction_def)
  have "\<forall>i < n. st_disk (store s2) (blk_key (log_blk (lg_start l) (Suc i))) = N (lg_block l i)"
    using logged_disk_at(2) [OF lr, of 0 _ c] by (simp add: 2(5) D_def c_def)
  from install_ok [OF 2(2) T2 order_refl this]
  obtain s3 where 3: "kfor (install_one False) [0..<n] s2 = Ok None s3" "ready p pid s3" "at_rest (lg_dev l) {} N (store s3)"
    "st_fs (store s3) = st_fs (store s2)" "st_disk (store s3) = D n" "during (D ` {..<n}) (store s2) (store s3)"
    unfolding 2(5) D_def c_def by auto
  obtain s4 where 4: "log_set (\<lambda>l. l\<lparr>lg_n := 0\<rparr>) s3 = Ok () s4" "ready p pid s4"
    "store s4 = (store s3)\<lparr>st_fs := (st_fs (store s3))\<lparr>fs_log := l\<lparr>lg_n := 0\<rparr>\<rparr>\<rparr>"
    using log_set_ok [OF 3(2), of "\<lambda>l. l\<lparr>lg_n := 0\<rparr>"] t(7) 1(4) 2(4) 3(4) by auto
  have r4: "at_rest (lg_dev l) {} N (store s4)" "fs_log (st_fs (store s4)) = l\<lparr>lg_n := 0\<rparr>"
    "lg_dev (l\<lparr>lg_n := 0\<rparr>) = lg_dev l" "word_of_int (lg_start (l\<lparr>lg_n := 0\<rparr>)) = ?h" using 3(3) h by (simp_all add: 4(3))
  obtain s5 where 5: "write_head s4 = Ok () s5" "ready p pid s5" "at_rest (lg_dev l) {} N (store s5)"
    "st_fs (store s5) = st_fs (store s4)" "st_disk (store s5) = (D n)(blk_key ?h := put_head (D n (blk_key ?h)) 0 (lg_block l))"
    "during {D n} (store s4) (store s5)"
    using write_head_ok [OF 4(2) r4(1) _ _ r4(2,3,4) _ hb(1)] by (auto simp: 4(3) 3(5))
  have "kdo [write_log, write_head, install_trans False, log_set (\<lambda>l. l\<lparr>lg_n := 0\<rparr>), write_head] s = Ok () s5"
    using 1(1) 2(1) 3(1) 4(1) 5(1) n t(7) 1(4) 2(4)
    by (simp add: write_log_def install_trans_def kmonad log_get_store)
  moreover have "D n (blk_key ?h) = put_head (st_disk (store s) (blk_key ?h)) (int n) (lg_block l)"
    using logged_disk_at(1) [OF lr order_refl, of c] by (simp add: D_def)
  moreover have "during ?G (store s) (store s5)"
  proof (rule during_trans [OF _ during_trans [OF _ during_trans]])
    show "during ?G (store s) (store s1)" by (rule during_mono [OF 1(6)]) auto
    show "during ?G (store s1) (store s2)" by (rule during_mono [OF 2(6)]) (auto simp: 1(5))
    show "during ?G (store s2) (store s3)" by (rule during_mono [OF 3(6)]) auto
    show "during ?G (store s3) (store s5)" using during_mono [OF 5(6), of ?G] by (simp add: 4(3))
  qed
  ultimately show ?thesis using 5 r4(2) by auto
qed

lemma commit_all_or_nothing:
  assumes "ready p pid s" "transaction l n N (store s)" "lg_n l = int n"
    and "log_ready (lg_start l) n (lg_block l) (disk s)"
  shows "\<exists>s' h. commit s = Ok () s' \<and> disk_hist s' = h @ disk_hist s \<and>
    (\<forall>d \<in> set (disk s' # h). log_sane (lg_start l) d \<and>
      (old_blocks (lg_start l) (disk s) (replay (lg_start l) d) \<or>
      new_blocks (lg_start l) (lg_block l ` {..<n}) N (disk s) (replay (lg_start l) d))) \<and>
    new_blocks (lg_start l) (lg_block l ` {..<n}) N (disk s) (disk s') \<and>
    head_count (disk s' (blk_key (log_blk (lg_start l) 0))) = 0 \<and>
    ready p pid s' \<and> at_rest (lg_dev l) {} N (store s') \<and> lg_n (fs_log (fs s')) = 0"
proof (cases "n = 0")
  case True
  have "commit s = Ok () s" using assms(2,3) True by (simp add: commit_def kmonad log_get_store transaction_def)
  moreover have "old_blocks (lg_start l) (disk s) (replay (lg_start l) (disk s))" "log_sane (lg_start l) (disk s)"
    using phase_log [OF assms(4), of 0] by simp_all
  moreover have "new_blocks (lg_start l) {} N (disk s) (disk s)" by (simp add: new_blocks_def)
  moreover have "fs_log (fs s) = l" using assms(2) by (simp add: transaction_def store_def)
  ultimately show ?thesis using assms True by (auto simp: log_ready_def transaction_def)
next
  case False
  have d: "st_disk (store s) = disk s" by (simp add: store_def)
  let ?c = "\<lambda>i. N (lg_block l i)"
  let ?D = "\<lambda>k. put_home (lg_block l) ?c k (logged_disk (lg_start l) n (lg_block l) ?c (disk s))"
  obtain s' where s': "kdo [write_log, write_head, install_trans False, log_set (\<lambda>l. l\<lparr>lg_n := 0\<rparr>), write_head] s = Ok () s'"
    "ready p pid s'" "at_rest (lg_dev l) {} N (store s')" "fs_log (st_fs (store s')) = l\<lparr>lg_n := 0\<rparr>"
    "st_disk (store s') = (?D n)(blk_key (log_blk (lg_start l) 0) :=
      put_head (put_head (disk s (blk_key (log_blk (lg_start l) 0))) (int n) (lg_block l)) 0 (lg_block l))"
    "during ((\<lambda>k. put_log (lg_start l) ?c k (disk s)) ` {..n} \<union> ?D ` {..n}) (store s) (store s')"
    using commit_runs [OF assms(1-3)] assms(4) unfolding d by blast
  have "commit s = Ok () s'"
    using s'(1) False assms(2,3) by (simp add: commit_def kmonad log_get_store transaction_def)
  moreover obtain h where h: "disk_hist s' = h @ disk_hist s"
    "set h \<subseteq> (\<lambda>k. put_log (lg_start l) ?c k (disk s)) ` {..n} \<union> ?D ` {..n}"
    using s'(6) by (auto simp: during_def store_def)
  moreover have "disk s' = (?D n)(blk_key (log_blk (lg_start l) 0) :=
      put_head (put_head (disk s (blk_key (log_blk (lg_start l) 0))) (int n) (lg_block l)) 0 (lg_block l))"
    using s'(5) by (simp add: store_def)
  note fin = phase_done [OF assms(4) this]
  have "log_sane (lg_start l) d \<and> (old_blocks (lg_start l) (disk s) (replay (lg_start l) d) \<or>
      new_blocks (lg_start l) (lg_block l ` {..<n}) N (disk s) (replay (lg_start l) d))" if "d \<in> set h" for d
    using that h(2) phase_log [OF assms(4)] phase_install [OF assms(4), of _ N] by auto
  moreover have "lg_n (fs_log (fs s')) = 0" using s'(4) by (simp add: store_def)
  ultimately show ?thesis using s'(2,3) fin by auto
qed


text \<open>
  C2. \<open>commit\<close> is atomic with respect to crashes. Take a transaction of \<open>n\<close> blocks, pinned in the cache with
  their new contents, fewer than the cache has buffers, and an empty log on the disk. \<open>commit\<close> returns
  with every block in its place, the log empty again and the cache clean; and whatever the disk has
  held on the way (a crash may come before every answer of the device), replaying the log on it gives the old contents
  of all blocks outside the log, or the new contents of all blocks of the transaction and the old
  contents of all others.
\<close>

theorem commit_atomic:
  assumes "ready p pid s" "transaction l n N (store s)" "lg_n l = int n"
    and "log_ready (lg_start l) n (lg_block l) (disk s)"
  shows "\<exists>s' h. commit s = Ok () s' \<and> disk_hist s' = h @ disk_hist s \<and>
    (\<forall>d \<in> set (disk s' # h).
      old_blocks (lg_start l) (disk s) (replay (lg_start l) d) \<or>
      new_blocks (lg_start l) (lg_block l ` {..<n}) N (disk s) (replay (lg_start l) d)) \<and>
    new_blocks (lg_start l) (lg_block l ` {..<n}) N (disk s) (disk s') \<and>
    head_count (disk s' (blk_key (log_blk (lg_start l) 0))) = 0 \<and>
    ready p pid s' \<and> at_rest (lg_dev l) {} N (store s') \<and> lg_n (fs_log (fs s')) = 0"
proof -
  from commit_all_or_nothing [OF assms] show ?thesis by fastforce
qed

text \<open>
  An example: block 50 is in a transaction with new contents, everything else is zero, behind a
  device that works.
\<close>

definition demo_commit :: kstate where
  "demo_commit = demo_run\<lparr>
     bcache := \<lparr>bc_buf = (\<lambda>_. zero_buf)(0 := \<lparr>b_valid = True, b_disk = False, b_dev = 1, b_blockno = 50,
         b_refcnt = 1, b_data = replicate BSIZE 7\<rparr>),
       bc_next = (\<lambda>r. case r of BHead \<Rightarrow> BBuf 0 | BBuf i \<Rightarrow> if i = 29 then BHead else BBuf (i + 1)),
       bc_prev = (\<lambda>r. case r of BHead \<Rightarrow> BBuf 29 | BBuf i \<Rightarrow> if i = 0 then BHead else BBuf (i - 1))\<rparr>,
     vdisk := zero_vdisk\<lparr>d_free := \<lambda>_. True\<rparr>, disk := \<lambda>_. replicate BSIZE 0, disk_dev := virtio_device,
     fs := zero_fs\<lparr>fs_log := \<lparr>lg_start = 2, lg_outstanding = 0, lg_committing = True, lg_dev = 1, lg_n = 1,
       lg_block = \<lambda>_. 50\<rparr>\<rparr>\<rparr>"

lemma demo_commit_lru: "lru (bcache demo_commit) [0..<30]"
proof -
  have "lpath (\<lambda>r. case r of BHead \<Rightarrow> BBuf 0 | BBuf i \<Rightarrow> if i = 29 then BHead else BBuf (i + 1)) BHead [0..<30] BHead"
    "lpath (\<lambda>r. case r of BHead \<Rightarrow> BBuf 29 | BBuf i \<Rightarrow> if i = 0 then BHead else BBuf (i - 1)) BHead (rev [0..<30]) BHead"
    by code_simp+
  then show ?thesis by (simp add: lru_def demo_commit_def atLeast0LessThan)
qed

lemma demo_commit_ready: "ready 0 1 demo_commit"
proof -
  have "quiet 0 1 demo_commit"
    by (simp add: quiet_def demo_commit_def demo_run_def demo_simps vdisk_idle_def zero_vdisk_def virtio_device_ok)
  with demo_commit_lru show ?thesis by (auto simp: ready_def)
qed

lemma log_area_out: "33 \<le> uint bn \<Longrightarrow> bn \<notin> log_area 2"
  using log_blk_uint [of 2] by (auto simp: log_area_def)

lemma demo_commit_transaction:
  "transaction (fs_log (fs demo_commit)) 1 (\<lambda>_. replicate BSIZE 7) (store demo_commit)"
  "lg_n (fs_log (fs demo_commit)) = int 1"
  "log_ready (lg_start (fs_log (fs demo_commit))) 1 (lg_block (fs_log (fs demo_commit))) (disk demo_commit)"
  "lg_start (fs_log (fs demo_commit)) = 2" "lg_dev (fs_log (fs demo_commit)) = 1"
  "lg_block (fs_log (fs demo_commit)) = (\<lambda>_. 50)" "(\<lambda>_ :: nat. 50 :: u32) ` {..<1} = {50}"
proof -
  let ?l = "fs_log (fs demo_commit)" and ?N = "\<lambda>_ :: u32. replicate BSIZE 7 :: u8 list"
  show l: "lg_start ?l = 2" "lg_n ?l = int 1" "lg_dev ?l = 1" "lg_block ?l = (\<lambda>_. 50)"
    "(\<lambda>_ :: nat. 50 :: u32) ` {..<1} = {50}" by (simp_all add: demo_commit_def lessThan_Suc)
  have inj: "inj_on (\<lambda>_ :: nat. 50 :: u32) {..<1}" by (auto simp: lessThan_Suc)
  have "head_count (replicate BSIZE 0) = 0" by (simp add: head_count_def get32_def)
  then show "log_ready (lg_start ?l) 1 (lg_block ?l) (disk demo_commit)"
    using log_area_out [of 50] inj unfolding log_ready_def l by (simp add: demo_commit_def)
  have hb: "has_block 1 bn (store demo_commit) i \<longleftrightarrow> bn = 50 \<and> i = 0" for bn i
    by (auto simp: has_block_def store_def demo_commit_def zero_buf_def)
  have "at_rest (lg_dev ?l) (lg_block ?l ` {..<1}) ?N (store demo_commit)"
    unfolding at_rest_def l hb
    by (auto simp: store_def demo_commit_def zero_buf_def demo_run_def demo_simps)
  then show "transaction ?l 1 ?N (store demo_commit)"
    using log_area_out [of 50] inj unfolding transaction_def l by (simp add: store_def)
qed

theorem commit_atomic_witness:
  "\<exists>s'. commit demo_commit = Ok () s' \<and> disk s' 50 = replicate 1024 7 \<and> disk demo_commit 50 = replicate 1024 0 \<and>
     disk s' 51 = replicate 1024 0"
proof -
  note d = demo_commit_transaction
  obtain s' where s': "commit demo_commit = Ok () s'"
    "new_blocks 2 {50} (\<lambda>_. replicate BSIZE 7) (disk demo_commit) (disk s')"
    using commit_atomic [OF demo_commit_ready d(1-3)] unfolding d(4-7) by blast
  then have "disk s' (blk_key 50) = replicate BSIZE 7" "disk s' (blk_key 51) = disk demo_commit (blk_key 51)"
    using log_area_out [of 50] log_area_out [of 51] by (simp_all add: new_blocks_def)
  moreover have "blk_key 50 = 50" "blk_key 51 = 51" by (simp_all add: blk_key_def)
  ultimately show ?thesis using s'(1) by (auto simp: demo_commit_def)
qed

subsection \<open>A full log\<close>

lemma bget_full:
  assumes r: "ready p pid s" and no: "\<forall>j < NBUF. \<not> has_block dev bn (store s) j \<and> b_refcnt (st_buf (store s) j) \<noteq> 0"
  shows "bget dev bn s = Panic ''bget: no buffers''"
proof -
  obtain xs where q: "quiet p pid s" and xs: "lru (bcache s) xs" using r by (auto simp: ready_def)
  let ?P = "\<lambda>i. b_dev (bc_buf (bcache s) i) = dev \<and> b_blockno (bc_buf (bcache s) i) = bn"
  let ?F = "\<lambda>i. b_refcnt (bc_buf (bcache s) i) = 0"
  have "find ?P xs = None" "find ?F (rev xs) = None"
    using no xs by (auto simp: find_None_iff has_block_def store_def lru_def)
  then have "bscan (Suc NBUF) (bc_next (bcache s)) ?P (bc_next (bcache s) BHead) t = Ok None t"
    "bscan (Suc NBUF) (bc_prev (bcache s)) ?F (bc_prev (bcache s) BHead) t = Ok None t" for t
    using lru_scans [OF xs] by simp_all
  with q show ?thesis by (simp add: bget_def quiet_def acquire_free kmonad del: bscan.simps)
qed

text \<open>With as many pinned blocks as buffers, every buffer holds one of them.\<close>

lemma rest_full:
  assumes a: "at_rest dev L N st" and L: "card L = NBUF" and j: "j < NBUF"
  shows "\<exists>bn \<in> L. has_block dev bn st j"
proof (rule ccontr)
  let ?f = "\<lambda>i. b_blockno (st_buf st i)" and ?I = "{..<NBUF} - {j}"
  assume none: "\<not> ?thesis"
  have "bn \<in> ?f ` ?I" if bn: "bn \<in> L" for bn
  proof (rule at_rest_pinned [OF a bn])
    fix i
    assume i: "i < NBUF" "has_block dev bn st i"
    then have "i \<noteq> j" "?f i = bn" using none bn by (auto simp: has_block_def)
    with i(1) show "bn \<in> ?f ` ?I" by blast
  qed
  then have "card L \<le> card (?f ` ?I)" by (intro card_mono) auto
  also have "\<dots> \<le> card ?I" by (rule card_image_le) simp
  also have "\<dots> = NBUF - 1" using j by (subst card_Diff_singleton) simp_all
  finally show False using L by simp
qed

text \<open>
  C16. A transaction that fills the log cannot be committed. \<open>log_write\<close> accepts up to \<open>LOGBLOCKS\<close> blocks, but
  the cache has just as many buffers and all of them are then pinned: \<open>commit\<close> finds no buffer
  for the first block of the log and panics.
\<close>

theorem commit_full_log:
  assumes "ready p pid s" "l = fs_log (fs s)" "lg_n l = int LOGBLOCKS" "inj_on (lg_block l) {..<LOGBLOCKS}"
    and "at_rest (lg_dev l) (lg_block l ` {..<LOGBLOCKS}) N (store s)"
    and "log_blk (lg_start l) 1 \<notin> lg_block l ` {..<LOGBLOCKS}"
  shows "commit s = Panic ''bget: no buffers''"
proof -
  let ?L = "lg_block l ` {..<LOGBLOCKS}" and ?bn = "log_blk (lg_start l) 1"
  have c: "card ?L = NBUF" using assms(4) by (simp add: card_image)
  have "\<not> has_block (lg_dev l) ?bn (store s) j \<and> b_refcnt (st_buf (store s) j) \<noteq> 0" if jN: "j < NBUF" for j
  proof -
    obtain b where "b \<in> ?L" "has_block (lg_dev l) b (store s) j" using rest_full [OF assms(5) c jN] by blast
    with has_block_fun [of "lg_dev l" b "store s" j ?bn] at_restD(3) [OF assms(5) jN] assms(6) show ?thesis by force
  qed
  then have "bget (lg_dev l) ?bn s = Panic ''bget: no buffers''" using assms(1) by (intro bget_full) blast+
  moreover have "word_of_int (lg_start l + int 0 + 1) = ?bn" by (simp add: log_blk_def)
  ultimately have "write_log_one 0 s = Panic ''bget: no buffers''"
    using assms(2) by (simp add: write_log_one_def bread_def kmonad log_get_def)
  then have "kfor write_log_one [0..<LOGBLOCKS] s = Panic ''bget: no buffers''" by (simp add: upt_conv_Cons kmonad)
  then show ?thesis using assms(2,3) by (simp add: commit_def write_log_def kmonad log_get_def)
qed

text \<open>Blocks 100 to 129 in one transaction.\<close>

definition demo_full :: kstate where
  "demo_full = demo_commit\<lparr>
     bcache := (bcache demo_commit)\<lparr>bc_buf := \<lambda>i. \<lparr>b_valid = True, b_disk = False, b_dev = 1,
       b_blockno = of_nat (100 + i), b_refcnt = 1, b_data = replicate BSIZE 7\<rparr>\<rparr>,
     fs := zero_fs\<lparr>fs_log := \<lparr>lg_start = 2, lg_outstanding = 0, lg_committing = True, lg_dev = 1, lg_n = 30,
       lg_block = \<lambda>i. of_nat (100 + i)\<rparr>\<rparr>\<rparr>"

theorem commit_full_log_witness: "commit demo_full = Panic ''bget: no buffers''"
proof -
  let ?l = "fs_log (fs demo_full)"
  have l: "lg_start ?l = 2" "lg_n ?l = int LOGBLOCKS" "lg_dev ?l = 1" "lg_block ?l = (\<lambda>i. of_nat (100 + i))"
    by (simp_all add: demo_full_def)
  have u: "of_nat (100 + i) = (of_nat (100 + j) :: u32) \<longleftrightarrow> i = j" if "i < 30" "j < 30" for i j
    using that by (simp add: word_unat_eq_iff unat_of_nat del: of_nat_add)
  have q: "quiet 0 1 demo_full" using demo_commit_ready by (simp add: ready_def quiet_def demo_full_def)
  moreover have "lru (bcache demo_full) [0..<30]" using demo_commit_lru by (simp add: demo_full_def)
  ultimately have r: "ready 0 1 demo_full" by (auto simp: ready_def)
  have hb: "has_block 1 bn (store demo_full) i \<longleftrightarrow> bn = of_nat (100 + i)" for bn i
    by (auto simp: has_block_def store_def demo_full_def)
  have sl: "\<not> sl_locked (st_sl (store demo_full) x)" for x
    by (simp add: store_def demo_full_def demo_commit_def demo_run_def demo_simps)
  have b: "b_refcnt (st_buf (store demo_full) i) = 1" "b_valid (st_buf (store demo_full) i) = True"
    "b_data (st_buf (store demo_full) i) = replicate BSIZE 7" for i by (simp_all add: store_def demo_full_def)
  have a: "at_rest (lg_dev ?l) (lg_block ?l ` {..<LOGBLOCKS}) (\<lambda>_. replicate BSIZE 7) (store demo_full)"
    unfolding at_rest_def l hb b using sl u by (auto simp del: of_nat_add)
  have "log_blk (lg_start ?l) 1 \<noteq> of_nat (100 + i)" if "i < 30" for i
    using that unfolding l log_blk_def by (simp add: word_unat_eq_iff unat_of_nat del: of_nat_add)
  then have "log_blk (lg_start ?l) 1 \<notin> lg_block ?l ` {..<LOGBLOCKS}" unfolding l(4) by auto
  moreover have "inj_on (lg_block ?l) {..<LOGBLOCKS}" unfolding l(4) using u by (auto simp: inj_on_def simp del: of_nat_add)
  ultimately show ?thesis using commit_full_log [OF r refl l(2) _ a] by blast
qed

end
