(* ===== verification/Recover.thy ===== *)
theory Recover
  imports Commit
begin

text \<open>
  Recovery. \<open>recover_from_log\<close> is shown to replay the log, and together with \<open>commit_atomic\<close>
  this gives what a crash during \<open>commit\<close> leaves after the next boot.
\<close>

subsection \<open>Messages\<close>

lemma printf_recovering:
  assumes "ready p pid s"
  shows "\<exists>s'. printf (''recovering tail %d dst %d'' @ [CHR 0x0A]) [PNum a, PNum b] s = Ok () s' \<and>
    ready p pid s' \<and> store s' = store s"
proof -
  let ?s = "s\<lparr>cpu := push_cpu (cpu s), locks := (locks s)(PrLock := held_by (c_id (cpu s)))\<rparr>"
  have l: "locks s = (\<lambda>_. free_lock)" using assms by (simp add: ready_def quiet_def)
  have f: "bytes (''recovering tail %d dst %d'' @ [CHR 0x0A]) =
      bytes ''recovering tail '' @ bytes ''%d'' @ bytes '' dst '' @ bytes ''%d'' @ bytes [CHR 0x0A]"
    by (simp add: bytes_def)
  obtain c1 where 1: "vprintf (bytes ''%d'' @ bytes '' dst '' @ bytes ''%d'' @ bytes [CHR 0x0A]) [PNum a, PNum b]
      (emit (bytes ''recovering tail '') ?s) = vprintf (bytes '' dst '' @ bytes ''%d'' @ bytes [CHR 0x0A]) [PNum b]
      (emit c1 (emit (bytes ''recovering tail '') ?s))"
    using vprintf_d by blast
  obtain c2 where 2: "vprintf (bytes ''%d'' @ bytes [CHR 0x0A]) [PNum b]
      (emit (bytes '' dst '') (emit c1 (emit (bytes ''recovering tail '') ?s))) = vprintf (bytes [CHR 0x0A]) []
      (emit c2 (emit (bytes '' dst '') (emit c1 (emit (bytes ''recovering tail '') ?s))))"
    using vprintf_d by blast
  have plain: "of_char CHR ''%'' \<notin> set (bytes ''recovering tail '')" "of_char CHR ''%'' \<notin> set (bytes '' dst '')"
    "of_char CHR ''%'' \<notin> set (bytes [CHR 0x0A])" by (simp_all add: bytes_def)
  have "vprintf (bytes (''recovering tail %d dst %d'' @ [CHR 0x0A])) [PNum a, PNum b] ?s = Ok () (emit (bytes [CHR 0x0A])
      (emit c2 (emit (bytes '' dst '') (emit c1 (emit (bytes ''recovering tail '') ?s)))))"
    by (simp only: f vprintf_skip [OF plain(1)] 1 vprintf_skip [OF plain(2)] 2 vprintf_plain [OF plain(3)])
  then obtain cs where v: "vprintf (bytes (''recovering tail %d dst %d'' @ [CHR 0x0A])) [PNum a, PNum b] ?s = Ok () (emit cs ?s)"
    unfolding emit_append by blast
  have "\<not> c_intr (cpu (emit cs ?s))" by (rule emit_intr) simp_all
  then have "printf (''recovering tail %d dst %d'' @ [CHR 0x0A]) [PNum a, PNum b] s =
      Ok () ((emit cs ?s)\<lparr>cpu := pop_cpu (cpu (emit cs ?s)), locks := \<lambda>_. free_lock\<rparr>)"
    using v l by (simp add: printf_def kmonad acquire_free release_held)
  moreover have "c_proc (cpu (emit cs ?s)) = c_proc (cpu s)" by (simp add: emit_def)
  ultimately show ?thesis using assms
    by (auto simp: ready_def quiet_def store_def) (auto simp: emit_def)
qed

subsection \<open>One block\<close>

text \<open>A second block is read while another is held, with nothing pinned.\<close>

lemma got_bread_other:
  assumes r: "ready p pid s" and a: "at_rest dev {} N st" and g: "got pid dev bn st t (store s)"
    and h: "home \<noteq> bn" "home < 2 ^ 31"
  shows "\<exists>f s'. bread dev home s = Ok f s' \<and> ready p pid s' \<and> got pid dev home (store s) f (store s') \<and>
    f \<noteq> t \<and> f < NBUF \<and> b_refcnt (st_buf st f) = 0 \<and> b_refcnt (st_buf (store s') f) = 1 \<and>
    (has_block dev home st f \<or> (\<forall>j < NBUF. j \<noteq> t \<longrightarrow> \<not> has_block dev home st j))"
proof -
  have t: "t < NBUF" "has_block dev bn (store s) t" using g by (simp_all add: got_def)
  have same: "st_buf (store s) i = st_buf st i" if "i \<noteq> t" for i using g that by (simp add: got_def)
  have hb: "has_block dev b (store s) i = has_block dev b st i" if "i \<noteq> t" for i b
    using same [OF that] by (simp add: has_block_def)
  have ht: "\<not> has_block dev home (store s) t" using has_block_fun [OF t(2)] h by auto
  have r0: "b_refcnt (st_buf st i) = 0" if "i < NBUF" for i using at_restD(4) [OF a that] by auto
  have rt: "b_refcnt (st_buf (store s) t) = 1"
    using g r0 [OF t(1)] by (auto simp: got_def split: if_splits)
  have sl: "\<not> sl_locked (st_sl (store s) (BufSL i))" if "i \<noteq> t" "i < NBUF" for i
    using g that at_restD(1) [OF a that(2)] by (simp add: got_def)
  obtain k where k: "k < NBUF" "k \<noteq> t" by (cases "t = 0") (auto intro: that [of 1] that [of 0])
  have "\<exists>f s'. bread dev home s = Ok f s' \<and> ready p pid s' \<and> got pid dev home (store s) f (store s')"
  proof (rule bread_store [OF r h(2)])
    show "\<forall>i < NBUF. \<forall>j < NBUF. has_block dev home (store s) i \<longrightarrow> has_block dev home (store s) j \<longrightarrow> i = j"
    proof (intro allI impI)
      fix i j
      assume ij: "i < NBUF" "j < NBUF" "has_block dev home (store s) i" "has_block dev home (store s) j"
      then have "i \<noteq> t" "j \<noteq> t" using ht by auto
      then show "i = j" using ij hb by (intro at_restD(2) [OF a ij(1,2), of home]) auto
    qed
    show "\<forall>i < NBUF. has_block dev home (store s) i \<longrightarrow> \<not> sl_locked (st_sl (store s) (BufSL i))"
      by (intro allI impI sl) (use ht in auto)
    show "\<forall>i < NBUF. b_refcnt (st_buf (store s) i) = 0 \<longrightarrow> \<not> sl_locked (st_sl (store s) (BufSL i))"
      by (intro allI impI sl) (use rt in auto)
    show "\<exists>i < NBUF. has_block dev home (store s) i \<or> b_refcnt (st_buf (store s) i) = 0"
      using k same r0 by auto
  qed
  then obtain f s' where f: "bread dev home s = Ok f s'" "ready p pid s'" "got pid dev home (store s) f (store s')" by blast
  have "f \<noteq> t" using f(3) ht rt by (auto simp: got_def split: if_splits)
  moreover have "f < NBUF" using f(3) by (simp add: got_def)
  ultimately show ?thesis using f r0 same [of f] hb by (auto simp: got_def split: if_splits)
qed


lemma install_recover:
  assumes r: "ready p pid s" and a: "at_rest dev {} N (store s)"
    and l: "fs_log (st_fs (store s)) = l" "lg_dev l = dev" "lg_block l tail = home" "home < 2 ^ 31"
    and b: "word_of_int (lg_start l + int tail + 1) = bn" "bn < 2 ^ 31" "home \<noteq> bn"
  shows "\<exists>s'. install_one True tail s = Ok None s' \<and> ready p pid s' \<and> at_rest dev {} N (store s') \<and>
    st_fs (store s') = st_fs (store s) \<and> st_disk (store s') = (st_disk (store s))(blk_key home := st_disk (store s) (blk_key bn))"
proof -
  obtain s0 where 0: "printf (''recovering tail %d dst %d'' @ [CHR 0x0A]) [PNum (of_nat tail), PNum (ucast home)] s = Ok () s0"
    "ready p pid s0" "store s0 = store s" using printf_recovering [OF r] by blast
  let ?st = "store s0" and ?d = "st_disk (store s) (blk_key bn)"
  have a0: "at_rest dev {} N ?st" using a 0(3) by simp
  obtain t s1 where 1: "bread dev bn s0 = Ok t s1" "ready p pid s1" "got pid dev bn ?st t (store s1)"
    "b_data (st_buf (store s1) t) = ?d" "b_refcnt (st_buf ?st t) = 0" "b_refcnt (st_buf (store s1) t) = 1"
    using rest_bread [OF 0(2) a0 _ _ _ b(2)] by (auto simp: 0(3))
  obtain f s2 where 2: "bread dev home s1 = Ok f s2" "ready p pid s2" "got pid dev home (store s1) f (store s2)"
    and f: "f \<noteq> t" "f < NBUF" "b_refcnt (st_buf ?st f) = 0" "b_refcnt (st_buf (store s2) f) = 1"
      "has_block dev home ?st f \<or> (\<forall>j < NBUF. j \<noteq> t \<longrightarrow> \<not> has_block dev home ?st j)"
    using got_bread_other [OF 1(2) a0 1(3) b(3) l(4)] by blast
  have t: "t < NBUF" "has_block dev bn (store s2) t" "b_refcnt (st_buf (store s2) t) = 1"
    "b_data (st_buf (store s2) t) = ?d" "has_block dev home (store s2) f"
    "st_sl (store s2) (BufSL t) = held_sl pid" "st_sl (store s2) (BufSL f) = held_sl pid"
    using 1(3,4,6) 2(3) f(1) by (simp_all add: got_def has_block_def)
  let ?s3 = "upd_buf f (b_data_update (\<lambda>_. ?d)) s2" and ?st3 = "upd_st_buf f (b_data_update (\<lambda>_. ?d)) (store s2)"
  have 3: "copy_buf f t s2 = Ok () ?s3" "ready p pid ?s3" "store ?s3 = ?st3"
    using copy_store [OF 2(2)] t(4) by (simp_all add: store_def)
  obtain s4 where 4: "bwrite f ?s3 = Ok () s4" "ready p pid s4"
    "store s4 = (upd_st_buf f (b_disk_update (\<lambda>_. False)) ?st3)
      \<lparr>st_disk := (st_disk ?st3)(blk_key home := ?d), st_hist := st_disk ?st3 # st_hist ?st3\<rparr>"
    using bwrite_store [OF 3(2), of f] t l(4) by (auto simp: 3(3) upd_st_buf_def has_block_def)
  obtain s6 where 6: "brelse t s4 = Ok () s6" "ready p pid s6" "store s6 = brelsed t (store s4)"
    using brelse_store [OF 4(2) t(1)] t(6) by (auto simp: 4(3) upd_st_buf_def)
  obtain s7 where 7: "brelse f s6 = Ok () s7" "ready p pid s7" "store s7 = brelsed f (store s6)"
    using brelse_store [OF 6(2) f(2)] t(7) f(1) by (auto simp: 6(3) 4(3) upd_st_buf_def brelsed_def)
  have run: "install_one True tail s = Ok None s7"
    using 0(1) 1(1) 2(1) 3(1) 4(1) 6(1) 7(1) l b(1) by (simp add: install_one_def kmonad log_get_store)
  note st = 7(3) 6(3) 4(3) brelsed_def upd_st_buf_def
  have d2: "st_disk (store s2) = st_disk (store s)" "st_fs (store s2) = st_fs (store s)"
    using 1(3) 2(3) 0(3) by (simp_all add: got_def)
  let ?mid = "?st\<lparr>st_buf := (st_buf ?st)(t := st_buf (store s7) t)\<rparr>"
  have mid: "at_rest dev {} N ?mid"
  proof (rule rest_replace [OF a0 t(1) 1(5)])
    show "has_block dev bn ?st t \<or> (\<forall>j < NBUF. \<not> has_block dev bn ?st j)"
      using 1(3) by (auto simp: got_def split: if_splits)
    show "has_block dev bn ?mid t" "b_refcnt (st_buf ?mid t) = 0" "b_data (st_buf ?mid t) = st_disk ?mid (blk_key bn)"
      using t f(1) 0(3) by (simp_all add: st has_block_def)
  qed (use at_restD(1) [OF a0] in \<open>simp_all add: same_buf_def\<close>)
  have "at_rest dev {} N (store s7)"
  proof (rule rest_replace [OF mid f(2)])
    have "\<not> has_block dev home ?mid t" using t(2) f(1) b(3) by (simp add: st has_block_def)
    then show "has_block dev home ?mid f \<or> (\<forall>j < NBUF. \<not> has_block dev home ?mid j)"
      using f(1,5) by (auto simp: has_block_def)
    show "b_refcnt (st_buf ?mid f) = 0" using f by simp
    show "has_block dev home (store s7) f" "b_refcnt (st_buf (store s7) f) = 0"
      "b_data (st_buf (store s7) f) = st_disk (store s7) (blk_key home)"
      using t f(1,4) by (simp_all add: st has_block_def)
    show "\<forall>x. x \<noteq> blk_key home \<longrightarrow> st_disk (store s7) x = st_disk ?mid x" by (simp add: st d2 0(3))
    show "\<forall>i < NBUF. \<not> sl_locked (st_sl (store s7) (BufSL i))"
      using at_restD(1) [OF a0] 1(3) 2(3) by (simp add: st got_def free_sl_def)
    show "\<forall>i < NBUF. i \<noteq> f \<longrightarrow> same_buf (st_buf (store s7) i) (st_buf ?mid i)"
      using 1(3) 2(3) by (auto simp: st got_def same_buf_def)
  qed simp
  with run 7(2) show ?thesis by (simp add: st d2)
qed

subsection \<open>The header\<close>

lemma read_blocks_ok:
  assumes "ready p pid s" "m \<le> LOGBLOCKS"
  shows "\<exists>s'. kfor (\<lambda>i. if LOGBLOCKS \<le> i then kfault ''read_head: block''
        else kthen (log_set (\<lambda>l. l\<lparr>lg_block := (lg_block l)(i := get32 d (4 + 4 * i))\<rparr>)) (kret (None :: unit option)))
      [0..<m] s = Ok None s' \<and> ready p pid s' \<and>
    (\<exists>bl. store s' = (store s)\<lparr>st_fs := (st_fs (store s))\<lparr>fs_log := (fs_log (st_fs (store s)))\<lparr>lg_block := bl\<rparr>\<rparr>\<rparr> \<and>
      (\<forall>i < m. bl i = get32 d (4 + 4 * i)))"
  using assms(2)
proof (induction m)
  case 0
  then show ?case using assms(1) by (auto simp: kmonad intro!: exI [of _ "lg_block (fs_log (st_fs (store s)))"])
next
  case (Suc m)
  let ?body = "\<lambda>i. if LOGBLOCKS \<le> i then kfault ''read_head: block''
        else kthen (log_set (\<lambda>l. l\<lparr>lg_block := (lg_block l)(i := get32 d (4 + 4 * i))\<rparr>)) (kret (None :: unit option))"
  obtain s1 bl where 1: "kfor ?body [0..<m] s = Ok None s1" "ready p pid s1"
    "store s1 = (store s)\<lparr>st_fs := (st_fs (store s))\<lparr>fs_log := (fs_log (st_fs (store s)))\<lparr>lg_block := bl\<rparr>\<rparr>\<rparr>"
    "\<forall>i < m. bl i = get32 d (4 + 4 * i)"
    using Suc by auto
  obtain s2 where 2: "log_set (\<lambda>l. l\<lparr>lg_block := (lg_block l)(m := get32 d (4 + 4 * m))\<rparr>) s1 = Ok () s2" "ready p pid s2"
    "store s2 = (store s1)\<lparr>st_fs := (st_fs (store s1))\<lparr>fs_log := (fs_log (st_fs (store s1)))
      \<lparr>lg_block := (lg_block (fs_log (st_fs (store s1))))(m := get32 d (4 + 4 * m))\<rparr>\<rparr>\<rparr>"
    using log_set_ok [OF 1(2)] by blast
  have "kfor ?body [0..<Suc m] s = Ok None s2" using 1(1) 2(1) Suc.prems by (simp add: kfor_append kmonad)
  moreover have "\<forall>i < Suc m. (bl(m := get32 d (4 + 4 * m))) i = get32 d (4 + 4 * i)"
    using 1(4) by (simp add: less_Suc_eq)
  ultimately show ?case using 2(2)
    by (intro exI [of _ s2] conjI exI [of _ "bl(m := get32 d (4 + 4 * m))"])
      (simp_all add: 2(3) 1(3) del: fun_upd_apply upt_Suc)
qed


lemma read_head_ok:
  assumes r: "ready p pid s" and a: "at_rest dev {} N (store s)"
    and l: "fs_log (st_fs (store s)) = l" "lg_dev l = dev"
    and b: "word_of_int (lg_start l) = bn" "bn < 2 ^ 31" and d: "st_disk (store s) (blk_key bn) = d" "head_count d \<le> LOGBLOCKS"
  shows "\<exists>s' bl. read_head s = Ok () s' \<and> ready p pid s' \<and> at_rest dev {} N (store s') \<and>
    st_disk (store s') = st_disk (store s) \<and>
    st_fs (store s') = (st_fs (store s))\<lparr>fs_log := l\<lparr>lg_n := sint (get32 d 0), lg_block := bl\<rparr>\<rparr> \<and>
    (\<forall>i < head_count d. bl i = head_block d i)"
proof -
  let ?st = "store s"
  obtain t s1 where 1: "bread dev bn s = Ok t s1" "ready p pid s1" "got pid dev bn ?st t (store s1)"
    "b_data (st_buf (store s1) t) = d" "b_refcnt (st_buf ?st t) = 0" "b_refcnt (st_buf (store s1) t) = 1"
    using rest_bread [OF r a _ _ _ b(2)] d by auto
  have t: "t < NBUF" "has_block dev bn (store s1) t" "st_sl (store s1) (BufSL t) = held_sl pid"
    "st_fs (store s1) = st_fs ?st" "st_disk (store s1) = st_disk ?st" using 1(3) by (simp_all add: got_def)
  have bd: "buf_data t s1 = Ok d s1" using 1(4) by (simp add: buf_data_def kmonad store_def)
  obtain s2 where 2: "log_set (\<lambda>l. l\<lparr>lg_n := sint (get32 d 0)\<rparr>) s1 = Ok () s2" "ready p pid s2"
    "store s2 = (store s1)\<lparr>st_fs := (st_fs ?st)\<lparr>fs_log := l\<lparr>lg_n := sint (get32 d 0)\<rparr>\<rparr>\<rparr>"
    using log_set_ok [OF 1(2), of "\<lambda>l. l\<lparr>lg_n := sint (get32 d 0)\<rparr>"] t(4) l(1) by auto
  obtain s3 bl where 3: "kfor (\<lambda>i. if LOGBLOCKS \<le> i then kfault ''read_head: block''
        else kthen (log_set (\<lambda>l. l\<lparr>lg_block := (lg_block l)(i := get32 d (4 + 4 * i))\<rparr>)) (kret (None :: unit option)))
      [0..<head_count d] s2 = Ok None s3" "ready p pid s3"
    "store s3 = (store s2)\<lparr>st_fs := (st_fs (store s2))\<lparr>fs_log := (fs_log (st_fs (store s2)))\<lparr>lg_block := bl\<rparr>\<rparr>\<rparr>"
    "\<forall>i < head_count d. bl i = get32 d (4 + 4 * i)"
    using read_blocks_ok [OF 2(2) d(2), of d] by blast
  obtain s4 where 4: "brelse t s3 = Ok () s4" "ready p pid s4" "store s4 = brelsed t (store s3)"
    using brelse_store [OF 3(2) t(1)] t(3) by (auto simp: 3(3) 2(3))
  have run: "read_head s = Ok () s4"
    using 1(1) bd 2(1) 3(1) 4(1) l b(1) unfolding head_count_def by (simp add: read_head_def kmonad log_get_store)
  note st = 4(3) 3(3) 2(3) brelsed_def upd_st_buf_def
  have "at_rest dev {} N (store s4)"
  proof (rule rest_replace [OF a t(1) 1(5)])
    show "has_block dev bn ?st t \<or> (\<forall>j < NBUF. \<not> has_block dev bn ?st j)"
      using 1(3) by (auto simp: got_def split: if_splits)
    show "has_block dev bn (store s4) t" "b_refcnt (st_buf (store s4) t) = 0"
      "b_data (st_buf (store s4) t) = st_disk (store s4) (blk_key bn)"
      using t 1(4,6) d(1) by (simp_all add: st has_block_def)
    show "\<forall>x. x \<noteq> blk_key bn \<longrightarrow> st_disk (store s4) x = st_disk ?st x" by (simp add: st t)
    show "\<forall>i < NBUF. \<not> sl_locked (st_sl (store s4) (BufSL i))"
      using at_restD(1) [OF a] 1(3) by (simp add: st got_def free_sl_def)
    show "\<forall>i < NBUF. i \<noteq> t \<longrightarrow> same_buf (st_buf (store s4) i) (st_buf ?st i)"
      using 1(3) by (auto simp: st got_def same_buf_def)
  qed simp
  with run 4(2) 3(4) t show ?thesis by (intro exI [of _ s4] exI [of _ bl]) (simp add: st head_block_def)
qed

subsection \<open>Recovery\<close>

lemma copy_back_log:
  assumes "log_sane start d" "m \<le> head_count (d (blk_key (log_blk start 0)))" "j \<le> LOGBLOCKS"
  shows "copy_back start d m (blk_key (log_blk start j)) = d (blk_key (log_blk start j))"
  using assms(2)
proof (induction m)
  case (Suc m)
  have "log_blk start j \<in> log_area start" using assms(3) by (simp add: log_area_def)
  with Suc assms(1) show ?case by (auto simp: log_sane_def Let_def)
qed simp

lemma install_replay:
  assumes r: "ready p pid s" and a: "at_rest dev {} N (store s)" and sane: "log_sane start (st_disk (store s))"
    and l: "fs_log (st_fs (store s)) = l" "lg_dev l = dev" "lg_start l = start"
    and h: "st_disk (store s) (blk_key (log_blk start 0)) = h" "\<forall>i < head_count h. lg_block l i = head_block h i"
    and m: "m \<le> head_count h"
  shows "\<exists>s'. kfor (install_one True) [0..<m] s = Ok None s' \<and> ready p pid s' \<and> at_rest dev {} N (store s') \<and>
    st_fs (store s') = st_fs (store s) \<and> st_disk (store s') = copy_back start (st_disk (store s)) m"
  using m
proof (induction m)
  case 0
  then show ?case using r a by (simp add: kmonad)
next
  case (Suc m)
  then obtain s1 where 1: "kfor (install_one True) [0..<m] s = Ok None s1" "ready p pid s1" "at_rest dev {} N (store s1)"
    "st_fs (store s1) = st_fs (store s)" "st_disk (store s1) = copy_back start (st_disk (store s)) m" by auto
  have L: "0 \<le> start" "start + int LOGBLOCKS < 2 ^ 31" "head_count h \<le> LOGBLOCKS" "lg_block l m = head_block h m"
    "head_block h m < 2 ^ 31" "head_block h m \<notin> log_area start" "m < head_count h"
    using sane h Suc.prems by (auto simp: log_sane_def Let_def)
  have bn: "log_blk start (Suc m) < 2 ^ 31" "head_block h m \<noteq> log_blk start (Suc m)"
    using log_blk_eq(2,3) [OF L(1,2), of "Suc m" "Suc m"] L(3,6,7) by auto
  have l1: "fs_log (st_fs (store s1)) = l" using l(1) 1(4) by simp
  have w: "word_of_int (lg_start l + int m + 1) = log_blk start (Suc m)" using log_blk_Suc [of l m] l(3) by simp
  have keep: "copy_back start (st_disk (store s)) m (blk_key (log_blk start (Suc m))) =
      st_disk (store s) (blk_key (log_blk start (Suc m)))"
    by (rule copy_back_log [OF sane]) (use L h(1) in simp_all)
  obtain s2 where 2: "install_one True m s1 = Ok None s2" "ready p pid s2" "at_rest dev {} N (store s2)"
    "st_fs (store s2) = st_fs (store s1)"
    "st_disk (store s2) = (st_disk (store s1))(blk_key (head_block h m) := st_disk (store s1) (blk_key (log_blk start (Suc m))))"
    using install_recover [OF 1(2,3) l1 l(2) L(4,5) w bn] by blast
  have "kfor (install_one True) [0..<Suc m] s = Ok None s2" using 1(1) 2(1) by (simp add: kfor_append kmonad)
  with 2 1 keep show ?case by (auto simp: h(1))
qed

lemma recover_runs:
  assumes r: "ready p pid s" and a: "at_rest dev {} N (store s)" and sane: "log_sane start (disk s)"
    and l: "lg_dev (fs_log (fs s)) = dev" "lg_start (fs_log (fs s)) = start"
  shows "\<exists>s'. recover_from_log s = Ok () s' \<and> ready p pid s' \<and> at_rest dev {} N (store s') \<and>
    lg_n (fs_log (fs s')) = 0 \<and> (\<exists>bl. disk s' = (replay start (disk s))
      (blk_key (log_blk start 0) := put_head (disk s (blk_key (log_blk start 0))) 0 bl))"
proof -
  let ?hk = "blk_key (log_blk start 0)" and ?l = "fs_log (fs s)"
  let ?h = "disk s ?hk"
  have d: "st_disk (store s) = disk s" "fs_log (st_fs (store s)) = ?l" by (simp_all add: store_def)
  have L: "0 \<le> start" "start + int LOGBLOCKS < 2 ^ 31" "head_count ?h \<le> LOGBLOCKS"
    using sane by (simp_all add: log_sane_def Let_def)
  have hb: "log_blk start 0 < 2 ^ 31" using log_blk_eq(2) [OF L(1,2), of 0 0] by simp
  have w: "word_of_int (lg_start ?l) = log_blk start 0" using l by (simp add: log_blk_def)
  obtain s1 bl where 1: "read_head s = Ok () s1" "ready p pid s1" "at_rest dev {} N (store s1)"
    "st_disk (store s1) = disk s" "st_fs (store s1) = (fs s)\<lparr>fs_log := ?l\<lparr>lg_n := sint (get32 ?h 0), lg_block := bl\<rparr>\<rparr>"
    "\<forall>i < head_count ?h. bl i = head_block ?h i"
    using read_head_ok [OF r a d(2) l(1) w hb _ L(3)] by (auto simp: store_def)
  let ?l1 = "?l\<lparr>lg_n := sint (get32 ?h 0), lg_block := bl\<rparr>"
  have l1: "fs_log (st_fs (store s1)) = ?l1" "lg_dev ?l1 = dev" "lg_start ?l1 = start" using 1(5) l by simp_all
  obtain s2 where 2: "kfor (install_one True) [0..<head_count ?h] s1 = Ok None s2" "ready p pid s2" "at_rest dev {} N (store s2)"
    "st_fs (store s2) = st_fs (store s1)" "st_disk (store s2) = replay start (disk s)"
    using install_replay [OF 1(2,3) _ l1, of ?h "head_count ?h"] sane 1(4,6) by (auto simp: replay_def)
  obtain s3 where 3: "log_set (\<lambda>l. l\<lparr>lg_n := 0\<rparr>) s2 = Ok () s3" "ready p pid s3"
    "store s3 = (store s2)\<lparr>st_fs := (st_fs (store s2))\<lparr>fs_log := ?l1\<lparr>lg_n := 0\<rparr>\<rparr>\<rparr>"
    using log_set_ok [OF 2(2), of "\<lambda>l. l\<lparr>lg_n := 0\<rparr>"] 2(4) l1(1) by auto
  let ?l3 = "?l1\<lparr>lg_n := 0\<rparr>"
  have l3: "at_rest dev {} N (store s3)" "fs_log (st_fs (store s3)) = ?l3" "lg_dev ?l3 = dev"
    "word_of_int (lg_start ?l3) = log_blk start 0" "st_disk (store s3) = replay start (disk s)"
    using 2(3,5) l w by (simp_all add: 3(3))
  have hd: "replay start (disk s) ?hk = ?h" unfolding replay_def by (rule copy_back_log [OF sane]) simp_all
  obtain s4 where 4: "write_head s3 = Ok () s4" "ready p pid s4" "at_rest dev {} N (store s4)"
    "st_fs (store s4) = st_fs (store s3)" "st_disk (store s4) = (replay start (disk s))(?hk := put_head ?h 0 bl)"
    using write_head_ok [OF 3(2) l3(1) _ _ l3(2,3,4) _ hb] l3(5) hd by auto
  have "recover_from_log s = Ok () s4"
    using 1(1) 2(1) 3(1) 4(1) l1(1)
    by (simp add: recover_from_log_def install_trans_def kmonad log_get_store head_count_def)
  moreover have "lg_n (fs_log (fs s4)) = 0" using 4(4) 3(3) by (simp add: store_def)
  ultimately show ?thesis using 4 by (auto simp: store_def)
qed


lemma log_area_0: "bn \<notin> log_area start \<Longrightarrow> bn \<noteq> log_blk start 0"
  by (auto simp: log_area_def)

text \<open>
  C15. \<open>recover_from_log\<close> replays the log. From a cache that holds nothing but copies of what is on the disk, and a log
  whose header names at most \<open>LOGBLOCKS\<close> blocks, none of them in the log, it returns with every block
  outside the log as \<open>replay\<close> computes it from the disk, the log empty in memory and on the disk, and
  the cache clean.
\<close>

theorem recover_replays:
  assumes "ready p pid s" "at_rest (lg_dev (fs_log (fs s))) {} N (store s)" "log_sane (lg_start (fs_log (fs s))) (disk s)"
  shows "\<exists>s'. recover_from_log s = Ok () s' \<and> ready p pid s' \<and>
    (\<forall>bn. bn \<notin> log_area (lg_start (fs_log (fs s))) \<longrightarrow>
       disk s' (blk_key bn) = replay (lg_start (fs_log (fs s))) (disk s) (blk_key bn)) \<and>
    head_count (disk s' (blk_key (log_blk (lg_start (fs_log (fs s))) 0))) = 0 \<and> lg_n (fs_log (fs s')) = 0 \<and>
    at_rest (lg_dev (fs_log (fs s))) {} N (store s')"
proof -
  let ?st = "lg_start (fs_log (fs s))"
  have "length (disk s (blk_key (log_blk ?st 0))) = BSIZE" using assms(3) by (simp add: log_sane_def Let_def)
  then have "head_count (put_head (disk s (blk_key (log_blk ?st 0))) 0 bl) = 0" for bl
    using put_head_ok(2) [of _ 0 bl] by simp
  with recover_runs [OF assms refl refl] log_area_0 show ?thesis by fastforce
qed

text \<open>A kernel that has just come up on disk \<open>d\<close>: all buffers are empty.\<close>

definition demo_boot :: "blocks \<Rightarrow> kstate" where
  "demo_boot d = demo_commit\<lparr>bcache := (bcache demo_commit)\<lparr>bc_buf := \<lambda>_. zero_buf\<rparr>, disk := d\<rparr>"

lemma demo_boot_ready: "ready 0 1 (demo_boot d)" "at_rest 1 {} N (store (demo_boot d))"
  "lg_dev (fs_log (fs (demo_boot d))) = 1" "lg_start (fs_log (fs (demo_boot d))) = 2" "disk (demo_boot d) = d"
proof -
  have "quiet 0 1 (demo_boot d)" using demo_commit_ready by (simp add: ready_def quiet_def demo_boot_def)
  moreover have "lru (bcache (demo_boot d)) [0..<30]" using demo_commit_lru by (simp add: demo_boot_def)
  ultimately show "ready 0 1 (demo_boot d)" by (auto simp: ready_def)
  show "at_rest 1 {} N (store (demo_boot d))"
    by (simp add: at_rest_def has_block_def store_def demo_boot_def zero_buf_def)
      (simp add: demo_commit_def demo_run_def demo_simps)
qed (simp_all add: demo_boot_def demo_commit_def)

text \<open>The log holds one block, for block 50.\<close>

theorem recover_replays_witness:
  "\<exists>s'. recover_from_log (demo_boot ((\<lambda>_. replicate 1024 0)
      (2 := put_head (replicate 1024 0) 1 (\<lambda>_. 50), 3 := replicate 1024 7))) = Ok () s' \<and> disk s' 50 = replicate 1024 7"
proof -
  let ?h = "put_head (replicate BSIZE 0) (int 1) (\<lambda>_. 50)"
  let ?d = "(\<lambda>_. replicate BSIZE 0)(2 := ?h, 3 := replicate BSIZE 7) :: blocks"
  have h: "length ?h = BSIZE" "head_count ?h = 1" "head_block ?h 0 = 50"
    using put_head_ok [of "replicate BSIZE 0" 1, where bl = "\<lambda>_. 50"] by simp_all
  have k: "blk_key (log_blk 2 0) = 2" "blk_key (log_blk 2 (Suc 0)) = 3" "blk_key 50 = 50"
    by (simp_all add: blk_key_def log_blk_def)
  have "log_sane 2 ?d" using h log_area_out [of 50] by (simp add: log_sane_def k)
  then obtain s' where s': "recover_from_log (demo_boot ?d) = Ok () s'"
    "\<forall>bn. bn \<notin> log_area 2 \<longrightarrow> disk s' (blk_key bn) = replay 2 ?d (blk_key bn)"
    using recover_replays [OF demo_boot_ready(1), of ?d, unfolded demo_boot_ready, OF demo_boot_ready(2)] by blast
  have "replay 2 ?d (blk_key 50) = replicate BSIZE 7" using h by (simp add: replay_def k)
  with s' log_area_out [of 50] k(3) show ?thesis by auto
qed

text \<open>
  C3. A crash at any moment of \<open>commit\<close> is repaired by the next boot. Whatever disk a crash leaves, and
  whatever kernel comes up on it with an empty cache, its \<open>recover_from_log\<close> returns, and the blocks outside the log
  are then all as they were before the transaction, or all as after it.
\<close>

theorem crash_recovery:
  assumes "ready p pid s" "transaction l n N (store s)" "lg_n l = int n"
    and "log_ready (lg_start l) n (lg_block l) (disk s)"
  shows "\<exists>s' h. commit s = Ok () s' \<and> disk_hist s' = h @ disk_hist s \<and>
    (\<forall>d \<in> set (disk s' # h). \<forall>t q i M.
      ready q i t \<longrightarrow> disk t = d \<longrightarrow> lg_dev (fs_log (fs t)) = lg_dev l \<longrightarrow> lg_start (fs_log (fs t)) = lg_start l \<longrightarrow>
      at_rest (lg_dev l) {} M (store t) \<longrightarrow>
      (\<exists>t'. recover_from_log t = Ok () t' \<and>
        (old_blocks (lg_start l) (disk s) (disk t') \<or>
         new_blocks (lg_start l) (lg_block l ` {..<n}) N (disk s) (disk t'))))"
proof -
  obtain s' h where c: "commit s = Ok () s'" "disk_hist s' = h @ disk_hist s"
    and all: "\<forall>d \<in> set (disk s' # h). log_sane (lg_start l) d \<and>
      (old_blocks (lg_start l) (disk s) (replay (lg_start l) d) \<or>
       new_blocks (lg_start l) (lg_block l ` {..<n}) N (disk s) (replay (lg_start l) d))"
    using commit_all_or_nothing [OF assms] by blast
  have "\<exists>t'. recover_from_log t = Ok () t' \<and> (old_blocks (lg_start l) (disk s) (disk t') \<or>
         new_blocks (lg_start l) (lg_block l ` {..<n}) N (disk s) (disk t'))"
    if d: "disk t \<in> set (disk s' # h)" and t: "ready q i t" "lg_dev (fs_log (fs t)) = lg_dev l"
      "lg_start (fs_log (fs t)) = lg_start l" "at_rest (lg_dev l) {} M (store t)" for t q i M
  proof -
    have D: "log_sane (lg_start l) (disk t)" "old_blocks (lg_start l) (disk s) (replay (lg_start l) (disk t)) \<or>
       new_blocks (lg_start l) (lg_block l ` {..<n}) N (disk s) (replay (lg_start l) (disk t))" using all d by blast+
    obtain t' bl where t': "recover_from_log t = Ok () t'" "disk t' = (replay (lg_start l) (disk t))
        (blk_key (log_blk (lg_start l) 0) := put_head (disk t (blk_key (log_blk (lg_start l) 0))) 0 bl)"
      using recover_runs [OF t(1,4) D(1) t(2,3)] by blast
    have "disk t' (blk_key bn) = replay (lg_start l) (disk t) (blk_key bn)" if "bn \<notin> log_area (lg_start l)" for bn
      using log_area_0 [OF that] by (simp add: t'(2))
    with D(2) t'(1) show ?thesis by (auto simp: old_blocks_def new_blocks_def)
  qed
  with c show ?thesis by blast
qed


theorem crash_recovery_witness:
  "\<exists>s' t'. commit demo_commit = Ok () s' \<and> recover_from_log (demo_boot (disk s')) = Ok () t' \<and>
     (disk t' 50 = replicate 1024 0 \<or> disk t' 50 = replicate 1024 7)"
proof -
  note d = demo_commit_transaction
  obtain s' t' where "commit demo_commit = Ok () s'" "recover_from_log (demo_boot (disk s')) = Ok () t'"
    "old_blocks 2 (disk demo_commit) (disk t') \<or> new_blocks 2 {50} (\<lambda>_. replicate BSIZE 7) (disk demo_commit) (disk t')"
    using crash_recovery [OF demo_commit_ready d(1-3)] demo_boot_ready unfolding d(4-7) by (metis list.set_intros(1))
  moreover have "disk demo_commit 50 = replicate BSIZE 0" "blk_key 50 = 50" by (simp_all add: demo_commit_def blk_key_def)
  ultimately show ?thesis using log_area_out [of 50] by (auto simp: old_blocks_def new_blocks_def)
qed

end
