(* ===== verification/Usys.thy ===== *)
theory Usys
  imports Prelude
begin

text \<open>
  The system-call interface as a user program sees it (\<^verbatim>\<open>user/user.h\<close> and the stubs of
  \<^verbatim>\<open>user/usys.pl\<close>). A program runs on a \<open>uproc\<close>: what the kernel will answer to the calls it has yet to
  make, and the calls it has made so far. A run follows one process: after a fork the answer says
  whether it is the parent or the child that the run goes on with.

  \<^item> \<open>u_in fd\<close> is the input behind a descriptor, cut into the pieces the kernel will hand out: a call of
    \<^verbatim>\<open>read\<close> takes from the first piece as much as the program asks for. \<open>None\<close> is a read that fails. After
    the last piece comes the end of the file.
  \<^item> \<open>u_wr\<close> are the answers to the next calls of \<^verbatim>\<open>write\<close>; when there are none, everything is written.
  \<^item> \<open>u_ans\<close> are the answers to all other calls, in order. A program whose next answer is not there is
    \<open>Blocked\<close>.
  \<^item> \<open>u_exit\<close> is set when the program has called \<^verbatim>\<open>exit\<close>, which does not return either: the outcome is
    \<open>Blocked\<close> as well.

  Strings are lists of characters without the NUL that ends them.
\<close>

datatype ucall =
    UFork | UExit int | UWait | UPipe | UWrite int string | URead int nat | UClose int | UKill int
  | UExec string "string list" | UOpen string int | UMknod string int int | UUnlink string | UFstat int
  | ULink string string | UMkdir string | UChdir string | UDup int | UGetpid | USbrk int int | UPause int
  | UUptime | UMemstats

record uproc =
  u_in :: "int \<Rightarrow> string option list"
  u_wr :: "int list"
  u_ans :: "int list"
  u_calls :: "ucall list"
  u_exit :: "int option"

type_synonym 'a u = "(uproc, 'a) km"

named_theorems usys \<open>unfolding of the system calls at a state\<close>

subsection \<open>The calls\<close>

definition called :: "ucall \<Rightarrow> uproc \<Rightarrow> uproc" where
  "called c s = s\<lparr>u_calls := c # u_calls s\<rparr>"

definition next_answer :: "int u" where
  "next_answer s = (case u_ans s of [] \<Rightarrow> Blocked s | a # r \<Rightarrow> Ok a (s\<lparr>u_ans := r\<rparr>))"

definition ask :: "ucall \<Rightarrow> int u" where
  "ask c = kthen (kmodify (called c)) next_answer"

definition uexit :: "int \<Rightarrow> 'a u" where
  "uexit n = (\<lambda>s. Blocked ((called (UExit n) s)\<lparr>u_exit := Some n\<rparr>))"

definition uwrite :: "int \<Rightarrow> string \<Rightarrow> int u" where
  "uwrite fd t = kthen (kmodify (called (UWrite fd t)))
     (\<lambda>s. case u_wr s of [] \<Rightarrow> Ok (int (length t)) s | a # r \<Rightarrow> Ok a (s\<lparr>u_wr := r\<rparr>))"

definition uread :: "int \<Rightarrow> nat \<Rightarrow> string option u" where
  "uread fd n = kthen (kmodify (called (URead fd n)))
     (\<lambda>s. case u_in s fd of
       [] \<Rightarrow> Ok (Some []) s
     | None # r \<Rightarrow> Ok None (s\<lparr>u_in := (u_in s)(fd := r)\<rparr>)
     | Some c # r \<Rightarrow> Ok (Some (take n c))
         (s\<lparr>u_in := (u_in s)(fd := (if drop n c = [] then r else Some (drop n c) # r))\<rparr>))"

text \<open>
  A pipe stores two descriptors and \<^verbatim>\<open>wait(&status)\<close> an exit status: they follow the answer to the
  call itself, if that is not negative. \<^verbatim>\<open>fstat\<close> fills a \<^verbatim>\<open>struct stat\<close> in the same way.
\<close>

record ustat =
  us_dev :: int
  us_ino :: int
  us_type :: int
  us_nlink :: int
  us_size :: int

definition upipe :: "(int \<times> int) option u" where
  "upipe = kbind (ask UPipe) (\<lambda>r. if r < 0 then kret None
     else kbind next_answer (\<lambda>a. kbind next_answer (\<lambda>b. kret (Some (a, b)))))"

definition uwait :: "(int \<times> int) u" where
  "uwait = kbind (ask UWait) (\<lambda>r. if r < 0 then kret (r, 0)
     else kbind next_answer (\<lambda>x. kret (r, x)))"

definition ufstat :: "int \<Rightarrow> ustat option u" where
  "ufstat fd = kbind (ask (UFstat fd)) (\<lambda>r. if r < 0 then kret None
     else kbind next_answer (\<lambda>d. kbind next_answer (\<lambda>i. kbind next_answer (\<lambda>t.
          kbind next_answer (\<lambda>l. kbind next_answer (\<lambda>z.
          kret (Some \<lparr>us_dev = d, us_ino = i, us_type = t, us_nlink = l, us_size = z\<rparr>)))))))"

subsection \<open>What a program has written\<close>

text \<open>The bytes written to a descriptor, in order, and how much input is left.\<close>

fun written :: "int \<Rightarrow> ucall list \<Rightarrow> string" where
  "written fd [] = []"
| "written fd (UWrite g t # cs) = written fd cs @ (if g = fd then t else [])"
| "written fd (c # cs) = written fd cs"

abbreviation outputs :: "int \<Rightarrow> uproc \<Rightarrow> string" where
  "outputs fd s \<equiv> written fd (u_calls s)"

primrec piece_cost :: "string option \<Rightarrow> nat" where
  "piece_cost None = 1"
| "piece_cost (Some c) = Suc (length c)"

definition left_of :: "uproc \<Rightarrow> int \<Rightarrow> nat" where
  "left_of s fd = sum_list (map piece_cost (u_in s fd))"

text \<open>A descriptor that holds \<open>t\<close>, in pieces of any size, and no errors.\<close>

definition holds :: "uproc \<Rightarrow> int \<Rightarrow> string \<Rightarrow> bool" where
  "holds s fd t \<longleftrightarrow> None \<notin> set (u_in s fd) \<and> Some [] \<notin> set (u_in s fd) \<and> concat (map the (u_in s fd)) = t"

lemma uexit_apply [usys]: "uexit n s = Blocked (s\<lparr>u_calls := UExit n # u_calls s, u_exit := Some n\<rparr>)"
  by (simp add: uexit_def called_def)

lemma ask_apply [usys]: "ask c s = (case u_ans s of [] \<Rightarrow> Blocked (s\<lparr>u_calls := c # u_calls s\<rparr>)
    | a # r \<Rightarrow> Ok a (s\<lparr>u_calls := c # u_calls s, u_ans := r\<rparr>))"
  by (simp add: ask_def next_answer_def called_def kmonad split: list.split)

lemma next_answer_apply [usys]: "next_answer s = (case u_ans s of [] \<Rightarrow> Blocked s | a # r \<Rightarrow> Ok a (s\<lparr>u_ans := r\<rparr>))"
  by (simp add: next_answer_def)

lemma uwrite_all [usys]:
  "u_wr s = [] \<Longrightarrow> uwrite fd t s = Ok (int (length t)) (s\<lparr>u_calls := UWrite fd t # u_calls s\<rparr>)"
  by (simp add: uwrite_def called_def kmonad)

lemma uwrite_any: "\<exists>r w. uwrite fd t s = Ok r (s\<lparr>u_calls := UWrite fd t # u_calls s, u_wr := w\<rparr>)"
  by (cases "u_wr s") (auto simp: uwrite_def called_def kmonad intro: exI [of _ "[]"])

subsection \<open>Reading a descriptor that holds a text\<close>

lemma left_of_pos: "u_in s fd \<noteq> [] \<Longrightarrow> 0 < left_of s fd"
  by (cases "u_in s fd"; cases "hd (u_in s fd)") (auto simp: left_of_def)

lemma holds_nil: "holds s fd [] \<longleftrightarrow> u_in s fd = []"
proof
  assume h: "holds s fd []"
  show "u_in s fd = []"
  proof (rule ccontr)
    assume "u_in s fd \<noteq> []"
    then obtain c r where "u_in s fd = c # r" by (cases "u_in s fd") auto
    with h show False by (cases c) (auto simp: holds_def)
  qed
qed (simp add: holds_def)

lemma uread_end: "holds s fd [] \<Longrightarrow> uread fd n s = Ok (Some []) (s\<lparr>u_calls := URead fd n # u_calls s\<rparr>)"
  by (simp add: holds_nil uread_def called_def kmonad)

lemma uread_some:
  assumes "holds s fd t" "t \<noteq> []" "0 < n"
  shows "\<exists>x y i. t = x @ y \<and> x \<noteq> [] \<and> length x \<le> n \<and>
    uread fd n s = Ok (Some x) (s\<lparr>u_calls := URead fd n # u_calls s, u_in := (u_in s)(fd := i)\<rparr>) \<and>
    holds (s\<lparr>u_calls := URead fd n # u_calls s, u_in := (u_in s)(fd := i)\<rparr>) fd y \<and>
    left_of (s\<lparr>u_calls := URead fd n # u_calls s, u_in := (u_in s)(fd := i)\<rparr>) fd < left_of s fd"
proof -
  have "u_in s fd \<noteq> []" using assms(1,2) by (auto simp: holds_def)
  then obtain p r where u: "u_in s fd = p # r" by (cases "u_in s fd") auto
  then obtain c where p: "p = Some c" using assms(1) by (cases p) (auto simp: holds_def)
  have c: "c \<noteq> []" "t = c @ concat (map the r)" "None \<notin> set r" "Some [] \<notin> set r"
    using assms(1) u p by (auto simp: holds_def)
  let ?i = "if drop n c = [] then r else Some (drop n c) # r"
  have "uread fd n s = Ok (Some (take n c)) (s\<lparr>u_calls := URead fd n # u_calls s, u_in := (u_in s)(fd := ?i)\<rparr>)"
    using u p by (simp add: uread_def called_def kmonad)
  moreover have "t = take n c @ concat (map the ?i)" using c(2) by (simp flip: append_assoc)
  moreover have "take n c \<noteq> []" using c(1) assms(3) by simp
  moreover have "holds (s\<lparr>u_calls := URead fd n # u_calls s, u_in := (u_in s)(fd := ?i)\<rparr>) fd (concat (map the ?i))"
    using c by (simp add: holds_def)
  moreover have "left_of (s\<lparr>u_calls := URead fd n # u_calls s, u_in := (u_in s)(fd := ?i)\<rparr>) fd < left_of s fd"
    using u p c(1) assms(3) by (cases c) (auto simp: left_of_def)
  ultimately show ?thesis by (metis length_take min.cobounded2)
qed

subsection \<open>Programs that end\<close>

text \<open>
  \<open>ends m s\<close>: from \<open>s\<close> the code returns, exits or waits for the kernel; it does nothing undefined and no
  loop of it runs on forever. \<open>stops m\<close>: it does not return either.
\<close>

named_theorems uend \<open>rules for code that ends\<close>

definition ends :: "'a u \<Rightarrow> uproc \<Rightarrow> bool" where
  "ends m s \<longleftrightarrow> (\<exists>x s'. m s = Ok x s') \<or> (\<exists>s'. m s = Blocked s')"

definition stops :: "'a u \<Rightarrow> bool" where
  "stops m \<longleftrightarrow> (\<forall>s. \<exists>s'. m s = Blocked s')"

lemma ends_kbind:
  "ends m s \<Longrightarrow> (\<And>x s'. m s = Ok x s' \<Longrightarrow> ends (f x) s') \<Longrightarrow> ends (kbind m f) s"
  by (fastforce simp: ends_def kbind_def)

lemma ends_kthen:
  "ends m s \<Longrightarrow> (\<And>x s'. m s = Ok x s' \<Longrightarrow> ends n s') \<Longrightarrow> ends (kthen m n) s"
  unfolding kthen_def by (rule ends_kbind)

lemma ends_basic [uend]: "ends (kret x) s" "ends (ask c) s" "ends next_answer s" "ends (uwrite fd t) s" "ends (uread fd n) s"
  "ends (uexit e) s"
  by (auto simp: ends_def kmonad usys uwrite_def uread_def split: list.split option.split)

lemma ends_kbind_all [uend]: "ends m s \<Longrightarrow> (\<And>x s. ends (f x) s) \<Longrightarrow> ends (kbind m f) s"
  by (rule ends_kbind)

lemma ends_kthen_all [uend]: "ends m s \<Longrightarrow> (\<And>s. ends n s) \<Longrightarrow> ends (kthen m n) s"
  by (rule ends_kthen)

lemma ends_if [uend]: "(c \<Longrightarrow> ends m s) \<Longrightarrow> (\<not> c \<Longrightarrow> ends n s) \<Longrightarrow> ends (if c then m else n) s"
  by simp

lemma ends_kwhen [uend]: "(c \<Longrightarrow> ends m s) \<Longrightarrow> ends (kwhen c m) s"
  by (auto simp: ends_def kwhen_def kret_def)

lemma ends_option [uend]: "ends m s \<Longrightarrow> (\<And>x. ends (f x) s) \<Longrightarrow> ends (case z of None \<Rightarrow> m | Some x \<Rightarrow> f x) s"
  by (cases z) auto

lemma ends_kfor [uend]: "(\<And>x s. x \<in> set xs \<Longrightarrow> ends (body x) s) \<Longrightarrow> ends (kfor body xs) s"
  by (induction xs arbitrary: s) (auto intro!: uend)

lemma ends_upipe [uend]: "ends upipe s" and ends_uwait [uend]: "ends uwait s" and ends_ufstat [uend]: "ends (ufstat fd) s"
  unfolding upipe_def uwait_def ufstat_def by (intro uend)+

lemma stops_uexit [uend]: "stops (uexit n)"
  by (simp add: stops_def usys)

lemma stops_kbind [uend]:
  assumes "\<And>s. ends m s" "\<And>x. stops (f x)"
  shows "stops (kbind m f)"
proof -
  have "\<exists>s'. kbind m f s = Blocked s'" for s
    using assms(1) [of s] assms(2) by (auto simp: stops_def ends_def kbind_def)
  then show ?thesis by (simp add: stops_def)
qed

lemma stops_kbind1:
  assumes "stops m"
  shows "stops (kbind m f)"
proof -
  have "\<exists>s'. kbind m f s = Blocked s'" for s
    using assms [unfolded stops_def, rule_format, of s] by (auto simp: kbind_def)
  then show ?thesis by (simp add: stops_def)
qed

lemma stops_kthen [uend]: "(\<And>s. ends m s) \<Longrightarrow> stops n \<Longrightarrow> stops (kthen m n)"
  unfolding kthen_def by (rule stops_kbind)

lemma stops_kthen1: "stops m \<Longrightarrow> stops (kthen m n)"
  unfolding kthen_def by (rule stops_kbind1)

lemma stops_if [uend]: "(c \<Longrightarrow> stops m) \<Longrightarrow> (\<not> c \<Longrightarrow> stops n) \<Longrightarrow> stops (if c then m else n)"
  by simp

lemma stops_option [uend]: "stops m \<Longrightarrow> (\<And>x. stops (f x)) \<Longrightarrow> stops (case z of None \<Rightarrow> m | Some x \<Rightarrow> f x)"
  by (cases z) auto

lemma stops_prod [uend]: "(\<And>a b. stops (f a b)) \<Longrightarrow> stops (case z of (a, b) \<Rightarrow> f a b)"
  by (cases z) auto

lemma kkeeps_stops: "stops m \<Longrightarrow> kkeeps I m"
proof (rule kkeepsI)
  fix s x s'
  assume "stops m" "m s = Ok x s'"
  moreover from \<open>stops m\<close> obtain s2 where "m s = Blocked s2" unfolding stops_def by blast
  ultimately show "I s'" by simp
qed

lemma stops_ends: "stops m \<Longrightarrow> ends m s"
  by (auto simp: stops_def ends_def)

text \<open>Only \<open>read\<close> takes input away, and a read that gets something leaves less.\<close>

lemma uread_left: "uread fd n s = Ok (Some x) s' \<Longrightarrow> x \<noteq> [] \<Longrightarrow> left_of s' fd < left_of s fd"
  by (auto simp: uread_def called_def kmonad left_of_def split: list.splits option.splits if_splits)

lemma keeps_u_in [kinv_intro]:
  "kkeeps (\<lambda>s. u_in s = I) (ask c)" "kkeeps (\<lambda>s. u_in s = I) (uwrite fd t)" "kkeeps (\<lambda>s. u_in s = I) next_answer"
  "kkeeps (\<lambda>s. u_in s = I) (uexit e)"
  by (auto simp: kkeeps_def usys uwrite_def called_def kmonad split: list.splits)

lemma left_of_cong: "u_in s = u_in s' \<Longrightarrow> left_of s fd = left_of s' fd"
  by (simp add: left_of_def)

end
