(* ===== verification/Ulib.thy ===== *)
theory Ulib
  imports Usys Kstring
begin

text \<open>
  \<^verbatim>\<open>user/ulib.c\<close>. The block operations and \<open>strcpy\<close> work on the memory of the process, a function from
  addresses to bytes; the other string functions only read the strings they are given, lists of
  characters. The theorems: \<open>strcmp\<close> orders strings as their bytes do, the \<open>memmove\<close> of the programs
  and the one of the kernel do the same, \<open>strcpy\<close> returns and copies the string with its NUL,
  \<open>gets\<close> takes one line from the input and leaves the rest.
\<close>

subsection \<open>Blocks and copies\<close>

partial_function (option) strcpy_u :: "pmem \<Rightarrow> u64 \<Rightarrow> u64 \<Rightarrow> pmem option" where
  "strcpy_u m s t = (let c = m t; m' = m(s := c) in if c \<noteq> 0 then strcpy_u m' (s + 1) (t + 1) else Some m')"

definition memset_u :: "pmem \<Rightarrow> u64 \<Rightarrow> int \<Rightarrow> u32 \<Rightarrow> pmem" where
  "memset_u m dst c n = memset m dst (word_of_int c) (unat n)"

definition memmove_u :: "pmem \<Rightarrow> u64 \<Rightarrow> u64 \<Rightarrow> int \<Rightarrow> pmem" where
  "memmove_u m dst src n =
     (if dst < src then copy_up m dst src (nat n)
      else copy_down m (dst + word_of_int n) (src + word_of_int n) (nat n))"

definition memcpy_u :: "pmem \<Rightarrow> u64 \<Rightarrow> u64 \<Rightarrow> u32 \<Rightarrow> pmem" where
  "memcpy_u m dst src n = memmove_u m dst src (sint n)"

definition memcmp_u :: "(nat \<Rightarrow> u8) \<Rightarrow> (nat \<Rightarrow> u8) \<Rightarrow> u32 \<Rightarrow> int" where
  "memcmp_u s1 s2 n = memcmp s1 s2 (unat n)"

subsection \<open>Strings\<close>

text \<open>The value of a character as \<^verbatim>\<open>uchar\<close>, and the character a pointer points to.\<close>

definition char_val :: "char \<Rightarrow> int" where
  "char_val c = of_char c"

definition char_at :: "string \<Rightarrow> char" where
  "char_at s = (case s of [] \<Rightarrow> CHR 0x00 | c # _ \<Rightarrow> c)"

text \<open>The string a buffer holds ends at the first NUL byte.\<close>

definition cstring :: "string \<Rightarrow> string" where
  "cstring b = takeWhile (\<lambda>c. c \<noteq> CHR 0x00) b"

fun strcmp :: "string \<Rightarrow> string \<Rightarrow> int" where
  "strcmp (c # p) (d # q) = (if c = d then strcmp p q else char_val c - char_val d)"
| "strcmp p q = char_val (char_at p) - char_val (char_at q)"

primrec strlen_u :: "string \<Rightarrow> nat" where
  "strlen_u [] = 0"
| "strlen_u (c # s) = Suc (strlen_u s)"

primrec strchr :: "string \<Rightarrow> char \<Rightarrow> string option" where
  "strchr [] c = None"
| "strchr (d # s) c = (if d = c then Some (d # s) else strchr s c)"

text \<open>\<^verbatim>\<open>n*10 + *s++ - '0'\<close>: a value that is no \<^verbatim>\<open>int\<close> is undefined, \<open>None\<close>.\<close>

definition to_int32 :: "int \<Rightarrow> int option" where
  "to_int32 x = (if - (2 ^ 31) \<le> x \<and> x < 2 ^ 31 then Some x else None)"

fun atoi_from :: "int \<Rightarrow> string \<Rightarrow> int option" where
  "atoi_from n [] = Some n"
| "atoi_from n (c # s) =
     (if char_val CHR ''0'' \<le> char_val c \<and> char_val c \<le> char_val CHR ''9''
      then case to_int32 (n * 10) of None \<Rightarrow> None | Some a \<Rightarrow>
           (case to_int32 (a + char_val c) of None \<Rightarrow> None | Some b \<Rightarrow> atoi_from (b - char_val CHR ''0'') s)
      else Some n)"

definition atoi :: "string \<Rightarrow> int option" where
  "atoi s = atoi_from 0 s"

subsection \<open>Input and system calls\<close>

text \<open>The loop of \<open>gets\<close>, with room for \<open>k\<close> more characters before the NUL; \<open>acc\<close> is what is in the buffer.\<close>

fun gets_from :: "nat \<Rightarrow> string \<Rightarrow> string u" where
  "gets_from 0 acc = kret acc"
| "gets_from (Suc k) acc = kbind (uread 0 1) (\<lambda>r. case r of
      None \<Rightarrow> kret acc
    | Some [] \<Rightarrow> kret acc
    | Some (c # _) \<Rightarrow>
        if c = CHR 0x0a \<or> c = CHR 0x0d then kret (acc @ [c]) else gets_from k (acc @ [c]))"

definition gets :: "int \<Rightarrow> string u" where
  "gets mx = gets_from (nat (mx - 1)) []"

definition stat_u :: "string \<Rightarrow> ustat option u" where
  "stat_u n = kbind (ask (UOpen n 0)) (\<lambda>fd.
     if fd < 0 then kret None
     else kbind (ufstat fd) (\<lambda>r. kthen (ask (UClose fd)) (kret r)))"

definition sbrk :: "int \<Rightarrow> int u" where
  "sbrk n = ask (USbrk n 1)"

definition sbrklazy :: "int \<Rightarrow> int u" where
  "sbrklazy n = ask (USbrk n 2)"

text \<open>\<^verbatim>\<open>start\<close>, which calls the \<^verbatim>\<open>main\<close> of the program with its arguments.\<close>

definition start_u :: "(string list \<Rightarrow> int u) \<Rightarrow> string list \<Rightarrow> unit u" where
  "start_u main argv = kbind (main argv) uexit"

subsection \<open>Comparing strings\<close>

lemma strchr_Some: "strchr s c = Some q \<Longrightarrow> s \<noteq> [] \<and> length q \<le> length s \<and> q \<noteq> []"
  by (induction s) (auto split: if_splits)

lemma char_val_eq: "char_val c = char_val d \<longleftrightarrow> c = d"
  by (simp add: char_val_def)

lemma char_val_pos: "c \<noteq> CHR 0x00 \<Longrightarrow> 0 < char_val c"
proof -
  assume "c \<noteq> CHR 0x00"
  then have "char_val c \<noteq> char_val CHR 0x00" by (simp add: char_val_eq)
  moreover have "char_val CHR 0x00 = 0" "0 \<le> char_val c" by (simp_all add: char_val_def of_char_def)
  ultimately show ?thesis by simp
qed

lemma char_at_simps [simp]: "char_at [] = CHR 0x00" "char_at (c # s) = c"
  by (simp_all add: char_at_def)

lemma char_val_0 [simp]: "char_val CHR 0x00 = 0"
  by (simp add: char_val_def)

lemma strcmp_eq:
  "CHR 0x00 \<notin> set p \<Longrightarrow> CHR 0x00 \<notin> set q \<Longrightarrow> strcmp p q = 0 \<longleftrightarrow> p = q"
proof (induction p arbitrary: q)
  case Nil
  then show ?case using char_val_pos [of "hd q"] by (cases q) auto
next
  case (Cons c p)
  then show ?case using char_val_pos [of c] by (cases q) (auto simp: char_val_eq)
qed

text \<open>The order of the bytes, a proper prefix before the longer string.\<close>

fun byte_less :: "string \<Rightarrow> string \<Rightarrow> bool" where
  "byte_less p [] = False"
| "byte_less [] (d # q) = True"
| "byte_less (c # p) (d # q) = (char_val c < char_val d \<or> c = d \<and> byte_less p q)"

lemma strcmp_less:
  "CHR 0x00 \<notin> set p \<Longrightarrow> CHR 0x00 \<notin> set q \<Longrightarrow> strcmp p q < 0 \<longleftrightarrow> byte_less p q"
proof (induction p q rule: byte_less.induct)
  case (1 p)
  then show ?case using char_val_pos [of "hd p"] by (cases p) auto
next
  case (2 d q)
  then show ?case using char_val_pos [of d] by auto
qed (auto simp: char_val_eq)

subsection \<open>Copies\<close>

lemma memmove_u_apply:
  assumes "k < 2 ^ 31" "unat src + k < 2 ^ 64" "unat dst + k < 2 ^ 64"
  shows "memmove_u m dst src (int k) x = (if unat (x - dst) < k then m (src + (x - dst)) else m x)"
proof (cases "dst < src")
  case True
  then have "k \<le> unat (dst - src)" using assms by (simp add: unat_sub_wrap word_less_nat_alt)
  with True assms(1) show ?thesis by (simp add: memmove_u_def copy_up_apply)
next
  case False
  then consider "dst = src" | "src < dst" by fastforce
  then have "dst = src \<or> k \<le> unat (src - dst)"
  proof cases
    case 2
    then have "unat (src - dst) = 2 ^ 64 - (unat dst - unat src)" by (rule unat_sub_wrap)
    with assms(3) show ?thesis by linarith
  qed simp
  with False assms(1) show ?thesis by (simp add: memmove_u_def copy_down_apply)
qed

lemma strcpy_u_copies:
  assumes "\<And>i. i < n \<Longrightarrow> m (t + of_nat i) \<noteq> 0" "m (t + of_nat n) = 0"
    and "\<And>i j. i \<le> n \<Longrightarrow> j \<le> n \<Longrightarrow> s + of_nat i \<noteq> t + of_nat j" "n < 2 ^ 63"
  shows "\<exists>m'. strcpy_u m s t = Some m' \<and> (\<forall>x. m' x = (if unat (x - s) \<le> n then m (t + (x - s)) else m x))"
  using assms
proof (induction n arbitrary: m s t)
  case 0
  then show ?case by (subst strcpy_u.simps) (auto simp: unat_eq_0)
next
  case (Suc n)
  let ?m = "m(s := m t)"
  have mt: "m t \<noteq> 0" using Suc.prems(1) [of 0] by simp
  have ne: "t + 1 + of_nat i \<noteq> s" if "i \<le> n" for i
    using Suc.prems(3) [of 0 "Suc i"] that by (auto simp: algebra_simps)
  have "\<exists>m'. strcpy_u ?m (s + 1) (t + 1) = Some m' \<and>
      (\<forall>x. m' x = (if unat (x - (s + 1)) \<le> n then ?m (t + 1 + (x - (s + 1))) else ?m x))"
  proof (rule Suc.IH)
    show "?m (t + 1 + of_nat i) \<noteq> 0" if "i < n" for i
      using Suc.prems(1) [of "Suc i"] ne [of i] that by (simp add: algebra_simps)
    show "?m (t + 1 + of_nat n) = 0" using Suc.prems(2) ne [of n] by (simp add: algebra_simps)
    show "s + 1 + of_nat i \<noteq> t + 1 + of_nat j" if "i \<le> n" "j \<le> n" for i j
      using Suc.prems(3) [of "Suc i" "Suc j"] that by (simp add: algebra_simps)
    show "n < 2 ^ 63" using Suc.prems(4) by simp
  qed
  then obtain m' where m': "strcpy_u ?m (s + 1) (t + 1) = Some m'"
    "\<And>x. m' x = (if unat (x - (s + 1)) \<le> n then ?m (t + 1 + (x - (s + 1))) else ?m x)" by blast
  have "m' x = (if unat (x - s) \<le> Suc n then m (t + (x - s)) else m x)" for x
  proof (cases "x = s")
    case True
    have "unat (- 1 :: u64) = 2 ^ 64 - 1" by (simp add: unsigned_minus_1_eq_mask mask_eq_exp_minus_1)
    with True m'(2) [of x] Suc.prems(4) show ?thesis by simp
  next
    case False
    then have u: "unat (x - (s + 1)) = unat (x - s) - 1" "0 < unat (x - s)"
      using unat_pred [of "x - s"] by (simp_all add: algebra_simps unat_gt_0)
    have "t + 1 + (x - (s + 1)) = t + (x - s)" by simp
    moreover have "t + (x - s) \<noteq> s" if "unat (x - s) \<le> Suc n"
      using Suc.prems(3) [of 0 "unat (x - s)"] that by auto
    ultimately show ?thesis using m'(2) [of x] False u by auto
  qed
  moreover have "strcpy_u m s t = Some m'" using mt m'(1) by (subst strcpy_u.simps) simp
  ultimately show ?case by blast
qed

subsection \<open>A line of input\<close>

lemma gets_from_line:
  assumes "holds s 0 (l @ CHR 0x0a # r)" "CHR 0x0a \<notin> set l" "CHR 0x0d \<notin> set l" "length l < k"
  shows "\<exists>s'. gets_from k acc s = Ok (acc @ l @ [CHR 0x0a]) s' \<and> holds s' 0 r \<and>
    u_ans s' = u_ans s \<and> u_wr s' = u_wr s \<and> (\<forall>fd. fd \<noteq> 0 \<longrightarrow> u_in s' fd = u_in s fd) \<and> (\<forall>fd. outputs fd s' = outputs fd s)"
  using assms
proof (induction k arbitrary: l acc s)
  case (Suc k)
  obtain x y i where x: "l @ CHR 0x0a # r = x @ y" "x \<noteq> []" "length x \<le> 1"
    and rd: "uread 0 1 s = Ok (Some x) (s\<lparr>u_calls := URead 0 1 # u_calls s, u_in := (u_in s)(0 := i)\<rparr>)"
    and h: "holds (s\<lparr>u_calls := URead 0 1 # u_calls s, u_in := (u_in s)(0 := i)\<rparr>) 0 y"
    using uread_some [OF Suc.prems(1), of 1] by auto
  let ?s = "s\<lparr>u_calls := URead 0 1 # u_calls s, u_in := (u_in s)(0 := i)\<rparr>"
  obtain c where c: "x = [c]" using x(2,3) by (cases x) auto
  show ?case
  proof (cases l)
    case Nil
    with x c have "c = CHR 0x0a" "y = r" by auto
    with rd h c Nil show ?thesis by (simp add: kmonad)
  next
    case (Cons d l')
    with x c have d: "c = d" "y = l' @ CHR 0x0a # r" by auto
    have "\<exists>s'. gets_from k (acc @ [d]) ?s = Ok ((acc @ [d]) @ l' @ [CHR 0x0a]) s' \<and> holds s' 0 r \<and>
      u_ans s' = u_ans ?s \<and> u_wr s' = u_wr ?s \<and> (\<forall>fd. fd \<noteq> 0 \<longrightarrow> u_in s' fd = u_in ?s fd) \<and> (\<forall>fd. outputs fd s' = outputs fd ?s)"
      using h d Suc.prems Cons by (intro Suc.IH) simp_all
    moreover have "d \<noteq> CHR 0x0a" "d \<noteq> CHR 0x0d" using Suc.prems(2,3) Cons by auto
    ultimately show ?thesis using rd c d Cons by (simp add: kmonad)
  qed
qed simp

end
