(* ===== verification/Uprintf.thy ===== *)
theory Uprintf
  imports Ulib
begin

text \<open>
  \<^verbatim>\<open>user/printf.c\<close>: \<open>fprintf\<close> and \<open>printf\<close> of the user programs, which write one character per system
  call. The theorems: a number is printed within the 20 bytes of the buffer, and \<open>atoi\<close> reads back
  what \<^verbatim>\<open>%d\<close> has printed.
\<close>

definition putc :: "int \<Rightarrow> char \<Rightarrow> unit u" where
  "putc fd c = kthen (uwrite fd [c]) (kret ())"

primrec putcs :: "int \<Rightarrow> string \<Rightarrow> unit u" where
  "putcs fd [] = kret ()"
| "putcs fd (c # cs) = kthen (putc fd c) (putcs fd cs)"

subsection \<open>Numbers\<close>

definition digit_u :: "u64 \<Rightarrow> char" where
  "digit_u d = ''0123456789ABCDEF'' ! unat d"

text \<open>
  The digits of a number, least significant first, as the loop stores them in \<^verbatim>\<open>buf\<close> with \<open>n\<close> entries
  left; \<open>None\<close> is a store beyond its end.
\<close>

fun digits_u :: "nat \<Rightarrow> u64 \<Rightarrow> u64 \<Rightarrow> string option" where
  "digits_u 0 base x = None"
| "digits_u (Suc n) base x =
    (if x div base = 0 then Some [digit_u (x mod base)]
     else map_option (Cons (digit_u (x mod base))) (digits_u n base (x div base)))"

definition printint_u :: "int \<Rightarrow> u64 \<Rightarrow> u64 \<Rightarrow> bool \<Rightarrow> unit u" where
  "printint_u fd xx base sg =
    (let neg = sg \<and> sint xx < 0; x = (if neg then - xx else xx) in
     case digits_u 20 base x of
       None \<Rightarrow> kfault ''printint: buf''
     | Some ds \<Rightarrow>
         if neg then (if length ds < 20 then putcs fd (rev (ds @ ''-'')) else kfault ''printint: buf'')
         else putcs fd (rev ds))"

primrec ptr_digits_u :: "nat \<Rightarrow> u64 \<Rightarrow> string" where
  "ptr_digits_u 0 x = []"
| "ptr_digits_u (Suc n) x = digit_u (drop_bit 60 x) # ptr_digits_u n (push_bit 4 x)"

definition printptr_u :: "int \<Rightarrow> u64 \<Rightarrow> unit u" where
  "printptr_u fd x = kthen (putcs fd ''0x'') (putcs fd (ptr_digits_u 16 x))"

subsection \<open>Formats\<close>

text \<open>The arguments: a 64-bit slot, or a string (\<open>None\<close> is the null pointer).\<close>

datatype uarg = UNum u64 | UStr "string option"

abbreviation UInt :: "int \<Rightarrow> uarg" where "UInt i \<equiv> UNum (word_of_int i)"

definition num_arg :: "uarg list \<Rightarrow> (u64 \<Rightarrow> uarg list \<Rightarrow> unit u) \<Rightarrow> unit u" where
  "num_arg args f = (case args of UNum x # rest \<Rightarrow> f x rest | _ \<Rightarrow> kfault ''va_arg'')"

definition str_arg :: "uarg list \<Rightarrow> (string option \<Rightarrow> uarg list \<Rightarrow> unit u) \<Rightarrow> unit u" where
  "str_arg args f = (case args of UStr x # rest \<Rightarrow> f x rest | _ \<Rightarrow> kfault ''va_arg'')"

definition arg_int :: "u64 \<Rightarrow> u64" where
  "arg_int x = scast (ucast x :: u32)"

definition arg_uint32 :: "u64 \<Rightarrow> u64" where
  "arg_uint32 x = ucast (ucast x :: u32)"

text \<open>The format from \<^verbatim>\<open>fmt + i\<close> on, in state 0 (\<open>False\<close>) or after a percent sign (\<open>True\<close>).\<close>

function vprintf_u :: "int \<Rightarrow> bool \<Rightarrow> string \<Rightarrow> uarg list \<Rightarrow> unit u" where
  "vprintf_u fd b [] args = kret ()"
| "vprintf_u fd False (c0 # f) args =
    (if c0 = CHR ''%'' then vprintf_u fd True f args
     else kthen (putc fd c0) (vprintf_u fd False f args))"
| "vprintf_u fd True (c0 # f) args =
    (let c1 = char_at f; c2 = (if c1 \<noteq> CHR 0x00 then char_at (drop 1 f) else CHR 0x00) in
     if c0 = CHR ''d'' then num_arg args (\<lambda>x r. kthen (printint_u fd (arg_int x) 10 True) (vprintf_u fd False f r))
     else if c0 = CHR ''l'' \<and> c1 = CHR ''d''
     then num_arg args (\<lambda>x r. kthen (printint_u fd x 10 True) (vprintf_u fd False (drop 1 f) r))
     else if c0 = CHR ''l'' \<and> c1 = CHR ''l'' \<and> c2 = CHR ''d''
     then num_arg args (\<lambda>x r. kthen (printint_u fd x 10 True) (vprintf_u fd False (drop 2 f) r))
     else if c0 = CHR ''u''
     then num_arg args (\<lambda>x r. kthen (printint_u fd (arg_uint32 x) 10 False) (vprintf_u fd False f r))
     else if c0 = CHR ''l'' \<and> c1 = CHR ''u''
     then num_arg args (\<lambda>x r. kthen (printint_u fd x 10 False) (vprintf_u fd False (drop 1 f) r))
     else if c0 = CHR ''l'' \<and> c1 = CHR ''l'' \<and> c2 = CHR ''u''
     then num_arg args (\<lambda>x r. kthen (printint_u fd x 10 False) (vprintf_u fd False (drop 2 f) r))
     else if c0 = CHR ''x''
     then num_arg args (\<lambda>x r. kthen (printint_u fd (arg_uint32 x) 16 False) (vprintf_u fd False f r))
     else if c0 = CHR ''l'' \<and> c1 = CHR ''x''
     then num_arg args (\<lambda>x r. kthen (printint_u fd x 16 False) (vprintf_u fd False (drop 1 f) r))
     else if c0 = CHR ''l'' \<and> c1 = CHR ''l'' \<and> c2 = CHR ''x''
     then num_arg args (\<lambda>x r. kthen (printint_u fd x 16 False) (vprintf_u fd False (drop 2 f) r))
     else if c0 = CHR ''p'' then num_arg args (\<lambda>x r. kthen (printptr_u fd x) (vprintf_u fd False f r))
     else if c0 = CHR ''c''
     then num_arg args (\<lambda>x r. kthen (putc fd (char_of (unat (ucast x :: u8)))) (vprintf_u fd False f r))
     else if c0 = CHR ''s''
     then str_arg args (\<lambda>x r.
            kthen (putcs fd (case x of None \<Rightarrow> ''(null)'' | Some t \<Rightarrow> t)) (vprintf_u fd False f r))
     else if c0 = CHR ''%'' then kthen (putc fd CHR ''%'') (vprintf_u fd False f args)
     else kthen (putc fd CHR ''%'') (kthen (putc fd c0) (vprintf_u fd False f args)))"
  by pat_completeness auto

termination
  by (relation "measure (\<lambda>(fd, b, f, args). length f)") auto

definition fprintf :: "int \<Rightarrow> string \<Rightarrow> uarg list \<Rightarrow> unit u" where
  "fprintf fd fmt args = vprintf_u fd False fmt args"

definition printf_u :: "string \<Rightarrow> uarg list \<Rightarrow> unit u" where
  "printf_u fmt args = vprintf_u 1 False fmt args"

subsection \<open>What is written\<close>

text \<open>The state after the characters of \<open>t\<close> have been written, one call each.\<close>

definition put :: "int \<Rightarrow> string \<Rightarrow> uproc \<Rightarrow> uproc" where
  "put fd t s = s\<lparr>u_calls := rev (map (\<lambda>c. UWrite fd [c]) t) @ u_calls s, u_wr := drop (length t) (u_wr s)\<rparr>"

lemma put_simps [simp]:
  "u_in (put fd t s) = u_in s" "u_ans (put fd t s) = u_ans s" "u_exit (put fd t s) = u_exit s"
  "put fd [] s = s" "put fd u (put fd t s) = put fd (t @ u) s"
  "left_of (put fd t s) g = left_of s g" "holds (put fd t s) g x = holds s g x"
  "u_wr (put fd t s) = drop (length t) (u_wr s)"
  by (simp_all add: put_def left_of_def holds_def add.commute)

lemma outputs_put [simp]: "outputs g (put fd t s) = outputs g s @ (if g = fd then t else [])"
proof -
  have "written g (rev (map (\<lambda>c. UWrite fd [c]) t) @ cs) = written g cs @ (if g = fd then t else [])" for cs
    by (induction t rule: rev_induct) simp_all
  then show ?thesis by (simp add: put_def)
qed

lemma putc_apply [usys]: "putc fd c s = Ok () (put fd [c] s)"
  by (cases "u_wr s") (simp_all add: putc_def uwrite_def called_def put_def kmonad)

lemma putcs_apply [usys]: "putcs fd t s = Ok () (put fd t s)"
  by (induction t arbitrary: s) (simp_all add: kmonad putc_apply)

lemma vprintf_u_text: "CHR ''%'' \<notin> set t \<Longrightarrow> vprintf_u fd False (t @ f) args s = vprintf_u fd False f args (put fd t s)"
  by (induction t arbitrary: s) (auto simp: kmonad putc_apply)

lemma vprintf_u_plain [usys]: "CHR ''%'' \<notin> set t \<Longrightarrow> vprintf_u fd False t args s = Ok () (put fd t s)"
  using vprintf_u_text [of t fd "[]"] by (simp add: kmonad)

text \<open>A format of which every conversion is \<^verbatim>\<open>%d\<close>, \<^verbatim>\<open>%s\<close> or \<^verbatim>\<open>%x\<close> and has its argument.\<close>

fun fmt_ok :: "bool \<Rightarrow> string \<Rightarrow> uarg list \<Rightarrow> bool" where
  "fmt_ok b [] args = True"
| "fmt_ok False (c # f) args = (if c = CHR ''%'' then fmt_ok True f args else fmt_ok False f args)"
| "fmt_ok True (c # f) (UNum x # r) = ((c = CHR ''d'' \<or> c = CHR ''x'') \<and> fmt_ok False f r)"
| "fmt_ok True (c # f) (UStr x # r) = (c = CHR ''s'' \<and> fmt_ok False f r)"
| "fmt_ok True (c # f) [] = False"

subsection \<open>Numbers in decimal\<close>

lemma digits_u_some:
  assumes "2 \<le> unat base" "unat x < unat base ^ n" "0 < n"
  shows "\<exists>ds. digits_u n base x = Some ds \<and> 0 < length ds \<and> length ds \<le> n"
  using assms(2,3)
proof (induction n arbitrary: x)
  case (Suc n)
  show ?case
  proof (cases "x div base = 0")
    case False
    have "unat (x div base) < unat base ^ n"
      using Suc.prems(1) assms(1) by (simp add: unat_div_distrib less_mult_imp_div_less mult.commute)
    moreover have "0 < n" using calculation False by (cases n) (auto simp: unat_eq_0)
    ultimately obtain ds where "digits_u n base (x div base) = Some ds" "length ds \<le> n" using Suc.IH by blast
    with False show ?thesis by simp
  qed simp
qed simp

lemma digits_u_mono: "digits_u n base x = Some ds \<Longrightarrow> n \<le> m \<Longrightarrow> digits_u m base x = Some ds"
proof (induction n base x arbitrary: m ds rule: digits_u.induct)
  case (2 n base x)
  then obtain k where k: "m = Suc k" "n \<le> k" by (cases m) auto
  show ?case
  proof (cases "x div base = 0")
    case False
    then obtain es where "digits_u n base (x div base) = Some es" "ds = digit_u (x mod base) # es"
      using 2(2) by auto
    with 2(1) [OF False] k False show ?thesis by simp
  qed (use 2(2) k in simp)
qed simp

lemma digit_u_nat: "n < 10 \<Longrightarrow> char_val (''0123456789ABCDEF'' ! n) = 48 + int n"
proof -
  assume "n < 10"
  then have "n \<in> set [0..<10]" by simp
  then show ?thesis by (simp add: upt_rec) (auto simp: char_val_def)
qed

lemma digit_in: "48 \<le> char_val c \<Longrightarrow> char_val c \<le> 57 \<Longrightarrow> c \<in> set ''0123456789''"
proof -
  assume c: "48 \<le> char_val c" "char_val c \<le> 57"
  define n where "n = nat (char_val c - 48)"
  have n: "n < 10" "char_val c = 48 + int n" using c by (auto simp: n_def)
  with digit_u_nat [of n] have "c = ''0123456789ABCDEF'' ! n" by (simp flip: char_val_eq)
  moreover have "\<dots> = ''0123456789'' ! n" using n(1) nth_append_left [of n "''0123456789''" "''ABCDEF''"] by simp
  moreover have "''0123456789'' ! n \<in> set ''0123456789''" using n(1) by (intro nth_mem) simp
  ultimately show ?thesis by simp
qed

lemma digit_u_val: "d < 10 \<Longrightarrow> char_val (digit_u d) = 48 + uint d"
  using digit_u_nat [of "unat d"] by (simp add: digit_u_def word_less_nat_alt)

lemma to_int32_in: "0 \<le> a \<Longrightarrow> a < 2 ^ 31 \<Longrightarrow> to_int32 a = Some a"
  by (simp add: to_int32_def)

lemma uint_div_mod_10: "uint (x div 10) * 10 + uint (x mod 10) = uint x" for x :: u64
  by (simp add: uint_div uint_mod)

lemma atoi_step:
  fixes x :: u64
  assumes "uint x < 2 ^ 31"
  shows "atoi_from (uint (x div 10)) (digit_u (x mod 10) # t) =
    (if uint x + 48 < 2 ^ 31 then atoi_from (uint x) t else None)"
proof -
  have m: "x mod 10 < 10" by (rule word_mod_less_divisor) simp
  have v: "char_val (digit_u (x mod 10)) = 48 + uint (x mod 10)" using m by (rule digit_u_val)
  have b: "0 \<le> uint (x div 10)" "0 \<le> uint (x mod 10)" "uint (x mod 10) < 10"
    using m by (simp_all add: word_less_def)
  have c: "char_val CHR ''0'' = 48" "char_val CHR ''9'' = 57" by (simp_all add: char_val_def)
  have d: "uint (x div 10) * 10 + (48 + uint (x mod 10)) = uint x + 48" using uint_div_mod_10 [of x] by linarith
  have "0 \<le> uint (x div 10) * 10" "uint (x div 10) * 10 < 2 ^ 31" using b assms uint_div_mod_10 [of x] by linarith+
  then have "to_int32 (uint (x div 10) * 10) = Some (uint (x div 10) * 10)" by (rule to_int32_in)
  moreover have "to_int32 (uint (x div 10) * 10 + (48 + uint (x mod 10))) =
      (if uint x + 48 < 2 ^ 31 then Some (uint x + 48) else None)"
    unfolding d by (simp add: to_int32_def)
  ultimately show ?thesis using v b c by simp
qed

lemma atoi_digits:
  assumes "digits_u n 10 x = Some ds" "uint x < 2 ^ 31"
  shows "atoi_from 0 (rev ds @ t) = (if uint x + 48 < 2 ^ 31 then atoi_from (uint x) t else None)"
  using assms
proof (induction n "10 :: u64" x arbitrary: ds t rule: digits_u.induct)
  case (2 n x)
  note step = atoi_step [OF 2(3)]
  show ?case
  proof (cases "x div 10 = 0")
    case True
    then have "ds = [digit_u (x mod 10)]" "atoi_from 0 (digit_u (x mod 10) # t) =
        (if uint x + 48 < 2 ^ 31 then atoi_from (uint x) t else None)"
      using 2(2) step [of t] by (simp_all del: atoi_from.simps)
    then show ?thesis by (simp del: atoi_from.simps)
  next
    case False
    then obtain es where e: "digits_u n 10 (x div 10) = Some es" "ds = digit_u (x mod 10) # es" using 2(2) by auto
    have "0 \<le> uint (x mod 10)" "uint x < 2147483648" using 2(3) by simp_all
    then have "uint (x div 10) < 2147483600" using uint_div_mod_10 [of x] by linarith
    then have d: "uint (x div 10) + 48 < 2 ^ 31" "uint (x div 10) < 2 ^ 31" by simp_all
    from 2(1) [OF False e(1) d(2)] e(2) step d(1) show ?thesis by (simp del: atoi_from.simps)
  qed
qed simp

text \<open>The decimal form of a number, and the conversions.\<close>

definition dec_u :: "int \<Rightarrow> string" where
  "dec_u i = (if i < 0 then ''-'' else []) @ rev (the (digits_u 20 10 (word_of_int \<bar>i\<bar>)))"

lemma digits_10: "\<exists>ds. digits_u 20 10 x = Some ds" for x :: u64
proof -
  have "unat x < 2 ^ 64" using unsigned_less [of x, where 'a = nat] by simp
  then have "unat x < unat (10 :: u64) ^ 20" by simp
  then show ?thesis using digits_u_some [of 10 x 20] by auto
qed

lemma digits_10_neg:
  fixes x :: u64
  assumes "sint x < 0"
  shows "\<exists>ds. digits_u 20 10 (- x) = Some ds \<and> length ds < 20"
proof -
  have "- (2 ^ 63) \<le> sint x" using sint_ge [of x] by simp
  moreover have "- x = word_of_int (- sint x)" by simp
  then have "uint (- x) = - sint x mod 2 ^ 64" by (simp only: unsigned_of_int take_bit_eq_mod) simp
  ultimately have "uint (- x) \<le> 2 ^ 63" using assms by simp
  then have "int (unat (- x)) \<le> int (2 ^ 63)" by simp
  then have "unat (- x) \<le> 2 ^ 63" by (simp only: of_nat_le_iff)
  then have "unat (- x) < unat (10 :: u64) ^ 19" by simp
  then obtain ds where "digits_u 19 10 (- x) = Some ds" "length ds \<le> 19" using digits_u_some [of 10 "- x" 19] by auto
  with digits_u_mono [of 19 10 "- x" ds 20] show ?thesis by auto
qed

lemma printint_dec: "printint_u fd x 10 True s = Ok () (put fd (dec_u (sint x)) s)"
proof (cases "sint x < 0")
  case True
  obtain ds where d: "digits_u 20 10 (- x) = Some ds" "length ds < 20" using digits_10_neg [OF True] by blast
  then have "dec_u (sint x) = ''-'' @ rev ds" using True by (simp add: dec_u_def)
  with True d show ?thesis by (simp add: printint_u_def putcs_apply putc_apply kmonad)
next
  case False
  obtain ds where d: "digits_u 20 10 x = Some ds" using digits_10 by blast
  then have "dec_u (sint x) = rev ds" using False by (simp add: dec_u_def)
  with False d show ?thesis by (simp add: printint_u_def putcs_apply)
qed

lemma arg_int_sint: "- (2 ^ 31) \<le> i \<Longrightarrow> i < 2 ^ 31 \<Longrightarrow> sint (arg_int (word_of_int i)) = i"
proof -
  assume i: "- (2 ^ 31) \<le> i" "i < 2 ^ 31"
  have "sint (word_of_int i :: u32) = i" using i by (simp add: signed_of_int signed_take_bit_int_eq_self)
  moreover have "arg_int (word_of_int i) = scast (word_of_int i :: u32)" 
    unfolding arg_int_def by (rule arg_cong [of _ _ scast]) (transfer, simp add: take_bit_take_bit)
  moreover have "sint (scast w :: u64) = sint w" for w :: u32
    by (simp add: sint_up_scast is_up)
  ultimately show ?thesis by simp
qed

lemma vprintf_u_d:
  assumes "- (2 ^ 31) \<le> i" "i < 2 ^ 31"
  shows "vprintf_u fd False (CHR ''%'' # CHR ''d'' # f) (UInt i # args) s = vprintf_u fd False f args (put fd (dec_u i) s)"
  using assms by (simp add: num_arg_def kmonad printint_dec arg_int_sint Let_def)

lemma vprintf_u_s:
  "vprintf_u fd False (CHR ''%'' # CHR ''s'' # f) (UStr (Some t) # args) s = vprintf_u fd False f args (put fd t s)"
  by (simp add: str_arg_def kmonad putcs_apply Let_def)

lemma atoi_dec: "0 \<le> i \<Longrightarrow> i < 2 ^ 31 \<Longrightarrow> atoi (dec_u i @ t) = (if i + 48 < 2 ^ 31 then atoi_from i t else None)"
proof -
  assume i: "0 \<le> i" "i < 2 ^ 31"
  obtain ds where d: "digits_u 20 10 (word_of_int i) = Some ds" using digits_10 by blast
  have "uint (word_of_int i :: u64) = i" using i by (simp add: unsigned_of_int take_bit_int_eq_self)
  with atoi_digits [OF d, of t] i d show ?thesis by (simp add: atoi_def dec_u_def)
qed

lemma ends_putcs [uend]: "ends (putc fd c) s" "ends (putcs fd t) s"
  by (simp_all add: ends_def usys)

lemma ends_printint [uend]: "ends (printint_u fd x 10 True) s" "ends (printint_u fd x 16 False) s"
proof -
  show "ends (printint_u fd x 10 True) s" unfolding ends_def printint_dec by blast
  have "unat x < 2 ^ 64" using unsigned_less [of x, where 'a = nat] by simp
  then have "unat x < unat (16 :: u64) ^ 20" by simp
  then obtain ds where "digits_u 20 16 x = Some ds" using digits_u_some [of 16 x 20] by auto
  then show "ends (printint_u fd x 16 False) s" by (simp add: printint_u_def ends_putcs)
qed

lemma ends_vprintf: "fmt_ok b f args \<Longrightarrow> ends (vprintf_u fd b f args) s"
proof (induction b f args arbitrary: s rule: fmt_ok.induct)
  case (1 b args)
  then show ?case by (simp add: uend)
next
  case (2 c f args)
  then show ?case by (cases "c = CHR ''%''") (simp_all add: ends_kthen_all ends_putcs)
next
  case (3 c f x r)
  then have "c = CHR ''d'' \<or> c = CHR ''x''" "\<And>s. ends (vprintf_u fd False f r) s" by auto
  then show ?case by (elim disjE) (simp_all add: num_arg_def ends_kthen_all ends_printint)
next
  case (4 c f x r)
  then show ?case by (simp add: str_arg_def ends_kthen_all ends_putcs)
qed simp

lemma ends_printf [uend]: "fmt_ok False f args \<Longrightarrow> ends (printf_u f args) s" "fmt_ok False f args \<Longrightarrow> ends (fprintf fd f args) s"
  by (simp_all add: printf_u_def fprintf_def ends_vprintf)

lemma keeps_putcs [kinv_intro]: "kkeeps (\<lambda>s. u_in s = I) (putc fd c)" "kkeeps (\<lambda>s. u_in s = I) (putcs fd t)"
  by (auto simp: kkeeps_def usys)

lemma keeps_printint [kinv_intro]: "kkeeps (\<lambda>s. u_in s = I) (printint_u fd x base sg)" "kkeeps (\<lambda>s. u_in s = I) (printptr_u fd x)"
  unfolding printint_u_def printptr_u_def Let_def by (intro kinv_intro)+

lemma keeps_arg:
  "(\<And>x r. kkeeps I (f x r)) \<Longrightarrow> kkeeps I (num_arg args f)" "(\<And>x r. kkeeps I (g x r)) \<Longrightarrow> kkeeps I (str_arg args g)"
  by (auto simp: num_arg_def str_arg_def intro: kkeeps_kfault split: list.split uarg.split)

lemma keeps_vprintf [kinv_intro]: "kkeeps (\<lambda>s. u_in s = I) (vprintf_u fd b f args)"
proof (induction f arbitrary: b args rule: length_induct)
  case (1 f)
  show ?case
  proof (cases f)
    case Nil
    then show ?thesis by (simp add: kkeeps_kret)
  next
    case (Cons c g)
    then have IH: "kkeeps (\<lambda>s. u_in s = I) (vprintf_u fd b (drop n g) args)" "kkeeps (\<lambda>s. u_in s = I) (vprintf_u fd b g args)"
      for b n args using 1 by simp_all
    show ?thesis unfolding Cons
      by (cases b) (simp_all only: vprintf_u.simps Let_def, (intro keeps_arg kinv_intro IH)+)
  qed
qed

lemma keeps_printf [kinv_intro]: "kkeeps (\<lambda>s. u_in s = I) (printf_u f args)" "kkeeps (\<lambda>s. u_in s = I) (fprintf fd f args)"
  by (simp_all add: printf_u_def fprintf_def keeps_vprintf)



end
