(* ===== verification/Grep.thy ===== *)
theory Grep
  imports Uprintf
begin

text \<open>
  \<^verbatim>\<open>user/grep.c\<close>: the matcher of Kernighan and Pike and the loop that feeds it the lines of a file. The
  theorems: \<open>match_re\<close> decides the language of the pattern, and \<open>grep\<close> writes exactly the lines that
  match, however the kernel cuts the input into pieces.
\<close>

subsection \<open>The matcher\<close>

text \<open>The three functions; a pointer into a string is the rest of the string.\<close>

function (sequential) matchhere :: "string \<Rightarrow> string \<Rightarrow> bool"
  and matchstar :: "char \<Rightarrow> string \<Rightarrow> string \<Rightarrow> bool" where
  "matchhere [] txt = True"
| "matchhere (c # re) txt =
    (if char_at re = CHR ''*'' then matchstar c (drop 1 re) txt
     else if c = CHR ''$'' \<and> re = [] then txt = []
     else if txt \<noteq> [] \<and> (c = CHR ''.'' \<or> c = char_at txt) then matchhere re (drop 1 txt)
     else False)"
| "matchstar c re txt =
    (if matchhere re txt then True
     else if txt \<noteq> [] \<and> (char_at txt = c \<or> c = CHR ''.'') then matchstar c re (drop 1 txt)
     else False)"
  by pat_completeness auto

termination
  by (relation "measure (\<lambda>z. case z of Inl (re, t) \<Rightarrow> 2 * (length re + length t) | Inr (c, re, t) \<Rightarrow> Suc (2 * (length re + length t)))")
    (auto simp: char_at_def neq_Nil_conv split: list.splits)

fun match_from :: "string \<Rightarrow> string \<Rightarrow> bool" where
  "match_from re txt =
    (if matchhere re txt then True
     else case txt of [] \<Rightarrow> False | _ # t \<Rightarrow> match_from re t)"

definition match_re :: "string \<Rightarrow> string \<Rightarrow> bool" where
  "match_re re txt = (if re \<noteq> [] \<and> char_at re = CHR ''^'' then matchhere (drop 1 re) txt else match_from re txt)"

subsection \<open>The loop over the lines\<close>

text \<open>
  The inner loop on what is in the buffer, \<open>txt\<close> the string at \<^verbatim>\<open>p\<close>: every line is written if it
  matches. The rest after the last newline is the result.
\<close>

function grep_lines :: "string \<Rightarrow> string \<Rightarrow> string u" where
  "grep_lines pattern b =
    (case strchr (cstring b) CHR 0x0a of
       None \<Rightarrow> kret b
     | Some q \<Rightarrow>
        (let line = take (length (cstring b) - length q) b; rest = drop (Suc (length line)) b in
         kthen (if match_re pattern line then kthen (uwrite 1 (line @ [CHR 0x0a])) (kret ()) else kret ())
        (grep_lines pattern rest)))"
  by pat_completeness auto

termination
proof (relation "measure (\<lambda>(p, b). length b)", goal_cases)
  case (2 pattern b q line rest)
  have "cstring b \<noteq> []" using strchr_Some [OF 2(1)] by simp
  then have "b \<noteq> []" by (auto simp: cstring_def)
  with 2 show ?case by (cases b) auto
qed simp

text \<open>The outer loop; \<open>b\<close> holds the \<^verbatim>\<open>m\<close> bytes that are left from the last round.\<close>

fun grep_loop :: "nat \<Rightarrow> string \<Rightarrow> int \<Rightarrow> string \<Rightarrow> unit u" where
  "grep_loop 0 pattern fd b = (\<lambda>s. Diverge)"
| "grep_loop (Suc k) pattern fd b =
    kbind (uread fd (1024 - length b - 1)) (\<lambda>r. case r of
      None \<Rightarrow> kret ()
    | Some x \<Rightarrow> if x = [] then kret ()
        else kbind (grep_lines pattern (b @ x)) (\<lambda>rest. grep_loop k pattern fd rest))"

definition grep :: "string \<Rightarrow> int \<Rightarrow> unit u" where
  "grep pattern fd = (\<lambda>s. grep_loop (Suc (left_of s fd)) pattern fd [] s)"

definition grep_file :: "string \<Rightarrow> string \<Rightarrow> unit option u" where
  "grep_file pattern f = kbind (ask (UOpen f 0)) (\<lambda>fd.
     if fd < 0 then kthen (printf_u ''grep: cannot open %s\<newline>'' [UStr (Some f)]) (uexit 1)
     else kthen (grep pattern fd) (kthen (ask (UClose fd)) (kret None)))"

definition grep_main :: "string list \<Rightarrow> int u" where
  "grep_main argv =
    (case argv of
       _ # pattern # files \<Rightarrow>
         if files = [] then kthen (grep pattern 0) (uexit 0)
         else kthen (kfor (grep_file pattern) files) (uexit 0)
     | _ \<Rightarrow> kthen (fprintf 2 ''usage: grep pattern [file ...]\<newline>'' []) (uexit 1))"

subsection \<open>The language of a pattern\<close>

text \<open>
  A pattern is a list of items: a character or the dot once, or any number of times, and a dollar
  sign at the end. The words of a list of items, and which text a pattern matches.
\<close>

datatype item = One char | Star char | Last

fun compile :: "string \<Rightarrow> item list" where
  "compile [] = []"
| "compile [c] = [if c = CHR ''$'' then Last else One c]"
| "compile (c # d # re) = (if d = CHR ''*'' then Star c # compile re else One c # compile (d # re))"

definition fits :: "char \<Rightarrow> char \<Rightarrow> bool" where
  "fits c x \<longleftrightarrow> c = CHR ''.'' \<or> c = x"

primrec item_words :: "item \<Rightarrow> string set" where
  "item_words (One c) = {[x] | x. fits c x}"
| "item_words (Star c) = {u. \<forall>x \<in> set u. fits c x}"
| "item_words Last = {[]}"

primrec words :: "item list \<Rightarrow> string set" where
  "words [] = {[]}"
| "words (i # is) = {u @ v | u v. u \<in> item_words i \<and> v \<in> words is}"

definition begins :: "item list \<Rightarrow> string \<Rightarrow> bool" where
  "begins is t \<longleftrightarrow> (\<exists>u v. t = u @ v \<and> u \<in> words is \<and> (Last \<in> set is \<longrightarrow> v = []))"

definition matches :: "string \<Rightarrow> string \<Rightarrow> bool" where
  "matches re t \<longleftrightarrow>
    (if re \<noteq> [] \<and> hd re = CHR ''^'' then begins (compile (tl re)) t
     else \<exists>a b. t = a @ b \<and> begins (compile re) b)"

lemma begins_Nil: "begins [] t"
  by (auto simp: begins_def)

lemma begins_Last: "begins [Last] t \<longleftrightarrow> t = []"
  by (auto simp: begins_def)

lemma begins_Cons:
  assumes "i \<noteq> Last"
  shows "begins (i # is) t \<longleftrightarrow> (\<exists>u b. t = u @ b \<and> u \<in> item_words i \<and> begins is b)"
proof
  assume "begins (i # is) t"
  then obtain u w v where "t = (u @ w) @ v" "u \<in> item_words i" "w \<in> words is" "Last \<in> set is \<longrightarrow> v = []"
    by (auto simp: begins_def simp del: append_assoc)
  then show "\<exists>u b. t = u @ b \<and> u \<in> item_words i \<and> begins is b"
    by (intro exI [of _ u] exI [of _ "w @ v"]) (auto simp: begins_def)
next
  assume "\<exists>u b. t = u @ b \<and> u \<in> item_words i \<and> begins is b"
  then obtain u w v where w: "t = u @ w @ v" "u \<in> item_words i" "w \<in> words is" "Last \<in> set is \<longrightarrow> v = []"
    by (auto simp: begins_def)
  then have "u @ w \<in> words (i # is)" by auto
  with w assms show "begins (i # is) t" unfolding begins_def by (intro exI [of _ "u @ w"] exI [of _ v]) simp
qed

lemma begins_One: "begins (One c # is) t \<longleftrightarrow> (\<exists>x t'. t = x # t' \<and> fits c x \<and> begins is t')"
  by (simp add: begins_Cons) (metis append_Cons append_Nil)

lemma begins_Star:
  "begins (Star c # is) t \<longleftrightarrow> begins is t \<or> (\<exists>x t'. t = x # t' \<and> fits c x \<and> begins (Star c # is) t')"
proof -
  have "(\<exists>u b. t = u @ b \<and> (\<forall>x \<in> set u. fits c x) \<and> begins is b) \<longleftrightarrow>
      begins is t \<or> (\<exists>x u b. t = x # u @ b \<and> fits c x \<and> (\<forall>y \<in> set u. fits c y) \<and> begins is b)" (is "?l \<longleftrightarrow> _ \<or> ?r")
  proof
    assume ?l
    then obtain u b where u: "t = u @ b" "\<forall>x \<in> set u. fits c x" "begins is b" by blast
    then show "begins is t \<or> ?r" by (cases u) auto
  next
    assume "begins is t \<or> ?r"
    then show ?l
    proof
      assume "begins is t"
      then show ?l by (intro exI [of _ "[]"] exI [of _ t]) simp
    next
      assume ?r
      then obtain x u b where "t = (x # u) @ b" "fits c x" "\<forall>y \<in> set u. fits c y" "begins is b" by auto
      then show ?l by (intro exI [of _ "x # u"] exI [of _ b]) simp
    qed
  qed
  then show ?thesis by (simp add: begins_Cons) blast
qed

lemma matchhere_begins: "matchhere re t \<longleftrightarrow> begins (compile re) t"
  and matchstar_begins: "matchstar c re t \<longleftrightarrow> begins (Star c # compile re) t"
proof (induction re t and c re t rule: matchhere_matchstar.induct)
  case (2 c re t)
  show ?case
  proof (cases re)
    case Nil
    with 2 show ?thesis by (cases t) (auto simp: begins_Last begins_One begins_Nil fits_def)
  next
    case (Cons d re')
    with 2 show ?thesis by (cases t) (auto simp: begins_One fits_def)
  qed
next
  case (3 c re t)
  show ?case
  proof (cases t)
    case Nil
    with 3 begins_Star [of c "compile re" "[]"] show ?thesis by simp
  next
    case (Cons x t')
    with 3 begins_Star [of c "compile re" "x # t'"] show ?thesis
      by (simp del: matchhere.simps matchstar.simps add: matchstar.simps [of c re "x # t'"]) (auto simp: fits_def)
  qed
qed (simp add: begins_Nil)

lemma match_from_begins: "match_from re t \<longleftrightarrow> (\<exists>a b. t = a @ b \<and> begins (compile re) b)"
proof (induction t)
  case Nil
  then show ?case by (simp add: matchhere_begins)
next
  case (Cons x t)
  have "(\<exists>a b. x # t = a @ b \<and> begins (compile re) b) \<longleftrightarrow>
      begins (compile re) (x # t) \<or> (\<exists>a b. t = a @ b \<and> begins (compile re) b)"
    by (auto simp: Cons_eq_append_conv)
  with Cons show ?case by (simp add: matchhere_begins)
qed

lemma match_re_matches: "match_re re t \<longleftrightarrow> matches re t"
  by (cases re) (simp_all add: match_re_def matches_def matchhere_begins match_from_begins del: match_from.simps)

text \<open>
  C21. The matcher decides the language of the pattern: for every pattern and every text, \<open>match_re\<close> returns,
  and its result is 1 exactly if a part of the text (one at its beginning, if the pattern begins with a
  caret; one that reaches to its end, if it ends in a dollar sign) is a word of the pattern, where a
  dot stands for any character and a star for any number of what precedes it.
\<close>

theorem match_correct: "match_re re t \<longleftrightarrow> matches re t"
  by (rule match_re_matches)

subsection \<open>The lines of a text\<close>

definition with_nl :: "string list \<Rightarrow> string" where
  "with_nl ls = concat (map (\<lambda>l. l @ [CHR 0x0a]) ls)"

text \<open>What is read so far consists of whole lines and the beginning of the next one.\<close>

lemma split_lines:
  assumes "b @ y = with_nl ls @ e" "\<forall>l \<in> set ls. CHR 0x0a \<notin> set l" "CHR 0x0a \<notin> set e"
  shows "\<exists>l1 l2 r. ls = l1 @ l2 \<and> b = with_nl l1 @ r \<and> CHR 0x0a \<notin> set r \<and> r @ y = with_nl l2 @ e"
  using assms(1,2)
proof (induction ls arbitrary: b)
  case Nil
  then have "e = b @ y" by (simp add: with_nl_def)
  with assms(3) show ?case by (intro exI [of _ "[]"] exI [of _ b]) (auto simp: with_nl_def)
next
  case (Cons l ls)
  then have e: "b @ y = l @ CHR 0x0a # with_nl ls @ e" by (simp add: with_nl_def)
  show ?case
  proof (cases "length b \<le> length l")
    case True
    with e obtain l' where "l = b @ l'" by (auto simp: append_eq_append_conv2)
    then have "CHR 0x0a \<notin> set b" using Cons.prems(2) by simp
    with Cons.prems(1) show ?thesis by (intro exI [of _ "[]"] exI [of _ "l # ls"] exI [of _ b]) (simp add: with_nl_def)
  next
    case False
    with e obtain b' where b: "b = l @ b'" "b' \<noteq> []" "b' @ y = CHR 0x0a # with_nl ls @ e"
      by (auto simp: append_eq_append_conv2)
    then obtain c where c: "b = (l @ [CHR 0x0a]) @ c" "c @ y = with_nl ls @ e" by (cases b') auto
    obtain l1 l2 r where "ls = l1 @ l2" "c = with_nl l1 @ r" "CHR 0x0a \<notin> set r" "r @ y = with_nl l2 @ e"
      using Cons.IH [OF c(2)] Cons.prems(2) by auto
    with c(1) show ?thesis by (intro exI [of _ "l # l1"] exI [of _ l2] exI [of _ r]) (simp add: with_nl_def)
  qed
qed

lemma strchr_none: "c \<notin> set s \<Longrightarrow> strchr s c = None"
  by (induction s) auto

lemma strchr_append: "c \<notin> set s \<Longrightarrow> strchr (s @ c # t) c = Some (c # t)"
  by (induction s) auto

lemma cstring_nl: "CHR 0x00 \<notin> set l \<Longrightarrow> cstring (l @ CHR 0x0a # t) = l @ CHR 0x0a # cstring t"
  unfolding cstring_def by (subst takeWhile_append2) (auto simp: char_val_def)

declare grep_lines.simps [simp del]

lemma grep_lines_rest: "CHR 0x0a \<notin> set r \<Longrightarrow> grep_lines pat r s = Ok r s"
proof -
  assume "CHR 0x0a \<notin> set r"
  then have "CHR 0x0a \<notin> set (cstring r)" by (auto simp: cstring_def dest: set_takeWhileD)
  then show ?thesis by (subst grep_lines.simps) (simp add: strchr_none kmonad)
qed

lemma grep_lines_one:
  assumes "CHR 0x0a \<notin> set l" "CHR 0x00 \<notin> set l"
  shows "grep_lines pat (l @ CHR 0x0a # t) =
    kthen (if match_re pat l then kthen (uwrite 1 (l @ [CHR 0x0a])) (kret ()) else kret ()) (grep_lines pat t)"
  using assms by (subst grep_lines.simps) (simp add: cstring_nl strchr_append Let_def)

lemma grep_lines_all:
  assumes "\<forall>l \<in> set ls. CHR 0x0a \<notin> set l \<and> CHR 0x00 \<notin> set l" "CHR 0x0a \<notin> set r"
  shows "\<exists>s'. grep_lines pat (with_nl ls @ r) s = Ok r s' \<and> u_in s' = u_in s \<and>
    outputs 1 s' = outputs 1 s @ with_nl (filter (match_re pat) ls)"
  using assms(1)
proof (induction ls arbitrary: s)
  case Nil
  with assms(2) show ?case by (simp add: grep_lines_rest with_nl_def)
next
  case (Cons l ls)
  let ?m = "if match_re pat l then kthen (uwrite 1 (l @ [CHR 0x0a])) (kret ()) else kret ()"
  obtain s1 where s1: "?m s = Ok () s1" "u_in s1 = u_in s"
    "outputs 1 s1 = outputs 1 s @ (if match_re pat l then l @ [CHR 0x0a] else [])"
    using uwrite_any [of 1 "l @ [CHR 0x0a]" s] by (cases "match_re pat l") (auto simp: kmonad)
  obtain s' where "grep_lines pat (with_nl ls @ r) s1 = Ok r s'" "u_in s' = u_in s1"
    "outputs 1 s' = outputs 1 s1 @ with_nl (filter (match_re pat) ls)"
    using Cons.IH [of s1] Cons.prems by auto
  with s1 Cons.prems show ?case
    by (simp add: with_nl_def grep_lines_one kthen_Ok)
qed

lemma grep_loop_all:
  assumes "holds s fd t" "b @ t = with_nl ls @ e" "left_of s fd < k" "length b \<le> 1023" "CHR 0x0a \<notin> set b"
    and "\<forall>l \<in> set ls. CHR 0x0a \<notin> set l \<and> CHR 0x00 \<notin> set l \<and> length l < 1023" "CHR 0x0a \<notin> set e"
  shows "\<exists>s'. grep_loop k pat fd b s = Ok () s' \<and> outputs 1 s' = outputs 1 s @ with_nl (filter (match_re pat) ls)"
  using assms(1-6)
proof (induction k arbitrary: s t b ls)
  case (Suc k)
  have nolines: "ls = []" if "t = [] \<or> length b = 1023"
  proof (rule ccontr)
    assume "ls \<noteq> []"
    then obtain l ls' where ls: "ls = l # ls'" by (cases ls) auto
    then have eq: "b @ t = l @ CHR 0x0a # with_nl ls' @ e" using Suc.prems(2) by (simp add: with_nl_def)
    have "CHR 0x0a \<in> set b" if "length l < length b"
    proof -
      have "b ! length l = (b @ t) ! length l" using that by (simp add: nth_append)
      also have "\<dots> = CHR 0x0a" by (simp add: eq)
      finally show ?thesis using that by (metis nth_mem)
    qed
    then have "length b \<le> length l" using Suc.prems(5) by fastforce
    moreover have "length l < length b" if "t = []" using arg_cong [OF eq, of length] that by simp
    ultimately show False using that Suc.prems(6) ls by auto
  qed
  show ?case
  proof (cases "t = [] \<or> length b = 1023")
    case True
    have "\<exists>s'. uread fd (1024 - length b - 1) s = Ok (Some []) s' \<and> outputs 1 s' = outputs 1 s"
    proof (cases "u_in s fd")
      case Nil
      then show ?thesis by (simp add: uread_def called_def kmonad)
    next
      case (Cons p r)
      then obtain c where "p = Some c" using Suc.prems(1) by (cases p) (auto simp: holds_def)
      with Cons True Suc.prems(1) holds_nil [of s fd] show ?thesis by (auto simp: uread_def called_def kmonad)
    qed
    with True nolines show ?thesis by (auto simp: kmonad with_nl_def)
  next
    case False
    then have "0 < 1024 - length b - 1" using Suc.prems(4) by auto
    with False obtain x y i where x: "t = x @ y" "x \<noteq> []" "length x \<le> 1024 - length b - 1"
      and rd: "uread fd (1024 - length b - 1) s =
        Ok (Some x) (s\<lparr>u_calls := URead fd (1024 - length b - 1) # u_calls s, u_in := (u_in s)(fd := i)\<rparr>)"
      and h: "holds (s\<lparr>u_calls := URead fd (1024 - length b - 1) # u_calls s, u_in := (u_in s)(fd := i)\<rparr>) fd y"
      and l: "left_of (s\<lparr>u_calls := URead fd (1024 - length b - 1) # u_calls s, u_in := (u_in s)(fd := i)\<rparr>) fd < left_of s fd"
      using uread_some [OF Suc.prems(1), of "1024 - length b - 1"] by blast
    let ?s = "s\<lparr>u_calls := URead fd (1024 - length b - 1) # u_calls s, u_in := (u_in s)(fd := i)\<rparr>"
    obtain l1 l2 r where r: "ls = l1 @ l2" "b @ x = with_nl l1 @ r" "CHR 0x0a \<notin> set r" "r @ y = with_nl l2 @ e"
      using split_lines [of "b @ x" y ls e] x(1) Suc.prems(2,6) assms(7) by auto
    obtain s2 where s2: "grep_lines pat (b @ x) ?s = Ok r s2" "u_in s2 = u_in ?s"
      "outputs 1 s2 = outputs 1 ?s @ with_nl (filter (match_re pat) l1)"
      using grep_lines_all [of l1 r pat ?s] r Suc.prems(6) by auto
    have "length r \<le> length (b @ x)" using r(2) by simp
    then have "length r \<le> 1023" using x(3) Suc.prems(4) by simp
    moreover have "holds s2 fd y" "left_of s2 fd < k" using h l s2(2) Suc.prems(3) by (simp_all add: holds_def left_of_def)
    ultimately obtain s' where "grep_loop k pat fd r s2 = Ok () s'"
      "outputs 1 s' = outputs 1 s2 @ with_nl (filter (match_re pat) l2)"
      using Suc.IH [of s2 y r l2] r Suc.prems(6) by auto
    with rd s2 x(2) r(1) show ?thesis by (simp add: kmonad with_nl_def)
  qed
qed simp

text \<open>
  C22. \<open>grep\<close> writes the lines that match and nothing else. However the kernel cuts the contents of the file
  into pieces, for every text of lines that fit the buffer and an unfinished line after them, \<open>grep\<close>
  returns, and what it has written to descriptor 1 are the finished lines that contain a word of
  the pattern, in order.
\<close>

theorem grep_correct:
  assumes "holds s fd (with_nl ls @ e)"
    and "\<forall>l \<in> set ls. CHR 0x0a \<notin> set l \<and> CHR 0x00 \<notin> set l \<and> length l < 1023" "CHR 0x0a \<notin> set e"
  shows "\<exists>s'. grep pat fd s = Ok () s' \<and> outputs 1 s' = outputs 1 s @ with_nl (filter (matches pat) ls)"
proof -
  have "match_re pat = matches pat" by (simp add: fun_eq_iff match_re_matches)
  with grep_loop_all [OF assms(1), of "[]" ls e "Suc (left_of s fd)" pat] assms(2,3) show ?thesis
    by (simp add: grep_def del: grep_loop.simps)
qed

theorem grep_correct_witness:
  "\<exists>s'. grep ''^a*b'' 3 \<lparr>u_in = (\<lambda>_. [])(3 := [Some ''aa'', Some ''b'', Some [CHR 0x0a, CHR ''c''], Some [CHR 0x0a]]),
      u_wr = [], u_ans = [], u_calls = [], u_exit = None\<rparr> = Ok () s' \<and> outputs 1 s' = ''aab'' @ [CHR 0x0a]"
proof -
  have "match_re ''^a*b'' ''aab''" "\<not> match_re ''^a*b'' ''c''" by code_simp+
  then have "filter (matches ''^a*b'') [''aab'', ''c''] = [''aab'']" by (simp flip: match_re_matches)
  with grep_correct [of "\<lparr>u_in = (\<lambda>_. [])(3 := [Some ''aa'', Some ''b'', Some [CHR 0x0a, CHR ''c''], Some [CHR 0x0a]]),
      u_wr = [], u_ans = [], u_calls = [], u_exit = None\<rparr>" 3 "[''aab'', ''c'']" "[]" "''^a*b''"]
  show ?thesis by (simp add: holds_def with_nl_def)
qed

end
