(* ===== verification/Utils.thy ===== *)
theory Utils
  imports Grep
begin

text \<open>
  The small user programs: \<^verbatim>\<open>user/cat.c\<close>, \<^verbatim>\<open>echo.c\<close>, \<^verbatim>\<open>wc.c\<close>, \<^verbatim>\<open>ls.c\<close>, \<^verbatim>\<open>kill.c\<close>, \<^verbatim>\<open>ln.c\<close>, \<^verbatim>\<open>mkdir.c\<close>, \<^verbatim>\<open>rm.c\<close>,
  \<^verbatim>\<open>zombie.c\<close> and \<^verbatim>\<open>init.c\<close>. A program is the function of its arguments (the name of the program first)
  that \<open>start_u\<close> runs; \<^verbatim>\<open>exit\<close> does not return. The theorems: \<open>cat\<close> copies its input, \<open>wc\<close> counts lines, words
  and characters, whatever the pieces the kernel hands out; \<open>init\<close> never returns and never stops on its own.
\<close>

subsection \<open>cat\<close>

fun cat_loop :: "nat \<Rightarrow> int \<Rightarrow> unit u" where
  "cat_loop 0 fd = (\<lambda>s. Diverge)"
| "cat_loop (Suc k) fd = kbind (uread fd 512) (\<lambda>r. case r of
      None \<Rightarrow> kthen (fprintf 2 ''cat: read error\<newline>'' []) (uexit 1)
    | Some buf \<Rightarrow> if buf = [] then kret ()
        else kbind (uwrite 1 buf) (\<lambda>w.
          if w \<noteq> int (length buf) then kthen (fprintf 2 ''cat: write error\<newline>'' []) (uexit 1)
          else cat_loop k fd))"

definition cat :: "int \<Rightarrow> unit u" where
  "cat fd = (\<lambda>s. cat_loop (Suc (left_of s fd)) fd s)"

definition cat_file :: "string \<Rightarrow> unit option u" where
  "cat_file f = kbind (ask (UOpen f 0)) (\<lambda>fd.
     if fd < 0 then kthen (fprintf 2 ''cat: cannot open %s\<newline>'' [UStr (Some f)]) (uexit 1)
     else kthen (cat fd) (kthen (ask (UClose fd)) (kret None)))"

definition cat_main :: "string list \<Rightarrow> int u" where
  "cat_main argv =
    (if length argv \<le> 1 then kthen (cat 0) (uexit 0)
     else kthen (kfor cat_file (tl argv)) (uexit 0))"

subsection \<open>wc\<close>

text \<open>The counters of lines, words and characters and the flag \<^verbatim>\<open>inword\<close>.\<close>

record counts =
  wc_l :: int
  wc_w :: int
  wc_c :: int
  wc_in :: bool

definition wc_char :: "char \<Rightarrow> counts \<Rightarrow> counts" where
  "wc_char x n =
    (let n = n\<lparr>wc_c := wc_c n + 1\<rparr>;
         n = (if x = CHR 0x0a then n\<lparr>wc_l := wc_l n + 1\<rparr> else n) in
     if strchr [CHR '' '', CHR 0x0d, CHR 0x09, CHR 0x0a, CHR 0x0b] x \<noteq> None then n\<lparr>wc_in := False\<rparr>
     else if \<not> wc_in n then n\<lparr>wc_w := wc_w n + 1, wc_in := True\<rparr>
     else n)"

fun wc_loop :: "nat \<Rightarrow> int \<Rightarrow> counts \<Rightarrow> counts u" where
  "wc_loop 0 fd n = (\<lambda>s. Diverge)"
| "wc_loop (Suc k) fd n = kbind (uread fd 512) (\<lambda>r. case r of
      None \<Rightarrow> kthen (printf_u ''wc: read error\<newline>'' []) (uexit 1)
    | Some buf \<Rightarrow> if buf = [] then kret n else wc_loop k fd (fold wc_char buf n))"

definition wc :: "int \<Rightarrow> string \<Rightarrow> unit u" where
  "wc fd name = (\<lambda>s.
     kbind (wc_loop (Suc (left_of s fd)) fd \<lparr>wc_l = 0, wc_w = 0, wc_c = 0, wc_in = False\<rparr>) (\<lambda>n.
     printf_u ''%d %d %d %s\<newline>'' [UInt (wc_l n), UInt (wc_w n), UInt (wc_c n), UStr (Some name)]) s)"

definition wc_file :: "string \<Rightarrow> unit option u" where
  "wc_file f = kbind (ask (UOpen f 0)) (\<lambda>fd.
     if fd < 0 then kthen (printf_u ''wc: cannot open %s\<newline>'' [UStr (Some f)]) (uexit 1)
     else kthen (wc fd f) (kthen (ask (UClose fd)) (kret None)))"

definition wc_main :: "string list \<Rightarrow> int u" where
  "wc_main argv =
    (if length argv \<le> 1 then kthen (wc 0 []) (uexit 0)
     else kthen (kfor wc_file (tl argv)) (uexit 0))"

subsection \<open>echo, kill, ln, mkdir, rm, zombie\<close>

fun echo_args :: "string list \<Rightarrow> unit u" where
  "echo_args [] = kret ()"
| "echo_args (a # r) = kthen (uwrite 1 a)
    (kthen (uwrite 1 (if r \<noteq> [] then '' '' else [CHR 0x0a])) (echo_args r))"

definition echo_main :: "string list \<Rightarrow> int u" where
  "echo_main argv = kthen (echo_args (tl argv)) (uexit 0)"

text \<open>An argument beyond the range of \<^verbatim>\<open>int\<close> makes \<open>atoi\<close> undefined.\<close>

definition kill_arg :: "string \<Rightarrow> unit option u" where
  "kill_arg a = (case atoi a of None \<Rightarrow> kfault ''atoi: overflow''
     | Some pid \<Rightarrow> kthen (ask (UKill pid)) (kret None))"

definition kill_main :: "string list \<Rightarrow> int u" where
  "kill_main argv =
    (if length argv < 2 then kthen (fprintf 2 ''usage: kill pid...\<newline>'' []) (uexit 1)
     else kthen (kfor kill_arg (tl argv)) (uexit 0))"

definition ln_main :: "string list \<Rightarrow> int u" where
  "ln_main argv =
    (case argv of
       [_, old, new] \<Rightarrow>
         kbind (ask (ULink old new)) (\<lambda>r.
         kthen (kwhen (r < 0) (fprintf 2 ''link %s %s: failed\<newline>'' [UStr (Some old), UStr (Some new)]))
        (uexit 0))
     | _ \<Rightarrow> kthen (fprintf 2 ''Usage: ln old new\<newline>'' []) (uexit 1))"

definition mkdir_main :: "string list \<Rightarrow> int u" where
  "mkdir_main argv =
    (if length argv < 2 then kthen (fprintf 2 ''Usage: mkdir files...\<newline>'' []) (uexit 1)
     else kthen (kfor (\<lambda>f. kbind (ask (UMkdir f)) (\<lambda>r.
            if r < 0 then kthen (fprintf 2 ''mkdir: %s failed to create\<newline>'' [UStr (Some f)]) (kret (Some ()))
            else kret None)) (tl argv))
         (uexit 0))"

definition rm_main :: "string list \<Rightarrow> int u" where
  "rm_main argv =
    (if length argv < 2 then kthen (fprintf 2 ''Usage: rm files...\<newline>'' []) (uexit 1)
     else kthen (kfor (\<lambda>f. kbind (ask (UUnlink f)) (\<lambda>r.
            if r < 0 then kthen (fprintf 2 ''rm: %s failed to delete\<newline>'' [UStr (Some f)]) (kret (Some ()))
            else kret None)) (tl argv))
         (uexit 0))"

definition zombie_main :: "int u" where
  "zombie_main = kbind (ask UFork) (\<lambda>pid.
     kthen (kwhen (0 < pid) (kthen (ask (UPause 5)) (kret ()))) (uexit 0))"

subsection \<open>ls\<close>

definition fmtname :: "string \<Rightarrow> string" where
  "fmtname path =
    (let p = rev (takeWhile (\<lambda>c. c \<noteq> CHR ''/'') (rev path)) in
     if 14 \<le> strlen_u p then p else p @ replicate (14 - strlen_u p) CHR '' '')"

definition ls_line :: "string \<Rightarrow> ustat \<Rightarrow> unit u" where
  "ls_line path st = printf_u ''%s %d %d %d\<newline>''
     [UStr (Some (fmtname path)), UInt (us_type st), UInt (us_ino st), UInt (us_size st)]"

text \<open>The entries of a directory: 2 bytes of inode number and 14 bytes of name each; \<open>d\<close> is the path with its slash.\<close>

fun ls_entries :: "nat \<Rightarrow> int \<Rightarrow> string \<Rightarrow> unit u" where
  "ls_entries 0 fd d = (\<lambda>s. Diverge)"
| "ls_entries (Suc k) fd d = kbind (uread fd 16) (\<lambda>r. case r of
      None \<Rightarrow> kret ()
    | Some de \<Rightarrow> if length de \<noteq> 16 then kret ()
        else if char_val (de ! 0) + 256 * char_val (de ! 1) = 0 then ls_entries k fd d
        else (let p = d @ cstring (drop 2 de) in
          kbind (stat_u p) (\<lambda>st. case st of
            None \<Rightarrow> kthen (printf_u ''ls: cannot stat %s\<newline>'' [UStr (Some p)]) (ls_entries k fd d)
          | Some st \<Rightarrow> kthen (ls_line p st) (ls_entries k fd d))))"

definition ls :: "string \<Rightarrow> unit u" where
  "ls path = kbind (ask (UOpen path 0)) (\<lambda>fd.
     if fd < 0 then fprintf 2 ''ls: cannot open %s\<newline>'' [UStr (Some path)]
     else kbind (ufstat fd) (\<lambda>r. case r of
       None \<Rightarrow> kthen (fprintf 2 ''ls: cannot stat %s\<newline>'' [UStr (Some path)])
              (kthen (ask (UClose fd)) (kret ()))
     | Some st \<Rightarrow>
         kthen (if us_type st = 3 \<or> us_type st = 2 then ls_line path st
            else if us_type st = 1
            then (if strlen_u path + 1 + 14 + 1 > 512 then printf_u ''ls: path too long\<newline>'' []
                  else (\<lambda>s. ls_entries (Suc (left_of s fd)) fd (path @ ''/'') s))
            else kret ())
        (kthen (ask (UClose fd)) (kret ()))))"

definition ls_main :: "string list \<Rightarrow> int u" where
  "ls_main argv =
    (if length argv < 2 then kthen (ls ''.'') (uexit 0)
     else kthen (kfor (\<lambda>f. kthen (ls f) (kret (None :: unit option))) (tl argv)) (uexit 0))"

subsection \<open>init\<close>

text \<open>
  The two endless loops; a round takes at least one answer of the kernel, so fuel for as many rounds as
  there are answers, and one more, is enough. \<open>console\<close> has major number 1.
\<close>

fun init_wait :: "nat \<Rightarrow> int \<Rightarrow> unit u" where
  "init_wait 0 pid = (\<lambda>s. Diverge)"
| "init_wait (Suc k) pid = kbind (ask UWait) (\<lambda>wpid.
     if wpid = pid then kret ()
     else if wpid < 0 then kthen (printf_u ''init: wait returned an error\<newline>'' []) (uexit 1)
     else init_wait k pid)"

fun init_loop :: "nat \<Rightarrow> unit u" where
  "init_loop 0 = (\<lambda>s. Diverge)"
| "init_loop (Suc k) =
     kthen (printf_u ''init: starting sh\<newline>'' [])
    (kbind (ask UFork) (\<lambda>pid.
     if pid < 0 then kthen (printf_u ''init: fork failed\<newline>'' []) (uexit 1)
     else if pid = 0
     then kthen (ask (UExec ''sh'' [''sh'']))
         (kthen (printf_u ''init: exec sh failed\<newline>'' []) (uexit 1))
     else kthen (\<lambda>s. init_wait (Suc (length (u_ans s))) pid s) (init_loop k)))"

definition init_main :: "int u" where
  "init_main =
     kbind (ask (UOpen ''console'' 2)) (\<lambda>fd.
     kthen (kwhen (fd < 0)
       (kthen (ask (UMknod ''console'' 1 0)) (kthen (ask (UOpen ''console'' 2)) (kret ()))))
    (kthen (ask (UDup 0))
    (kthen (ask (UDup 0))
    (kthen (\<lambda>s. init_loop (Suc (length (u_ans s))) s)
    (kret 0)))))"

subsection \<open>cat copies\<close>

lemma cat_loop_copies:
  assumes "holds s fd t" "u_wr s = []" "left_of s fd < k"
  shows "\<exists>s'. cat_loop k fd s = Ok () s' \<and> holds s' fd [] \<and> outputs 1 s' = outputs 1 s @ t"
  using assms
proof (induction k arbitrary: s t)
  case (Suc k)
  show ?case
  proof (cases "t = []")
    case True
    with Suc.prems show ?thesis by (auto simp: uread_end kmonad holds_def)
  next
    case False
    then obtain x y i where x: "t = x @ y" "x \<noteq> []"
      and rd: "uread fd 512 s = Ok (Some x) (s\<lparr>u_calls := URead fd 512 # u_calls s, u_in := (u_in s)(fd := i)\<rparr>)"
      and h: "holds (s\<lparr>u_calls := URead fd 512 # u_calls s, u_in := (u_in s)(fd := i)\<rparr>) fd y"
      and l: "left_of (s\<lparr>u_calls := URead fd 512 # u_calls s, u_in := (u_in s)(fd := i)\<rparr>) fd < left_of s fd"
      using uread_some [OF Suc.prems(1), of 512] by auto
    let ?s = "s\<lparr>u_in := (u_in s)(fd := i), u_calls := UWrite 1 x # URead fd 512 # u_calls s\<rparr>"
    have "\<exists>s'. cat_loop k fd ?s = Ok () s' \<and> holds s' fd [] \<and> outputs 1 s' = outputs 1 ?s @ y"
      using h l Suc.prems(2,3) by (intro Suc.IH) (simp_all add: holds_def left_of_def)
    with rd x Suc.prems(2) show ?thesis by (simp add: kmonad uwrite_all)
  qed
qed simp

lemma cat_copies:
  assumes "holds s fd t" "u_wr s = []"
  shows "\<exists>s'. cat fd s = Ok () s' \<and> holds s' fd [] \<and> outputs 1 s' = outputs 1 s @ t"
  using cat_loop_copies [OF assms, of "Suc (left_of s fd)"] by (simp add: cat_def del: cat_loop.simps)

subsection \<open>wc counts\<close>

definition blank :: "char \<Rightarrow> bool" where
  "blank c \<longleftrightarrow> c \<in> {CHR '' '', CHR 0x0d, CHR 0x09, CHR 0x0a, CHR 0x0b}"

text \<open>A word begins at a character that is no blank and does not follow another one.\<close>

definition word_starts :: "string \<Rightarrow> nat set" where
  "word_starts t = {i. i < length t \<and> \<not> blank (t ! i) \<and> (i = 0 \<or> blank (t ! (i - 1)))}"

definition counted :: "string \<Rightarrow> counts" where
  "counted t = \<lparr>wc_l = int (length (filter (\<lambda>c. c = CHR 0x0a) t)), wc_w = int (card (word_starts t)),
     wc_c = int (length t), wc_in = (t \<noteq> [] \<and> \<not> blank (last t))\<rparr>"

lemma blank_strchr: "strchr [CHR '' '', CHR 0x0d, CHR 0x09, CHR 0x0a, CHR 0x0b] c = None \<longleftrightarrow> \<not> blank c"
  by (auto simp: blank_def)

lemma word_starts_snoc:
  "word_starts (t @ [x]) = (if \<not> blank x \<and> (t = [] \<or> blank (last t)) then insert (length t) (word_starts t) else word_starts t)"
  by (cases t rule: rev_cases) (auto simp: word_starts_def nth_append less_Suc_eq)

lemma word_starts_fin: "finite (word_starts t)" "length t \<notin> word_starts t"
  by (simp_all add: word_starts_def)

lemma counted_snoc: "wc_char x (counted t) = counted (t @ [x])"
  using word_starts_fin [of t]
  by (auto simp: wc_char_def counted_def Let_def blank_strchr word_starts_snoc simp del: strchr.simps)

lemma counted_fold: "fold wc_char u (counted t) = counted (t @ u)"
proof (induction u arbitrary: t)
  case (Cons x u)
  then show ?case using counted_snoc [of x t] Cons.IH [of "t @ [x]"] by simp
qed simp

lemma wc_loop_counts:
  assumes "holds s fd t" "left_of s fd < k"
  shows "\<exists>s'. wc_loop k fd (counted u) s = Ok (counted (u @ t)) s' \<and> holds s' fd [] \<and> (\<forall>g. outputs g s' = outputs g s)"
  using assms
proof (induction k arbitrary: s t u)
  case (Suc k)
  show ?case
  proof (cases "t = []")
    case True
    with Suc.prems show ?thesis by (auto simp: uread_end kmonad holds_def)
  next
    case False
    then obtain x y i where x: "t = x @ y" "x \<noteq> []"
      and rd: "uread fd 512 s = Ok (Some x) (s\<lparr>u_calls := URead fd 512 # u_calls s, u_in := (u_in s)(fd := i)\<rparr>)"
      and h: "holds (s\<lparr>u_calls := URead fd 512 # u_calls s, u_in := (u_in s)(fd := i)\<rparr>) fd y"
      and l: "left_of (s\<lparr>u_calls := URead fd 512 # u_calls s, u_in := (u_in s)(fd := i)\<rparr>) fd < left_of s fd"
      using uread_some [OF Suc.prems(1), of 512] by auto
    have "\<exists>s'. wc_loop k fd (counted (u @ x)) (s\<lparr>u_calls := URead fd 512 # u_calls s, u_in := (u_in s)(fd := i)\<rparr>) =
        Ok (counted ((u @ x) @ y)) s' \<and> holds s' fd [] \<and>
        (\<forall>g. outputs g s' = outputs g (s\<lparr>u_calls := URead fd 512 # u_calls s, u_in := (u_in s)(fd := i)\<rparr>))"
      using h l Suc.prems(2) by (intro Suc.IH) simp_all
    with rd x show ?thesis by (simp add: kmonad counted_fold)
  qed
qed simp

lemma counts_small:
  assumes "length t < 2 ^ 31"
  shows "0 \<le> wc_l (counted t)" "wc_l (counted t) < 2 ^ 31" "0 \<le> wc_w (counted t)" "wc_w (counted t) < 2 ^ 31"
    "0 \<le> wc_c (counted t)" "wc_c (counted t) < 2 ^ 31"
proof -
  have "word_starts t \<subseteq> {..<length t}" by (auto simp: word_starts_def)
  then have "card (word_starts t) \<le> length t" using card_mono [of "{..<length t}"] by fastforce
  then have "card (word_starts t) < 2 ^ 31" using assms by (rule le_less_trans)
  moreover have "length (filter (\<lambda>c. c = CHR 0x0a) t) < 2 ^ 31" using assms by (rule le_less_trans [OF length_filter_le])
  ultimately have "int (card (word_starts t)) < 2 ^ 31" "int (length (filter (\<lambda>c. c = CHR 0x0a) t)) < 2 ^ 31" "int (length t) < 2 ^ 31"
    using assms by simp_all
  then show "0 \<le> wc_l (counted t)" "wc_l (counted t) < 2 ^ 31" "0 \<le> wc_w (counted t)" "wc_w (counted t) < 2 ^ 31"
    "0 \<le> wc_c (counted t)" "wc_c (counted t) < 2 ^ 31" by (simp_all add: counted_def)
qed

text \<open>
  C23. \<open>wc\<close> counts. For every text of a file, cut into pieces in any way by the kernel, \<open>wc\<close> reads it to the end
  and writes to descriptor 1, in decimal, the number of newlines, the number of words (the
  characters other than blanks that begin the text or follow a blank) and the number of characters, and the name.
\<close>

theorem wc_correct:
  assumes "holds s fd t" "length t < 2 ^ 31"
  shows "\<exists>s'. wc fd name s = Ok () s' \<and> holds s' fd [] \<and> outputs 1 s' = outputs 1 s @
    dec_u (int (count_list t CHR 0x0a)) @ '' '' @ dec_u (int (card (word_starts t))) @ '' '' @
    dec_u (int (length t)) @ '' '' @ name @ [CHR 0x0a]"
proof -
  have z: "counted [] = \<lparr>wc_l = 0, wc_w = 0, wc_c = 0, wc_in = False\<rparr>" by (simp add: counted_def word_starts_def)
  obtain s' where s': "wc_loop (Suc (left_of s fd)) fd \<lparr>wc_l = 0, wc_w = 0, wc_c = 0, wc_in = False\<rparr> s = Ok (counted t) s'"
    "holds s' fd []" "outputs 1 s' = outputs 1 s"
    using wc_loop_counts [OF assms(1), of "Suc (left_of s fd)" "[]"] unfolding z by (auto simp del: wc_loop.simps)
  have c: "count_list t x = length (filter (\<lambda>c. c = x) t)" for x by (induction t) auto
  note b = counts_small [OF assms(2)]
  have "vprintf_u 1 False (CHR ''%'' # CHR ''d'' # f) (UInt (wc_l (counted t)) # a) r =
      vprintf_u 1 False f a (put 1 (dec_u (wc_l (counted t))) r)"
    "vprintf_u 1 False (CHR ''%'' # CHR ''d'' # f) (UInt (wc_w (counted t)) # a) r =
      vprintf_u 1 False f a (put 1 (dec_u (wc_w (counted t))) r)"
    "vprintf_u 1 False (CHR ''%'' # CHR ''d'' # f) (UInt (wc_c (counted t)) # a) r =
      vprintf_u 1 False f a (put 1 (dec_u (wc_c (counted t))) r)" for f a r
    using b by (intro vprintf_u_d; simp)+
  moreover have "vprintf_u 1 False (CHR '' '' # f) a r = vprintf_u 1 False f a (put 1 '' '' r)" for f a r
    using vprintf_u_text [of "'' ''" 1 f] by simp
  ultimately have "printf_u ''%d %d %d %s\<newline>'' [UInt (wc_l (counted t)), UInt (wc_w (counted t)), UInt (wc_c (counted t)), UStr (Some name)] s' =
    Ok () (put 1 (dec_u (wc_l (counted t)) @ '' '' @ dec_u (wc_w (counted t)) @ '' '' @ dec_u (wc_c (counted t)) @ '' '' @ name @ [CHR 0x0a]) s')"
    unfolding printf_u_def by (simp add: vprintf_u_s vprintf_u_plain del: vprintf_u.simps)
  with s' c show ?thesis by (simp add: wc_def kmonad counted_def del: wc_loop.simps)
qed

theorem wc_correct_witness:
  "\<exists>s'. wc 0 ''x'' \<lparr>u_in = (\<lambda>_. [])(0 := [Some ''on'', Some ''e two'', Some [CHR 0x0a]]),
      u_wr = [], u_ans = [], u_calls = [], u_exit = None\<rparr> = Ok () s' \<and> outputs 1 s' = ''1 2 8 x\<newline>''"
proof -
  have "word_starts ''one two\<newline>'' = {0, 4}"
  proof -
    have "i \<in> word_starts ''one two\<newline>'' \<longleftrightarrow> i \<in> {0, 4}" for i
    proof (cases "i < 8")
      case True
      then have "i \<in> set [0..<8]" by simp
      then show ?thesis by (simp add: upt_rec) (auto simp: word_starts_def blank_def)
    qed (auto simp: word_starts_def)
    then show ?thesis by blast
  qed
  moreover have "dec_u 1 = ''1''" "dec_u 2 = ''2''" "dec_u 8 = ''8''" by code_simp+
  ultimately show ?thesis
    using wc_correct [of "\<lparr>u_in = (\<lambda>_. [])(0 := [Some ''on'', Some ''e two'', Some [CHR 0x0a]]),
      u_wr = [], u_ans = [], u_calls = [], u_exit = None\<rparr>" 0 "''one two\<newline>''" "''x''"] by (force simp: holds_def)
qed

subsection \<open>Every program ends\<close>

lemma ends_grep_lines: "ends (grep_lines pat b) s"
proof (induction b arbitrary: s rule: length_induct)
  case (1 b)
  show ?case
  proof (cases "strchr (cstring b) CHR 0x0a")
    case None
    then show ?thesis by (subst grep_lines.simps) (simp add: uend)
  next
    case (Some q)
    then have "b \<noteq> []" using strchr_Some [OF Some] by (auto simp: cstring_def)
    then have "\<And>n s. ends (grep_lines pat (drop (Suc n) b)) s" using 1 by simp
    with Some show ?thesis by (subst grep_lines.simps) (auto simp: Let_def intro!: uend)
  qed
qed

lemma keeps_grep_lines: "kkeeps (\<lambda>s. u_in s = I) (grep_lines pat b)"
proof (induction b rule: length_induct)
  case (1 b)
  show ?case
  proof (cases "strchr (cstring b) CHR 0x0a")
    case None
    then show ?thesis by (subst grep_lines.simps) (simp add: kkeeps_kret)
  next
    case (Some q)
    then have "b \<noteq> []" using strchr_Some [OF Some] by (auto simp: cstring_def)
    then have "\<And>n. kkeeps (\<lambda>s. u_in s = I) (grep_lines pat (drop (Suc n) b))" using 1 by simp
    with Some show ?thesis by (subst grep_lines.simps) (auto simp: Let_def intro!: kinv_intro)
  qed
qed

lemma ends_grep_loop: "left_of s fd < k \<Longrightarrow> ends (grep_loop k pat fd b) s"
proof (induction k arbitrary: b s)
  case (Suc k)
  show ?case unfolding grep_loop.simps
  proof (rule ends_kbind [OF ends_basic(5)])
    fix r s1
    assume rd: "uread fd (1024 - length b - 1) s = Ok r s1"
    have "ends (kbind (grep_lines pat (b @ x)) (grep_loop k pat fd)) s1" if x: "r = Some x" "x \<noteq> []" for x
    proof (rule ends_kbind [OF ends_grep_lines])
      fix rest s2
      assume "grep_lines pat (b @ x) s1 = Ok rest s2"
      then have "left_of s2 fd = left_of s1 fd" using kkeepsD [OF keeps_grep_lines, of pat _ s1 rest s2] by (auto intro: left_of_cong)
      moreover have "left_of s1 fd < left_of s fd" using rd x uread_left by blast
      ultimately show "ends (grep_loop k pat fd rest) s2" using Suc by simp
    qed
    then show "ends (case r of None \<Rightarrow> kret () | Some x \<Rightarrow> if x = [] then kret ()
        else kbind (grep_lines pat (b @ x)) (\<lambda>rest. grep_loop k pat fd rest)) s1"
      by (cases r) (auto intro: uend)
  qed
qed simp

lemma ends_cat_loop: "left_of s fd < k \<Longrightarrow> ends (cat_loop k fd) s"
proof (induction k arbitrary: s)
  case (Suc k)
  show ?case unfolding cat_loop.simps
  proof (rule ends_kbind [OF ends_basic(5)])
    fix r s1
    assume rd: "uread fd 512 s = Ok r s1"
    have "ends (kbind (uwrite 1 x) (\<lambda>w. if w \<noteq> int (length x) then kthen (fprintf 2 ''cat: write error\<newline>'' []) (uexit 1)
        else cat_loop k fd)) s1" if x: "r = Some x" "x \<noteq> []" for x
    proof (rule ends_kbind [OF ends_basic(4)])
      fix w s2
      assume "uwrite 1 x s1 = Ok w s2"
      then have "left_of s2 fd = left_of s1 fd" using kkeepsD [OF keeps_u_in(2), of 1 x s1 w s2] by (auto intro: left_of_cong)
      moreover have "left_of s1 fd < left_of s fd" using rd x uread_left by blast
      ultimately have "ends (cat_loop k fd) s2" using Suc by simp
      then show "ends (if w \<noteq> int (length x) then kthen (fprintf 2 ''cat: write error\<newline>'' []) (uexit 1) else cat_loop k fd) s2"
        by (auto intro!: uend)
    qed
    then show "ends (case r of None \<Rightarrow> kthen (fprintf 2 ''cat: read error\<newline>'' []) (uexit 1)
        | Some buf \<Rightarrow> if buf = [] then kret () else kbind (uwrite 1 buf) (\<lambda>w.
          if w \<noteq> int (length buf) then kthen (fprintf 2 ''cat: write error\<newline>'' []) (uexit 1) else cat_loop k fd)) s1"
      by (cases r) (auto intro!: uend)
  qed
qed simp

lemma ends_wc_loop: "left_of s fd < k \<Longrightarrow> ends (wc_loop k fd n) s"
proof (induction k arbitrary: n s)
  case (Suc k)
  show ?case unfolding wc_loop.simps
  proof (rule ends_kbind [OF ends_basic(5)])
    fix r s1
    assume rd: "uread fd 512 s = Ok r s1"
    then have "ends (wc_loop k fd (fold wc_char x n)) s1" if "r = Some x" "x \<noteq> []" for x
      using that uread_left [of fd 512 s x s1] Suc by simp
    then show "ends (case r of None \<Rightarrow> kthen (printf_u ''wc: read error\<newline>'' []) (uexit 1)
        | Some buf \<Rightarrow> if buf = [] then kret n else wc_loop k fd (fold wc_char buf n)) s1"
      by (cases r) (auto intro!: uend)
  qed
qed simp

lemma ends_stat [uend]: "ends (stat_u f) s" and keeps_stat [kinv_intro]: "kkeeps (\<lambda>s. u_in s = I) (stat_u f)"
  unfolding stat_u_def ufstat_def by (intro uend) (intro kinv_intro)

lemma ends_ls_line [uend]: "ends (ls_line p st) s" and keeps_ls_line [kinv_intro]: "kkeeps (\<lambda>s. u_in s = I) (ls_line p st)"
  unfolding ls_line_def by (intro uend, simp) (intro kinv_intro)

lemma ends_ls_entries: "left_of s fd < k \<Longrightarrow> ends (ls_entries k fd d) s"
proof (induction k arbitrary: s)
  case (Suc k)
  show ?case unfolding ls_entries.simps
  proof (rule ends_kbind [OF ends_basic(5)])
    fix r s1
    assume rd: "uread fd 16 s = Ok r s1"
    have step: "ends (ls_entries k fd d) s2" if "r = Some x" "length x = 16" "u_in s2 = u_in s1" for x s2
    proof -
      have "x \<noteq> []" using that(2) by auto
      then show ?thesis using that rd uread_left [of fd 16 s x s1] left_of_cong [of s2 s1 fd] Suc by simp
    qed
    have "ends (kbind (stat_u p) (\<lambda>st. case st of
            None \<Rightarrow> kthen (printf_u ''ls: cannot stat %s\<newline>'' [UStr (Some p)]) (ls_entries k fd d)
          | Some st \<Rightarrow> kthen (ls_line p st) (ls_entries k fd d))) s1" if x: "r = Some x" "length x = 16" for x p
    proof (rule ends_kbind [OF ends_stat])
      fix st s2
      assume "stat_u p s1 = Ok st s2"
      then have i: "u_in s2 = u_in s1" using kkeepsD [OF keeps_stat] by blast
      have "ends (kthen m (ls_entries k fd d)) s2" if m: "ends m s2" "kkeeps (\<lambda>s. u_in s = u_in s1) m" for m :: "unit u"
        using m(1) by (rule ends_kthen) (use step [OF x] kkeepsD [OF m(2)] i in blast)
      then show "ends (case st of None \<Rightarrow> kthen (printf_u ''ls: cannot stat %s\<newline>'' [UStr (Some p)]) (ls_entries k fd d)
          | Some st \<Rightarrow> kthen (ls_line p st) (ls_entries k fd d)) s2"
        by (cases st) (simp_all add: ends_printf keeps_printf ends_ls_line keeps_ls_line)
    qed
    with step show "ends (case r of None \<Rightarrow> kret () | Some de \<Rightarrow> if length de \<noteq> 16 then kret ()
        else if char_val (de ! 0) + 256 * char_val (de ! 1) = 0 then ls_entries k fd d
        else (let p = d @ cstring (drop 2 de) in kbind (stat_u p) (\<lambda>st. case st of
            None \<Rightarrow> kthen (printf_u ''ls: cannot stat %s\<newline>'' [UStr (Some p)]) (ls_entries k fd d)
          | Some st \<Rightarrow> kthen (ls_line p st) (ls_entries k fd d)))) s1"
      by (cases r) (auto simp: Let_def intro: uend)
  qed
qed simp

lemma ends_fuel:
  "ends (grep pat fd) s" "ends (cat fd) s" "ends (wc fd f) s"
proof -
  show "ends (grep pat fd) s" using ends_grep_loop [of s fd "Suc (left_of s fd)"] by (simp add: grep_def ends_def del: grep_loop.simps)
  show "ends (cat fd) s" using ends_cat_loop [of s fd "Suc (left_of s fd)"] by (simp add: cat_def ends_def del: cat_loop.simps)
  let ?m = "kbind (wc_loop (Suc (left_of s fd)) fd \<lparr>wc_l = 0, wc_w = 0, wc_c = 0, wc_in = False\<rparr>) (\<lambda>n.
     printf_u ''%d %d %d %s\<newline>'' [UInt (wc_l n), UInt (wc_w n), UInt (wc_c n), UStr (Some f)])"
  have "ends ?m s" by (rule ends_kbind_all [OF ends_wc_loop]) (simp_all add: ends_printf)
  then show "ends (wc fd f) s" by (simp add: wc_def ends_def del: wc_loop.simps)
qed

declare ends_fuel [uend]

lemma ends_ls [uend]: "ends (ls path) s"
proof -
  have "ends (\<lambda>s. ls_entries (Suc (left_of s fd)) fd d s) s" for fd d s
    using ends_ls_entries [of s fd "Suc (left_of s fd)" d] by (simp add: ends_def del: ls_entries.simps)
  then show ?thesis unfolding ls_def by (intro uend; simp)
qed

lemma ends_echo_args: "ends (echo_args as) s"
  by (induction as arbitrary: s) (auto intro!: uend)

lemma init_wait_total:
  "length (u_ans s) < k \<Longrightarrow> (\<exists>s'. init_wait k pid s = Ok () s' \<and> length (u_ans s') \<le> length (u_ans s)) \<or> (\<exists>s'. init_wait k pid s = Blocked s')"
proof (induction k arbitrary: s)
  case (Suc k)
  show ?case
  proof (cases "u_ans s")
    case (Cons a r)
    then have "(\<exists>s'. init_wait k pid (s\<lparr>u_calls := UWait # u_calls s, u_ans := r\<rparr>) = Ok () s' \<and> length (u_ans s') \<le> length r) \<or>
        (\<exists>s'. init_wait k pid (s\<lparr>u_calls := UWait # u_calls s, u_ans := r\<rparr>) = Blocked s')"
      using Suc.IH [of "s\<lparr>u_calls := UWait # u_calls s, u_ans := r\<rparr>"] Suc.prems by simp
    with Cons show ?thesis
      by (cases "a = pid"; cases "a < 0") (auto simp: kmonad usys printf_u_def simp del: vprintf_u.simps)
  qed (simp add: kmonad usys)
qed simp

lemma init_loop_total: "length (u_ans s) < k \<Longrightarrow> \<exists>s'. init_loop k s = Blocked s'"
proof (induction k arbitrary: s)
  case (Suc k)
  show ?case
  proof (cases "u_ans s")
    case (Cons pid r)
    let ?s = "(put 1 ''init: starting sh\<newline>'' s)\<lparr>u_calls := UFork # u_calls (put 1 ''init: starting sh\<newline>'' s), u_ans := r\<rparr>"
    show ?thesis
    proof (cases "0 < pid")
      case True
      have "(\<exists>s'. init_wait (Suc (length r)) pid ?s = Ok () s' \<and> length (u_ans s') \<le> length r) \<or>
          (\<exists>s'. init_wait (Suc (length r)) pid ?s = Blocked s')"
        using init_wait_total [of ?s "Suc (length r)" pid] by simp
      then show ?thesis using Cons True Suc.prems Suc.IH
        by (fastforce simp: kmonad usys printf_u_def simp del: init_wait.simps vprintf_u.simps)
    next
      case False
      with Cons show ?thesis by (auto simp: kmonad usys printf_u_def simp del: vprintf_u.simps split: list.splits)
    qed
  qed (auto simp: kmonad usys printf_u_def simp del: vprintf_u.simps)
qed simp

lemma stops_init: "stops init_main"
proof -
  have "stops (\<lambda>s. init_loop (Suc (length (u_ans s))) s)" using init_loop_total by (simp add: stops_def del: init_loop.simps)
  then show ?thesis unfolding init_main_def by (intro uend stops_kthen1 [of "\<lambda>s. init_loop (Suc (length (u_ans s))) s"])
qed

text \<open>
  C20. The user programs end. Whatever their arguments, their input and the answers of the kernel, each of \<open>cat\<close>, \<open>grep\<close>,
  \<open>wc\<close>, \<open>ls\<close>, \<open>echo\<close>, \<open>ln\<close>, \<open>mkdir\<close>, \<open>rm\<close>, \<open>zombie\<close> and \<open>init\<close>, run by \<^verbatim>\<open>start\<close>, comes to a call of \<^verbatim>\<open>exit\<close> or to a call that the
  kernel has not answered: no loop runs on without one, no format lacks an argument, and \<^verbatim>\<open>start\<close> does
  not return.
\<close>

theorem programs_end:
  "stops (start_u cat_main argv) \<and> stops (start_u grep_main argv) \<and> stops (start_u wc_main argv) \<and>
   stops (start_u ls_main argv) \<and> stops (start_u echo_main argv) \<and> stops (start_u ln_main argv) \<and>
   stops (start_u mkdir_main argv) \<and> stops (start_u rm_main argv) \<and> stops (start_u (\<lambda>_. zombie_main) argv) \<and>
   stops (start_u (\<lambda>_. init_main) argv)"
proof -
  have "stops (cat_main argv)" "stops (wc_main argv)" "stops (ls_main argv)"
    unfolding cat_main_def cat_file_def wc_main_def wc_file_def ls_main_def by (intro uend; simp)+
  moreover have "stops (grep_main argv)"
    unfolding grep_main_def grep_file_def by (auto split: list.split intro!: uend)
  moreover have "stops (echo_main argv)" unfolding echo_main_def by (intro uend ends_echo_args)
  moreover have "stops (ln_main argv)" unfolding ln_main_def by (auto split: list.split intro!: uend)
  moreover have "stops (mkdir_main argv)" "stops (rm_main argv)" "stops zombie_main"
    unfolding mkdir_main_def rm_main_def zombie_main_def by (intro uend; simp)+
  ultimately show ?thesis using stops_init unfolding start_u_def by (blast intro: stops_kbind1)
qed

end
