(* ===== verification/Shell.thy ===== *)
theory Shell
  imports Uprintf
begin

text \<open>
  \<^verbatim>\<open>user/sh.c\<close>. A command line is a string; a pointer into it is an offset, and reading at the offset of its end
  gives the NUL. The parser builds a \<open>cmd\<close> whose words are pairs of offsets, as the pointers
  \<^verbatim>\<open>q\<close> and \<^verbatim>\<open>eq\<close> of the source; \<open>nulterminate\<close> then writes NULs into the line, and \<open>runcmd\<close> makes the
  system calls. The memory of the nodes comes from \<^verbatim>\<open>malloc\<close>, whose result the source does not test;
  here a node is always there.
\<close>

subsection \<open>Commands\<close>

datatype cmd =
    ExecC "(nat \<times> nat) list"
  | RedirC cmd nat nat int int
  | PipeC cmd cmd
  | ListC cmd cmd
  | BackC cmd

abbreviation (input) MAXARGS :: nat where "MAXARGS \<equiv> 10"

text \<open>\<^verbatim>\<open>cmd->argv[argc] = q; cmd->eargv[argc] = eq\<close> on the \<^verbatim>\<open>struct execcmd\<close> inside the redirections.\<close>

primrec add_arg :: "nat \<times> nat \<Rightarrow> cmd \<Rightarrow> cmd" where
  "add_arg a (ExecC as) = ExecC (as @ [a])"
| "add_arg a (RedirC c f e m d) = RedirC (add_arg a c) f e m d"
| "add_arg a (PipeC c d) = PipeC c d"
| "add_arg a (ListC c d) = ListC c d"
| "add_arg a (BackC c) = BackC c"

definition upanic :: "string \<Rightarrow> 'a u" where
  "upanic m = kthen (fprintf 2 ''%s\<newline>'' [UStr (Some m)]) (uexit 1)"

definition fork1 :: "int u" where
  "fork1 = kbind (ask UFork) (\<lambda>pid. if pid = - 1 then upanic ''fork'' else kret pid)"

subsection \<open>Tokens\<close>

definition whitespace :: string where
  "whitespace = [CHR '' '', CHR 0x09, CHR 0x0d, CHR 0x0a, CHR 0x0b]"

definition symbol_chars :: string where
  "symbol_chars = ''<|>&;()''"

definition at :: "string \<Rightarrow> nat \<Rightarrow> char" where
  "at s i = (if i < length s then s ! i else CHR 0x00)"

text \<open>\<^verbatim>\<open>while(s < es && strchr(whitespace, *s)) s++;\<close> and the loop over the characters of a word.\<close>

function skip :: "string \<Rightarrow> nat \<Rightarrow> nat" where
  "skip s i = (if i < length s \<and> strchr whitespace (at s i) \<noteq> None then skip s (Suc i) else i)"
  by pat_completeness auto

termination
  by (relation "measure (\<lambda>(s, i). length s - i)") auto

function word_end :: "string \<Rightarrow> nat \<Rightarrow> nat" where
  "word_end s i =
    (if i < length s \<and> strchr whitespace (at s i) = None \<and> strchr symbol_chars (at s i) = None
     then word_end s (Suc i) else i)"
  by pat_completeness auto

termination
  by (relation "measure (\<lambda>(s, i). length s - i)") auto

record token =
  t_ret :: char
  t_q :: nat
  t_eq :: nat
  t_ps :: nat

definition gettoken :: "string \<Rightarrow> nat \<Rightarrow> token" where
  "gettoken s ps =
    (let q = skip s ps; c = at s q;
         (ret, e) =
           (if c = CHR 0x00 then (c, q)
            else if c \<in> set ''|();&<'' then (c, Suc q)
            else if c = CHR ''>''
            then (if at s (Suc q) = CHR ''>'' then (CHR ''+'', Suc (Suc q)) else (c, Suc q))
            else (CHR ''a'', word_end s q)) in
     \<lparr>t_ret = ret, t_q = q, t_eq = e, t_ps = skip s e\<rparr>)"

definition peek :: "string \<Rightarrow> nat \<Rightarrow> string \<Rightarrow> bool \<times> nat" where
  "peek s ps toks =
    (let i = skip s ps in (at s i \<noteq> CHR 0x00 \<and> strchr toks (at s i) \<noteq> None, i))"

subsection \<open>The parser\<close>

definition redir :: "cmd \<Rightarrow> char \<Rightarrow> nat \<Rightarrow> nat \<Rightarrow> cmd" where
  "redir c tok q e =
    (if tok = CHR ''<'' then RedirC c q e 0 0
     else if tok = CHR ''>'' then RedirC c q e 0x601 1
     else if tok = CHR ''+'' then RedirC c q e 0x201 1
     else c)"

fun parseredirs :: "nat \<Rightarrow> cmd \<Rightarrow> string \<Rightarrow> nat \<Rightarrow> (cmd \<times> nat) u" where
  "parseredirs 0 c s ps = (\<lambda>_. Diverge)"
| "parseredirs (Suc n) c s ps =
    (case peek s ps ''<>'' of (b, ps) \<Rightarrow>
     if b then
       let t = gettoken s ps; f = gettoken s (t_ps t) in
       if t_ret f \<noteq> CHR ''a'' then upanic ''missing file for redirection''
       else parseredirs n (redir c (t_ret t) (t_q f) (t_eq f)) s (t_ps f)
     else kret (c, ps))"

text \<open>The loop of \<open>parseexec\<close> over the words of a command; \<open>argc\<close> of them are there.\<close>

fun parseargs :: "nat \<Rightarrow> nat \<Rightarrow> cmd \<Rightarrow> string \<Rightarrow> nat \<Rightarrow> (cmd \<times> nat) u" where
  "parseargs 0 argc c s ps = (\<lambda>_. Diverge)"
| "parseargs (Suc n) argc c s ps =
    (case peek s ps ''|)&;'' of (b, ps) \<Rightarrow>
     if b then kret (c, ps)
     else let t = gettoken s ps in
       if t_ret t = CHR 0x00 then kret (c, t_ps t)
       else if t_ret t \<noteq> CHR ''a'' then upanic ''syntax''
       else let c = add_arg (t_q t, t_eq t) c; argc = Suc argc in
         if MAXARGS \<le> argc then upanic ''too many args''
         else kbind (parseredirs n c s (t_ps t)) (\<lambda>(c, ps). parseargs n argc c s ps))"

text \<open>\<^verbatim>\<open>while(peek(ps, es, "&")) ... backcmd\<close>\<close>

fun parsebacks :: "nat \<Rightarrow> cmd \<Rightarrow> string \<Rightarrow> nat \<Rightarrow> (cmd \<times> nat) u" where
  "parsebacks 0 c s ps = (\<lambda>_. Diverge)"
| "parsebacks (Suc n) c s ps =
    (case peek s ps ''&'' of (b, ps) \<Rightarrow>
     if b then parsebacks n (BackC c) s (t_ps (gettoken s ps)) else kret (c, ps))"

fun parseline :: "nat \<Rightarrow> string \<Rightarrow> nat \<Rightarrow> (cmd \<times> nat) u"
  and parsepipe :: "nat \<Rightarrow> string \<Rightarrow> nat \<Rightarrow> (cmd \<times> nat) u"
  and parseexec :: "nat \<Rightarrow> string \<Rightarrow> nat \<Rightarrow> (cmd \<times> nat) u"
  and parseblock :: "nat \<Rightarrow> string \<Rightarrow> nat \<Rightarrow> (cmd \<times> nat) u" where
  "parseline 0 s ps = (\<lambda>_. Diverge)"
| "parseline (Suc n) s ps =
     kbind (parsepipe n s ps) (\<lambda>(c, ps).
     kbind (parsebacks n c s ps) (\<lambda>(c, ps).
     case peek s ps '';'' of (b, ps) \<Rightarrow>
     if b then kbind (parseline n s (t_ps (gettoken s ps))) (\<lambda>(d, ps). kret (ListC c d, ps))
     else kret (c, ps)))"
| "parsepipe 0 s ps = (\<lambda>_. Diverge)"
| "parsepipe (Suc n) s ps =
     kbind (parseexec n s ps) (\<lambda>(c, ps).
     case peek s ps ''|'' of (b, ps) \<Rightarrow>
     if b then kbind (parsepipe n s (t_ps (gettoken s ps))) (\<lambda>(d, ps). kret (PipeC c d, ps))
     else kret (c, ps))"
| "parseexec 0 s ps = (\<lambda>_. Diverge)"
| "parseexec (Suc n) s ps =
    (case peek s ps ''('' of (b, ps) \<Rightarrow>
     if b then parseblock n s ps
     else kbind (parseredirs n (ExecC []) s ps) (\<lambda>(c, ps). parseargs n 0 c s ps))"
| "parseblock 0 s ps = (\<lambda>_. Diverge)"
| "parseblock (Suc n) s ps =
    (case peek s ps ''('' of (b, ps) \<Rightarrow>
     if b then kbind (parseline n s (t_ps (gettoken s ps))) (\<lambda>(c, ps).
       case peek s ps '')'' of (b, ps) \<Rightarrow>
       if b then parseredirs n c s (t_ps (gettoken s ps))
       else upanic ''syntax - missing )'')
     else upanic ''parseblock'')"

text \<open>The writes of \<open>nulterminate\<close>; at the end of the line there is a NUL already.\<close>

primrec nulterminate :: "cmd \<Rightarrow> string \<Rightarrow> string" where
  "nulterminate (ExecC as) s = fold (\<lambda>a s. s[snd a := CHR 0x00]) as s"
| "nulterminate (RedirC c f e m d) s = (nulterminate c s)[e := CHR 0x00]"
| "nulterminate (PipeC c d) s = nulterminate d (nulterminate c s)"
| "nulterminate (ListC c d) s = nulterminate d (nulterminate c s)"
| "nulterminate (BackC c) s = nulterminate c s"

text \<open>Every call of a parsing function takes one unit of fuel; four per character, and four more, are enough.\<close>

definition parsecmd :: "string \<Rightarrow> (cmd \<times> string) u" where
  "parsecmd s =
     kbind (parseline (4 * length s + 4) s 0) (\<lambda>(c, ps).
     case peek s ps [] of (_, ps) \<Rightarrow>
     if ps \<noteq> length s
     then kthen (fprintf 2 ''leftovers: %s\<newline>'' [UStr (Some (drop ps s))]) (upanic ''syntax'')
     else kret (c, nulterminate c s))"

subsection \<open>Running a command\<close>

text \<open>The string at an offset of the line.\<close>

definition text_at :: "string \<Rightarrow> nat \<Rightarrow> string" where
  "text_at s q = cstring (drop q s)"

primrec runcmd :: "string \<Rightarrow> cmd \<Rightarrow> unit u" where
  "runcmd s (ExecC as) =
    (if as = [] then uexit 1
     else let argv = map (\<lambda>a. text_at s (fst a)) as in
       kthen (ask (UExec (hd argv) argv))
      (kthen (fprintf 2 ''exec %s failed\<newline>'' [UStr (Some (hd argv))]) (uexit 0)))"
| "runcmd s (RedirC c f e m d) =
     kthen (ask (UClose d))
    (kbind (ask (UOpen (text_at s f) m)) (\<lambda>r.
     if r < 0 then kthen (fprintf 2 ''open %s failed\<newline>'' [UStr (Some (text_at s f))]) (uexit 1)
     else runcmd s c))"
| "runcmd s (ListC c d) =
     kbind fork1 (\<lambda>pid.
     if pid = 0 then runcmd s c
     else kthen (ask UWait) (runcmd s d))"
| "runcmd s (PipeC c d) =
     kbind upipe (\<lambda>p. case p of None \<Rightarrow> upanic ''pipe''
     | Some (p0, p1) \<Rightarrow>
         kbind fork1 (\<lambda>pid.
         if pid = 0
         then kthen (ask (UClose 1)) (kthen (ask (UDup p1)) (kthen (ask (UClose p0)) (kthen (ask (UClose p1)) (runcmd s c))))
         else kbind fork1 (\<lambda>pid.
         if pid = 0
         then kthen (ask (UClose 0)) (kthen (ask (UDup p0)) (kthen (ask (UClose p0)) (kthen (ask (UClose p1)) (runcmd s d))))
         else kthen (ask (UClose p0)) (kthen (ask (UClose p1)) (kthen (ask UWait) (kthen (ask UWait) (uexit 0)))))))"
| "runcmd s (BackC c) =
     kbind fork1 (\<lambda>pid. if pid = 0 then runcmd s c else uexit 0)"

subsection \<open>The main loop\<close>

definition getcmd :: "string option u" where
  "getcmd = kthen (uwrite 2 ''$ '') (kbind (gets 100) (\<lambda>b. let b = cstring b in kret (if b = [] then None else Some b)))"

definition skip_blanks :: "string \<Rightarrow> string" where
  "skip_blanks c = dropWhile (\<lambda>x. x = CHR '' '' \<or> x = CHR 0x09) c"

fun sh_open :: "nat \<Rightarrow> unit u" where
  "sh_open 0 = (\<lambda>_. Diverge)"
| "sh_open (Suc n) = kbind (ask (UOpen ''console'' 2)) (\<lambda>fd.
     if fd \<ge> 0 then if fd \<ge> 3 then kthen (ask (UClose fd)) (kret ()) else sh_open n
     else kret ())"

definition sh_command :: "string \<Rightarrow> unit u" where
  "sh_command c =
    (if char_at c = CHR 0x0a then kret ()
     else if take 3 c = ''cd ''
     then let dir = drop 3 (butlast c) in
       kbind (ask (UChdir dir)) (\<lambda>r. kwhen (r < 0) (fprintf 2 ''cannot cd %s\<newline>'' [UStr (Some dir)]))
     else kbind fork1 (\<lambda>pid.
       if pid = 0 then kbind (parsecmd c) (\<lambda>(t, s). runcmd s t)
       else kthen (ask UWait) (kret ())))"

fun sh_loop :: "nat \<Rightarrow> unit u" where
  "sh_loop 0 = (\<lambda>_. Diverge)"
| "sh_loop (Suc n) = kbind getcmd (\<lambda>b. case b of
     None \<Rightarrow> uexit 0
   | Some b \<Rightarrow> kthen (sh_command (skip_blanks b)) (sh_loop n))"

definition sh_main :: "int u" where
  "sh_main =
     kthen (\<lambda>s. sh_open (Suc (length (u_ans s))) s)
    (kthen (\<lambda>s. sh_loop (Suc (left_of s 0)) s) (kret 0))"

subsection \<open>What the lexer returns\<close>

definition plain :: "char \<Rightarrow> bool" where
  "plain c \<longleftrightarrow> c \<notin> set whitespace \<and> c \<notin> set symbol_chars \<and> c \<noteq> CHR 0x00"

text \<open>A word of the line: no blank, symbol or NUL in it, and one of them after it.\<close>

definition word_at :: "string \<Rightarrow> nat \<times> nat \<Rightarrow> bool" where
  "word_at s w \<longleftrightarrow> (case w of (q, e) \<Rightarrow> q < e \<and> e \<le> length s \<and> (\<forall>j. q \<le> j \<and> j < e \<longrightarrow> plain (s ! j)) \<and> \<not> plain (at s e))"

lemma strchr_iff: "strchr t c = None \<longleftrightarrow> c \<notin> set t"
  by (induction t) auto

lemma not_plain_NUL [simp]: "\<not> plain CHR 0x00"
  by (simp add: plain_def)

lemma at_len [simp]: "at s (length s) = CHR 0x00" "length s \<le> i \<Longrightarrow> at s i = CHR 0x00"
  by (simp_all add: at_def)

lemma at_less: "at s i \<noteq> CHR 0x00 \<Longrightarrow> i < length s"
  by (auto simp: at_def split: if_splits)

declare skip.simps [simp del] word_end.simps [simp del]

lemma skip_ge: "i \<le> skip s i" and skip_le: "i \<le> length s \<Longrightarrow> skip s i \<le> length s"
  and skip_end: "at s (skip s i) \<notin> set whitespace"
proof (induction s i rule: skip.induct)
  case (1 s i)
  have w: "CHR 0x00 \<notin> set whitespace" by (simp add: whitespace_def)
  { case 1 then show ?case using "1.IH" by (subst skip.simps) (auto simp: strchr_iff)
  next
    case 2 then show ?case using "1.IH" by (subst skip.simps) (auto simp: strchr_iff)
  next
    case 3 then show ?case using "1.IH" w by (subst skip.simps) (auto simp: strchr_iff at_def) }
qed

lemma skip_stay: "at s i \<notin> set whitespace \<Longrightarrow> skip s i = i"
  by (subst skip.simps) (simp add: strchr_iff)

lemma skip_skip [simp]: "skip s (skip s i) = skip s i"
  by (rule skip_stay) (rule skip_end)

lemma word_end_word:
  assumes "CHR 0x00 \<notin> set s" "i \<le> length s"
  shows "i \<le> word_end s i \<and> word_end s i \<le> length s \<and> (\<forall>j. i \<le> j \<and> j < word_end s i \<longrightarrow> plain (s ! j)) \<and> \<not> plain (at s (word_end s i))"
  using assms
proof (induction s i rule: word_end.induct)
  case (1 s i)
  show ?case
  proof (cases "i < length s \<and> strchr whitespace (at s i) = None \<and> strchr symbol_chars (at s i) = None")
    case True
    then have IH: "Suc i \<le> word_end s (Suc i)" "word_end s (Suc i) \<le> length s" "\<not> plain (at s (word_end s (Suc i)))"
      "\<forall>j. Suc i \<le> j \<and> j < word_end s (Suc i) \<longrightarrow> plain (s ! j)" using 1 by auto
    have "s ! i \<noteq> CHR 0x00" using True 1(2) by (metis nth_mem)
    then have "plain (s ! i)" using True by (auto simp: plain_def strchr_iff at_def)
    then have "plain (s ! j)" if "i \<le> j" "j < word_end s (Suc i)" for j
      using that IH(4) by (cases "i = j") auto
    moreover have "word_end s i = word_end s (Suc i)" using True by (subst word_end.simps) simp
    ultimately show ?thesis using IH by simp
  next
    case False
    then have "word_end s i = i" by (subst word_end.simps) auto
    with False 1(3) show ?thesis by (auto simp: plain_def strchr_iff)
  qed
qed

lemma symbol_chars_cases: "c \<in> set symbol_chars \<longleftrightarrow> c = CHR ''>'' \<or> c \<in> set ''|();&<''"
  by (auto simp: symbol_chars_def)

lemma gettoken_progress:
  assumes "CHR 0x00 \<notin> set s" "ps \<le> length s"
  shows "ps \<le> t_ps (gettoken s ps)" "t_ps (gettoken s ps) \<le> length s"
    "t_ret (gettoken s ps) \<noteq> CHR 0x00 \<Longrightarrow> ps < t_ps (gettoken s ps)"
    "t_ret (gettoken s ps) = CHR ''a'' \<Longrightarrow> word_at s (t_q (gettoken s ps), t_eq (gettoken s ps))"
proof -
  let ?q = "skip s ps" and ?t = "gettoken s ps"
  have q: "ps \<le> ?q" "?q \<le> length s" "at s ?q \<notin> set whitespace" using assms(2) by (simp_all add: skip_ge skip_le skip_end)
  have e: "?q \<le> t_eq ?t \<and> t_eq ?t \<le> length s \<and> t_ps ?t = skip s (t_eq ?t) \<and> t_q ?t = ?q \<and>
    (t_ret ?t \<noteq> CHR 0x00 \<longrightarrow> ?q < t_eq ?t) \<and> (t_ret ?t = CHR ''a'' \<longrightarrow> word_at s (?q, t_eq ?t))"
  proof (cases "at s ?q = CHR 0x00 \<or> at s ?q \<in> set symbol_chars")
    case True
    have "Suc ?q \<le> length s" if "at s ?q \<noteq> CHR 0x00" using at_less [OF that] by simp
    moreover have "Suc (Suc ?q) \<le> length s" if "at s (Suc ?q) = CHR ''>''" using at_less [of s "Suc ?q"] that by simp
    ultimately show ?thesis using True q(2) by (auto simp: gettoken_def Let_def symbol_chars_cases split: if_splits)
  next
    case False
    have w: "?q \<le> word_end s ?q \<and> word_end s ?q \<le> length s \<and> (\<forall>j. ?q \<le> j \<and> j < word_end s ?q \<longrightarrow> plain (s ! j)) \<and> \<not> plain (at s (word_end s ?q))"
      using assms(1) q(2) by (rule word_end_word)
    have "plain (at s ?q)" using False q(3) by (simp add: plain_def)
    then have lt: "?q < word_end s ?q" using w by (cases "?q = word_end s ?q") auto
    have "at s ?q \<notin> set ''|();&<''" "at s ?q \<noteq> CHR ''>''" "at s ?q \<noteq> CHR 0x00" using False by (auto simp: symbol_chars_cases)
    then have "?t = \<lparr>t_ret = CHR ''a'', t_q = ?q, t_eq = word_end s ?q, t_ps = skip s (word_end s ?q)\<rparr>"
      by (simp add: gettoken_def Let_def)
    with w lt show ?thesis by (simp add: word_at_def)
  qed
  have s: "t_eq ?t \<le> skip s (t_eq ?t)" "skip s (t_eq ?t) \<le> length s" using e by (simp_all add: skip_ge skip_le)
  show "ps \<le> t_ps ?t" "t_ps ?t \<le> length s" using e s q by simp_all
  show "t_ret ?t \<noteq> CHR 0x00 \<Longrightarrow> ps < t_ps ?t" using e s q by simp
  show "t_ret ?t = CHR ''a'' \<Longrightarrow> word_at s (t_q ?t, t_eq ?t)" using e by simp
qed

lemma gettoken_symbol:
  assumes "CHR 0x00 \<notin> set s" "ps \<le> length s" "peek s ps toks = (True, i)"
  shows "ps \<le> i" "i \<le> length s" "i < t_ps (gettoken s i)" "t_ps (gettoken s i) \<le> length s"
proof -
  have i: "i = skip s ps" "at s i \<noteq> CHR 0x00" using assms(3) by (auto simp: peek_def Let_def)
  then show "ps \<le> i" "i \<le> length s" using assms(2) by (simp_all add: skip_ge skip_le)
  have "t_ret (gettoken s i) \<noteq> CHR 0x00" using i by (auto simp: gettoken_def Let_def)
  then show "i < t_ps (gettoken s i)" "t_ps (gettoken s i) \<le> length s"
    using gettoken_progress [OF assms(1), of i] \<open>i \<le> length s\<close> by auto
qed

lemma peek_pos: "peek s ps toks = (b, i) \<Longrightarrow> ps \<le> length s \<Longrightarrow> ps \<le> i \<and> i \<le> length s"
  by (auto simp: peek_def Let_def skip_ge skip_le)

subsection \<open>The parser ends, and builds commands of words\<close>

primrec words_of :: "cmd \<Rightarrow> (nat \<times> nat) set" where
  "words_of (ExecC as) = set as"
| "words_of (RedirC c f e m d) = insert (f, e) (words_of c)"
| "words_of (PipeC c d) = words_of c \<union> words_of d"
| "words_of (ListC c d) = words_of c \<union> words_of d"
| "words_of (BackC c) = words_of c"

primrec args_fit :: "cmd \<Rightarrow> bool" where
  "args_fit (ExecC as) = (length as < MAXARGS)"
| "args_fit (RedirC c f e m d) = args_fit c"
| "args_fit (PipeC c d) = (args_fit c \<and> args_fit d)"
| "args_fit (ListC c d) = (args_fit c \<and> args_fit d)"
| "args_fit (BackC c) = args_fit c"

definition wf_cmd :: "string \<Rightarrow> cmd \<Rightarrow> bool" where
  "wf_cmd s c \<longleftrightarrow> (\<forall>w \<in> words_of c. word_at s w) \<and> args_fit c"

text \<open>Redirections around a simple command of \<open>k\<close> words.\<close>

fun chain :: "nat \<Rightarrow> cmd \<Rightarrow> bool" where
  "chain k (ExecC as) = (length as = k)"
| "chain k (RedirC c f e m d) = chain k c"
| "chain k c = False"

text \<open>
  \<open>parses s ps P m\<close>: \<open>m\<close> ends from every state; if it returns, the offset has not moved back and is
  within the line, and the result has the property \<open>P\<close>.
\<close>

definition parses :: "string \<Rightarrow> nat \<Rightarrow> (cmd \<Rightarrow> bool) \<Rightarrow> (cmd \<times> nat) u \<Rightarrow> bool" where
  "parses s ps P m \<longleftrightarrow> (\<forall>u. (\<exists>c i u'. m u = Ok (c, i) u' \<and> ps \<le> i \<and> i \<le> length s \<and> P c) \<or> (\<exists>u'. m u = Blocked u'))"

lemma ends_upanic [uend]: "ends (upanic m) s" and stops_upanic [uend]: "stops (upanic m)"
  unfolding upanic_def by (intro uend; simp)+

lemma parses_upanic: "parses s ps P (upanic m)"
  unfolding parses_def using stops_upanic [of m, unfolded stops_def] by blast

lemma parses_kret: "ps \<le> i \<Longrightarrow> i \<le> length s \<Longrightarrow> P c \<Longrightarrow> parses s ps P (kret (c, i))"
  by (simp add: parses_def kret_def)

lemma parses_kbind:
  assumes "parses s ps Q m" "\<And>c i. ps \<le> i \<Longrightarrow> i \<le> length s \<Longrightarrow> Q c \<Longrightarrow> parses s ps P (f (c, i))"
  shows "parses s ps P (kbind m f)"
  unfolding parses_def
proof
  fix u
  consider c i u' where "m u = Ok (c, i) u'" "ps \<le> i" "i \<le> length s" "Q c" | u' where "m u = Blocked u'"
    using assms(1) by (fastforce simp: parses_def)
  then show "(\<exists>c i u'. kbind m f u = Ok (c, i) u' \<and> ps \<le> i \<and> i \<le> length s \<and> P c) \<or> (\<exists>u'. kbind m f u = Blocked u')"
    using assms(2) by cases (auto simp: parses_def kbind_def)
qed

lemma parses_mono: "parses s i P m \<Longrightarrow> ps \<le> i \<Longrightarrow> (\<And>c. P c \<Longrightarrow> Q c) \<Longrightarrow> parses s ps Q m"
  by (fastforce simp: parses_def)

lemma words_of_redir: "words_of (redir c t q e) \<subseteq> insert (q, e) (words_of c)" "args_fit c \<Longrightarrow> args_fit (redir c t q e)"
  "chain k c \<Longrightarrow> chain k (redir c t q e)"
  by (auto simp: redir_def)

lemma parseredirs_ok:
  assumes "CHR 0x00 \<notin> set s" "ps \<le> length s" "length s - ps < n" "\<forall>w \<in> words_of c. word_at s w"
  shows "parses s ps (\<lambda>d. (\<forall>w \<in> words_of d. word_at s w) \<and> (args_fit c \<longrightarrow> args_fit d) \<and> (\<forall>k. chain k c \<longrightarrow> chain k d)) (parseredirs n c s ps)"
  using assms(2-)
proof (induction n arbitrary: c ps)
  case (Suc n)
  obtain b i where b: "peek s ps ''<>'' = (b, i)" by fastforce
  have i: "ps \<le> i" "i \<le> length s" using peek_pos [OF b] Suc.prems by auto
  show ?case
  proof (cases b)
    case False
    with b i Suc.prems show ?thesis by (auto intro!: parses_kret)
  next
    case True
    let ?t = "gettoken s i" let ?f = "gettoken s (t_ps ?t)"
    have t: "i < t_ps ?t" "t_ps ?t \<le> length s" using gettoken_symbol [OF assms(1), of ps "''<>''" i] b True Suc.prems by auto
    show ?thesis
    proof (cases "t_ret ?f = CHR ''a''")
      case False
      with b True show ?thesis by (simp add: parses_upanic Let_def)
    next
      case a: True
      note f = gettoken_progress [OF assms(1) t(2)]
      let ?c = "redir c (t_ret ?t) (t_q ?f) (t_eq ?f)"
      have "\<forall>w \<in> words_of ?c. word_at s w" using words_of_redir(1) [of c "t_ret ?t" "t_q ?f" "t_eq ?f"] f(4) [OF a] Suc.prems(3) by blast
      moreover have "length s - t_ps ?f < n" using f(1,2) t i Suc.prems(2) by linarith
      ultimately have "parses s (t_ps ?f) (\<lambda>d. (\<forall>w \<in> words_of d. word_at s w) \<and> (args_fit ?c \<longrightarrow> args_fit d) \<and>
          (\<forall>k. chain k ?c \<longrightarrow> chain k d)) (parseredirs n ?c s (t_ps ?f))"
        using f(2) by (intro Suc.IH) auto
      then have "parses s ps (\<lambda>d. (\<forall>w \<in> words_of d. word_at s w) \<and> (args_fit c \<longrightarrow> args_fit d) \<and>
          (\<forall>k. chain k c \<longrightarrow> chain k d)) (parseredirs n ?c s (t_ps ?f))"
        by (rule parses_mono) (use f(1) t i words_of_redir in auto)
      with a b True show ?thesis by (simp add: Let_def)
    qed
  qed
qed simp

lemma add_arg_chain: "chain k c \<Longrightarrow> chain (Suc k) (add_arg a c)" "words_of (add_arg a c) \<subseteq> insert a (words_of c)"
  by (induction c) auto

lemma chain_fit: "chain k c \<Longrightarrow> k < MAXARGS \<Longrightarrow> args_fit c"
  by (induction c) auto

lemma parseargs_ok:
  assumes "CHR 0x00 \<notin> set s" "ps \<le> length s" "length s - ps < n" "\<forall>w \<in> words_of c. word_at s w" "chain k c" "k < MAXARGS"
  shows "parses s ps (wf_cmd s) (parseargs n k c s ps)"
  using assms(2-)
proof (induction n arbitrary: c k ps)
  case (Suc n)
  obtain b i where b: "peek s ps ''|)&;'' = (b, i)" by fastforce
  have i: "ps \<le> i" "i \<le> length s" using peek_pos [OF b] Suc.prems by auto
  let ?t = "gettoken s i"
  note t = gettoken_progress [OF assms(1) i(2)]
  have wf: "wf_cmd s c" using Suc.prems(3-) by (simp add: wf_cmd_def chain_fit)
  consider "b \<or> t_ret ?t = CHR 0x00" | "\<not> b" "t_ret ?t \<noteq> CHR 0x00" "t_ret ?t \<noteq> CHR ''a'' \<or> MAXARGS \<le> Suc k"
    | "\<not> b" "t_ret ?t = CHR ''a''" "Suc k < MAXARGS" by fastforce
  then show ?case
  proof cases
    case 1
    with b i t(1,2) wf show ?thesis by (auto simp: Let_def intro!: parses_kret)
  next
    case 2
    with b show ?thesis by (auto simp: Let_def parses_upanic)
  next
    case 3
    let ?c = "add_arg (t_q ?t, t_eq ?t) c"
    have w: "\<forall>w \<in> words_of ?c. word_at s w" using add_arg_chain(2) [of "(t_q ?t, t_eq ?t)" c] t(4) [OF 3(2)] Suc.prems(3) by blast
    have lt: "i < t_ps ?t" using t(3) 3(2) by simp
    then have n: "length s - t_ps ?t < n" using Suc.prems(2) i t(2) by linarith
    have "parses s (t_ps ?t) (wf_cmd s) (kbind (parseredirs n ?c s (t_ps ?t)) (\<lambda>(c, ps). parseargs n (Suc k) c s ps))"
      unfolding split_def fst_conv snd_conv
    proof (rule parses_kbind [OF parseredirs_ok [OF assms(1) t(2) n w]], goal_cases)
      case (1 d j)
      then have "parses s j (wf_cmd s) (parseargs n (Suc k) d s j)"
        using add_arg_chain(1) [OF Suc.prems(4)] 3(3) n by (intro Suc.IH) auto
      then show ?case using 1(1) by (auto elim: parses_mono)
    qed
    then have "parses s ps (wf_cmd s) (kbind (parseredirs n ?c s (t_ps ?t)) (\<lambda>(c, ps). parseargs n (Suc k) c s ps))"
      by (rule parses_mono) (use lt i in auto)
    with 3 b show ?thesis by (simp add: Let_def)
  qed
qed simp

lemma parses_from: "parses s i P m \<Longrightarrow> ps \<le> i \<Longrightarrow> parses s ps P m"
  by (auto elim: parses_mono)

text \<open>What follows a look at the next token: \<open>f\<close> if it is there, and it is taken, \<open>g\<close> otherwise.\<close>

lemma parses_peek:
  assumes "CHR 0x00 \<notin> set s" "i \<le> length s"
    and "\<And>j. i \<le> j \<Longrightarrow> i < t_ps (gettoken s j) \<Longrightarrow> t_ps (gettoken s j) \<le> length s \<Longrightarrow> parses s (t_ps (gettoken s j)) P (f j)"
    and "\<And>j. i \<le> j \<Longrightarrow> j \<le> length s \<Longrightarrow> parses s j P (g j)"
  shows "parses s i P (case peek s i toks of (b, j) \<Rightarrow> if b then f j else g j)"
proof -
  obtain b j where b: "peek s i toks = (b, j)" by fastforce
  have j: "i \<le> j" "j \<le> length s" using peek_pos [OF b] assms(2) by auto
  show ?thesis
  proof (cases b)
    case True
    then have t: "i < t_ps (gettoken s j)" "t_ps (gettoken s j) \<le> length s"
      using gettoken_symbol [OF assms(1,2), of toks j] b by auto
    have "parses s i P (f j)" by (rule parses_from [OF assms(3) [OF j(1) t]]) (use t in simp)
    with True b show ?thesis by simp
  next
    case False
    have "parses s i P (g j)" by (rule parses_from [OF assms(4) [OF j]]) (rule j(1))
    with False b show ?thesis by simp
  qed
qed

text \<open>A command, and another one that is combined with it.\<close>

lemma parses_pair:
  assumes "parses s i (wf_cmd s) m" "wf_cmd s c" "\<And>d. wf_cmd s d \<Longrightarrow> wf_cmd s (k d)"
  shows "parses s i (wf_cmd s) (kbind m (\<lambda>(d, ps). kret (k d, ps)))"
  using assms(1) by (rule parses_kbind) (use assms(3) in \<open>auto intro: parses_kret\<close>)

lemma parsebacks_ok:
  assumes "CHR 0x00 \<notin> set s" "ps \<le> length s" "length s - ps < n" "wf_cmd s c"
  shows "parses s ps (wf_cmd s) (parsebacks n c s ps)"
  using assms(2-)
proof (induction n arbitrary: c ps)
  case (Suc n)
  then show ?case unfolding parsebacks.simps
    by (intro parses_peek [OF assms(1)] Suc.IH parses_kret) (auto simp: wf_cmd_def)
qed simp

lemma parseexec_ok:
  assumes "CHR 0x00 \<notin> set s" "i \<le> length s" "length s - i < n"
  shows "parses s i (wf_cmd s) (kbind (parseredirs n (ExecC []) s i) (\<lambda>(c, ps). parseargs n 0 c s ps))"
  unfolding split_def fst_conv snd_conv
proof (rule parses_kbind [OF parseredirs_ok [OF assms]], goal_cases)
  case (2 c j)
  then have "parses s j (wf_cmd s) (parseargs n 0 c s j)" using assms(3) by (intro parseargs_ok [OF assms(1)]) auto
  from parses_from [OF this 2(1)] show ?case by simp
qed simp

lemma parse_ok:
  assumes "CHR 0x00 \<notin> set s" "ps \<le> length s"
  shows "4 * (length s - ps) + 3 < n \<Longrightarrow> parses s ps (wf_cmd s) (parseline n s ps)"
    and "4 * (length s - ps) + 2 < n \<Longrightarrow> parses s ps (wf_cmd s) (parsepipe n s ps)"
    and "4 * (length s - ps) + 1 < n \<Longrightarrow> parses s ps (wf_cmd s) (parseexec n s ps)"
    and "4 * (length s - ps) < n \<Longrightarrow> parses s ps (wf_cmd s) (parseblock n s ps)"
  using assms(2)
proof (induction n arbitrary: ps)
  case (Suc n)
  { case 1
    have "parses s j (wf_cmd s) (kbind (parsebacks n c s j) (\<lambda>(c, ps). case peek s ps '';'' of (b, ps) \<Rightarrow>
       if b then kbind (parseline n s (t_ps (gettoken s ps))) (\<lambda>(d, ps). kret (ListC c d, ps)) else kret (c, ps)))"
      if j: "ps \<le> j" "j \<le> length s" "wf_cmd s c" for c j
    proof (rule parses_kbind [OF parsebacks_ok [OF assms(1) j(2) _ j(3)]], goal_cases)
      case (2 d k)
      have "parses s k (wf_cmd s) (case peek s k '';'' of (b, ps) \<Rightarrow>
         if b then kbind (parseline n s (t_ps (gettoken s ps))) (\<lambda>(e, ps). kret (ListC d e, ps)) else kret (d, ps))"
        using 1(1) j 2 by (intro parses_peek [OF assms(1)] parses_pair [of s _ _ d] parses_kret Suc.IH) (auto simp: wf_cmd_def)
      from parses_from [OF this 2(1)] show ?case by simp
    qed (use 1(1) j in auto)
    from parses_from [OF this] show ?case unfolding parseline.simps
      using 1 by (intro parses_kbind [OF Suc.IH(2)]) simp_all
  next
    case 2
    have "parses s j (wf_cmd s) (case peek s j ''|'' of (b, ps) \<Rightarrow>
       if b then kbind (parsepipe n s (t_ps (gettoken s ps))) (\<lambda>(d, ps). kret (PipeC c d, ps)) else kret (c, ps))"
      if j: "ps \<le> j" "j \<le> length s" "wf_cmd s c" for c j
      using 2(1) j by (intro parses_peek [OF assms(1)] parses_pair [of s _ _ c] parses_kret Suc.IH) (auto simp: wf_cmd_def)
    from parses_from [OF this] show ?case unfolding parsepipe.simps
      using 2 by (intro parses_kbind [OF Suc.IH(3)]) simp_all
  next
    case 3
    obtain b i where b: "peek s ps ''('' = (b, i)" by fastforce
    have i: "ps \<le> i" "i \<le> length s" using peek_pos [OF b] 3(2) by auto
    have "parses s i (wf_cmd s) (parseblock n s i)" using 3 i by (intro Suc.IH) auto
    moreover have "parses s i (wf_cmd s) (kbind (parseredirs n (ExecC []) s i) (\<lambda>(c, ps). parseargs n 0 c s ps))"
      using 3(1) i by (intro parseexec_ok assms(1)) auto
    ultimately show ?case using b parses_from [OF _ i(1)] by auto
  next
    case 4
    have "parses s j (wf_cmd s) (case peek s j '')'' of (b, ps) \<Rightarrow>
       if b then parseredirs n c s (t_ps (gettoken s ps)) else upanic ''syntax - missing )'')"
      if j: "ps \<le> j" "j \<le> length s" "wf_cmd s c" for c j
      using 4(1) j parses_mono [OF parseredirs_ok [OF assms(1), of _ n c], of _ _ "wf_cmd s"]
      by (intro parses_peek [OF assms(1)] parses_upanic) (auto simp: wf_cmd_def)
    note redirs = this
    show ?case unfolding parseblock.simps
    proof (rule parses_peek [OF assms(1) 4(2)], goal_cases)
      case (1 j)
      have "parses s (t_ps (gettoken s j)) (wf_cmd s) (parseline n s (t_ps (gettoken s j)))" using 1 4(1) by (intro Suc.IH) auto
      then show ?case by (rule parses_kbind) (use 1 parses_from [OF redirs] in auto)
    qed (rule parses_upanic)
  }
qed simp_all

subsection \<open>The words after nulterminate\<close>

lemma nulterminate_exec: "length (fold (\<lambda>a s. s[snd a := CHR 0x00]) as s) = length s"
  "i < length s \<Longrightarrow> fold (\<lambda>a s. s[snd a := CHR 0x00]) as s ! i = (if i \<in> snd ` set as then CHR 0x00 else s ! i)"
proof -
  show l: "length (fold (\<lambda>a s. s[snd a := CHR 0x00]) as s) = length s" for s :: string
    by (induction as arbitrary: s) auto
  show "i < length s \<Longrightarrow> fold (\<lambda>a s. s[snd a := CHR 0x00]) as s ! i = (if i \<in> snd ` set as then CHR 0x00 else s ! i)"
    by (induction as arbitrary: s) (auto simp: nth_list_update)
qed

lemma nulterminate_nth: "length (nulterminate c s) = length s"
  "i < length s \<Longrightarrow> nulterminate c s ! i = (if i \<in> snd ` words_of c then CHR 0x00 else s ! i)"
proof -
  have "length (nulterminate c s) = length s \<and>
      (\<forall>i < length s. nulterminate c s ! i = (if i \<in> snd ` words_of c then CHR 0x00 else s ! i))" for s
  proof (induction c arbitrary: s)
    case (ExecC as)
    then show ?case by (simp add: nulterminate_exec)
  next
    case (RedirC c f e m d)
    from RedirC.IH [of s] show ?case by (cases "e < length s") (auto simp: nth_list_update)
  next
    case (PipeC c d)
    then show ?case by (auto simp: image_Un)
  next
    case (ListC c d)
    then show ?case by (auto simp: image_Un)
  qed simp
  then show "length (nulterminate c s) = length s"
    "i < length s \<Longrightarrow> nulterminate c s ! i = (if i \<in> snd ` words_of c then CHR 0x00 else s ! i)" by auto
qed

lemma cstring_take:
  assumes "k \<le> length t" "\<And>j. j < k \<Longrightarrow> t ! j \<noteq> CHR 0x00" "k < length t \<Longrightarrow> t ! k = CHR 0x00"
  shows "cstring t = take k t"
proof (cases "k = length t")
  case True
  with assms(2) show ?thesis by (auto simp: cstring_def takeWhile_eq_all_conv in_set_conv_nth)
next
  case False
  with assms show ?thesis unfolding cstring_def by (intro takeWhile_eq_take_P_nth) auto
qed

definition word_text :: "string \<Rightarrow> nat \<times> nat \<Rightarrow> string" where
  "word_text s w = take (snd w - fst w) (drop (fst w) s)"

lemma nulterminate_text:
  assumes "\<forall>w \<in> words_of c. word_at s w" "w \<in> words_of c"
  shows "text_at (nulterminate c s) (fst w) = word_text s w"
proof -
  obtain q e where w: "w = (q, e)" by fastforce
  have a: "q < e" "e \<le> length s" "\<And>j. q \<le> j \<Longrightarrow> j < e \<Longrightarrow> plain (s ! j)" using assms w by (auto simp: word_at_def)
  have out: "j \<notin> snd ` words_of c" if "q \<le> j" "j < e" for j
  proof
    assume "j \<in> snd ` words_of c"
    then have "\<not> plain (at s j)" using assms(1) by (auto simp: word_at_def)
    with a(2,3) that show False by (simp add: at_def)
  qed
  have eq: "nulterminate c s ! j = s ! j" if "q \<le> j" "j < e" for j
    using nulterminate_nth(2) [of j s c] out [OF that] that a(2) by simp
  have "cstring (drop q (nulterminate c s)) = take (e - q) (drop q (nulterminate c s))"
  proof (rule cstring_take)
    show "drop q (nulterminate c s) ! j \<noteq> CHR 0x00" if "j < e - q" for j
      using eq [of "q + j"] a(2) a(3) [of "q + j"] that by (auto simp: nulterminate_nth(1) plain_def)
    show "drop q (nulterminate c s) ! (e - q) = CHR 0x00" if "e - q < length (drop q (nulterminate c s))"
    proof -
      have "e \<in> snd ` words_of c" using assms(2) w by force
      with that a(1) show ?thesis by (simp add: nulterminate_nth)
    qed
  qed (use a(2) in \<open>simp add: nulterminate_nth(1)\<close>)
  moreover have "take (e - q) (drop q (nulterminate c s)) = take (e - q) (drop q s)"
    using a eq by (intro nth_equalityI) (auto simp: nulterminate_nth(1))
  ultimately show ?thesis by (simp add: text_at_def word_text_def w)
qed

lemma word_text_plain:
  assumes "word_at s w"
  shows "word_text s w \<noteq> []" "\<forall>x \<in> set (word_text s w). plain x"
  using assms by (auto simp: word_at_def word_text_def in_set_conv_nth)

lemma parsecmd_runs:
  assumes "CHR 0x00 \<notin> set s"
  shows "(\<exists>c u'. parsecmd s u = Ok (c, nulterminate c s) u' \<and> wf_cmd s c) \<or> (\<exists>u'. parsecmd s u = Blocked u')"
proof -
  have p: "parses s 0 (wf_cmd s) (parseline (4 * length s + 4) s 0)" using assms by (intro parse_ok) auto
  have l: "stops (kthen (fprintf 2 ''leftovers: %s\<newline>'' [UStr (Some t)]) (upanic ''syntax'' :: (cmd \<times> string) u))" for t
    by (intro uend; simp)
  consider c i u' where "parseline (4 * length s + 4) s 0 u = Ok (c, i) u'" "wf_cmd s c" | u' where "parseline (4 * length s + 4) s 0 u = Blocked u'"
    using p [unfolded parses_def] by blast
  then show ?thesis
  proof cases
    case 1
    obtain v where "kthen (fprintf 2 ''leftovers: %s\<newline>'' [UStr (Some (drop (skip s i) s))]) (upanic ''syntax'' :: (cmd \<times> string) u) u' = Blocked v"
      using l [unfolded stops_def] by blast
    with 1 show ?thesis
      by (cases "skip s i = length s") (auto simp: parsecmd_def kbind_apply kret_apply peek_def Let_def simp del: parseline.simps)
  qed (auto simp: parsecmd_def kmonad simp del: parseline.simps)
qed

text \<open>
  C18. The parser of the shell is safe on every line. For every string \<open>parsecmd\<close> either reports an error
  and exits or returns a command; the fuel is enough. In a returned command every simple command has fewer than \<open>MAXARGS\<close>
  words, so that the list of arguments and its final null pointer fit the arrays; every word of it is not
  empty and has no blank and no symbol in it; and the NULs that \<open>nulterminate\<close> writes end every word where the parser saw
  its end, without destroying another one.
\<close>

theorem parsecmd_safe:
  assumes "CHR 0x00 \<notin> set s"
  shows "(\<exists>c t u'. parsecmd s u = Ok (c, t) u' \<and> args_fit c \<and>
     (\<forall>w \<in> words_of c. text_at t (fst w) = word_text s w \<and> word_text s w \<noteq> [] \<and> (\<forall>x \<in> set (word_text s w). plain x))) \<or>
   (\<exists>u'. parsecmd s u = Blocked u')"
  using parsecmd_runs [OF assms, of u] nulterminate_text [of _ s] word_text_plain [of s]
  by (fastforce simp: wf_cmd_def)

theorem parsecmd_safe_witness:
  "\<exists>c t u'. parsecmd ''ls -l>f'' \<lparr>u_in = \<lambda>_. [], u_wr = [], u_ans = [], u_calls = [], u_exit = None\<rparr> = Ok (c, t) u' \<and>
     args_fit c \<and> text_at t 0 = ''ls'' \<and> text_at t 3 = ''-l'' \<and> text_at t 6 = ''f''"
proof -
  let ?u = "\<lparr>u_in = \<lambda>_. [], u_wr = [], u_ans = [], u_calls = [], u_exit = None\<rparr>"
  have "case parsecmd ''ls -l>f'' ?u of Ok (c, t) u' \<Rightarrow> words_of c = {(0, 2), (3, 5), (6, 7)} | _ \<Rightarrow> False" by code_simp
  moreover have "word_text ''ls -l>f'' (0, 2) = ''ls''" "word_text ''ls -l>f'' (3, 5) = ''-l''" "word_text ''ls -l>f'' (6, 7) = ''f''"
    by (simp_all add: word_text_def)
  ultimately show ?thesis using parsecmd_safe [of "''ls -l>f''" ?u] by (auto split: outcome.splits)
qed

subsection \<open>The shell ends with its input\<close>

lemma ends_fork1 [uend]: "ends fork1 s"
  unfolding fork1_def by (intro uend)

lemma stops_runcmd: "stops (runcmd s c)"
proof (induction c)
  case (ExecC as)
  then show ?case by (auto simp: Let_def intro!: uend)
next
  case (RedirC c f e m d)
  then show ?case by (auto intro!: uend)
next
  case (PipeC c d)
  then show ?case by (auto intro!: uend)
qed (auto intro!: uend)

lemma ends_parsecmd:
  assumes "CHR 0x00 \<notin> set c"
  shows "stops (kbind (parsecmd c) (\<lambda>(t, s). runcmd s t))"
proof -
  have "\<exists>v. kbind (parsecmd c) (\<lambda>(t, s). runcmd s t) u = Blocked v" for u
    using parsecmd_runs [OF assms, of u] stops_runcmd [unfolded stops_def] by (auto simp: kbind_def)
  then show ?thesis by (simp add: stops_def)
qed

lemma sh_command_ends:
  assumes "CHR 0x00 \<notin> set c"
  shows "ends (sh_command c) s" "kkeeps (\<lambda>s. u_in s = I) (sh_command c)"
proof -
  define run where "run = kbind (parsecmd c) (\<lambda>(t, s). runcmd s t)"
  have r: "stops run" using ends_parsecmd [OF assms] by (simp add: run_def)
  show "ends (sh_command c) s" unfolding sh_command_def Let_def run_def [symmetric]
    by (intro uend stops_ends [OF r]; simp)
  show "kkeeps (\<lambda>s. u_in s = I) (sh_command c)" unfolding sh_command_def Let_def fork1_def run_def [symmetric]
    by (intro kinv_intro kkeeps_stops [OF r] kkeeps_stops [OF stops_upanic])
qed

lemma gets_from_ends:
  "\<exists>b s'. gets_from k acc s = Ok (acc @ b) s' \<and> left_of s' 0 + length b \<le> left_of s 0"
proof (induction k arbitrary: acc s)
  case (Suc k)
  obtain r s1 where r: "uread 0 1 s = Ok r s1" using ends_basic(5) [of 0 1 s]
    by (auto simp: ends_def uread_def kmonad split: list.splits option.splits)
  show ?case
  proof (cases "r = None \<or> r = Some []")
    case True
    have "left_of s1 0 \<le> left_of s 0" using r
      by (auto simp: uread_def called_def kmonad left_of_def split: list.splits option.splits if_splits)
    with True r show ?thesis by (intro exI [of _ "[]"]) (auto simp: kmonad)
  next
    case False
    then obtain c x where c: "r = Some (c # x)" by (cases r) (auto simp: neq_Nil_conv)
    then have l: "left_of s1 0 < left_of s 0" using r uread_left by blast
    obtain b s' where "gets_from k (acc @ [c]) s1 = Ok ((acc @ [c]) @ b) s'" "left_of s' 0 + length b \<le> left_of s1 0"
      using Suc.IH by blast
    with r c l show ?thesis
      by (cases "c = CHR 0x0a \<or> c = CHR 0x0d") (auto simp: kmonad intro: exI [of _ "[c]"] exI [of _ "c # b"])
  qed
qed (auto simp: kmonad)

lemma getcmd_ends:
  "\<exists>r s'. getcmd s = Ok r s' \<and> (r \<noteq> None \<longrightarrow> left_of s' 0 < left_of s 0 \<and> CHR 0x00 \<notin> set (the r))"
proof -
  obtain w s1 where w: "uwrite 2 ''$ '' s = Ok w s1" "u_in s1 = u_in s" using uwrite_any [of 2 "''$ ''" s] by auto
  obtain b s2 where b: "gets_from 99 [] s1 = Ok b s2" "left_of s2 0 + length b \<le> left_of s1 0"
    using gets_from_ends [of 99 "[]" s1] by auto
  have "CHR 0x00 \<notin> set (cstring b)" by (auto simp: cstring_def dest: set_takeWhileD)
  moreover have "left_of s2 0 < left_of s 0" if "cstring b \<noteq> []"
  proof -
    have "0 < length b" using that by (auto simp: cstring_def)
    with b(2) left_of_cong [OF w(2), of 0] show ?thesis by linarith
  qed
  ultimately show ?thesis using w(1) b(1)
    by (auto simp: getcmd_def gets_def kmonad Let_def simp del: gets_from.simps)
qed

lemma sh_loop_ends: "left_of s 0 < k \<Longrightarrow> \<exists>s'. sh_loop k s = Blocked s'"
proof (induction k arbitrary: s)
  case (Suc k)
  obtain r s1 where r: "getcmd s = Ok r s1" "r \<noteq> None \<longrightarrow> left_of s1 0 < left_of s 0 \<and> CHR 0x00 \<notin> set (the r)"
    using getcmd_ends by blast
  show ?case
  proof (cases r)
    case None
    with r show ?thesis by (simp add: kmonad usys)
  next
    case (Some b)
    then have n: "CHR 0x00 \<notin> set (skip_blanks b)" using r(2) by (auto simp: skip_blanks_def dest: set_dropWhileD)
    consider u s2 where "sh_command (skip_blanks b) s1 = Ok u s2" | s2 where "sh_command (skip_blanks b) s1 = Blocked s2"
      using sh_command_ends(1) [OF n, of s1] by (auto simp: ends_def)
    then show ?thesis
    proof cases
      case 1
      then have "u_in s2 = u_in s1" using kkeepsD [OF sh_command_ends(2) [OF n]] by blast
      then have "left_of s2 0 < k" using left_of_cong [of s2 s1 0] r(2) Some Suc.prems by simp
      with Suc.IH r(1) Some 1 show ?thesis by (simp add: kmonad)
    next
      case 2
      with r(1) Some show ?thesis by (simp add: kmonad)
    qed
  qed
qed simp

lemma sh_open_ends: "length (u_ans s) < k \<Longrightarrow> ends (sh_open k) s"
proof (induction k arbitrary: s)
  case (Suc k)
  show ?case unfolding sh_open.simps
    by (rule ends_kbind [OF ends_basic(2)]) (use Suc in \<open>auto simp: usys split: list.splits intro!: uend\<close>)
qed simp


end
