(* ===== verification/Shellgram.thy ===== *)
theory Shellgram
  imports Shell
begin

text \<open>
  The grammar of \<^verbatim>\<open>user/sh.c\<close>: what a command line means, and that \<open>parsecmd\<close> of theory \<open>Shell\<close> finds it.
  Tokens and their spelling, syntax trees and their tokens, the command a tree stands for; then one
  lemma per production of the grammar.
\<close>

subsection \<open>The grammar\<close>

text \<open>
  Command lines as the grammar of the shell has them: a line is a pipeline with some ampersands,
  perhaps followed by a semicolon and a line; a pipeline consists of commands; a command is a
  line in parentheses with redirections, or words and redirections in any order.
\<close>

type_synonym redirs = "(char \<times> string) list"

datatype line = LEnd pipeline nat | LSeq pipeline nat line
  and pipeline = PEnd command | PPipe command pipeline
  and command = XBlock line redirs | XCmd redirs "(string \<times> redirs) list"

datatype stok = TW string | TS char

definition toks_redirs :: "redirs \<Rightarrow> stok list" where
  "toks_redirs rs = concat (map (\<lambda>r. [TS (fst r), TW (snd r)]) rs)"

primrec toks_line :: "line \<Rightarrow> stok list"
  and toks_pipe :: "pipeline \<Rightarrow> stok list"
  and toks_exec :: "command \<Rightarrow> stok list" where
  "toks_line (LEnd p k) = toks_pipe p @ replicate k (TS CHR ''&'')"
| "toks_line (LSeq p k l) = toks_pipe p @ replicate k (TS CHR ''&'') @ TS CHR '';'' # toks_line l"
| "toks_pipe (PEnd x) = toks_exec x"
| "toks_pipe (PPipe x p) = toks_exec x @ TS CHR ''|'' # toks_pipe p"
| "toks_exec (XBlock l rs) = TS CHR ''('' # toks_line l @ TS CHR '')'' # toks_redirs rs"
| "toks_exec (XCmd rs ws) = toks_redirs rs @ concat (map (\<lambda>w. TW (fst w) # toks_redirs (snd w)) ws)"

text \<open>The command that is meant; its words are strings.\<close>

datatype acmd = AExec "string list" | ARedir acmd string int int | APipe acmd acmd | AList acmd acmd | ABack acmd

definition mean_redir :: "char \<times> string \<Rightarrow> acmd \<Rightarrow> acmd" where
  "mean_redir r a =
    (if fst r = CHR ''<'' then ARedir a (snd r) 0 0
     else if fst r = CHR ''>'' then ARedir a (snd r) 0x601 1
     else ARedir a (snd r) 0x201 1)"

primrec mean_line :: "line \<Rightarrow> acmd"
  and mean_pipe :: "pipeline \<Rightarrow> acmd"
  and mean_exec :: "command \<Rightarrow> acmd" where
  "mean_line (LEnd p k) = (ABack ^^ k) (mean_pipe p)"
| "mean_line (LSeq p k l) = AList ((ABack ^^ k) (mean_pipe p)) (mean_line l)"
| "mean_pipe (PEnd x) = mean_exec x"
| "mean_pipe (PPipe x p) = APipe (mean_exec x) (mean_pipe p)"
| "mean_exec (XBlock l rs) = fold mean_redir rs (mean_line l)"
| "mean_exec (XCmd rs ws) = fold mean_redir (rs @ concat (map snd ws)) (AExec (map fst ws))"

text \<open>The symbol_chars of redirections are \<^verbatim>\<open><\<close>, \<^verbatim>\<open>>\<close> and \<^verbatim>\<open>>>\<close>, and a simple command has fewer than \<open>MAXARGS\<close> words.\<close>

definition ok_redirs :: "redirs \<Rightarrow> bool" where
  "ok_redirs rs \<longleftrightarrow> (\<forall>r \<in> set rs. fst r \<in> set ''<>+'')"

primrec ok_line :: "line \<Rightarrow> bool"
  and ok_pipe :: "pipeline \<Rightarrow> bool"
  and ok_exec :: "command \<Rightarrow> bool" where
  "ok_line (LEnd p k) = ok_pipe p"
| "ok_line (LSeq p k l) = (ok_pipe p \<and> ok_line l)"
| "ok_pipe (PEnd x) = ok_exec x"
| "ok_pipe (PPipe x p) = (ok_exec x \<and> ok_pipe p)"
| "ok_exec (XBlock l rs) = (ok_line l \<and> ok_redirs rs)"
| "ok_exec (XCmd rs ws) = (ok_redirs rs \<and> (\<forall>w \<in> set ws. ok_redirs (snd w)) \<and> length ws < MAXARGS)"

text \<open>
  How a line is written: blanks before every token, as many as one likes; a word ends at a blank or a
  symbol, and a single \<^verbatim>\<open>>\<close> is not followed by another one.
\<close>

definition symbol_text :: "char \<Rightarrow> string" where
  "symbol_text c = (if c = CHR ''+'' then ''>>'' else [c])"

definition symbol_tok :: "char \<Rightarrow> bool" where
  "symbol_tok c \<longleftrightarrow> c \<in> set ''<|>&;()+''"

definition blanks :: "string \<Rightarrow> bool" where
  "blanks b \<longleftrightarrow> set b \<subseteq> set whitespace"

inductive written_as :: "string \<Rightarrow> stok list \<Rightarrow> bool" where
  nothing: "blanks b \<Longrightarrow> written_as b []"
| word: "blanks b \<Longrightarrow> w \<noteq> [] \<Longrightarrow> \<forall>c \<in> set w. plain c \<Longrightarrow> \<not> plain (char_at r) \<Longrightarrow> written_as r ts \<Longrightarrow>
    written_as (b @ w @ r) (TW w # ts)"
| symbol: "blanks b \<Longrightarrow> symbol_tok c \<Longrightarrow> c = CHR ''>'' \<longrightarrow> char_at r \<noteq> CHR ''>'' \<Longrightarrow> written_as r ts \<Longrightarrow>
    written_as (b @ symbol_text c @ r) (TS c # ts)"

inductive_cases written_as_nothing: "written_as s []"
inductive_cases written_as_word: "written_as s (TW w # ts)"
inductive_cases written_as_symbol: "written_as s (TS c # ts)"

subsection \<open>The lexer reads the tokens\<close>

lemma at_drop: "i \<le> length s \<Longrightarrow> drop i s = r \<Longrightarrow> at s i = char_at r"
  by (cases "i < length s") (auto simp: at_def simp flip: Cons_nth_drop_Suc)

lemma drop_blanks:
  assumes "i \<le> length s" "drop i s = b @ r" "blanks b" "char_at r \<notin> set whitespace"
  shows "skip s i = i + length b"
  using assms
proof (induction b arbitrary: i)
  case Nil
  then show ?case using at_drop [of i s r] by (simp add: skip_stay)
next
  case (Cons x b)
  then have i: "i < length s" by (cases "i = length s") auto
  then have d: "drop (Suc i) s = b @ r" using Cons.prems(2) by (simp flip: Cons_nth_drop_Suc)
  have "at s i = x" using at_drop [OF Cons.prems(1,2)] by simp
  then have "skip s i = skip s (Suc i)" using i Cons.prems(3) by (subst skip.simps) (simp add: strchr_iff blanks_def)
  with Cons.IH [of "Suc i"] d i Cons.prems(3,4) show ?case by (simp add: blanks_def)
qed

lemma drop_word:
  assumes "i \<le> length s" "drop i s = w @ r" "\<forall>c \<in> set w. plain c" "\<not> plain (char_at r)" "CHR 0x00 \<notin> set s"
  shows "word_end s i = i + length w"
  using assms
proof (induction w arbitrary: i)
  case Nil
  then have "\<not> plain (at s i)" using at_drop [of i s r] by simp
  moreover have "at s i \<noteq> CHR 0x00" if "i < length s" using that assms(5) by (metis at_def nth_mem)
  ultimately show ?case by (subst word_end.simps) (auto simp: plain_def strchr_iff)
next
  case (Cons x w)
  then have i: "i < length s" by (cases "i = length s") auto
  then have d: "drop (Suc i) s = w @ r" using Cons.prems(2) by (simp flip: Cons_nth_drop_Suc)
  have "at s i = x" using at_drop [OF Cons.prems(1,2)] by simp
  then have "word_end s i = word_end s (Suc i)" using i Cons.prems(3) by (subst word_end.simps) (simp add: strchr_iff plain_def)
  with Cons.IH [of "Suc i"] d i Cons.prems(3,4) assms(5) show ?case by simp
qed

definition hchar :: "stok list \<Rightarrow> char" where
  "hchar ts = (case ts of [] \<Rightarrow> CHR 0x00 | TW w # _ \<Rightarrow> char_at w | TS c # _ \<Rightarrow> if c = CHR ''+'' then CHR ''>'' else c)"

text \<open>Blanks before a token do not matter.\<close>

lemma written_as_skip:
  assumes "i \<le> length s" "written_as (drop i s) ts"
  shows "written_as (drop (skip s i) s) ts" "at s (skip s i) = hchar ts"
proof -
  have NUL: "CHR 0x00 \<notin> set whitespace" by (simp add: whitespace_def)
  from assms(2) have "\<exists>b r. drop i s = b @ r \<and> blanks b \<and> char_at r \<notin> set whitespace \<and> char_at r = hchar ts \<and> written_as r ts"
  proof cases
    case (nothing)
    then show ?thesis using NUL by (intro exI [of _ "drop i s"] exI [of _ "[]"]) (auto simp: hchar_def blanks_def intro: written_as.nothing)
  next
      case (word b w r ts')
    have "written_as ([] @ w @ r) (TW w # ts')" by (rule written_as.word) (use word in \<open>simp_all add: blanks_def\<close>)
    moreover obtain x w' where x: "w = x # w'" using word by (cases w) auto
    moreover have "x \<notin> set whitespace" using word(5) x by (simp add: plain_def)
    ultimately show ?thesis using word(1,2,3) by (intro exI [of _ b] exI [of _ "w @ r"]) (simp add: hchar_def)
  next
    case (symbol b c r ts')
    have "written_as ([] @ symbol_text c @ r) (TS c # ts')" by (rule written_as.symbol) (use symbol in \<open>simp_all add: blanks_def\<close>)
    moreover have "c \<notin> set whitespace" "CHR ''>'' \<notin> set whitespace" using symbol(4) by (auto simp: whitespace_def symbol_tok_def)
    ultimately show ?thesis using symbol(1,2,3) by (intro exI [of _ b] exI [of _ "symbol_text c @ r"]) (simp add: hchar_def symbol_text_def)
  qed
  then obtain b r where r: "drop i s = b @ r" "blanks b" "char_at r \<notin> set whitespace" "char_at r = hchar ts" "written_as r ts" by blast
  have k: "skip s i = i + length b" using assms(1) r(1-3) by (rule drop_blanks)
  have "drop (length b) (drop i s) = r" using r(1) by simp
  then have d: "drop (skip s i) s = r" by (simp add: k add.commute)
  show "written_as (drop (skip s i) s) ts" using d r(5) by simp
  show "at s (skip s i) = hchar ts" using at_drop [OF skip_le [OF assms(1)] d] r(4) by simp
qed

lemma peek_written:
  assumes "i \<le> length s" "written_as (drop i s) ts" "CHR 0x00 \<notin> set cs"
  shows "peek s i cs = (hchar ts \<in> set cs, skip s i)"
  using written_as_skip [OF assms(1,2)] assms(3) by (auto simp: peek_def Let_def strchr_iff)

definition tok_ret :: "stok \<Rightarrow> char" where
  "tok_ret t = (case t of TW w \<Rightarrow> CHR ''a'' | TS c \<Rightarrow> c)"

lemma skip_written:
  assumes "i \<le> length s" "written_as (drop i s) ts"
  shows "skip s i \<le> length s" "written_as (drop (skip s i) s) ts"
  using assms by (simp_all add: skip_le written_as_skip)

lemma gettoken_ret_q: "t_q (gettoken s i) = skip s i"
  by (auto simp: gettoken_def Let_def)

text \<open>One token, with no blanks before it.\<close>

lemma gettoken_word:
  assumes "i \<le> length s" "CHR 0x00 \<notin> set s" "drop i s = w @ r" "w \<noteq> []" "\<forall>c \<in> set w. plain c" "\<not> plain (char_at r)"
  shows "gettoken s i = \<lparr>t_ret = CHR ''a'', t_q = i, t_eq = i + length w, t_ps = skip s (i + length w)\<rparr>"
proof -
  obtain x w' where w: "w = x # w'" using assms(4) by (cases w) auto
  then have x: "at s i = x" using at_drop [OF assms(1,3)] by simp
  have p: "x \<notin> set whitespace" "x \<notin> set symbol_chars" "x \<noteq> CHR 0x00" using w assms(5) by (simp_all add: plain_def)
  then have "skip s i = i" using x by (simp add: skip_stay)
  moreover have "word_end s i = i + length w" using assms by (intro drop_word) auto
  moreover have "x \<notin> set ''|();&<''" "x \<noteq> CHR ''>''" using p(2) by (auto simp: symbol_chars_cases)
  ultimately show ?thesis using x p(3) by (simp add: gettoken_def)
qed

lemma gettoken_sym:
  assumes "i \<le> length s" "drop i s = symbol_text c @ r" "symbol_tok c" "c = CHR ''>'' \<longrightarrow> char_at r \<noteq> CHR ''>''"
  shows "gettoken s i = \<lparr>t_ret = c, t_q = i, t_eq = i + length (symbol_text c), t_ps = skip s (i + length (symbol_text c))\<rparr>"
proof -
  have w: "skip s i = i" if "at s i = x" "x \<in> set symbol_chars" for x
    using that by (intro skip_stay) (auto simp: symbol_chars_def whitespace_def)
  consider "c = CHR ''+''" | "c = CHR ''>''" | "c \<in> set ''|();&<''" using assms(3) by (auto simp: symbol_tok_def)
  then show ?thesis
  proof cases
    case 1
    then have d: "drop i s = CHR ''>'' # CHR ''>'' # r" using assms(2) by (simp add: symbol_text_def)
    then have i: "i < length s" by (cases "i < length s") auto
    have "drop (Suc i) s = CHR ''>'' # r" using d i by (simp flip: Cons_nth_drop_Suc)
    then have "at s (Suc i) = CHR ''>''" using at_drop [of "Suc i" s] i by simp
    moreover have "at s i = CHR ''>''" using at_drop [OF assms(1) d] by simp
    ultimately show ?thesis using 1 w [of "CHR ''>''"] by (simp add: gettoken_def symbol_text_def symbol_chars_def)
  next
    case 2
    then have d: "drop i s = CHR ''>'' # r" using assms(2) by (simp add: symbol_text_def)
    then have i: "i < length s" by (cases "i < length s") auto
    have "drop (Suc i) s = r" using d i by (simp flip: Cons_nth_drop_Suc)
    then have "at s (Suc i) \<noteq> CHR ''>''" using at_drop [of "Suc i" s] i assms(4) 2 by simp
    moreover have "at s i = CHR ''>''" using at_drop [OF assms(1) d] by simp
    ultimately show ?thesis using 2 w [of "CHR ''>''"] by (simp add: gettoken_def symbol_text_def symbol_chars_def)
  next
    case 3
    then have c: "symbol_text c = [c]" "c \<noteq> CHR 0x00" "c \<in> set symbol_chars" by (auto simp: symbol_text_def symbol_chars_def)
    then have a: "at s i = c" using at_drop [OF assms(1,2)] by simp
    with c 3 w [OF a c(3)] show ?thesis by (simp add: gettoken_def)
  qed
qed

lemma gettoken_skip: "gettoken s (skip s i) = gettoken s i"
  by (simp add: gettoken_def Let_def)

lemma gettoken_written:
  assumes "i \<le> length s" "CHR 0x00 \<notin> set s" "written_as (drop i s) (t # ts)"
  shows "t_ret (gettoken s i) = tok_ret t" "t_ps (gettoken s i) \<le> length s" "written_as (drop (t_ps (gettoken s i)) s) ts"
    "t = TW w \<Longrightarrow> word_text s (t_q (gettoken s i), t_eq (gettoken s i)) = w"
proof -
  let ?i = "skip s i" and ?t = "gettoken s i"
  have i: "?i \<le> length s" "written_as (drop ?i s) (t # ts)" using skip_written [OF assms(1,3)] by auto
  have g: "?t = gettoken s ?i" by (simp add: gettoken_skip)
  have nb: "b = []" if "drop ?i s = b @ x" "blanks b" for b x
    using that skip_end [of s i] at_drop [OF i(1) that(1)] by (cases b) (auto simp: blanks_def)
  have "t_ret ?t = tok_ret t \<and> t_ps ?t \<le> length s \<and> written_as (drop (t_ps ?t) s) ts \<and>
      (\<forall>w. t = TW w \<longrightarrow> word_text s (t_q ?t, t_eq ?t) = w)"
  proof (cases t)
    case (TW w)
    from i(2)[unfolded TW] obtain b r where r: "drop ?i s = b @ w @ r" "blanks b" "w \<noteq> []" "\<forall>c \<in> set w. plain c" "\<not> plain (char_at r)" "written_as r ts"
      by (rule written_as_word)
    have d: "drop ?i s = w @ r" using r(1) nb [OF r(1,2)] by simp
    note gt = gettoken_word [OF i(1) assms(2) d r(3-5), folded g]
    have len: "?i + length w \<le> length s" using arg_cong [OF d, of length] i(1) by simp
    have "drop (length w + ?i) s = r" using d by (simp flip: drop_drop)
    then have "written_as (drop (?i + length w) s) ts" unfolding add.commute [of ?i] using r(6) by (simp only:)
    from skip_written [OF len this] d show ?thesis unfolding gt TW by (simp add: tok_ret_def word_text_def)
  next
    case (TS c)
    from i(2)[unfolded TS] obtain b r where r: "drop ?i s = b @ symbol_text c @ r" "blanks b" "symbol_tok c"
      "c = CHR ''>'' \<longrightarrow> char_at r \<noteq> CHR ''>''" "written_as r ts" by (rule written_as_symbol)
    have d: "drop ?i s = symbol_text c @ r" using r(1) nb [OF r(1,2)] by simp
    note gt = gettoken_sym [OF i(1) d r(3,4), folded g]
    have len: "?i + length (symbol_text c) \<le> length s" using arg_cong [OF d, of length] i(1) by simp
    have "drop (length (symbol_text c) + ?i) s = r" using d by (simp flip: drop_drop)
    then have "written_as (drop (?i + length (symbol_text c)) s) ts" unfolding add.commute [of ?i] using r(5) by (simp only:)
    from skip_written [OF len this] show ?thesis unfolding gt TS by (simp add: tok_ret_def)
  qed
  then show "t_ret ?t = tok_ret t" "t_ps ?t \<le> length s" "written_as (drop (t_ps ?t) s) ts"
    "t = TW w \<Longrightarrow> word_text s (t_q ?t, t_eq ?t) = w" by blast+
qed

subsection \<open>The parser reads the grammar\<close>

primrec deref :: "string \<Rightarrow> cmd \<Rightarrow> acmd" where
  "deref s (ExecC as) = AExec (map (word_text s) as)"
| "deref s (RedirC c f e m d) = ARedir (deref s c) (word_text s (f, e)) m d"
| "deref s (PipeC c d) = APipe (deref s c) (deref s d)"
| "deref s (ListC c d) = AList (deref s c) (deref s d)"
| "deref s (BackC c) = ABack (deref s c)"

primrec add_word :: "string \<Rightarrow> acmd \<Rightarrow> acmd" where
  "add_word w (AExec ws) = AExec (ws @ [w])"
| "add_word w (ARedir a f m d) = ARedir (add_word w a) f m d"
| "add_word w (APipe a b) = APipe a b"
| "add_word w (AList a b) = AList a b"
| "add_word w (ABack a) = ABack a"

lemma deref_add: "deref s (add_arg a c) = add_word (word_text s a) (deref s c)"
  by (induction c) auto

lemma deref_redir: "c \<in> set ''<>+'' \<Longrightarrow> deref s (redir d c q e) = mean_redir (c, word_text s (q, e)) (deref s d)"
  by (auto simp: redir_def mean_redir_def)

lemma add_word_redirs: "add_word w (fold mean_redir rs a) = fold mean_redir rs (add_word w a)"
  by (induction rs arbitrary: a) (auto simp: mean_redir_def)

text \<open>
  \<open>reads s ps rest a m\<close>: \<open>m\<close> returns without a system call; the command it returns means \<open>a\<close>, and
  the tokens \<open>rest\<close> are left.
\<close>

definition reads :: "string \<Rightarrow> stok list \<Rightarrow> (cmd \<Rightarrow> bool) \<Rightarrow> (cmd \<times> nat) u \<Rightarrow> bool" where
  "reads s rest P m \<longleftrightarrow> (\<exists>c i. (\<forall>u. m u = Ok (c, i) u) \<and> i \<le> length s \<and> written_as (drop i s) rest \<and> P c)"

lemma reads_kret: "i \<le> length s \<Longrightarrow> written_as (drop i s) rest \<Longrightarrow> P c \<Longrightarrow> reads s rest P (kret (c, i))"
  by (auto simp: reads_def kret_def)

lemma reads_kbind:
  assumes "reads s mid Q m" "\<And>c i. i \<le> length s \<Longrightarrow> written_as (drop i s) mid \<Longrightarrow> Q c \<Longrightarrow> reads s rest P (f (c, i))"
  shows "reads s rest P (kbind m f)"
proof -
  obtain c i where m: "\<And>u. m u = Ok (c, i) u" "i \<le> length s" "written_as (drop i s) mid" "Q c"
    using assms(1) by (auto simp: reads_def)
  then have "kbind m f = f (c, i)" by (auto simp: kbind_def)
  with assms(2) [OF m(2-4)] show ?thesis by simp
qed

lemma reads_peek:
  assumes "i \<le> length s" "written_as (drop i s) ts" "CHR 0x00 \<notin> set cs"
    and "\<And>j. hchar ts \<in> set cs \<Longrightarrow> j \<le> length s \<Longrightarrow> written_as (drop j s) ts \<Longrightarrow> reads s rest P (f j)"
    and "\<And>j. hchar ts \<notin> set cs \<Longrightarrow> j \<le> length s \<Longrightarrow> written_as (drop j s) ts \<Longrightarrow> reads s rest P (g j)"
  shows "reads s rest P (case peek s i cs of (b, j) \<Rightarrow> if b then f j else g j)"
proof (cases "hchar ts \<in> set cs")
  case True
  from assms(4) [OF True skip_written [OF assms(1,2)]] True show ?thesis by (simp only: peek_written [OF assms(1-3)] prod.case if_True)
next
  case False
  from assms(5) [OF False skip_written [OF assms(1,2)]] False show ?thesis by (simp only: peek_written [OF assms(1-3)] prod.case if_False)
qed

text \<open>The next token is one of the symbols \<open>cs\<close>, or there is none.\<close>

definition follows :: "string \<Rightarrow> stok list \<Rightarrow> bool" where
  "follows cs ts \<longleftrightarrow> ts = [] \<or> (\<exists>c r. ts = TS c # r \<and> c \<in> set cs)"

lemma follows_Nil [simp]: "follows cs []"
  by (simp add: follows_def)

lemma follows_Cons [simp]: "follows cs (t # ts) \<longleftrightarrow> (\<exists>c. t = TS c \<and> c \<in> set cs)"
  by (auto simp: follows_def)

lemma hchar_TS [simp]: "hchar (TS c # ts) = (if c = CHR ''+'' then CHR ''>'' else c)"
  by (simp add: hchar_def)

lemma hchar_Nil [simp]: "hchar [] = CHR 0x00"
  by (simp add: hchar_def)

lemma follows_hchar: "follows cs ts \<Longrightarrow> CHR ''+'' \<notin> set cs \<Longrightarrow> hchar ts = CHR 0x00 \<or> hchar ts \<in> set cs"
  by (auto simp: follows_def)

lemma written_as_append: "written_as r (xs @ ys) \<Longrightarrow> \<exists>r'. written_as r' ys"
proof (induction xs arbitrary: r)
  case (Cons x xs)
  then have "\<exists>r'. written_as r' (xs @ ys)" by (cases x) (auto elim: written_as_word written_as_symbol)
  with Cons.IH show ?case by blast
qed auto

lemma hchar_TW:
  assumes "written_as r (xs @ TW w # ts)"
  shows "plain (hchar (TW w # ts))" "hchar (TW w # ts) = char_at w"
proof -
  obtain r' where "written_as r' (TW w # ts)" using written_as_append [OF assms] by blast
  then have "w \<noteq> [] \<and> (\<forall>c \<in> set w. plain c)" by (rule written_as_word) blast
  then show "plain (hchar (TW w # ts))" "hchar (TW w # ts) = char_at w" by (cases w; simp add: hchar_def)+
qed

lemma toks_redirs_simps [simp]: "toks_redirs [] = []" "toks_redirs (r # rs) = TS (fst r) # TW (snd r) # toks_redirs rs"
  by (simp_all add: toks_redirs_def)

lemma parseredirs_reads:
  assumes "CHR 0x00 \<notin> set s" "hchar rest \<notin> set ''<>''"
    and "ok_redirs rs" "ps \<le> length s" "written_as (drop ps s) (toks_redirs rs @ rest)" "length rs < n"
  shows "reads s rest (\<lambda>d. deref s d = fold mean_redir rs (deref s c)) (parseredirs n c s ps)"
  using assms(3-)
proof (induction rs arbitrary: c ps n)
  case Nil
  then obtain m where n: "n = Suc m" by (cases n) auto
  show ?case unfolding n parseredirs.simps
    by (rule reads_peek [where ts = rest]) (use Nil assms(2) in \<open>auto intro: reads_kret\<close>)
next
  case (Cons r rs)
  then obtain m where n: "n = Suc m" by (cases n) auto
  obtain q f where r: "r = (q, f)" by fastforce
  have q: "q \<in> set ''<>+''" "ok_redirs rs" using Cons.prems(1) r by (auto simp: ok_redirs_def)
  have w: "written_as (drop ps s) (TS q # TW f # toks_redirs rs @ rest)" using Cons.prems(3) r by simp
  show ?case unfolding n parseredirs.simps
  proof (rule reads_peek [OF Cons.prems(2) w])
    fix j assume j: "j \<le> length s" "written_as (drop j s) (TS q # TW f # toks_redirs rs @ rest)"
    note t = gettoken_written [OF j(1) assms(1) j(2)]
    note g = gettoken_written [OF t(2) assms(1) t(3)]
    let ?c = "redir c (t_ret (gettoken s j)) (t_q (gettoken s (t_ps (gettoken s j)))) (t_eq (gettoken s (t_ps (gettoken s j))))"
    have d: "deref s ?c = mean_redir r (deref s c)" using t(1) g(4) deref_redir [OF q(1)] r by (simp add: tok_ret_def)
    have "reads s rest (\<lambda>d. deref s d = fold mean_redir rs (deref s ?c)) (parseredirs m ?c s (t_ps (gettoken s (t_ps (gettoken s j)))))"
      using Cons.IH [OF q(2) g(2,3)] Cons.prems(4) n by simp
    then show "reads s rest (\<lambda>d. deref s d = fold mean_redir (r # rs) (deref s c)) (let t = gettoken s j; f = gettoken s (t_ps t) in
       if t_ret f \<noteq> CHR ''a'' then upanic ''missing file for redirection''
       else parseredirs m (redir c (t_ret t) (t_q f) (t_eq f)) s (t_ps f))"
      using g(1) d by (simp add: Let_def tok_ret_def)
  qed (use q(1) in auto)
qed

definition words_then :: "(string \<times> redirs) list \<Rightarrow> acmd \<Rightarrow> acmd" where
  "words_then ws a = fold (\<lambda>w a. fold mean_redir (snd w) (add_word (fst w) a)) ws a"

lemma words_then_exec:
  "words_then ws (fold mean_redir rs (AExec xs)) = fold mean_redir (rs @ concat (map snd ws)) (AExec (xs @ map fst ws))"
proof (induction ws arbitrary: rs xs)
  case (Cons w ws)
  have "words_then (w # ws) (fold mean_redir rs (AExec xs)) =
      words_then ws (fold mean_redir (snd w) (add_word (fst w) (fold mean_redir rs (AExec xs))))"
    by (simp only: words_then_def fold_simps)
  also have "\<dots> = words_then ws (fold mean_redir (rs @ snd w) (AExec (xs @ [fst w])))"
    by (simp only: add_word_redirs add_word.simps fold_append comp_apply)
  also have "\<dots> = fold mean_redir ((rs @ snd w) @ concat (map snd ws)) (AExec ((xs @ [fst w]) @ map fst ws))" by (rule Cons.IH)
  finally show ?case by (simp only: list.map concat.simps append_assoc append_Cons append_Nil)
qed (simp add: words_then_def)

definition toks_words :: "(string \<times> redirs) list \<Rightarrow> stok list" where
  "toks_words ws = concat (map (\<lambda>w. TW (fst w) # toks_redirs (snd w)) ws)"

lemma toks_words_simps [simp]: "toks_words [] = []" "toks_words (w # ws) = TW (fst w) # toks_redirs (snd w) @ toks_words ws"
  by (simp_all add: toks_words_def)

lemma length_toks_redirs: "length (toks_redirs rs) = 2 * length rs"
  by (induction rs) auto

lemma plain_no_symbol: "plain c \<Longrightarrow> set cs \<subseteq> set symbol_chars \<Longrightarrow> c \<notin> set cs"
  by (auto simp: plain_def)

lemma parseargs_reads:
  assumes "CHR 0x00 \<notin> set s" "follows ''|)&;'' rest"
    and "\<forall>w \<in> set ws. ok_redirs (snd w)" "argc + length ws < MAXARGS" "ps \<le> length s"
    and "written_as (drop ps s) (toks_words ws @ rest)" "length (toks_words ws) < n"
  shows "reads s rest (\<lambda>d. deref s d = words_then ws (deref s c)) (parseargs n argc c s ps)"
  using assms(3-)
proof (induction ws arbitrary: argc c ps n)
  case Nil
  then obtain m where n: "n = Suc m" by (cases n) auto
  show ?case unfolding n parseargs.simps
  proof (rule reads_peek [where ts = rest])
    fix j assume j: "hchar rest \<notin> set ''|)&;''" "j \<le> length s" "written_as (drop j s) rest"
    then have "rest = []" using assms(2) by (auto simp: follows_def)
    with j have w: "written_as (drop j s) []" by simp
    have "at s (skip s j) = CHR 0x00" using written_as_skip(2) [OF j(2) w] by simp
    then have "gettoken s j = \<lparr>t_ret = CHR 0x00, t_q = skip s j, t_eq = skip s j, t_ps = skip s j\<rparr>" by (simp add: gettoken_def Let_def)
    with skip_written [OF j(2) w] \<open>rest = []\<close>
    show "reads s rest (\<lambda>d. deref s d = words_then [] (deref s c)) (let t = gettoken s j in
       if t_ret t = CHR 0x00 then kret (c, t_ps t)
       else if t_ret t \<noteq> CHR ''a'' then upanic ''syntax''
       else let c = add_arg (t_q t, t_eq t) c; argc = Suc argc in
         if MAXARGS \<le> argc then upanic ''too many args''
         else kbind (parseredirs m c s (t_ps t)) (\<lambda>(c, ps). parseargs m argc c s ps))"
      by (auto simp: Let_def words_then_def intro: reads_kret)
  qed (use Nil in \<open>auto simp: words_then_def intro: reads_kret\<close>)
next
  case (Cons w ws)
  then obtain m where n: "n = Suc m" by (cases n) auto
  let ?ts = "toks_words (w # ws) @ rest" and ?mid = "toks_words ws @ rest"
  have p: "plain (hchar ?ts)" using hchar_TW [of "drop ps s" "[]" "fst w"] Cons.prems(4) by simp
  have no: "hchar ?mid \<notin> set ''<>''"
  proof (cases ws)
    case Nil
    with follows_hchar [OF assms(2)] show ?thesis by auto
  next
    case (Cons v vs)
    have "written_as (drop ps s) ((TW (fst w) # toks_redirs (snd w)) @ TW (fst v) # toks_redirs (snd v) @ toks_words vs @ rest)"
      using Cons.prems(4) Cons by simp
    from hchar_TW(1) [OF this] have "plain (hchar ?mid)" using Cons by simp
    then show ?thesis by (rule plain_no_symbol) (auto simp: symbol_chars_def)
  qed
  show ?case unfolding n parseargs.simps
  proof (rule reads_peek [OF Cons.prems(3,4)])
    fix j assume j: "j \<le> length s" "written_as (drop j s) ?ts"
    then have jw: "written_as (drop j s) (TW (fst w) # toks_redirs (snd w) @ ?mid)" by simp
    note t = gettoken_written [OF j(1) assms(1) jw]
    let ?t = "gettoken s j"
    let ?c = "add_arg (t_q ?t, t_eq ?t) c"
    have "reads s rest (\<lambda>d. deref s d = words_then (w # ws) (deref s c))
        (kbind (parseredirs m ?c s (t_ps ?t)) (\<lambda>(c, ps). parseargs m (Suc argc) c s ps))"
    proof (rule reads_kbind [OF parseredirs_reads [OF assms(1) no _ t(2,3)]])
      fix d i assume i: "i \<le> length s" "written_as (drop i s) ?mid" "deref s d = fold mean_redir (snd w) (deref s ?c)"
      have "reads s rest (\<lambda>e. deref s e = words_then ws (deref s d)) (parseargs m (Suc argc) d s i)"
        using Cons.prems(1,2,5) i n by (intro Cons.IH) auto
      then show "reads s rest (\<lambda>d. deref s d = words_then (w # ws) (deref s c)) ((\<lambda>(c, ps). parseargs m (Suc argc) c s ps) (d, i))"
        using i(3) t(4) by (simp add: words_then_def deref_add)
    qed (use Cons.prems(1,5) n length_toks_redirs [of "snd w"] in auto)
    then show "reads s rest (\<lambda>d. deref s d = words_then (w # ws) (deref s c)) (let t = gettoken s j in
       if t_ret t = CHR 0x00 then kret (c, t_ps t)
       else if t_ret t \<noteq> CHR ''a'' then upanic ''syntax''
       else let c = add_arg (t_q t, t_eq t) c; argc = Suc argc in
         if MAXARGS \<le> argc then upanic ''too many args''
         else kbind (parseredirs m c s (t_ps t)) (\<lambda>(c, ps). parseargs m argc c s ps))"
      using t(1) Cons.prems(2) by (simp add: Let_def tok_ret_def)
  qed (use plain_no_symbol [OF p, of "''|)&;''"] in \<open>auto simp: symbol_chars_def\<close>)
qed

lemma parsebacks_reads:
  assumes "CHR 0x00 \<notin> set s" "hchar rest \<noteq> CHR ''&''"
    and "ps \<le> length s" "written_as (drop ps s) (replicate k (TS CHR ''&'') @ rest)" "k < n"
  shows "reads s rest (\<lambda>d. deref s d = (ABack ^^ k) (deref s c)) (parsebacks n c s ps)"
  using assms(3-)
proof (induction k arbitrary: c ps n)
  case 0
  then obtain m where n: "n = Suc m" by (cases n) auto
  show ?case unfolding n parsebacks.simps
    by (rule reads_peek [where ts = rest]) (use 0 assms(2) in \<open>auto intro: reads_kret\<close>)
next
  case (Suc k)
  then obtain m where n: "n = Suc m" by (cases n) auto
  have w: "written_as (drop ps s) (TS CHR ''&'' # replicate k (TS CHR ''&'') @ rest)" using Suc.prems(2) by simp
  show ?case unfolding n parsebacks.simps
  proof (rule reads_peek [OF Suc.prems(1) w])
    fix j assume j: "j \<le> length s" "written_as (drop j s) (TS CHR ''&'' # replicate k (TS CHR ''&'') @ rest)"
    note t = gettoken_written [OF j(1) assms(1) j(2)]
    have "reads s rest (\<lambda>d. deref s d = (ABack ^^ k) (deref s (BackC c))) (parsebacks m (BackC c) s (t_ps (gettoken s j)))"
      using t(2,3) Suc.prems(3) n by (intro Suc.IH) auto
    then show "reads s rest (\<lambda>d. deref s d = (ABack ^^ Suc k) (deref s c)) (parsebacks m (BackC c) s (t_ps (gettoken s j)))"
      by (simp add: funpow_swap1)
  qed auto
qed

text \<open>After a symbol \<open>a\<close> that is there, the rest is read by \<open>f\<close>.\<close>

lemma reads_token:
  assumes "CHR 0x00 \<notin> set s" "ps \<le> length s" "written_as (drop ps s) (TS a # ts)" "a \<noteq> CHR ''+''" "a \<noteq> CHR 0x00"
    and "\<And>i. i \<le> length s \<Longrightarrow> written_as (drop i s) ts \<Longrightarrow> reads s rest P (f i)"
  shows "reads s rest P (case peek s ps [a] of (b, j) \<Rightarrow> if b then f (t_ps (gettoken s j)) else g j)"
proof (rule reads_peek [OF assms(2,3)])
  fix j assume j: "j \<le> length s" "written_as (drop j s) (TS a # ts)"
  show "reads s rest P (f (t_ps (gettoken s j)))" using gettoken_written [OF j(1) assms(1) j(2)] by (intro assms(6))
qed (use assms(4,5) in auto)

lemma reads_no_token:
  assumes "ps \<le> length s" "written_as (drop ps s) ts" "hchar ts \<noteq> a" "a \<noteq> CHR 0x00"
    and "\<And>i. i \<le> length s \<Longrightarrow> written_as (drop i s) ts \<Longrightarrow> reads s rest P (g i)"
  shows "reads s rest P (case peek s ps [a] of (b, j) \<Rightarrow> if b then f j else g j)"
  by (rule reads_peek [OF assms(1,2)]) (use assms in auto)

lemma reads_pair:
  assumes "reads s rest Q m" "\<And>d. Q d \<Longrightarrow> P (k d)"
  shows "reads s rest P (kbind m (\<lambda>(d, ps). kret (k d, ps)))"
  by (rule reads_kbind [OF assms(1)]) (use assms(2) in \<open>auto intro: reads_kret\<close>)

lemma follows_mono: "follows cs ts \<Longrightarrow> set cs \<subseteq> set ds \<Longrightarrow> follows ds ts"
  by (auto simp: follows_def)

text \<open>One lemma for every production of the grammar.\<close>

lemma line_end:
  assumes "CHR 0x00 \<notin> set s" "reads s (replicate k (TS CHR ''&'') @ rest) (\<lambda>c. deref s c = a) (parsepipe m s ps)"
    and "follows '')'' rest" "k < m"
  shows "reads s rest (\<lambda>c. deref s c = (ABack ^^ k) a) (parseline (Suc m) s ps)"
  unfolding parseline.simps
proof (rule reads_kbind [OF assms(2)], clarify)
  fix c i assume i: "i \<le> length s" "written_as (drop i s) (replicate k (TS CHR ''&'') @ rest)"
  have h: "hchar rest \<noteq> CHR ''&''" "hchar rest \<noteq> CHR '';''" using follows_hchar [OF assms(3)] by auto
  have "reads s rest (\<lambda>d. deref s d = (ABack ^^ k) (deref s c)) (parsebacks m c s i)"
    using i h assms(4) by (intro parsebacks_reads assms(1)) auto
  then show "reads s rest (\<lambda>d. deref s d = (ABack ^^ k) (deref s c)) (kbind (parsebacks m c s i) (\<lambda>(c, ps).
      case peek s ps '';'' of (b, ps) \<Rightarrow>
      if b then kbind (parseline m s (t_ps (gettoken s ps))) (\<lambda>(d, ps). kret (ListC c d, ps)) else kret (c, ps)))"
    by (rule reads_kbind) (use h in \<open>auto intro!: reads_no_token reads_kret\<close>)
qed

lemma line_seq:
  assumes "CHR 0x00 \<notin> set s"
    and "reads s (replicate k (TS CHR ''&'') @ TS CHR '';'' # ts) (\<lambda>c. deref s c = a) (parsepipe m s ps)"
    and "\<And>q. q \<le> length s \<Longrightarrow> written_as (drop q s) ts \<Longrightarrow> reads s rest (\<lambda>c. deref s c = b) (parseline m s q)" "k < m"
  shows "reads s rest (\<lambda>c. deref s c = AList ((ABack ^^ k) a) b) (parseline (Suc m) s ps)"
  unfolding parseline.simps
proof (rule reads_kbind [OF assms(2)], clarify)
  fix c i assume i: "i \<le> length s" "written_as (drop i s) (replicate k (TS CHR ''&'') @ TS CHR '';'' # ts)"
  have "reads s (TS CHR '';'' # ts) (\<lambda>d. deref s d = (ABack ^^ k) (deref s c)) (parsebacks m c s i)"
    using i assms(4) by (intro parsebacks_reads assms(1)) auto
  then show "reads s rest (\<lambda>d. deref s d = AList ((ABack ^^ k) (deref s c)) b) (kbind (parsebacks m c s i) (\<lambda>(c, ps).
      case peek s ps '';'' of (b, ps) \<Rightarrow>
      if b then kbind (parseline m s (t_ps (gettoken s ps))) (\<lambda>(d, ps). kret (ListC c d, ps)) else kret (c, ps)))"
  proof (rule reads_kbind, clarify)
    fix d j assume j: "j \<le> length s" "written_as (drop j s) (TS CHR '';'' # ts)" "deref s d = (ABack ^^ k) (deref s c)"
    show "reads s rest (\<lambda>e. deref s e = AList ((ABack ^^ k) (deref s c)) b) (case peek s j '';'' of (b, ps) \<Rightarrow>
        if b then kbind (parseline m s (t_ps (gettoken s ps))) (\<lambda>(e, ps). kret (ListC d e, ps)) else kret (d, ps))"
      by (rule reads_token [OF assms(1) j(1,2)]) (use assms(3) j(3) in \<open>auto intro!: reads_pair\<close>)
  qed
qed

lemma pipe_end:
  assumes "reads s rest (\<lambda>c. deref s c = a) (parseexec m s ps)" "follows '')&;'' rest"
  shows "reads s rest (\<lambda>c. deref s c = a) (parsepipe (Suc m) s ps)"
  unfolding parsepipe.simps
proof (rule reads_kbind [OF assms(1)], clarify)
  fix c i assume i: "i \<le> length s" "written_as (drop i s) rest"
  have "hchar rest \<noteq> CHR ''|''" using follows_hchar [OF assms(2)] by auto
  with i show "reads s rest (\<lambda>d. deref s d = deref s c) (case peek s i ''|'' of (b, ps) \<Rightarrow>
      if b then kbind (parsepipe m s (t_ps (gettoken s ps))) (\<lambda>(d, ps). kret (PipeC c d, ps)) else kret (c, ps))"
    by (auto intro!: reads_no_token reads_kret)
qed

lemma pipe_pipe:
  assumes "CHR 0x00 \<notin> set s" "reads s (TS CHR ''|'' # ts) (\<lambda>c. deref s c = a) (parseexec m s ps)"
    and "\<And>q. q \<le> length s \<Longrightarrow> written_as (drop q s) ts \<Longrightarrow> reads s rest (\<lambda>c. deref s c = b) (parsepipe m s q)"
  shows "reads s rest (\<lambda>c. deref s c = APipe a b) (parsepipe (Suc m) s ps)"
  unfolding parsepipe.simps
proof (rule reads_kbind [OF assms(2)], clarify)
  fix c j assume j: "j \<le> length s" "written_as (drop j s) (TS CHR ''|'' # ts)"
  show "reads s rest (\<lambda>d. deref s d = APipe (deref s c) b) (case peek s j ''|'' of (b, ps) \<Rightarrow>
      if b then kbind (parsepipe m s (t_ps (gettoken s ps))) (\<lambda>(d, ps). kret (PipeC c d, ps)) else kret (c, ps))"
    by (rule reads_token [OF assms(1) j]) (use assms(3) in \<open>auto intro!: reads_pair\<close>)
qed

lemma exec_block:
  assumes "CHR 0x00 \<notin> set s" "ps \<le> length s" "written_as (drop ps s) (TS CHR ''('' # ts)"
    and "\<And>q. q \<le> length s \<Longrightarrow> written_as (drop q s) ts \<Longrightarrow>
      reads s (TS CHR '')'' # toks_redirs rs @ rest) (\<lambda>c. deref s c = a) (parseline m s q)"
    and "ok_redirs rs" "hchar rest \<notin> set ''<>''" "length rs < m"
  shows "reads s rest (\<lambda>c. deref s c = fold mean_redir rs a) (parseexec (Suc (Suc m)) s ps)"
  unfolding parseexec.simps
proof (rule reads_peek [OF assms(2,3)])
  fix j assume j: "j \<le> length s" "written_as (drop j s) (TS CHR ''('' # ts)"
  show "reads s rest (\<lambda>c. deref s c = fold mean_redir rs a) (parseblock (Suc m) s j)"
    unfolding parseblock.simps
  proof (rule reads_token [OF assms(1) j])
    fix q assume "q \<le> length s" "written_as (drop q s) ts"
    from assms(4) [OF this] show "reads s rest (\<lambda>c. deref s c = fold mean_redir rs a) (kbind (parseline m s q) (\<lambda>(c, ps).
       case peek s ps '')'' of (b, ps) \<Rightarrow>
       if b then parseredirs m c s (t_ps (gettoken s ps)) else upanic ''syntax - missing )''))"
    proof (rule reads_kbind, clarify)
      fix c i assume i: "i \<le> length s" "written_as (drop i s) (TS CHR '')'' # toks_redirs rs @ rest)"
      show "reads s rest (\<lambda>d. deref s d = fold mean_redir rs (deref s c)) (case peek s i '')'' of (b, ps) \<Rightarrow>
          if b then parseredirs m c s (t_ps (gettoken s ps)) else upanic ''syntax - missing )'')"
        by (rule reads_token [OF assms(1) i]) (use assms(1,5-) in \<open>auto intro!: parseredirs_reads\<close>)
    qed
  qed auto
qed auto

lemma exec_cmd:
  assumes "CHR 0x00 \<notin> set s" "ps \<le> length s" "written_as (drop ps s) (toks_redirs rs @ toks_words ws @ rest)"
    and "ok_redirs rs" "\<forall>w \<in> set ws. ok_redirs (snd w)" "length ws < MAXARGS" "follows ''|)&;'' rest"
    and "length (toks_redirs rs @ toks_words ws) < m"
  shows "reads s rest (\<lambda>c. deref s c = fold mean_redir (rs @ concat (map snd ws)) (AExec (map fst ws))) (parseexec (Suc m) s ps)"
proof -
  let ?mid = "toks_words ws @ rest"
  have hr: "hchar rest \<notin> set ''<>(''" using follows_hchar [OF assms(7)] by auto
  have mid: "hchar ?mid \<notin> set ''<>(''"
  proof (cases ws)
    case (Cons v vs)
    then have "plain (hchar ?mid)" using hchar_TW(1) [of "drop ps s" "toks_redirs rs" "fst v"] assms(3) by simp
    then show ?thesis by (rule plain_no_symbol) (auto simp: symbol_chars_def)
  qed (use hr in simp)
  have first: "hchar (toks_redirs rs @ ?mid) \<noteq> CHR ''(''"
    using mid assms(4) by (cases rs) (auto simp: ok_redirs_def)
  show ?thesis unfolding parseexec.simps
  proof (rule reads_no_token [OF assms(2,3) first])
    fix i assume i: "i \<le> length s" "written_as (drop i s) (toks_redirs rs @ ?mid)"
    have "reads s ?mid (\<lambda>d. deref s d = fold mean_redir rs (deref s (ExecC []))) (parseredirs m (ExecC []) s i)"
      using i mid assms(1,4,8) length_toks_redirs [of rs] by (intro parseredirs_reads) auto
    then show "reads s rest (\<lambda>c. deref s c = fold mean_redir (rs @ concat (map snd ws)) (AExec (map fst ws)))
        (kbind (parseredirs m (ExecC []) s i) (\<lambda>(c, ps). parseargs m 0 c s ps))"
    proof (rule reads_kbind, clarify)
      fix c j assume j: "j \<le> length s" "written_as (drop j s) ?mid" "deref s c = fold mean_redir rs (deref s (ExecC []))"
      have "reads s rest (\<lambda>d. deref s d = words_then ws (deref s c)) (parseargs m 0 c s j)"
        using j assms by (intro parseargs_reads) auto
      with j(3) words_then_exec [of ws rs "[]"]
      show "reads s rest (\<lambda>c. deref s c = fold mean_redir (rs @ concat (map snd ws)) (AExec (map fst ws))) (parseargs m 0 c s j)"
        by (simp only: deref.simps list.map append_Nil)
    qed
  qed auto
qed

lemma parse_reads:
  assumes "CHR 0x00 \<notin> set s"
  shows "ok_line l \<Longrightarrow> follows '')'' rest \<Longrightarrow> ps \<le> length s \<Longrightarrow> written_as (drop ps s) (toks_line l @ rest) \<Longrightarrow>
      4 * length (toks_line l @ rest) + 3 < n \<Longrightarrow> reads s rest (\<lambda>c. deref s c = mean_line l) (parseline n s ps)"
    and "ok_pipe p \<Longrightarrow> follows '')&;'' rest \<Longrightarrow> ps \<le> length s \<Longrightarrow> written_as (drop ps s) (toks_pipe p @ rest) \<Longrightarrow>
      4 * length (toks_pipe p @ rest) + 2 < n \<Longrightarrow> reads s rest (\<lambda>c. deref s c = mean_pipe p) (parsepipe n s ps)"
    and "ok_exec x \<Longrightarrow> follows ''|)&;'' rest \<Longrightarrow> ps \<le> length s \<Longrightarrow> written_as (drop ps s) (toks_exec x @ rest) \<Longrightarrow>
      4 * length (toks_exec x @ rest) + 1 < n \<Longrightarrow> reads s rest (\<lambda>c. deref s c = mean_exec x) (parseexec n s ps)"
proof (induction l and p and x arbitrary: rest ps n and rest ps n and rest ps n)
  case (LEnd p k)
  then obtain m where n: "n = Suc m" by (cases n) auto
  have "follows '')&;'' (replicate k (TS CHR ''&'') @ rest)" using LEnd.prems(2) by (cases k) (auto elim: follows_mono)
  then show ?case unfolding n mean_line.simps using LEnd.prems n by (intro line_end assms LEnd.IH) auto
next
  case (LSeq p k l)
  then obtain m where n: "n = Suc m" by (cases n) auto
  have "follows '')&;'' (replicate k (TS CHR ''&'') @ TS CHR '';'' # toks_line l @ rest)" by (cases k) auto
  then show ?case unfolding n mean_line.simps using LSeq.prems n
    by (intro line_seq [where ts = "toks_line l @ rest"] assms LSeq.IH) auto
next
  case (PEnd x)
  then obtain m where n: "n = Suc m" by (cases n) auto
  show ?case unfolding n mean_pipe.simps using PEnd.prems n by (intro pipe_end PEnd.IH) (auto elim: follows_mono)
next
  case (PPipe x p)
  then obtain m where n: "n = Suc m" by (cases n) auto
  show ?case unfolding n mean_pipe.simps using PPipe.prems n
    by (intro pipe_pipe [where ts = "toks_pipe p @ rest"] assms PPipe.IH) auto
next
  case (XBlock l rs)
  then obtain m where n: "n = Suc (Suc m)" by (cases n; cases "n - 1") auto
  have "hchar rest \<notin> set ''<>''" using follows_hchar [OF XBlock.prems(2)] by auto
  then show ?case unfolding n mean_exec.simps using XBlock.prems n length_toks_redirs [of rs]
    by (intro exec_block [where ts = "toks_line l @ TS CHR '')'' # toks_redirs rs @ rest"] assms XBlock.IH) auto
next
  case (XCmd rs ws)
  then obtain m where n: "n = Suc m" by (cases n) auto
  show ?case unfolding n mean_exec.simps using XCmd.prems n
    by (intro exec_cmd assms) (auto simp: toks_words_def)
qed

text \<open>How many tokens a line has.\<close>

lemma written_as_length: "written_as r ts \<Longrightarrow> length ts \<le> length r"
  by (induction rule: written_as.induct) (auto simp: symbol_text_def neq_Nil_conv)

text \<open>The command as the words of the line after \<open>nulterminate\<close> show it.\<close>

primrec command_of :: "string \<Rightarrow> cmd \<Rightarrow> acmd" where
  "command_of t (ExecC as) = AExec (map (\<lambda>a. text_at t (fst a)) as)"
| "command_of t (RedirC c f e m d) = ARedir (command_of t c) (text_at t f) m d"
| "command_of t (PipeC c d) = APipe (command_of t c) (command_of t d)"
| "command_of t (ListC c d) = AList (command_of t c) (command_of t d)"
| "command_of t (BackC c) = ABack (command_of t c)"

lemma command_of_deref:
  assumes "\<forall>w \<in> words_of c. text_at t (fst w) = word_text s w"
  shows "command_of t c = deref s c"
  using assms by (induction c) auto

lemma parsecmd_reads:
  assumes "CHR 0x00 \<notin> set s" "ok_line l" "written_as s (toks_line l)"
  shows "\<exists>c. parsecmd s u = Ok (c, nulterminate c s) u \<and> deref s c = mean_line l"
proof -
  have "length (toks_line l) \<le> length s" using assms(3) by (rule written_as_length)
  then have "reads s [] (\<lambda>c. deref s c = mean_line l) (parseline (4 * length s + 4) s 0)"
    using assms by (intro parse_reads) auto
  then obtain c i where r: "\<And>u. parseline (4 * length s + 4) s 0 u = Ok (c, i) u" "i \<le> length s" "written_as (drop i s) []" "deref s c = mean_line l"
    by (auto simp: reads_def simp del: parseline.simps)
  have "at s (skip s i) = CHR 0x00" using written_as_skip(2) [OF r(2,3)] by simp
  then have "skip s i = length s"
  proof (rule_tac ccontr)
    assume "skip s i \<noteq> length s" "at s (skip s i) = CHR 0x00"
    then have "s ! skip s i = CHR 0x00" "skip s i < length s" using skip_le [OF r(2)] by (auto simp: at_def)
    with assms(1) show False by (metis nth_mem)
  qed
  with r show ?thesis by (auto simp: parsecmd_def kbind_apply kret_apply peek_def Let_def simp del: parseline.simps)
qed

text \<open>
  C17. The shell understands its grammar. However a command line is written (blanks between the
  tokens, and around them, as one likes), if its tokens are those of a line of the grammar in which a simple command has fewer than
  \<open>MAXARGS\<close> words, then \<open>parsecmd\<close> returns, without a system call, and the command it
  returns, with its words read from the line into which \<open>nulterminate\<close> has written its NULs, is the one the grammar gives it: pipes
  bind stronger than ampersands, those stronger than semicolons, and redirections belong to the
  command around which they stand.
\<close>

theorem parse_roundtrip:
  assumes "CHR 0x00 \<notin> set s" "ok_line l" "written_as s (toks_line l)"
  shows "\<exists>c t. parsecmd s u = Ok (c, t) u \<and> command_of t c = mean_line l"
proof -
  obtain c where c: "parsecmd s u = Ok (c, nulterminate c s) u" "deref s c = mean_line l" using parsecmd_reads [OF assms] by blast
  moreover have "wf_cmd s c" using parsecmd_runs [OF assms(1), of u] c(1) by auto
  then have "command_of (nulterminate c s) c = deref s c"
    by (intro command_of_deref ballI nulterminate_text) (auto simp: wf_cmd_def)
  ultimately show ?thesis by auto
qed

theorem parse_roundtrip_witness:
  "\<exists>c t. parsecmd ''ls|(cat;wc >f)&\<newline>'' \<lparr>u_in = \<lambda>_. [], u_wr = [], u_ans = [], u_calls = [], u_exit = None\<rparr> =
      Ok (c, t) \<lparr>u_in = \<lambda>_. [], u_wr = [], u_ans = [], u_calls = [], u_exit = None\<rparr> \<and>
    command_of t c = ABack (APipe (AExec [''ls'']) (AList (AExec [''cat'']) (ARedir (AExec [''wc'']) ''f'' 0x601 1)))"
proof -
  let ?l = "LEnd (PPipe (XCmd [] [(''ls'', [])]) (PEnd (XBlock (LSeq (PEnd (XCmd [] [(''cat'', [])])) 0
    (LEnd (PEnd (XCmd [] [(''wc'', [(CHR ''>'', ''f'')])])) 0)) []))) 1"
  note d = blanks_def whitespace_def symbol_tok_def symbol_text_def plain_def symbol_chars_def
  have "written_as ''\<newline>'' []" by (rule written_as.nothing) (simp add: d)
  then have "written_as ''&\<newline>'' [TS CHR ''&'']" using written_as.symbol [of "[]" "CHR ''&''" "''\<newline>''"] by (simp add: d)
  then have "written_as '')&\<newline>'' [TS CHR '')'', TS CHR ''&'']" using written_as.symbol [of "[]" "CHR '')''" "''&\<newline>''"] by (simp add: d)
  then have "written_as ''f)&\<newline>'' [TW ''f'', TS CHR '')'', TS CHR ''&'']" using written_as.word [of "[]" "''f''" "'')&\<newline>''"] by (simp add: d)
  then have "written_as '' >f)&\<newline>'' [TS CHR ''>'', TW ''f'', TS CHR '')'', TS CHR ''&'']"
    using written_as.symbol [of "'' ''" "CHR ''>''" "''f)&\<newline>''"] by (simp add: d)
  then have "written_as ''wc >f)&\<newline>'' [TW ''wc'', TS CHR ''>'', TW ''f'', TS CHR '')'', TS CHR ''&'']"
    using written_as.word [of "[]" "''wc''" "'' >f)&\<newline>''"] by (simp add: d)
  then have "written_as '';wc >f)&\<newline>'' [TS CHR '';'', TW ''wc'', TS CHR ''>'', TW ''f'', TS CHR '')'', TS CHR ''&'']"
    using written_as.symbol [of "[]" "CHR '';''" "''wc >f)&\<newline>''"] by (simp add: d)
  then have "written_as ''cat;wc >f)&\<newline>'' [TW ''cat'', TS CHR '';'', TW ''wc'', TS CHR ''>'', TW ''f'', TS CHR '')'', TS CHR ''&'']"
    using written_as.word [of "[]" "''cat''" "'';wc >f)&\<newline>''"] by (simp add: d)
  then have "written_as ''(cat;wc >f)&\<newline>'' [TS CHR ''('', TW ''cat'', TS CHR '';'', TW ''wc'', TS CHR ''>'', TW ''f'', TS CHR '')'', TS CHR ''&'']"
    using written_as.symbol [of "[]" "CHR ''(''" "''cat;wc >f)&\<newline>''"] by (simp add: d)
  then have "written_as ''|(cat;wc >f)&\<newline>'' [TS CHR ''|'', TS CHR ''('', TW ''cat'', TS CHR '';'', TW ''wc'', TS CHR ''>'', TW ''f'', TS CHR '')'', TS CHR ''&'']"
    using written_as.symbol [of "[]" "CHR ''|''" "''(cat;wc >f)&\<newline>''"] by (simp add: d)
  then have "written_as ''ls|(cat;wc >f)&\<newline>'' (toks_line ?l)"
    using written_as.word [of "[]" "''ls''" "''|(cat;wc >f)&\<newline>''"] by (simp add: d)
  moreover have "mean_line ?l = ABack (APipe (AExec [''ls'']) (AList (AExec [''cat'']) (ARedir (AExec [''wc'']) ''f'' 0x601 1)))"
    by (simp add: mean_redir_def)
  moreover have "ok_line ?l" by (simp add: ok_redirs_def)
  ultimately show ?thesis using parse_roundtrip [of "''ls|(cat;wc >f)&\<newline>''" ?l] by simp
qed

end
