(* ===== verification/Umalloc.thy ===== *)
theory Umalloc
  imports Ulib
begin

text \<open>
  \<^verbatim>\<open>user/umalloc.c\<close>, the allocator of the programs. The headers of the blocks live in the memory of the
  process: a header at address \<open>a\<close> has the fields \<open>h_ptr a\<close> and \<open>h_size a\<close>. Addresses are natural numbers;
  user addresses are below \<open>2 ^ 38\<close> and block sizes below \<open>2 ^ 36\<close> bytes, so no pointer expression of the
  code reaches \<open>2 ^ 64\<close>. The sizes are \<open>uint\<close>s and their sums are taken modulo \<open>2 ^ 32\<close>; the argument of
  \<open>sbrk\<close> is an \<open>int\<close> and is truncated to 32 bits. The two loops are partial functions: a ring of
  headers that is not well formed makes them run forever, which is the value \<open>None\<close>.

  The free blocks form a ring in the order of their addresses. It is described by the set \<open>A\<close> of these
  addresses and the function \<open>nxt A\<close> that goes to the next address of \<open>A\<close>, from the last one to the first.
\<close>

subsection \<open>The allocator\<close>

record heap =
  h_ptr :: "nat \<Rightarrow> nat"
  h_size :: "nat \<Rightarrow> nat"
  h_base :: nat
  h_freep :: nat
  h_brk :: nat
  h_limit :: nat

abbreviation HEADER :: nat where "HEADER \<equiv> 16"

partial_function (option) find_place :: "heap \<Rightarrow> nat \<Rightarrow> nat \<Rightarrow> nat option" where
  "find_place h bp p =
     (if bp > p \<and> bp < h_ptr h p then Some p
      else if p \<ge> h_ptr h p \<and> (bp > p \<or> bp < h_ptr h p) then Some p
      else find_place h bp (h_ptr h p))"

definition join_next :: "heap \<Rightarrow> nat \<Rightarrow> nat \<Rightarrow> heap" where
  "join_next h bp p =
     (let n = h_ptr h p in
      if bp + HEADER * h_size h bp = n
      then h\<lparr>h_size := (h_size h)(bp := (h_size h bp + h_size h n) mod 2 ^ 32), h_ptr := (h_ptr h)(bp := h_ptr h n)\<rparr>
      else h\<lparr>h_ptr := (h_ptr h)(bp := n)\<rparr>)"

definition join_prev :: "heap \<Rightarrow> nat \<Rightarrow> nat \<Rightarrow> heap" where
  "join_prev h bp p =
     (if p + HEADER * h_size h p = bp
      then h\<lparr>h_size := (h_size h)(p := (h_size h p + h_size h bp) mod 2 ^ 32), h_ptr := (h_ptr h)(p := h_ptr h bp)\<rparr>
      else h\<lparr>h_ptr := (h_ptr h)(p := bp)\<rparr>)"

definition free_u :: "nat \<Rightarrow> heap \<Rightarrow> heap option" where
  "free_u ap h =
     (let bp = ap - HEADER in
      case find_place h bp (h_freep h) of
        None \<Rightarrow> None
      | Some p \<Rightarrow> Some ((join_prev (join_next h bp p) bp p)\<lparr>h_freep := p\<rparr>))"

text \<open>The kernel's part of \<open>sbrk\<close>: the old size of the process, or an error when it may not grow.\<close>

definition sbrk_h :: "int \<Rightarrow> heap \<Rightarrow> nat option \<times> heap" where
  "sbrk_h n h =
     (let sz = h_brk h in
      if 0 \<le> n then (if sz + nat n \<le> h_limit h then (Some sz, h\<lparr>h_brk := sz + nat n\<rparr>) else (None, h))
      else (Some sz, if nat (- n) \<le> sz then h\<lparr>h_brk := sz - nat (- n)\<rparr> else h))"

definition morecore :: "nat \<Rightarrow> heap \<Rightarrow> (nat \<times> heap) option" where
  "morecore nu h =
     (let nu = (if nu < 4096 then 4096 else nu) in
      case sbrk_h (sint (word_of_nat (nu * HEADER) :: u32)) h of
        (None, h1) \<Rightarrow> Some (0, h1)
      | (Some hp, h1) \<Rightarrow>
          (case free_u (hp + HEADER) (h1\<lparr>h_size := (h_size h1)(hp := nu)\<rparr>) of
             None \<Rightarrow> None
           | Some h2 \<Rightarrow> Some (h_freep h2, h2)))"

definition take_block :: "nat \<Rightarrow> nat \<Rightarrow> nat \<Rightarrow> heap \<Rightarrow> nat \<times> heap" where
  "take_block nunits prevp p h =
     (if h_size h p = nunits then (p + HEADER, h\<lparr>h_ptr := (h_ptr h)(prevp := h_ptr h p), h_freep := prevp\<rparr>)
      else let rest = h_size h p - nunits; q = p + HEADER * rest in
        (q + HEADER, h\<lparr>h_size := (h_size h)(p := rest, q := nunits), h_freep := prevp\<rparr>))"

partial_function (option) malloc_from :: "nat \<Rightarrow> heap \<Rightarrow> nat \<Rightarrow> nat \<Rightarrow> (nat \<times> heap) option" where
  "malloc_from nunits h prevp p =
     (if h_size h p \<ge> nunits then Some (take_block nunits prevp p h)
      else if p = h_freep h then
        Option.bind (morecore nunits h)
          (\<lambda>(q, h1). if q = 0 then Some (0, h1) else malloc_from nunits h1 q (h_ptr h1 q))
      else malloc_from nunits h p (h_ptr h p))"

definition units_for :: "nat \<Rightarrow> nat" where
  "units_for nbytes = (nbytes + HEADER - 1) div HEADER + 1"

definition malloc_init :: "heap \<Rightarrow> heap" where
  "malloc_init h =
     (if h_freep h = 0
      then h\<lparr>h_ptr := (h_ptr h)(h_base h := h_base h), h_freep := h_base h, h_size := (h_size h)(h_base h := 0)\<rparr>
      else h)"

definition malloc_u :: "nat \<Rightarrow> heap \<Rightarrow> (nat \<times> heap) option" where
  "malloc_u nbytes h =
     (let h = malloc_init h in malloc_from (units_for nbytes) h (h_freep h) (h_ptr h (h_freep h)))"

subsection \<open>Rings of addresses\<close>

definition nxt :: "nat set \<Rightarrow> nat \<Rightarrow> nat" where
  "nxt A a = (if \<exists>b\<in>A. a < b then Min {b \<in> A. a < b} else Min A)"

text \<open>The addresses met on the way from \<open>p\<close> to \<open>q\<close>, both included.\<close>

definition path :: "nat set \<Rightarrow> nat \<Rightarrow> nat \<Rightarrow> nat set" where
  "path A p q = (if p \<le> q then {a \<in> A. p \<le> a \<and> a \<le> q} else {a \<in> A. p \<le> a \<or> a \<le> q})"

lemma nxt_up:
  assumes "finite A" "b \<in> A" "a < b"
  shows "nxt A a \<in> A \<and> a < nxt A a \<and> nxt A a \<le> b"
proof -
  have "nxt A a = Min {b \<in> A. a < b}" using assms by (auto simp: nxt_def)
  moreover have "Min {b \<in> A. a < b} \<in> {b \<in> A. a < b}" by (rule Min_in) (use assms in auto)
  moreover have "Min {b \<in> A. a < b} \<le> b" by (rule Min_le) (use assms in auto)
  ultimately show ?thesis by simp
qed

lemma nxt_wrap: "\<not> (\<exists>b\<in>A. a < b) \<Longrightarrow> nxt A a = Min A"
  by (simp add: nxt_def)

lemma nxt_in: "finite A \<Longrightarrow> A \<noteq> {} \<Longrightarrow> nxt A a \<in> A"
proof (cases "\<exists>b\<in>A. a < b")
  case True
  then show "finite A \<Longrightarrow> ?thesis" using nxt_up by blast
next
  case False
  then show "finite A \<Longrightarrow> A \<noteq> {} \<Longrightarrow> ?thesis" by (simp add: nxt_wrap)
qed

lemma nxt_eqI:
  assumes "finite A" "n \<in> A" "a < n" and least: "\<And>b. b \<in> A \<Longrightarrow> a < b \<Longrightarrow> n \<le> b"
  shows "nxt A a = n"
  using nxt_up [OF assms(1-3)] least [of "nxt A a"] by simp

lemma nxt_eq_wrapI: "finite A \<Longrightarrow> n \<in> A \<Longrightarrow> (\<And>b. b \<in> A \<Longrightarrow> b \<le> a) \<Longrightarrow> (\<And>b. b \<in> A \<Longrightarrow> n \<le> b) \<Longrightarrow> nxt A a = n"
  by (subst nxt_wrap) (auto intro!: Min_eqI simp: not_less)

lemma nxt_cases:
  assumes "finite A" "A \<noteq> {}"
  obtains "nxt A a \<in> A" "a < nxt A a" "\<And>b. b \<in> A \<Longrightarrow> a < b \<Longrightarrow> nxt A a \<le> b"
  | "nxt A a \<in> A" "\<And>b. b \<in> A \<Longrightarrow> b \<le> a" "\<And>b. b \<in> A \<Longrightarrow> nxt A a \<le> b"
proof (cases "\<exists>b\<in>A. a < b")
  case True
  then show ?thesis using nxt_up [OF assms(1)] by (intro that(1)) blast+
next
  case False
  then show ?thesis using assms by (intro that(2)) (auto simp: nxt_wrap not_less)
qed

lemma path_step:
  assumes "finite A" "p \<in> A" "q \<in> A" "p \<noteq> q"
  shows "path A (nxt A p) q = path A p q - {p}"
proof -
  have A: "A \<noteq> {}" using assms(2) by blast
  show ?thesis
  proof (rule nxt_cases [OF assms(1) A, of p])
    assume n: "nxt A p \<in> A" "p < nxt A p" "\<And>b. b \<in> A \<Longrightarrow> p < b \<Longrightarrow> nxt A p \<le> b"
    have "x \<in> A \<Longrightarrow> nxt A p \<le> x \<longleftrightarrow> p < x" for x using n(2) n(3) [of x] by linarith
    then show ?thesis using n(2) assms(3,4) by (auto simp: path_def)
  next
    assume n: "nxt A p \<in> A" "\<And>b. b \<in> A \<Longrightarrow> b \<le> p" "\<And>b. b \<in> A \<Longrightarrow> nxt A p \<le> b"
    have q: "q < p" "nxt A p \<le> q" using assms(4) n(2) [OF assms(3)] n(3) [OF assms(3)] by linarith+
    have "x \<in> A \<Longrightarrow> p \<le> x \<longleftrightarrow> x = p" "x \<in> A \<Longrightarrow> nxt A p \<le> x" for x
      using n(2) [of x] n(3) [of x] by auto
    then show ?thesis using q by (auto simp: path_def)
  qed
qed

lemma path_start: "p \<in> A \<Longrightarrow> p \<in> path A p q"
  by (simp add: path_def)

lemma finite_path: "finite A \<Longrightarrow> finite (path A p q)"
  by (simp add: path_def)

text \<open>Induction along the ring, towards \<open>q\<close>.\<close>

lemma ring_induct [consumes 3, case_names here step]:
  assumes "finite A" "p \<in> A" "q \<in> A"
    and here: "P q" and step: "\<And>p. p \<in> A \<Longrightarrow> p \<noteq> q \<Longrightarrow> P (nxt A p) \<Longrightarrow> P p"
  shows "P p"
  using assms(2)
proof (induction "card (path A p q)" arbitrary: p rule: less_induct)
  case less
  show ?case
  proof (cases "p = q")
    case False
    have "path A (nxt A p) q \<subset> path A p q"
      using path_step [OF assms(1) less(2) assms(3) False] path_start [OF less(2)] by blast
    then have "card (path A (nxt A p) q) < card (path A p q)"
      using finite_path [OF assms(1)] by (simp add: psubset_card_mono)
    then show ?thesis using less(1,2) step [OF less(2) False] nxt_in [OF assms(1)] by blast
  qed (use here in simp)
qed

lemma nxt_inj:
  assumes "finite A" "a \<in> A" "b \<in> A" "nxt A a = nxt A b"
  shows "a = b"
proof -
  have A: "A \<noteq> {}" using assms(2) by blast
  have *: "\<not> x < y" if "x \<in> A" "y \<in> A" "nxt A x = nxt A y" for x y
  proof
    assume "x < y"
    then have "x < nxt A x" "nxt A x \<le> y" using nxt_up [OF assms(1) that(2)] by auto
    then show False using that \<open>x < y\<close> nxt_cases [OF assms(1) A, of y]
      by (metis not_less order_trans le_less)
  qed
  show ?thesis using * [of a b] * [of b a] assms by simp
qed

lemma nxt_remove_same:
  assumes "finite A" "a \<in> A" "x \<in> A" "a \<noteq> x" "nxt A a = x"
  shows "nxt (A - {x}) a = nxt A x"
proof -
  have A: "A \<noteq> {}" "finite (A - {x})" using assms by auto
  show ?thesis
  proof (cases "a < x")
    case up: True
    have gap: "b \<in> A \<Longrightarrow> a < b \<Longrightarrow> x \<le> b" for b using nxt_up [OF assms(1), of b a] assms(5) by simp
    show ?thesis
    proof (rule nxt_cases [OF assms(1) A(1), of x])
      assume n: "nxt A x \<in> A" "x < nxt A x" "\<And>b. b \<in> A \<Longrightarrow> x < b \<Longrightarrow> nxt A x \<le> b"
      have "nxt A x \<le> b" if "b \<in> A - {x}" "a < b" for b using gap [of b] n(3) [of b] that by simp
      then show ?thesis using n(1,2) up A(2) by (intro nxt_eqI) simp_all
    next
      assume n: "nxt A x \<in> A" "\<And>b. b \<in> A \<Longrightarrow> b \<le> x" "\<And>b. b \<in> A \<Longrightarrow> nxt A x \<le> b"
      have "b \<le> a" if "b \<in> A - {x}" for b using gap [of b] n(2) [of b] that by fastforce
      moreover have "nxt A x \<noteq> x" using n(3) [OF assms(2)] up by simp
      ultimately show ?thesis using n(1,3) A(2) by (intro nxt_eq_wrapI) simp_all
    qed
  next
    case False
    then have "x < a" using assms(4) by simp
    have top: "b \<in> A \<Longrightarrow> b \<le> a" for b using nxt_up [OF assms(1), of b a] assms(5) False by force
    then have "x = Min A" using nxt_wrap [of A a] assms(5) by (simp add: not_less)
    then have wrap: "b \<in> A \<Longrightarrow> b \<le> a" "b \<in> A \<Longrightarrow> x \<le> b" for b using top assms(1) by simp_all
    have n: "nxt A x \<in> A" "x < nxt A x" "\<And>b. b \<in> A \<Longrightarrow> x < b \<Longrightarrow> nxt A x \<le> b"
      using nxt_up [OF assms(1)] \<open>x < a\<close> assms(2) by blast+
    have "nxt A x \<le> b" if "b \<in> A - {x}" for b using wrap(2) [of b] n(3) [of b] that by simp
    then show ?thesis using n(1,2) wrap(1) A(2) by (intro nxt_eq_wrapI) simp_all
  qed
qed

lemma nxt_remove_other:
  assumes "finite A" "a \<in> A" "a \<noteq> x" "nxt A a \<noteq> x"
  shows "nxt (A - {x}) a = nxt A a"
proof -
  have A: "A \<noteq> {}" "finite (A - {x})" using assms by auto
  show ?thesis
  proof (rule nxt_cases [OF assms(1) A(1), of a])
    assume "nxt A a \<in> A" "a < nxt A a" "\<And>b. b \<in> A \<Longrightarrow> a < b \<Longrightarrow> nxt A a \<le> b"
    then show ?thesis using A(2) assms(4) by (intro nxt_eqI) simp_all
  next
    assume "nxt A a \<in> A" "\<And>b. b \<in> A \<Longrightarrow> b \<le> a" "\<And>b. b \<in> A \<Longrightarrow> nxt A a \<le> b"
    then show ?thesis using A(2) assms(4) by (intro nxt_eq_wrapI) simp_all
  qed
qed

lemma nxt_remove:
  "finite A \<Longrightarrow> a \<in> A \<Longrightarrow> x \<in> A \<Longrightarrow> a \<noteq> x \<Longrightarrow> nxt (A - {x}) a = (if nxt A a = x then nxt A x else nxt A a)"
  by (simp add: nxt_remove_same nxt_remove_other)

text \<open>The place of a new address: behind the last one below it.\<close>

definition place :: "nat set \<Rightarrow> nat \<Rightarrow> nat \<Rightarrow> bool" where
  "place A bp t \<longleftrightarrow> t \<in> A \<and> t < bp \<and> (\<forall>a\<in>A. a < bp \<longrightarrow> a \<le> t)"

lemma place_exists:
  assumes "finite A" "b \<in> A" "b < bp"
  shows "\<exists>t. place A bp t"
proof -
  have "Max {a \<in> A. a < bp} \<in> {a \<in> A. a < bp}" by (rule Max_in) (use assms in auto)
  moreover have "a \<le> Max {a \<in> A. a < bp}" if "a \<in> A" "a < bp" for a
    by (rule Max_ge) (use assms that in auto)
  ultimately show ?thesis unfolding place_def by blast
qed

lemma nxt_insert:
  assumes "finite A" "bp \<notin> A" "place A bp t" "a \<in> A"
  shows "nxt (insert bp A) t = bp" "nxt (insert bp A) bp = nxt A t" "a \<noteq> t \<Longrightarrow> nxt (insert bp A) a = nxt A a"
proof -
  have t: "t \<in> A" "t < bp" "\<And>b. b \<in> A \<Longrightarrow> b < bp \<Longrightarrow> b \<le> t" "A \<noteq> {}" using assms(3) by (auto simp: place_def)
  show 1: "nxt (insert bp A) t = bp"
  proof (rule nxt_eqI)
    show "bp \<le> b" if "b \<in> insert bp A" "t < b" for b using t(3) [of b] that by fastforce
  qed (use assms t in auto)
  have rm: "insert bp A - {bp} = A" using assms(2) by simp
  show "nxt (insert bp A) bp = nxt A t"
    using nxt_remove [of "insert bp A" t bp] assms t 1 by (simp add: rm)
  show "nxt (insert bp A) a = nxt A a" if "a \<noteq> t"
  proof -
    have "nxt (insert bp A) a \<noteq> bp" using nxt_inj [of "insert bp A" a t] assms t(1) 1 that by auto
    moreover have "a \<noteq> bp" using assms by blast
    ultimately show ?thesis using nxt_remove [of "insert bp A" a bp] assms by (simp add: rm)
  qed
qed

subsection \<open>The heap\<close>

text \<open>
  \<open>A\<close> are the addresses of the headers of the free blocks, \<open>base\<close> among them, \<open>U\<close> those of the blocks
  in use. No two blocks overlap, and the headers of the free blocks are linked in a ring.
\<close>

definition spaced :: "heap \<Rightarrow> nat set \<Rightarrow> bool" where
  "spaced h S \<longleftrightarrow>
     (\<forall>a\<in>S. a + HEADER * h_size h a \<le> h_brk h \<and> (a \<noteq> h_base h \<longrightarrow> 0 < h_size h a \<and> h_base h + HEADER \<le> a)) \<and>
     (\<forall>a\<in>S. \<forall>b\<in>S. a < b \<longrightarrow> a + HEADER * h_size h a \<le> b)"

definition bounded :: "heap \<Rightarrow> bool" where
  "bounded h \<longleftrightarrow> 0 < h_base h \<and> h_base h + HEADER \<le> h_brk h \<and> h_brk h \<le> 2 ^ 36 \<and> h_limit h \<le> 2 ^ 36"

definition linked :: "heap \<Rightarrow> nat set \<Rightarrow> bool" where
  "linked h A \<longleftrightarrow> finite A \<and> h_base h \<in> A \<and> h_freep h \<in> A \<and> (\<forall>a\<in>A. h_ptr h a = nxt A a)"

definition heap_ok :: "heap \<Rightarrow> nat set \<Rightarrow> nat set \<Rightarrow> bool" where
  "heap_ok h A U \<longleftrightarrow> bounded h \<and> linked h A \<and> A \<inter> U = {} \<and> h_size h (h_base h) = 0 \<and> spaced h (A \<union> U)"

definition bytes_of :: "heap \<Rightarrow> nat set \<Rightarrow> nat set" where
  "bytes_of h S = (\<Union>a\<in>S. {a ..< a + HEADER * h_size h a})"

lemma find_place_ok:
  assumes "finite A" "\<forall>a\<in>A. h_ptr h a = nxt A a" "place A bp t" "bp \<notin> A" "p \<in> A"
    and b: "b \<in> A" "b < bp" "\<forall>a\<in>A. b \<le> a"
  shows "find_place h bp p = Some t"
proof -
  have t: "t \<in> A" "t < bp" "\<And>a. a \<in> A \<Longrightarrow> a < bp \<Longrightarrow> a \<le> t" "A \<noteq> {}" using assms(3) by (auto simp: place_def)
  show ?thesis using assms(1,5) t(1)
  proof (induction rule: ring_induct)
    case here
    have "bp < nxt A t \<or> nxt A t \<le> t"
      using nxt_in [OF assms(1) t(4), of t] t(3) [of "nxt A t"] assms(4) by (cases "nxt A t" bp rule: linorder_cases) auto
    then show ?case using t(1,2) assms(2) by (subst find_place.simps) auto
  next
    case (step p)
    have "\<not> (p < bp \<and> bp < nxt A p)"
      using t(3) [of p] nxt_up [OF assms(1) t(1), of p] t(2) step by force
    moreover have "\<not> (nxt A p \<le> p \<and> (p < bp \<or> bp < nxt A p))"
    proof -
      have "b \<le> nxt A p" "nxt A p \<le> p \<Longrightarrow> t \<le> p"
        using b(3) nxt_in [OF assms(1) t(4)] nxt_up [OF assms(1) t(1), of p] by force+
      then show ?thesis using t(3) [of p] step b nxt_cases [OF assms(1) t(4), of p] t(1)
        by (metis le_antisym not_less order_trans le_less)
    qed
    ultimately show ?case using step assms(2) by (subst find_place.simps) auto
  qed
qed

lemma spaced_join:
  assumes "spaced h S" "bounded h" "a \<in> S" "n \<in> S" "n \<noteq> h_base h" "a < n" "n = a + HEADER * h_size h a" "0 < a"
    and h': "h_size h' = (h_size h)(a := (h_size h a + h_size h n) mod 2 ^ 32)" "h_base h' = h_base h" "h_brk h' = h_brk h"
  shows "spaced h' (S - {n})" "h_size h' a = h_size h a + h_size h n"
proof -
  have n: "n + HEADER * h_size h n \<le> h_brk h" "h_brk h \<le> 2 ^ 36" using assms(1,2,4) by (auto simp: spaced_def bounded_def)
  then have "h_size h a + h_size h n < 2 ^ 32" using assms(7,8) by simp
  then show sum: "h_size h' a = h_size h a + h_size h n" using h' by simp
  have other: "x \<noteq> a \<Longrightarrow> h_size h' x = h_size h x" for x using h' by simp
  have gap: "n + HEADER * h_size h n \<le> b" if "b \<in> S" "b \<noteq> n" "a < b" for b
  proof -
    have "n \<le> b" using assms(1,3,7) that by (auto simp: spaced_def)
    then show ?thesis using assms(1,4) that by (auto simp: spaced_def)
  qed
  show "spaced h' (S - {n})" unfolding spaced_def
  proof (intro conjI ballI impI)
    fix x assume x: "x \<in> S - {n}"
    show "x + HEADER * h_size h' x \<le> h_brk h'"
      using assms(1) x n(1) h'(3) sum other [of x] assms(7) by (cases "x = a") (auto simp: spaced_def)
    show "0 < h_size h' x" "h_base h' + HEADER \<le> x" if "x \<noteq> h_base h'"
      using assms(1) x that h' sum other [of x] by (cases "x = a", auto simp: spaced_def)
    fix y assume y: "y \<in> S - {n}" "x < y"
    show "x + HEADER * h_size h' x \<le> y"
      using assms(1) x y gap [of y] sum other [of x] assms(7) by (cases "x = a") (auto simp: spaced_def)
  qed
qed

lemma bytes_of_join:
  assumes "a \<in> S" "n \<in> S" "a \<noteq> n" "n = a + HEADER * h_size h a"
    and "h_size h' a = h_size h a + h_size h n" "\<And>x. x \<noteq> a \<Longrightarrow> x \<noteq> n \<Longrightarrow> h_size h' x = h_size h x"
  shows "bytes_of h' (S - {n}) = bytes_of h S"
proof -
  have S: "S = insert a (insert n (S - {a, n}))" "S - {n} = insert a (S - {a, n})" using assms by auto
  have "bytes_of h' (S - {a, n}) = bytes_of h (S - {a, n})" using assms(6) by (simp add: bytes_of_def)
  moreover have "{a ..< a + HEADER * h_size h' a} = {a ..< n} \<union> {n ..< n + HEADER * h_size h n}"
    using assms(4,5) by (subst ivl_disj_un) auto
  ultimately show ?thesis using assms(4) by (subst S(1), subst S(2)) (auto simp: bytes_of_def)
qed

text \<open>Between the two halves of \<open>free\<close>: only the link of the predecessor \<open>t\<close> is missing.\<close>

definition half_linked :: "heap \<Rightarrow> nat set \<Rightarrow> nat \<Rightarrow> nat \<Rightarrow> bool" where
  "half_linked h B t bp \<longleftrightarrow>
     finite B \<and> h_base h \<in> B \<and> t \<in> B \<and> bp \<in> B \<and> t < bp \<and> nxt B t = bp \<and> (\<forall>a\<in>B - {t}. h_ptr h a = nxt B a)"

lemma join_next_frame [simp]:
  "h_base (join_next h bp p) = h_base h" "h_brk (join_next h bp p) = h_brk h" "h_limit (join_next h bp p) = h_limit h"
  "x \<noteq> bp \<Longrightarrow> h_size (join_next h bp p) x = h_size h x"
  by (simp_all add: join_next_def Let_def)

lemma join_prev_frame [simp]:
  "h_base (join_prev h bp p) = h_base h" "h_brk (join_prev h bp p) = h_brk h" "h_limit (join_prev h bp p) = h_limit h"
  "x \<noteq> p \<Longrightarrow> h_size (join_prev h bp p) x = h_size h x"
  by (simp_all add: join_prev_def)

lemma spaced_cong:
  "spaced h S \<Longrightarrow> (\<And>x. x \<in> S \<Longrightarrow> h_size h' x = h_size h x) \<Longrightarrow> h_base h' = h_base h \<Longrightarrow> h_brk h' = h_brk h \<Longrightarrow> spaced h' S"
  by (simp add: spaced_def)

lemma bytes_of_cong: "(\<And>x. x \<in> S \<Longrightarrow> h_size h' x = h_size h x) \<Longrightarrow> bytes_of h' S = bytes_of h S"
  by (simp add: bytes_of_def)

lemma in_use:
  assumes "heap_ok h A U" "bp \<in> U"
  shows "bp \<notin> A" "h_base h < bp" "0 < h_size h bp" "0 < bp" "\<forall>a\<in>A. h_base h \<le> a" "\<forall>a\<in>A. a \<noteq> h_base h \<longrightarrow> 0 < h_size h a"
proof -
  show A: "bp \<notin> A" using assms by (auto simp: heap_ok_def)
  moreover have "h_base h \<in> A" using assms by (simp add: heap_ok_def linked_def)
  ultimately have "bp \<noteq> h_base h" by blast
  then show "h_base h < bp" "0 < h_size h bp" using assms by (auto simp: heap_ok_def spaced_def)
  then show "0 < bp" by simp
  have "a \<in> A \<Longrightarrow> a \<noteq> h_base h \<Longrightarrow> 0 < h_size h a \<and> h_base h + HEADER \<le> a" for a
    using assms by (auto simp: heap_ok_def spaced_def)
  then show "\<forall>a\<in>A. h_base h \<le> a" "\<forall>a\<in>A. a \<noteq> h_base h \<longrightarrow> 0 < h_size h a" by force+
qed

lemma join_next_ok:
  assumes ok: "heap_ok h A U" and bp: "bp \<in> U" and t: "place A bp t"
  shows "\<exists>B \<subseteq> insert bp A. half_linked (join_next h bp t) B t bp \<and>
    spaced (join_next h bp t) (B \<union> (U - {bp})) \<and> bytes_of (join_next h bp t) B = bytes_of h (insert bp A) \<and>
    h_size h bp \<le> h_size (join_next h bp t) bp"
proof -
  let ?B = "insert bp A" and ?n = "nxt A t" and ?h = "join_next h bp t"
  note u = in_use [OF ok bp]
  have A: "finite A" "h_base h \<in> A" "\<forall>a\<in>A. h_ptr h a = nxt A a" "bounded h" "spaced h (A \<union> U)" "A \<inter> U = {}"
    using ok by (auto simp: heap_ok_def linked_def)
  have tA: "t \<in> A" "t < bp" using t by (auto simp: place_def)
  have nA: "?n \<in> A" using nxt_in [OF A(1)] tA(1) by blast
  note nx = nxt_insert [OF A(1) u(1) t]
  have un: "?B \<union> (U - {bp}) = A \<union> U" using bp by auto
  show ?thesis
  proof (cases "bp + HEADER * h_size h bp = ?n")
    case False
    then have h: "?h = h\<lparr>h_ptr := (h_ptr h)(bp := ?n)\<rparr>" using A(3) tA by (simp add: join_next_def Let_def)
    have "half_linked ?h ?B t bp"
      using A u tA nx(1,2) nx(3) by (auto simp: half_linked_def h)
    moreover have "spaced ?h (?B \<union> (U - {bp}))" unfolding un by (rule spaced_cong [OF A(5)]) (simp_all add: h)
    moreover have "bytes_of ?h ?B = bytes_of h ?B" by (rule bytes_of_cong) (simp add: h)
    ultimately show ?thesis using h by (intro exI [of _ ?B]) simp
  next
    case True
    then have h: "h_ptr ?h = (h_ptr h)(bp := nxt A ?n)" "h_size ?h = (h_size h)(bp := (h_size h bp + h_size h ?n) mod 2 ^ 32)"
      using A(3) tA nA by (simp_all add: join_next_def Let_def)
    have n: "bp < ?n" "?n \<noteq> h_base h" "?n \<noteq> t" "?n \<noteq> bp" using True u(2,3) tA by auto
    have sp: "spaced ?h (A \<union> U - {?n})" "h_size ?h bp = h_size h bp + h_size h ?n"
      by (rule spaced_join [OF A(5,4), of bp ?n]; use bp nA n True u h in simp)+
    have "bytes_of ?h (?B - {?n}) = bytes_of h ?B"
      by (rule bytes_of_join [of bp]) (use nA n True sp(2) in simp_all)
    moreover have "(?B - {?n}) \<union> (U - {bp}) = A \<union> U - {?n}" using bp n nA A(6) by auto
    moreover have "half_linked ?h (?B - {?n}) t bp"
    proof -
      have B: "finite ?B" "?n \<in> ?B" "t \<in> ?B" "bp \<in> ?B" using A nA tA by auto
      have "nxt (?B - {?n}) t = bp" using nxt_remove [OF B(1,3,2)] nx(1) [OF nA] n by simp
      moreover have "h_ptr ?h bp = nxt (?B - {?n}) bp" using h(1) nxt_remove [OF B(1,4,2)] nx(2,3) [OF nA] n by simp
      moreover have "h_ptr ?h a = nxt (?B - {?n}) a" if "a \<in> A" "a \<noteq> ?n" "a \<noteq> t" for a
      proof -
        have "nxt ?B a \<noteq> ?n" using nxt_inj [OF B(1), of a bp] nx(2) [OF nA] that u(1) by auto
        then show ?thesis using nxt_remove [OF B(1) _ B(2), of a] nx(3) [OF that(1)] that A(3) u(1) h(1) by auto
      qed
      ultimately show ?thesis unfolding half_linked_def
        using A(1,2) B(2-4) n tA by (intro conjI ballI) (simp, simp, simp, simp, simp, simp, blast)
    qed
    ultimately show ?thesis using sp by (intro exI [of _ "?B - {?n}"]) auto
  qed
qed

lemma join_prev_ok:
  assumes B: "half_linked h B t bp" and sp: "spaced h (B \<union> U)" "bounded h" "0 < t" "bp \<notin> U" "bp \<noteq> h_base h"
  shows "\<exists>A \<subseteq> B. linked ((join_prev h bp t)\<lparr>h_freep := t\<rparr>) A \<and> spaced (join_prev h bp t) (A \<union> U) \<and>
    bytes_of (join_prev h bp t) A = bytes_of h B \<and> (\<exists>a\<in>A. h_size h bp \<le> h_size (join_prev h bp t) a)"
proof -
  let ?h = "join_prev h bp t"
  have fin: "finite B" and mem: "h_base h \<in> B" "t \<in> B" "bp \<in> B" and lt: "t < bp" and nt: "nxt B t = bp"
    and lk: "\<And>a. a \<in> B \<Longrightarrow> a \<noteq> t \<Longrightarrow> h_ptr h a = nxt B a"
    using B by (auto simp: half_linked_def)
  show ?thesis
  proof (cases "t + HEADER * h_size h t = bp")
    case False
    then have h: "?h = h\<lparr>h_ptr := (h_ptr h)(t := bp)\<rparr>" by (simp add: join_prev_def)
    have "linked (?h\<lparr>h_freep := t\<rparr>) B" using fin mem nt lk by (simp add: linked_def h)
    moreover have "spaced ?h (B \<union> U)" by (rule spaced_cong [OF sp(1)]) (simp_all add: h)
    moreover have "bytes_of ?h B = bytes_of h B" by (rule bytes_of_cong) (simp add: h)
    ultimately show ?thesis using mem h by (intro exI [of _ B]) (auto intro!: bexI [of _ bp])
  next
    case True
    then have h: "h_ptr ?h = (h_ptr h)(t := h_ptr h bp)" "h_size ?h = (h_size h)(t := (h_size h t + h_size h bp) mod 2 ^ 32)"
      by (simp_all add: join_prev_def)
    have j: "spaced ?h (B \<union> U - {bp})" "h_size ?h t = h_size h t + h_size h bp"
      by (rule spaced_join [OF sp(1,2), of t bp]; use mem lt sp True h in simp)+
    have "bytes_of ?h (B - {bp}) = bytes_of h B"
      by (rule bytes_of_join [of t]) (use mem lt True j(2) in simp_all)
    moreover have "B - {bp} \<union> U = B \<union> U - {bp}" using sp(4) by auto
    moreover have "linked (?h\<lparr>h_freep := t\<rparr>) (B - {bp})"
    proof -
      have "h_ptr ?h t = nxt (B - {bp}) t" using nxt_remove [OF fin mem(2,3)] nt lk [OF mem(3)] lt h(1) by simp
      moreover have "h_ptr ?h a = nxt (B - {bp}) a" if "a \<in> B" "a \<noteq> bp" "a \<noteq> t" for a
      proof -
        have "nxt B a \<noteq> bp" using nxt_inj [OF fin that(1) mem(2)] nt that(3) by auto
        then show ?thesis using nxt_remove [OF fin that(1) mem(3)] lk [OF that(1)] that h(1) by simp
      qed
      ultimately show ?thesis using fin mem lt sp(5) by (auto simp: linked_def)
    qed
    moreover have "h_size h bp \<le> h_size ?h t" using j(2) by simp
    ultimately show ?thesis using j(1) mem lt by (intro exI [of _ "B - {bp}"]) auto
  qed
qed

lemma free_heap_ok:
  assumes ok: "heap_ok h A U" and bp: "bp \<in> U"
  shows "\<exists>h' A'. free_u (bp + HEADER) h = Some h' \<and> heap_ok h' A' (U - {bp}) \<and>
    bytes_of h' A' = bytes_of h (insert bp A) \<and> (\<forall>u\<in>U - {bp}. h_size h' u = h_size h u) \<and>
    h_base h' = h_base h \<and> h_brk h' = h_brk h \<and> h_limit h' = h_limit h \<and> (\<exists>a\<in>A'. h_size h bp \<le> h_size h' a)"
proof -
  note u = in_use [OF ok bp]
  have A: "finite A" "h_base h \<in> A" "h_freep h \<in> A" "\<forall>a\<in>A. h_ptr h a = nxt A a" "bounded h" "A \<inter> U = {}" "h_size h (h_base h) = 0"
    using ok by (auto simp: heap_ok_def linked_def)
  obtain t where t: "place A bp t" using place_exists [OF A(1,2) u(2)] by blast
  let ?h1 = "join_next h bp t" and ?h2 = "join_prev (join_next h bp t) bp t"
  have tA: "t \<in> A" "0 < t" "t \<notin> U" using t u(5) A(5,6) by (auto simp: place_def bounded_def)
  obtain B where B: "B \<subseteq> insert bp A" "half_linked ?h1 B t bp" "spaced ?h1 (B \<union> (U - {bp}))"
      "bytes_of ?h1 B = bytes_of h (insert bp A)" "h_size h bp \<le> h_size ?h1 bp"
    using join_next_ok [OF ok bp t] by blast
  have "bounded ?h1" using A(5) by (simp add: bounded_def)
  then obtain A' where A': "A' \<subseteq> B" "linked (?h2\<lparr>h_freep := t\<rparr>) A'" "spaced ?h2 (A' \<union> (U - {bp}))"
      "bytes_of ?h2 A' = bytes_of ?h1 B" "\<exists>a\<in>A'. h_size ?h1 bp \<le> h_size ?h2 a"
    using join_prev_ok [OF B(2,3) _ tA(2)] u(2) by auto
  have base: "h_size ?h2 (h_base h) = 0"
  proof (cases "t = h_base h")
    case True
    then show ?thesis using A(7) u(2) by (simp add: join_prev_def)
  qed (use A(7) u(2) in simp)
  have "free_u (bp + HEADER) h = Some (?h2\<lparr>h_freep := t\<rparr>)"
    using find_place_ok [OF A(1,4) t u(1) A(3,2) u(2,5)] by (simp add: free_u_def)
  moreover have "heap_ok (?h2\<lparr>h_freep := t\<rparr>) A' (U - {bp})"
    using A' B(1) A(5,6) base by (auto simp: heap_ok_def bounded_def intro: spaced_cong)
  moreover have "\<forall>x\<in>U - {bp}. h_size ?h2 x = h_size h x"
  proof
    fix x assume "x \<in> U - {bp}"
    then have "x \<noteq> t" "x \<noteq> bp" using tA(3) by auto
    then show "h_size ?h2 x = h_size h x" by simp
  qed
  moreover have "bytes_of (?h2\<lparr>h_freep := t\<rparr>) A' = bytes_of ?h2 A'" by (rule bytes_of_cong) simp
  ultimately show ?thesis using A'(4,5) B(4,5)
    by (intro exI [of _ "?h2\<lparr>h_freep := t\<rparr>"] exI [of _ A']) (auto intro: order_trans)
qed

subsection \<open>Allocation\<close>

text \<open>What an allocation gives: the block at \<open>a\<close> is taken from the free blocks and no other block changes.\<close>

definition allotted :: "heap \<Rightarrow> nat set \<Rightarrow> nat set \<Rightarrow> nat \<Rightarrow> nat \<times> heap \<Rightarrow> bool" where
  "allotted h A U n rh \<longleftrightarrow> (case rh of (r, h') \<Rightarrow>
     \<exists>a A'. r = a + HEADER \<and> a \<notin> U \<and> heap_ok h' A' (insert a U) \<and> h_size h' a = n \<and>
       (\<forall>u\<in>U. h_size h' u = h_size h u) \<and> bytes_of h' (insert a A') = bytes_of h A \<and>
       h_base h' = h_base h \<and> h_brk h' = h_brk h \<and> h_limit h' = h_limit h)"

lemma take_whole_ok:
  assumes ok: "heap_ok h A U" and p: "p \<in> A" "prevp \<in> A" "nxt A prevp = p" "h_size h p = n" "0 < n"
  shows "allotted h A U n (take_block n prevp p h)"
proof -
  have A: "finite A" "h_base h \<in> A" "\<And>a. a \<in> A \<Longrightarrow> h_ptr h a = nxt A a" "A \<inter> U = {}" "spaced h (A \<union> U)" "p \<noteq> h_base h"
    using ok p by (auto simp: heap_ok_def linked_def)
  have "prevp \<noteq> p"
  proof
    assume "prevp = p"
    then have "nxt A p = p" "A \<noteq> {}" using p by auto
    then show False using nxt_cases [OF A(1), of p] A(2,6) by (metis le_antisym less_irrefl)
  qed
  let ?h = "h\<lparr>h_ptr := (h_ptr h)(prevp := h_ptr h p), h_freep := prevp\<rparr>"
  have "nxt A a \<noteq> p" if "a \<in> A" "a \<noteq> prevp" for a using nxt_inj [OF A(1) that(1) p(2)] p(3) that(2) by auto
  then have "linked ?h (A - {p})"
    using A p \<open>prevp \<noteq> p\<close> by (auto simp: linked_def nxt_remove)
  moreover have "A - {p} \<union> insert p U = A \<union> U" using p(1) by blast
  moreover have "spaced ?h (A \<union> U)" by (rule spaced_cong [OF A(5)]) simp_all
  moreover have "bytes_of ?h (insert p (A - {p})) = bytes_of h A" using p(1) by (simp add: insert_absorb bytes_of_def)
  moreover have "p \<notin> U" "(A - {p}) \<inter> insert p U = {}" using A(4) p(1) by auto
  ultimately show ?thesis using ok p(4)
    by (auto simp: allotted_def take_block_def heap_ok_def bounded_def intro!: exI [of _ "A - {p}"])
qed

lemma spaced_split:
  assumes sp: "spaced h S" and p: "p \<in> S" "p \<noteq> h_base h" "0 < n" "0 < rest" "h_size h p = rest + n" "q = p + HEADER * rest"
    and h': "h_size h' = (h_size h)(p := rest, q := n)" "h_base h' = h_base h" "h_brk h' = h_brk h"
  shows "spaced h' (insert q S)" "q \<notin> S"
proof -
  have s: "x \<in> S \<Longrightarrow> x + HEADER * h_size h x \<le> h_brk h" "x \<in> S \<Longrightarrow> x \<noteq> h_base h \<Longrightarrow> 0 < h_size h x \<and> h_base h + HEADER \<le> x"
    "x \<in> S \<Longrightarrow> y \<in> S \<Longrightarrow> x < y \<Longrightarrow> x + HEADER * h_size h x \<le> y" for x y
    using sp by (auto simp: spaced_def)
  have r: "p < q" "q + HEADER * n = p + HEADER * h_size h p" using p by auto
  have gap: "b \<le> p \<or> q + HEADER * n \<le> b" if "b \<in> S" for b using s(3) [OF p(1) that] r(2) by linarith
  then show q: "q \<notin> S" using r(1) p(3) by force
  have sz: "h_size h' q = n" "h_size h' p = rest" "x \<in> S \<Longrightarrow> x \<noteq> p \<Longrightarrow> h_size h' x = h_size h x" for x
    using h' r(1) q by auto
  have 1: "x + HEADER * h_size h' x \<le> h_brk h \<and> (x \<noteq> h_base h \<longrightarrow> 0 < h_size h' x \<and> h_base h + HEADER \<le> x)"
    if "x \<in> insert q S" for x
    using that s(1,2) [of x] s(1,2) [OF p(1)] sz p r by (cases "x = q"; cases "x = p") auto
  have 2: "x + HEADER * h_size h' x \<le> y" if xy: "x \<in> insert q S" "y \<in> insert q S" "x < y" for x y
  proof (cases "x = q")
    case True
    then show ?thesis using xy gap [of y] sz(1) r(1) by auto
  next
    case xq: False
    then have x: "x \<in> S" using xy by blast
    show ?thesis
    proof (cases "x = p")
      case True
      then show ?thesis using xy gap [of y] sz(2) p(6) by auto
    next
      case False
      then show ?thesis using x xy sz(3) [OF x] gap [OF x] r s(3) [OF x p(1)] s(3) [OF x, of y] by auto
    qed
  qed
  show "spaced h' (insert q S)" unfolding spaced_def h'(2,3) using 1 2 by blast
qed

lemma take_tail_ok:
  assumes ok: "heap_ok h A U" and p: "p \<in> A" "prevp \<in> A" "n < h_size h p" "0 < n"
  shows "allotted h A U n (take_block n prevp p h)"
proof -
  have A: "linked h A" "A \<inter> U = {}" "spaced h (A \<union> U)" "p \<noteq> h_base h" "h_base h \<in> A"
    using ok p by (auto simp: heap_ok_def linked_def)
  define rest where "rest = h_size h p - n"
  define q where "q = p + HEADER * rest"
  let ?h = "h\<lparr>h_size := (h_size h)(p := rest, q := n), h_freep := prevp\<rparr>"
  have r: "0 < rest" "h_size h p = rest + n" "q \<noteq> p" using p by (auto simp: rest_def q_def)
  have sp: "spaced ?h (insert q (A \<union> U))" "q \<notin> A \<union> U"
    by (rule spaced_split [OF A(3) _ A(4) p(4) r(1,2) q_def, where h' = ?h]; use p(1) in simp)+
  have "bytes_of h (insert q A - {q}) = bytes_of ?h (insert q A)"
    by (rule bytes_of_join [of p]) (use p r in \<open>auto simp: q_def\<close>)
  then have "bytes_of ?h (insert q A) = bytes_of h A" using sp(2) by simp
  moreover have "linked ?h A" "take_block n prevp p h = (q + HEADER, ?h)"
    using A(1) p by (auto simp: linked_def take_block_def Let_def q_def rest_def)
  moreover have "\<forall>u\<in>U. h_size ?h u = h_size h u" "h_size ?h (h_base h) = 0" "A \<inter> insert q U = {}"
    using sp(2) A p(1) ok by (auto simp: heap_ok_def)
  ultimately show ?thesis using ok sp
    by (auto simp: allotted_def heap_ok_def bounded_def intro!: exI [of _ A])
qed

lemma take_block_ok:
  "heap_ok h A U \<Longrightarrow> p \<in> A \<Longrightarrow> prevp \<in> A \<Longrightarrow> nxt A prevp = p \<Longrightarrow> n \<le> h_size h p \<Longrightarrow> 0 < n \<Longrightarrow>
    allotted h A U n (take_block n prevp p h)"
  using take_whole_ok take_tail_ok by (metis le_neq_implies_less)

lemma path_self: "q \<in> A \<Longrightarrow> path A q q = {q}"
  by (auto simp: path_def)

lemma path_all:
  assumes "finite A" "q \<in> A"
  shows "path A (nxt A q) q = A"
proof -
  have A: "A \<noteq> {}" using assms by blast
  have "a \<in> path A (nxt A q) q" if "a \<in> A" for a
  proof (rule nxt_cases [OF assms(1) A, of q])
    assume n: "q < nxt A q" "\<And>b. b \<in> A \<Longrightarrow> q < b \<Longrightarrow> nxt A q \<le> b"
    then show ?thesis using that n(2) [of a] by (auto simp: path_def not_le)
  next
    assume n: "\<And>b. b \<in> A \<Longrightarrow> b \<le> q" "\<And>b. b \<in> A \<Longrightarrow> nxt A q \<le> b"
    then show ?thesis using that n(1) [of a] n(2) [of a] by (auto simp: path_def)
  qed
  moreover have "path A (nxt A q) q \<subseteq> A" by (auto simp: path_def)
  ultimately show ?thesis by blast
qed

text \<open>The search succeeds when there is a block that is large enough between \<open>p\<close> and \<open>freep\<close>.\<close>

lemma malloc_from_found:
  assumes ok: "heap_ok h A U" and "0 < n" "p \<in> A" "prevp \<in> A" "nxt A prevp = p" "\<exists>a\<in>path A p (h_freep h). n \<le> h_size h a"
  shows "\<exists>rh. malloc_from n h prevp p = Some rh \<and> allotted h A U n rh"
proof -
  have A: "finite A" "h_freep h \<in> A" "\<And>a. a \<in> A \<Longrightarrow> h_ptr h a = nxt A a" using ok by (auto simp: heap_ok_def linked_def)
  show ?thesis using A(1) assms(3) A(2) assms(4-6)
  proof (induction arbitrary: prevp rule: ring_induct)
    case here
    then have "n \<le> h_size h (h_freep h)" by (simp add: path_self A(2))
    then show ?case using take_block_ok [OF ok A(2) here(1,2)] assms(2) by (subst malloc_from.simps) simp
  next
    case (step p)
    show ?case
    proof (cases "n \<le> h_size h p")
      case True
      then show ?thesis using take_block_ok [OF ok step(1,4,5)] assms(2) by (subst malloc_from.simps) simp
    next
      case False
      then have "\<exists>a\<in>path A (nxt A p) (h_freep h). n \<le> h_size h a"
        using step(6) path_step [OF A(1) step(1) A(2) step(2)] by auto
      then show ?thesis using step(3) [OF step(1)] False step(1,2) A(3) by (subst malloc_from.simps) simp
    qed
  qed
qed

lemma malloc_from_none:
  assumes ok: "heap_ok h A U" and "p \<in> A" "prevp \<in> A" "\<forall>a\<in>path A p (h_freep h). h_size h a < n"
  shows "malloc_from n h prevp p = Option.bind (morecore n h)
    (\<lambda>(q, h1). if q = 0 then Some (0, h1) else malloc_from n h1 q (h_ptr h1 q))"
proof -
  have A: "finite A" "h_freep h \<in> A" "\<And>a. a \<in> A \<Longrightarrow> h_ptr h a = nxt A a" using ok by (auto simp: heap_ok_def linked_def)
  show ?thesis using A(1) assms(2) A(2) assms(3,4)
  proof (induction arbitrary: prevp rule: ring_induct)
    case here
    then show ?case by (subst malloc_from.simps) (simp add: path_self A(2) not_le)
  next
    case (step p)
    have "h_size h p < n" using step(5) path_start [OF step(1)] by blast
    moreover have "\<forall>a\<in>path A (nxt A p) (h_freep h). h_size h a < n"
      using step(5) path_step [OF A(1) step(1) A(2) step(2)] by auto
    ultimately show ?case using step(3) [OF step(1)] step(1,2) A(3) by (subst malloc_from.simps) simp
  qed
qed

lemma sint_small: "x < 2147483648 \<Longrightarrow> sint (word_of_nat x :: u32) = int x"
  by (simp add: signed_of_nat signed_take_bit_int_eq_self)

lemma grow_ok:
  assumes ok: "heap_ok h A U" and nu: "0 < nu" "h_brk h + HEADER * nu \<le> h_limit h"
  shows "heap_ok (h\<lparr>h_brk := h_brk h + HEADER * nu, h_size := (h_size h)(h_brk h := nu)\<rparr>) A (insert (h_brk h) U)" "h_brk h \<notin> A \<union> U"
proof -
  let ?hp = "h_brk h"
  let ?h = "h\<lparr>h_brk := h_brk h + HEADER * nu, h_size := (h_size h)(h_brk h := nu)\<rparr>"
  have b: "bounded h" "linked h A" "A \<inter> U = {}" "h_size h (h_base h) = 0" and sp: "spaced h (A \<union> U)"
    using ok by (auto simp: heap_ok_def)
  have s: "x \<in> A \<union> U \<Longrightarrow> x + HEADER * h_size h x \<le> h_brk h"
    "x \<in> A \<union> U \<Longrightarrow> x \<noteq> h_base h \<Longrightarrow> 0 < h_size h x \<and> h_base h + HEADER \<le> x"
    "x \<in> A \<union> U \<Longrightarrow> y \<in> A \<union> U \<Longrightarrow> x < y \<Longrightarrow> x + HEADER * h_size h x \<le> y" for x y
    using sp by (auto simp: spaced_def)
  have base: "h_base h + HEADER \<le> h_brk h" using b(1) by (simp add: bounded_def)
  have lt: "x < h_brk h" if "x \<in> A \<union> U" for x using s(1,2) [OF that] base by (cases "x = h_base h") auto
  then show hp: "?hp \<notin> A \<union> U" by blast
  have "spaced ?h (insert ?hp (A \<union> U))" unfolding spaced_def
  proof (intro conjI ballI)
    fix x assume x: "x \<in> insert ?hp (A \<union> U)"
    show "x + HEADER * h_size ?h x \<le> h_brk ?h" "x \<noteq> h_base ?h \<longrightarrow> 0 < h_size ?h x \<and> h_base ?h + HEADER \<le> x"
      using x s(1,2) [of x] lt [of x] nu(1) base by auto
    fix y assume y: "y \<in> insert ?hp (A \<union> U)"
    show "x < y \<longrightarrow> x + HEADER * h_size ?h x \<le> y"
      using x y s(1) [of x] s(3) [of x y] lt [of x] lt [of y] by auto
  qed
  moreover have "A \<inter> insert ?hp U = {}" "A \<union> insert ?hp U = insert ?hp (A \<union> U)" "h_size ?h (h_base ?h) = 0" using hp b base by auto
  moreover have "bounded ?h" "linked ?h A" using b nu by (auto simp: bounded_def linked_def)
  ultimately show "heap_ok ?h A (insert ?hp U)" by (simp add: heap_ok_def)
qed

definition core_units :: "nat \<Rightarrow> nat" where
  "core_units n = (if n < 4096 then 4096 else n)"

lemma morecore_ok:
  assumes ok: "heap_ok h A U" and n: "0 < n" "HEADER * n < 2147483648" "h_brk h + HEADER * core_units n \<le> h_limit h"
  shows "\<exists>h' A'. morecore n h = Some (h_freep h', h') \<and> heap_ok h' A' U \<and> (\<exists>a\<in>A'. n \<le> h_size h' a) \<and>
    bytes_of h' A' = bytes_of h A \<union> {h_brk h ..< h_brk h'} \<and> (\<forall>u\<in>U. h_size h' u = h_size h u) \<and>
    h_base h' = h_base h \<and> h_brk h' = h_brk h + HEADER * core_units n \<and> h_limit h' = h_limit h"
proof -
  let ?nu = "core_units n" and ?hp = "h_brk h"
  let ?h = "h\<lparr>h_brk := ?hp + HEADER * ?nu, h_size := (h_size h)(?hp := ?nu)\<rparr>"
  have nu: "0 < ?nu" "HEADER * ?nu < 2147483648" "n \<le> ?nu" using n by (auto simp: core_units_def)
  note g = grow_ok [OF ok nu(1) n(3)]
  obtain h' A' where f: "free_u (?hp + HEADER) ?h = Some h'" "heap_ok h' A' (insert ?hp U - {?hp})"
      "bytes_of h' A' = bytes_of ?h (insert ?hp A)" "\<forall>u\<in>insert ?hp U - {?hp}. h_size h' u = h_size ?h u"
      "h_base h' = h_base ?h" "h_brk h' = h_brk ?h" "h_limit h' = h_limit ?h" "\<exists>a\<in>A'. h_size ?h ?hp \<le> h_size h' a"
    using free_heap_ok [OF g(1), of ?hp] by blast
  have "sint (word_of_nat (?nu * HEADER) :: u32) = int (HEADER * ?nu)"
    using sint_small [of "?nu * HEADER"] nu(2) by (simp only: mult.commute [of HEADER])
  then have s: "sbrk_h (sint (word_of_nat (?nu * HEADER) :: u32)) h = (Some ?hp, h\<lparr>h_brk := ?hp + HEADER * ?nu\<rparr>)"
    using n(3) by (simp add: sbrk_h_def Let_def nat_mult_distrib)
  then have "morecore n h = Some (h_freep h', h')"
    unfolding morecore_def core_units_def [symmetric] Let_def using f(1) by simp
  moreover have "bytes_of ?h (insert ?hp A) = bytes_of h A \<union> {?hp ..< ?hp + HEADER * ?nu}"
  proof -
    have "bytes_of ?h A = bytes_of h A" by (rule bytes_of_cong) (use g(2) in auto)
    then show ?thesis by (auto simp: bytes_of_def)
  qed
  moreover have "insert ?hp U - {?hp} = U" using g(2) by auto
  moreover have "h_size ?h u = h_size h u" if "u \<in> U" for u using g(2) that by auto
  moreover have "\<exists>a\<in>A'. n \<le> h_size h' a" using f(8) nu(3) by (auto intro: order_trans)
  ultimately show ?thesis using f(2-7) by (intro exI [of _ h'] exI [of _ A']) simp
qed

lemma morecore_fails:
  assumes "HEADER * n < 2147483648" "h_limit h < h_brk h + HEADER * core_units n"
  shows "morecore n h = Some (0, h)"
proof -
  have "sint (word_of_nat (core_units n * HEADER) :: u32) = int (HEADER * core_units n)"
    using sint_small [of "HEADER * core_units n"] assms(1) by (simp add: core_units_def mult.commute)
  then have "sbrk_h (sint (word_of_nat (core_units n * HEADER) :: u32)) h = (None, h)"
    using assms(2) by (simp add: sbrk_h_def Let_def nat_mult_distrib)
  then show ?thesis unfolding morecore_def core_units_def [symmetric] Let_def by simp
qed

definition served :: "heap \<Rightarrow> nat set \<Rightarrow> nat set \<Rightarrow> nat \<Rightarrow> nat \<times> heap \<Rightarrow> bool" where
  "served h A U n rh \<longleftrightarrow> (case rh of (r, h') \<Rightarrow>
     \<exists>a A'. r = a + HEADER \<and> a \<notin> U \<and> heap_ok h' A' (insert a U) \<and> h_size h' a = n \<and>
       (\<forall>u\<in>U. h_size h' u = h_size h u) \<and> h_base h' = h_base h \<and> h_brk h \<le> h_brk h' \<and>
       bytes_of h' (insert a A') = bytes_of h A \<union> {h_brk h ..< h_brk h'})"

lemma freep_pos: "heap_ok h A U \<Longrightarrow> 0 < h_freep h"
proof -
  assume ok: "heap_ok h A U"
  then have "h_base h \<le> h_freep h" by (cases "h_freep h = h_base h") (auto simp: heap_ok_def linked_def spaced_def)
  then show ?thesis using ok by (simp add: heap_ok_def bounded_def)
qed

lemma malloc_from_reuse:
  assumes ok: "heap_ok h A U" and n: "0 < n" "\<exists>a\<in>A. n \<le> h_size h a"
  shows "\<exists>rh. malloc_from n h (h_freep h) (h_ptr h (h_freep h)) = Some rh \<and> allotted h A U n rh"
proof -
  have A: "finite A" "h_freep h \<in> A" "h_ptr h (h_freep h) = nxt A (h_freep h)" using ok by (auto simp: heap_ok_def linked_def)
  have "nxt A (h_freep h) \<in> A" using nxt_in [OF A(1)] A(2) by blast
  then show ?thesis using malloc_from_found [OF ok n(1) _ A(2) refl] n(2) path_all [OF A(1,2)] A(3) by simp
qed

lemma malloc_from_ok:
  assumes ok: "heap_ok h A U" and n: "0 < n" "HEADER * n < 2147483648"
  shows "\<exists>rh. malloc_from n h (h_freep h) (h_ptr h (h_freep h)) = Some rh \<and>
    (served h A U n rh \<or> rh = (0, h) \<and> h_limit h < h_brk h + HEADER * core_units n)"
proof (cases "\<exists>a\<in>A. n \<le> h_size h a")
  case True
  then obtain rh where "malloc_from n h (h_freep h) (h_ptr h (h_freep h)) = Some rh" "allotted h A U n rh"
    using malloc_from_reuse [OF ok n(1)] by blast
  moreover have "served h A U n rh" using calculation(2) unfolding allotted_def served_def by force
  ultimately show ?thesis by blast
next
  case False
  have A: "finite A" "h_freep h \<in> A" "h_ptr h (h_freep h) = nxt A (h_freep h)" using ok by (auto simp: heap_ok_def linked_def)
  have none: "malloc_from n h (h_freep h) (h_ptr h (h_freep h)) = Option.bind (morecore n h)
      (\<lambda>(q, h1). if q = 0 then Some (0, h1) else malloc_from n h1 q (h_ptr h1 q))"
    unfolding A(3)
  proof (rule malloc_from_none [OF ok _ A(2)])
    show "nxt A (h_freep h) \<in> A" using nxt_in [OF A(1)] A(2) by blast
    show "\<forall>a\<in>path A (nxt A (h_freep h)) (h_freep h). h_size h a < n"
      using False path_all [OF A(1,2)] by (simp add: not_le)
  qed
  show ?thesis
  proof (cases "h_brk h + HEADER * core_units n \<le> h_limit h")
    case True
    then obtain h1 A1 where m: "morecore n h = Some (h_freep h1, h1)" "heap_ok h1 A1 U" "\<exists>a\<in>A1. n \<le> h_size h1 a"
        "bytes_of h1 A1 = bytes_of h A \<union> {h_brk h ..< h_brk h1}" "\<forall>u\<in>U. h_size h1 u = h_size h u"
        "h_base h1 = h_base h" "h_brk h1 = h_brk h + HEADER * core_units n"
      using morecore_ok [OF ok n] by blast
    then obtain rh where r: "malloc_from n h1 (h_freep h1) (h_ptr h1 (h_freep h1)) = Some rh" "allotted h1 A1 U n rh"
      using malloc_from_reuse [OF m(2) n(1)] by blast
    have "served h A U n rh" using r(2) m(4-7) unfolding allotted_def served_def by force
    then show ?thesis using none m(1) r(1) freep_pos [OF m(2)] by simp
  next
    case False
    then show ?thesis using none morecore_fails [OF n(2), of h] by simp
  qed
qed

subsection \<open>The allocator in use\<close>

text \<open>
  The states of a program that calls \<open>malloc\<close> and \<open>free\<close>, and may grow itself by \<open>sbrk\<close>, with the set of
  the blocks it holds. A request below \<open>2 ^ 31 - 32\<close> bytes is rounded up to a size that the \<open>int\<close> argument
  of \<open>sbrk\<close> can hold.
\<close>

abbreviation MAXREQ :: nat where "MAXREQ \<equiv> 2147483616"

inductive uses :: "heap \<Rightarrow> nat set \<Rightarrow> bool" where
  start: "bounded h \<Longrightarrow> h_freep h = 0 \<Longrightarrow> uses h {}"
| alloc: "uses h U \<Longrightarrow> nbytes < MAXREQ \<Longrightarrow> malloc_u nbytes h = Some (r, h') \<Longrightarrow> r \<noteq> 0 \<Longrightarrow> uses h' (insert (r - HEADER) U)"
| no_memory: "uses h U \<Longrightarrow> nbytes < MAXREQ \<Longrightarrow> malloc_u nbytes h = Some (0, h') \<Longrightarrow> uses h' U"
| release: "uses h U \<Longrightarrow> a \<in> U \<Longrightarrow> free_u (a + HEADER) h = Some h' \<Longrightarrow> uses h' (U - {a})"
| grow: "uses h U \<Longrightarrow> 0 \<le> n \<Longrightarrow> uses (snd (sbrk_h n h)) U"

lemma units_for_bounds:
  "nbytes < MAXREQ \<Longrightarrow> 0 < units_for nbytes \<and> HEADER * units_for nbytes < 2147483648"
  "nbytes \<le> HEADER * (units_for nbytes - 1)"
  unfolding units_for_def by simp_all

lemma nxt_single [simp]: "nxt {a} a = a"
  by (simp add: nxt_def)

lemma malloc_init_ok: "bounded h \<Longrightarrow> h_freep h = 0 \<Longrightarrow> heap_ok (malloc_init h) {h_base h} {}"
  by (simp add: malloc_init_def heap_ok_def bounded_def linked_def spaced_def)

lemma malloc_init_id: "heap_ok h A U \<Longrightarrow> malloc_init h = h"
  using freep_pos [of h A U] by (simp add: malloc_init_def)

definition heap_inv :: "heap \<Rightarrow> nat set \<Rightarrow> bool" where
  "heap_inv h U \<longleftrightarrow> bounded h \<and> h_freep h = 0 \<and> U = {} \<or> (\<exists>A. heap_ok h A U)"

lemma heap_inv_init: "heap_inv h U \<Longrightarrow> \<exists>A. heap_ok (malloc_init h) A U"
  using malloc_init_ok malloc_init_id unfolding heap_inv_def by metis

lemma malloc_init_frame [simp]:
  "h_brk (malloc_init h) = h_brk h" "h_limit (malloc_init h) = h_limit h" "h_base (malloc_init h) = h_base h"
  "u \<noteq> h_base h \<Longrightarrow> h_size (malloc_init h) u = h_size h u"
  by (simp_all add: malloc_init_def)

lemma malloc_u_ok:
  assumes "heap_ok (malloc_init h) A U" "nbytes < MAXREQ"
  shows "\<exists>rh. malloc_u nbytes h = Some rh \<and> (served (malloc_init h) A U (units_for nbytes) rh \<or>
    rh = (0, malloc_init h) \<and> h_limit h < h_brk h + HEADER * core_units (units_for nbytes))"
  using malloc_from_ok [OF assms(1), of "units_for nbytes"] units_for_bounds(1) [OF assms(2)]
  by (simp add: malloc_u_def Let_def)

lemma sbrk_grow_ok:
  assumes "heap_ok h A U" "0 \<le> n"
  shows "heap_ok (snd (sbrk_h n h)) A U"
proof -
  have "spaced (h\<lparr>h_brk := h_brk h + m\<rparr>) S" if "spaced h S" for m S
    using that by (auto simp: spaced_def intro: trans_le_add1)
  then show ?thesis using assms by (auto simp: sbrk_h_def Let_def heap_ok_def bounded_def linked_def)
qed

lemma uses_heap_inv: "uses h U \<Longrightarrow> heap_inv h U"
proof (induction rule: uses.induct)
  case (start h)
  then show ?case by (simp add: heap_inv_def)
next
  case (alloc h U nbytes r h')
  obtain A where A: "heap_ok (malloc_init h) A U" using heap_inv_init alloc by blast
  have "served (malloc_init h) A U (units_for nbytes) (r, h')" using malloc_u_ok [OF A alloc(2)] alloc(3,4) by auto
  then show ?case by (auto simp: served_def heap_inv_def)
next
  case (no_memory h U nbytes h')
  obtain A where A: "heap_ok (malloc_init h) A U" using heap_inv_init no_memory by blast
  have "h' = malloc_init h" using malloc_u_ok [OF A no_memory(2)] no_memory(3) by (auto simp: served_def)
  then show ?case using A by (auto simp: heap_inv_def)
next
  case (release h U a h')
  then obtain A where A: "heap_ok h A U" by (auto simp: heap_inv_def)
  show ?case using free_heap_ok [OF A release(2)] release(3) by (auto simp: heap_inv_def)
next
  case (grow h U n)
  then show ?case using sbrk_grow_ok [OF _ grow(2)]
    by (auto simp: heap_inv_def) (auto simp: sbrk_h_def Let_def bounded_def)
qed

lemma served_disjoint:
  assumes "served h A U n (r, h')" "m \<le> HEADER * (n - 1)" "u \<in> U"
  shows "{u ..< u + HEADER * h_size h u} \<inter> {r - HEADER ..< r + m} = {}" "h_size h' u = h_size h u"
proof -
  obtain a A' where a: "r = a + HEADER" "a \<notin> U" "heap_ok h' A' (insert a U)" "h_size h' a = n" "\<forall>u\<in>U. h_size h' u = h_size h u"
    using assms(1) by (auto simp: served_def)
  then show "h_size h' u = h_size h u" using assms(3) by blast
  moreover have "a + m < a + HEADER * n" "u \<noteq> a"
    using in_use(3) [OF a(3), of a] a(2,4) assms(2,3) by auto
  moreover have "a < u \<Longrightarrow> a + HEADER * n \<le> u" "u < a \<Longrightarrow> u + HEADER * h_size h' u \<le> a"
    using a(3,4) assms(3) by (auto simp: heap_ok_def spaced_def)
  ultimately show "{u ..< u + HEADER * h_size h u} \<inter> {r - HEADER ..< r + m} = {}"
    using a(1,4) assms(2) by (cases "a < u") auto
qed



text \<open>
  C27. Memory that is given back is used again: after \<open>free\<close> of a block (\<^verbatim>\<open>user/umalloc.c\<close>), a request that
  fits into the block gets memory without the process growing, whatever the neighbours it was joined with.
\<close>

theorem free_reused:
  assumes "uses h U" "a \<in> U" "free_u (a + HEADER) h = Some h1" "units_for nbytes \<le> h_size h a"
  shows "\<exists>r h2. malloc_u nbytes h1 = Some (r, h2) \<and> r \<noteq> 0 \<and> h_brk h2 = h_brk h"
proof -
  obtain A where A: "heap_ok h A U" using uses_heap_inv [OF assms(1)] assms(2) by (auto simp: heap_inv_def)
  obtain A1 where A1: "heap_ok h1 A1 (U - {a})" "h_brk h1 = h_brk h" "\<exists>b\<in>A1. h_size h a \<le> h_size h1 b"
    using free_heap_ok [OF A assms(2)] assms(3) by auto
  then have n: "0 < units_for nbytes" "\<exists>b\<in>A1. units_for nbytes \<le> h_size h1 b"
    using assms(4) by (auto simp: units_for_def intro: order_trans)
  obtain r h2 where "malloc_u nbytes h1 = Some (r, h2)" "allotted h1 A1 (U - {a}) (units_for nbytes) (r, h2)"
    using malloc_from_reuse [OF A1(1) n] by (auto simp: malloc_u_def Let_def malloc_init_id [OF A1(1)])
  then show ?thesis using A1(2) by (auto simp: allotted_def)
qed

text \<open>A process with its static data below address 8192, and two steps of it.\<close>

definition heap0 :: heap where
  "heap0 = \<lparr>h_ptr = (\<lambda>_. 0), h_size = (\<lambda>_. 0), h_base = 4096, h_freep = 0, h_brk = 8192, h_limit = 1000000\<rparr>"

lemma heap0_uses: "uses heap0 {}"
  by (rule uses.start) (simp_all add: heap0_def bounded_def)

definition heap1 :: heap where
  "heap1 = \<lparr>h_ptr = (\<lambda>_. 0)(4096 := 8192, 8192 := 4096), h_size = (\<lambda>_. 0)(8192 := 4093, 73680 := 3),
     h_base = 4096, h_freep = 4096, h_brk = 73728, h_limit = 1000000\<rparr>"

definition heap2 :: heap where
  "heap2 = heap1\<lparr>h_ptr := (h_ptr heap1)(73680 := 4096), h_size := (h_size heap1)(8192 := 4096), h_freep := 8192\<rparr>"

lemma heap0_malloc: "malloc_u 24 heap0 = Some (73696, heap1)"
  unfolding malloc_u_def heap0_def heap1_def
  by (simp add: malloc_init_def units_for_def, subst malloc_from.simps,
      simp add: morecore_def sbrk_h_def free_u_def, subst find_place.simps,
      simp add: join_next_def join_prev_def, subst malloc_from.simps, simp add: take_block_def fun_eq_iff)

lemma heap1_free: "free_u 73696 heap1 = Some heap2"
  unfolding free_u_def heap1_def heap2_def
  by (simp, subst find_place.simps, simp, subst find_place.simps, simp add: join_next_def join_prev_def fun_eq_iff)

lemma heap1_uses: "uses heap1 {73680}"
  using uses.alloc [OF heap0_uses _ heap0_malloc] by simp

text \<open>
  C28. A request near \<open>2 ^ 32\<close> bytes is not refused but served wrongly: \<open>morecore\<close> (\<^verbatim>\<open>user/umalloc.c\<close>) passes
  the number of bytes to the \<open>int\<close> argument of \<open>sbrk\<close>, which cuts it to 32 bits. The process grows by one
  header, and \<open>malloc\<close> returns the new break, the first address outside the process, as the address of
  4294967281 bytes of memory.
\<close>

theorem malloc_truncates:
  assumes "bounded h" "h_freep h = 0" "h_brk h + HEADER \<le> h_limit h"
  shows "\<exists>h'. malloc_u 4294967281 h = Some (h_brk h', h') \<and> h_brk h' = h_brk h + HEADER"
proof -
  have "h_base h \<noteq> h_brk h" "\<not> h_brk h < h_base h" using assms(1) by (auto simp: bounded_def)
  then show ?thesis using assms unfolding malloc_u_def bounded_def
    by (simp add: malloc_init_def units_for_def, subst malloc_from.simps,
        simp add: morecore_def sbrk_h_def free_u_def Let_def, subst find_place.simps,
        simp add: join_next_def join_prev_def Let_def, subst malloc_from.simps, simp add: take_block_def)
qed

theorem malloc_truncates_witness:
  "\<exists>h'. malloc_u 4294967281 heap0 = Some (8208, h') \<and> h_brk h' = 8208"
  using malloc_truncates [of heap0] by (auto simp: heap0_def bounded_def)



theorem free_reused_witness:
  "uses heap1 {73680} \<and> free_u 73696 heap1 = Some heap2 \<and>
   (\<exists>r h2. malloc_u 32 heap2 = Some (r, h2) \<and> r \<noteq> 0 \<and> h_brk h2 = 73728)"
  using heap1_uses heap1_free free_reused [OF heap1_uses, of 73680 heap2 32] by (simp add: heap1_def units_for_def)

end
