(* ===== verification/Asm.thy ===== *)
theory Asm
  imports Memory
begin

text \<open>
  The assembly of the kernel, instruction by instruction: \<^verbatim>\<open>swtch.S\<close>, \<^verbatim>\<open>trampoline.S\<close>, \<^verbatim>\<open>kernelvec.S\<close>
  and \<^verbatim>\<open>entry.S\<close>. The machine has the general registers, the control registers the code uses, the program
  counter and the bytes of the memory. Loads and stores go through the page table that \<^verbatim>\<open>satp\<close> selects,
  the function \<open>tr\<close> from the value of \<^verbatim>\<open>satp\<close> and a virtual address to a physical one; it is an argument,
  with the mappings the code relies on as hypotheses. Each piece of code is a straight line, so that the
  program counter is only tracked where control leaves it.

  The theorems: a process that enters the kernel by \<^verbatim>\<open>uservec\<close> and comes back by \<^verbatim>\<open>userret\<close> has its registers
  again, a thread that is left by \<^verbatim>\<open>swtch\<close> and taken up by another one goes on where it was, and kernel code
  that is interrupted finds its registers as they were.
\<close>

subsection \<open>The machine\<close>

datatype reg =
  Zero | Ra | Sp | Gp | Tp | T0 | T1 | T2
| S0 | S1 | A0
| A1 | A2 | A3 | A4 | A5 | A6 | A7
| S2 | S3 | S4 | S5 | S6 | S7 | S8 | S9 | S10 | S11 | T3 | T4 | T5 | T6

datatype csr = Sscratch | Satp | Mhartid | Sepc | Sstatus

datatype instr =
  Sd reg nat reg | Ld reg nat reg | Addi reg reg int | Add reg reg reg | Mul reg reg reg | Li reg u64
| Csrw csr reg | Csrr reg csr | SfenceVma | Jalr reg u64 | Call u64 u64 | Ret | Sret

record machine =
  m_x :: "reg \<Rightarrow> u64"
  m_csr :: "csr \<Rightarrow> u64"
  m_pc :: u64
  m_ram :: pmem

type_synonym paging = "u64 \<Rightarrow> u64 \<Rightarrow> u64"

definition rx :: "machine \<Rightarrow> reg \<Rightarrow> u64" where
  "rx m r = (if r = Zero then 0 else m_x m r)"

definition setx :: "reg \<Rightarrow> u64 \<Rightarrow> machine \<Rightarrow> machine" where
  "setx r v m = (if r = Zero then m else m\<lparr>m_x := (m_x m)(r := v)\<rparr>)"

text \<open>\<^verbatim>\<open>sret\<close>: the bits SIE, SPIE and SPP of \<^verbatim>\<open>sstatus\<close> are 1, 5 and 8.\<close>

definition sret_status :: "u64 \<Rightarrow> u64" where
  "sret_status st = (let sie = (if bit st 5 then 2 else 0) in (st AND NOT 0x122) OR sie OR 0x20)"

fun exec_instr :: "paging \<Rightarrow> instr \<Rightarrow> machine \<Rightarrow> machine" where
  "exec_instr tr (Sd r off b) m = m\<lparr>m_ram := store64 (m_ram m) (tr (m_csr m Satp) (rx m b + of_nat off)) (rx m r)\<rparr>"
| "exec_instr tr (Ld r off b) m = setx r (load64 (m_ram m) (tr (m_csr m Satp) (rx m b + of_nat off))) m"
| "exec_instr tr (Addi r a i) m = setx r (rx m a + word_of_int i) m"
| "exec_instr tr (Add r a b) m = setx r (rx m a + rx m b) m"
| "exec_instr tr (Mul r a b) m = setx r (rx m a * rx m b) m"
| "exec_instr tr (Li r v) m = setx r v m"
| "exec_instr tr (Csrw k r) m = m\<lparr>m_csr := (m_csr m)(k := rx m r)\<rparr>"
| "exec_instr tr (Csrr r k) m = setx r (m_csr m k) m"
| "exec_instr tr SfenceVma m = m"
| "exec_instr tr (Jalr r ret_to) m = (setx Ra ret_to m)\<lparr>m_pc := rx m r\<rparr>"
| "exec_instr tr (Call target ret_to) m = (setx Ra ret_to m)\<lparr>m_pc := target\<rparr>"
| "exec_instr tr Ret m = m\<lparr>m_pc := rx m Ra\<rparr>"
| "exec_instr tr Sret m = m\<lparr>m_pc := m_csr m Sepc, m_csr := (m_csr m)(Sstatus := sret_status (m_csr m Sstatus))\<rparr>"

fun run_code :: "paging \<Rightarrow> instr list \<Rightarrow> machine \<Rightarrow> machine" where
  "run_code tr [] m = m"
| "run_code tr (i # is) m = run_code tr is (exec_instr tr i m)"

subsection \<open>The code\<close>

definition swtch :: "instr list" where
  "swtch =
     [Sd Ra 0 A0, Sd Sp 8 A0, Sd S0 16 A0, Sd S1 24 A0, Sd S2 32 A0,
      Sd S3 40 A0, Sd S4 48 A0, Sd S5 56 A0, Sd S6 64 A0, Sd S7 72 A0,
      Sd S8 80 A0, Sd S9 88 A0, Sd S10 96 A0, Sd S11 104 A0, Ld Ra 0 A1,
      Ld Sp 8 A1, Ld S0 16 A1, Ld S1 24 A1, Ld S2 32 A1, Ld S3 40 A1,
      Ld S4 48 A1, Ld S5 56 A1, Ld S6 64 A1, Ld S7 72 A1, Ld S8 80 A1,
      Ld S9 88 A1, Ld S10 96 A1, Ld S11 104 A1, Ret]"

definition uservec :: "u64 \<Rightarrow> instr list" where
  "uservec ret_to =
     [Csrw Sscratch A0, Li A0 TRAPFRAME, Sd Ra 40 A0, Sd Sp 48 A0, Sd Gp 56 A0,
      Sd Tp 64 A0, Sd T0 72 A0, Sd T1 80 A0, Sd T2 88 A0, Sd S0 96 A0,
      Sd S1 104 A0, Sd A1 120 A0, Sd A2 128 A0, Sd A3 136 A0, Sd A4 144 A0,
      Sd A5 152 A0, Sd A6 160 A0, Sd A7 168 A0, Sd S2 176 A0, Sd S3 184 A0,
      Sd S4 192 A0, Sd S5 200 A0, Sd S6 208 A0, Sd S7 216 A0, Sd S8 224 A0,
      Sd S9 232 A0, Sd S10 240 A0, Sd S11 248 A0, Sd T3 256 A0, Sd T4 264 A0,
      Sd T5 272 A0, Sd T6 280 A0, Csrr T0 Sscratch, Sd T0 112 A0, Ld Sp 8 A0,
      Ld Tp 32 A0, Ld T0 16 A0, Ld T1 0 A0, SfenceVma, Csrw Satp T1,
      SfenceVma, Jalr T0 ret_to]"

definition userret :: "instr list" where
  "userret =
     [SfenceVma, Csrw Satp A0, SfenceVma, Li A0 TRAPFRAME, Ld Ra 40 A0,
      Ld Sp 48 A0, Ld Gp 56 A0, Ld Tp 64 A0, Ld T0 72 A0, Ld T1 80 A0,
      Ld T2 88 A0, Ld S0 96 A0, Ld S1 104 A0, Ld A1 120 A0, Ld A2 128 A0,
      Ld A3 136 A0, Ld A4 144 A0, Ld A5 152 A0, Ld A6 160 A0, Ld A7 168 A0,
      Ld S2 176 A0, Ld S3 184 A0, Ld S4 192 A0, Ld S5 200 A0, Ld S6 208 A0,
      Ld S7 216 A0, Ld S8 224 A0, Ld S9 232 A0, Ld S10 240 A0, Ld S11 248 A0,
      Ld T3 256 A0, Ld T4 264 A0, Ld T5 272 A0, Ld T6 280 A0, Ld A0 112 A0,
      Sret]"

text \<open>\<^verbatim>\<open>kernelvec\<close> before and after \<^verbatim>\<open>kerneltrap\<close>, whose body is an argument.\<close>

definition kernelvec_save :: "u64 \<Rightarrow> u64 \<Rightarrow> instr list" where
  "kernelvec_save kerneltrap ret_to =
     [Addi Sp Sp (- 256), Sd Ra 0 Sp, Sd Gp 16 Sp, Sd Tp 24 Sp, Sd T0 32 Sp,
      Sd T1 40 Sp, Sd T2 48 Sp, Sd A0 72 Sp, Sd A1 80 Sp, Sd A2 88 Sp,
      Sd A3 96 Sp, Sd A4 104 Sp, Sd A5 112 Sp, Sd A6 120 Sp, Sd A7 128 Sp,
      Sd T3 216 Sp, Sd T4 224 Sp, Sd T5 232 Sp, Sd T6 240 Sp,
      Call kerneltrap ret_to]"

definition kernelvec_restore :: "instr list" where
  "kernelvec_restore =
     [Ld Ra 0 Sp, Ld Gp 16 Sp, Ld T0 32 Sp, Ld T1 40 Sp, Ld T2 48 Sp,
      Ld A0 72 Sp, Ld A1 80 Sp, Ld A2 88 Sp, Ld A3 96 Sp, Ld A4 104 Sp,
      Ld A5 112 Sp, Ld A6 120 Sp, Ld A7 128 Sp, Ld T3 216 Sp, Ld T4 224 Sp,
      Ld T5 232 Sp, Ld T6 240 Sp, Addi Sp Sp 256, Sret]"

definition kernelvec :: "paging \<Rightarrow> u64 \<Rightarrow> u64 \<Rightarrow> (machine \<Rightarrow> machine) \<Rightarrow> machine \<Rightarrow> machine" where
  "kernelvec tr kerneltrap ret_to body m = run_code tr kernelvec_restore (body (run_code tr (kernelvec_save kerneltrap ret_to) m))"

definition entry_code :: "u64 \<Rightarrow> u64 \<Rightarrow> u64 \<Rightarrow> instr list" where
  "entry_code stack0 start spin =
     [Li Sp stack0, Li A0 (1024 * 4), Csrr A1 Mhartid, Addi A1 A1 1, Mul A0 A0 A1, Add Sp Sp A0, Call start spin]"


subsection \<open>Runs of loads and stores\<close>

definition loads :: "(reg \<times> nat) list \<Rightarrow> reg \<Rightarrow> instr list" where
  "loads rs b = map (\<lambda>(r, off). Ld r off b) rs"

definition stores :: "(reg \<times> nat) list \<Rightarrow> reg \<Rightarrow> instr list" where
  "stores rs b = map (\<lambda>(r, off). Sd r off b) rs"

text \<open>The registers after a run of loads, and the memory after a run of stores.\<close>

definition loaded :: "(nat \<Rightarrow> u64) \<Rightarrow> (reg \<times> nat) list \<Rightarrow> pmem \<Rightarrow> (reg \<Rightarrow> u64) \<Rightarrow> reg \<Rightarrow> u64" where
  "loaded at rs M xs r = (case map_of rs r of None \<Rightarrow> xs r | Some off \<Rightarrow> load64 M (at off))"

definition stored :: "(nat \<Rightarrow> u64) \<Rightarrow> (reg \<times> nat) list \<Rightarrow> (reg \<Rightarrow> u64) \<Rightarrow> pmem \<Rightarrow> pmem" where
  "stored at rs v M = fold (\<lambda>(r, off) M. store64 M (at off) (v r)) rs M"

lemma run_append: "run_code tr (is @ js) m = run_code tr js (run_code tr is m)"
  by (induction "is" arbitrary: m) simp_all

lemma rx_setx [simp]: "r \<noteq> Zero \<Longrightarrow> rx (setx r v m) q = (if q = r then v else rx m q)"
  by (simp add: rx_def setx_def)

lemma setx_frame [simp]:
  "m_ram (setx r v m) = m_ram m" "m_csr (setx r v m) = m_csr m" "m_pc (setx r v m) = m_pc m"
  by (simp_all add: setx_def)

lemma rx_frame [simp]: "rx (m\<lparr>m_ram := M\<rparr>) = rx m" "rx (m\<lparr>m_csr := C\<rparr>) = rx m" "rx (m\<lparr>m_pc := a\<rparr>) = rx m"
  by (simp_all add: rx_def fun_eq_iff)

lemma rx_x [simp]: "r \<noteq> Zero \<Longrightarrow> rx (m\<lparr>m_x := f\<rparr>) r = f r"
  by (simp add: rx_def)

lemma run_loads:
  assumes "b \<notin> fst ` set rs" "Zero \<notin> fst ` set rs" "distinct (map fst rs)"
  shows "run_code tr (loads rs b) m =
    m\<lparr>m_x := loaded (\<lambda>off. tr (m_csr m Satp) (rx m b + of_nat off)) rs (m_ram m) (m_x m)\<rparr>"
  using assms
proof (induction rs arbitrary: m)
  case Nil
  then show ?case by (simp add: loads_def loaded_def)
next
  case (Cons p rs)
  obtain r off where p: "p = (r, off)" by (cases p)
  have ne: "r \<noteq> Zero" "r \<noteq> b" "map_of rs r = None" using Cons.prems p by (auto simp: map_of_eq_None_iff)
  have "loads (p # rs) b = Ld r off b # loads rs b" by (simp add: loads_def p)
  then show ?case using Cons.IH [of "exec_instr tr (Ld r off b) m"] Cons.prems ne
    by (auto simp: p setx_def rx_def loaded_def fun_eq_iff split: option.splits)
qed

lemma run_stores:
  "run_code tr (stores rs b) m =
    m\<lparr>m_ram := stored (\<lambda>off. tr (m_csr m Satp) (rx m b + of_nat off)) rs (rx m) (m_ram m)\<rparr>"
proof (induction rs arbitrary: m)
  case Nil
  then show ?case by (simp add: stores_def stored_def)
next
  case (Cons p rs)
  obtain r off where p: "p = (r, off)" by (cases p)
  have "stores (p # rs) b = Sd r off b # stores rs b" by (simp add: stores_def p)
  then show ?case using Cons.IH [of "exec_instr tr (Sd r off b) m"] by (simp add: p stored_def)
qed

lemma stored_Cons: "stored at ((r, off) # rs) v M = stored at rs v (store64 M (at off) (v r))"
  by (simp add: stored_def)

lemma stored_cong: "(\<And>r off. (r, off) \<in> set rs \<Longrightarrow> at off = at' off) \<Longrightarrow> stored at rs v M = stored at' rs v M"
  unfolding stored_def by (rule fold_cong) auto

lemma stored_other:
  assumes "\<And>r off. (r, off) \<in> set rs \<Longrightarrow> at off mod 8 = 0 \<and> at off \<noteq> a" "a mod 8 = 0"
  shows "load64 (stored at rs v M) a = load64 M a"
  using assms
proof (induction rs arbitrary: M)
  case (Cons p rs)
  obtain r off where p: "p = (r, off)" by (cases p)
  have "load64 (store64 M (at off) (v r)) a = load64 M a"
    using Cons.prems(1) [of r off] Cons.prems(2) p by (intro load64_store64_other) simp_all
  moreover have "load64 (stored at rs v M') a = load64 M' a" for M'
  proof (rule Cons.IH)
    show "at d mod 8 = 0 \<and> at d \<noteq> a" if "(s, d) \<in> set rs" for s d using Cons.prems(1) [of s d] that by simp
  qed (rule Cons.prems(2))
  ultimately show ?case by (simp add: p stored_Cons)
qed (simp add: stored_def)

lemma stored_at:
  assumes "(r, off) \<in> set rs" "\<And>r off. (r, off) \<in> set rs \<Longrightarrow> at off mod 8 = 0" "distinct (map (at \<circ> snd) rs)"
  shows "load64 (stored at rs v M) (at off) = v r"
  using assms
proof (induction rs arbitrary: M)
  case (Cons p rs)
  obtain q o' where p: "p = (q, o')" by (cases p)
  show ?case
  proof (cases "(r, off) = p")
    case True
    have "at d mod 8 = 0 \<and> at d \<noteq> at o'" if "(s, d) \<in> set rs" for s d using Cons.prems(2,3) p that by (force simp: image_iff)
    moreover have "at o' mod 8 = 0" using Cons.prems(2) [of q o'] p by simp
    ultimately show ?thesis using stored_other [of rs at "at o'"] True by (simp add: p stored_Cons)
  next
    case False
    then have "(r, off) \<in> set rs" using Cons.prems(1) by simp
    then have "load64 (stored at rs v M') (at off) = v r" for M'
    proof (rule Cons.IH)
      show "at d mod 8 = 0" if "(s, d) \<in> set rs" for s d using Cons.prems(2) [of s d] that by simp
    qed (use Cons.prems(3) in simp)
    then show ?thesis by (simp add: p stored_Cons)
  qed
qed simp

subsection \<open>Traps from user space\<close>

text \<open>The slot of a register in \<^verbatim>\<open>struct trapframe\<close>.\<close>

fun slot :: "reg \<Rightarrow> u64" where
  "slot Zero = 0" | "slot Ra = 40" | "slot Sp = 48" | "slot Gp = 56" | "slot Tp = 64" | "slot T0 = 72" | "slot T1 = 80" | "slot T2 = 88"
| "slot S0 = 96" | "slot S1 = 104" | "slot A0 = 112" | "slot A1 = 120" | "slot A2 = 128" | "slot A3 = 136" | "slot A4 = 144"
| "slot A5 = 152" | "slot A6 = 160" | "slot A7 = 168" | "slot S2 = 176" | "slot S3 = 184" | "slot S4 = 192" | "slot S5 = 200"
| "slot S6 = 208" | "slot S7 = 216" | "slot S8 = 224" | "slot S9 = 232" | "slot S10 = 240" | "slot S11 = 248" | "slot T3 = 256"
| "slot T4 = 264" | "slot T5 = 272" | "slot T6 = 280"

text \<open>The page table \<open>satp\<close> maps the page at virtual address \<open>va\<close> to the physical page \<open>pa\<close>.\<close>

definition maps_page :: "paging \<Rightarrow> u64 \<Rightarrow> u64 \<Rightarrow> u64 \<Rightarrow> bool" where
  "maps_page tr satp va pa \<longleftrightarrow> pa mod PGSIZE = 0 \<and> (\<forall>off < PGSIZE. tr satp (va + off) = pa + off)"

lemma aligned8_offset: "(p :: u64) mod PGSIZE = 0 \<Longrightarrow> off mod 8 = 0 \<Longrightarrow> off < PGSIZE \<Longrightarrow> (p + off) mod 8 = 0"
  by (simp add: aligned_plus aligned_bits aligned8_bits bit_simps)

lemma of_nat_PGSIZE: "off < 4096 \<Longrightarrow> (of_nat off :: u64) < PGSIZE"
  by (simp add: word_less_nat_alt unsigned_of_nat take_bit_nat_eq_self)

lemma at_aligned8:
  assumes "(p :: u64) mod PGSIZE = 0" "off < 4096" "8 dvd off"
  shows "(p + of_nat off) mod 8 = 0"
proof -
  obtain k where "off = 8 * k" using assms(3) by (elim dvdE)
  then have "(of_nat off :: u64) mod 8 = 0" using mult8_aligned [of "of_nat k"] by simp
  then show ?thesis using assms(1,2) of_nat_PGSIZE by (intro aligned8_offset)
qed

lemma at_inj: "off < 4096 \<Longrightarrow> off' < 4096 \<Longrightarrow> (p :: u64) + of_nat off = p + of_nat off' \<longleftrightarrow> off = off'"
  by (subst add_left_cancel) (simp add: word_unat_eq_iff unsigned_of_nat take_bit_nat_eq_self)

text \<open>The registers that are saved and restored in a row.\<close>

definition frame_regs :: "(reg \<times> nat) list" where
  "frame_regs =
     [(Ra, 40), (Sp, 48), (Gp, 56), (Tp, 64), (T0, 72), (T1, 80), (T2, 88), (S0, 96), (S1, 104), (A1, 120), (A2, 128),
      (A3, 136), (A4, 144), (A5, 152), (A6, 160), (A7, 168), (S2, 176), (S3, 184), (S4, 192), (S5, 200), (S6, 208),
      (S7, 216), (S8, 224), (S9, 232), (S10, 240), (S11, 248), (T3, 256), (T4, 264), (T5, 272), (T6, 280)]"

lemma uservec_code: "uservec ret_to = [Csrw Sscratch A0, Li A0 TRAPFRAME] @ stores frame_regs A0 @
    [Csrr T0 Sscratch, Sd T0 112 A0, Ld Sp 8 A0, Ld Tp 32 A0, Ld T0 16 A0, Ld T1 0 A0,
     SfenceVma, Csrw Satp T1, SfenceVma, Jalr T0 ret_to]"
  by (simp add: uservec_def stores_def frame_regs_def)

lemma userret_code: "userret = [SfenceVma, Csrw Satp A0, SfenceVma, Li A0 TRAPFRAME] @ loads frame_regs A0 @ [Ld A0 112 A0, Sret]"
  by (simp add: userret_def loads_def frame_regs_def)

lemma frame_regs_facts:
  "A0 \<notin> fst ` set frame_regs" "Zero \<notin> fst ` set frame_regs" "distinct (map fst frame_regs)" "distinct (map snd frame_regs)"
  by (simp_all add: frame_regs_def)

lemma frame_regs_offset: "(r, off) \<in> set frame_regs \<Longrightarrow> 40 \<le> off \<and> off < 4096 \<and> 8 dvd off \<and> off \<noteq> 112"
  by (auto simp: frame_regs_def)

lemma frame_regs_slot:
  "r \<noteq> Zero \<Longrightarrow> r \<noteq> A0 \<Longrightarrow> \<exists>off. map_of frame_regs r = Some off \<and> (r, off) \<in> set frame_regs \<and> of_nat off = slot r"
  by (cases r) (simp_all add: frame_regs_def)

lemma userret_regs:
  assumes "maps_page tr (rx m A0) TRAPFRAME tf"
  shows "r \<noteq> Zero \<Longrightarrow> rx (run_code tr userret m) r = load64 (m_ram m) (tf + slot r)"
    and "m_csr (run_code tr userret m) Satp = rx m A0" "m_ram (run_code tr userret m) = m_ram m"
    "m_pc (run_code tr userret m) = m_csr m Sepc"
proof -
  let ?m = "setx A0 TRAPFRAME (m\<lparr>m_csr := (m_csr m)(Satp := rx m A0)\<rparr>)"
  have at: "tr (rx m A0) (TRAPFRAME + of_nat off) = tf + of_nat off" if "off < 4096" for off :: nat
    using assms that unfolding maps_page_def by (simp add: word_less_nat_alt unsigned_of_nat take_bit_nat_eq_self)
  have run: "run_code tr userret m = run_code tr [Ld A0 112 A0, Sret]
      (?m\<lparr>m_x := loaded (\<lambda>off. tr (rx m A0) (TRAPFRAME + of_nat off)) frame_regs (m_ram m) (m_x ?m)\<rparr>)"
    unfolding userret_code run_append using run_loads [OF frame_regs_facts(1-3), of tr ?m] by simp
  show "m_csr (run_code tr userret m) Satp = rx m A0" "m_ram (run_code tr userret m) = m_ram m"
    "m_pc (run_code tr userret m) = m_csr m Sepc"
    unfolding run by simp_all
  show "rx (run_code tr userret m) r = load64 (m_ram m) (tf + slot r)" if r: "r \<noteq> Zero"
  proof (cases "r = A0")
    case True
    have "map_of frame_regs A0 = None" using frame_regs_facts(1) by (simp add: map_of_eq_None_iff)
    then show ?thesis unfolding run using at [of 112] by (simp add: True rx_def setx_def loaded_def)
  next
    case False
    then obtain off where off: "map_of frame_regs r = Some off" "of_nat off = slot r" "(r, off) \<in> set frame_regs"
      using frame_regs_slot [OF r] by blast
    then have "off < 4096" by (auto simp: frame_regs_def)
    then show ?thesis unfolding run using at [of off] off(1,2) False r by (simp add: rx_def setx_def loaded_def)
  qed
qed

lemma uservec_effect:
  assumes "maps_page tr (m_csr m Satp) TRAPFRAME tf"
  shows "r \<noteq> Zero \<Longrightarrow> load64 (m_ram (run_code tr (uservec ret_to) m)) (tf + slot r) = rx m r"
    and "rx (run_code tr (uservec ret_to) m) Sp = load64 (m_ram m) (tf + 8)"
    "rx (run_code tr (uservec ret_to) m) Tp = load64 (m_ram m) (tf + 32)"
    "m_pc (run_code tr (uservec ret_to) m) = load64 (m_ram m) (tf + 16)"
    "m_csr (run_code tr (uservec ret_to) m) Satp = load64 (m_ram m) tf"
    "rx (run_code tr (uservec ret_to) m) Ra = ret_to"
proof -
  let ?at = "\<lambda>off. tf + of_nat off :: u64" and ?u = "m_csr m Satp"
  let ?m = "setx A0 TRAPFRAME (m\<lparr>m_csr := (m_csr m)(Sscratch := rx m A0)\<rparr>)"
  have tf: "tf mod PGSIZE = 0" using assms by (simp add: maps_page_def)
  have at: "tr ?u (TRAPFRAME + of_nat off) = ?at off" if "off < 4096" for off :: nat
    using assms that unfolding maps_page_def by (simp add: word_less_nat_alt unsigned_of_nat take_bit_nat_eq_self)
  define M where "M = stored ?at frame_regs (rx ?m) (m_ram m)"
  have M: "stored (\<lambda>off. tr ?u (TRAPFRAME + of_nat off)) frame_regs (rx ?m) (m_ram m) = M"
    unfolding M_def by (rule stored_cong) (use at frame_regs_offset in blast)
  have al: "?at off mod 8 = 0" if "(r, off) \<in> set frame_regs" for r off
    using at_aligned8 [OF tf] frame_regs_offset [OF that] by blast
  have old: "load64 M (?at o') = load64 (m_ram m) (?at o')" if "o' < 40 \<or> o' = 112" "8 dvd o'" for o'
    unfolding M_def
  proof (rule stored_other)
    show "?at off mod 8 = 0 \<and> ?at off \<noteq> ?at o'" if "(r, off) \<in> set frame_regs" for r off
      using al [OF that] frame_regs_offset [OF that] at_inj [of off o' tf] \<open>o' < 40 \<or> o' = 112\<close> by auto
  qed (rule at_aligned8 [OF tf], use that in auto)
  have new: "load64 M (?at off) = rx ?m r" if "(r, off) \<in> set frame_regs" for r off
    unfolding M_def
  proof (rule stored_at [OF that])
    show "distinct (map (?at \<circ> snd) frame_regs)" by (simp add: frame_regs_def)
  qed (use al in blast)
  have run: "run_code tr (uservec ret_to) m = run_code tr [Csrr T0 Sscratch, Sd T0 112 A0, Ld Sp 8 A0, Ld Tp 32 A0, Ld T0 16 A0, Ld T1 0 A0,
     SfenceVma, Csrw Satp T1, SfenceVma, Jalr T0 ret_to] (?m\<lparr>m_ram := M\<rparr>)"
    unfolding uservec_code run_append using run_stores [of tr frame_regs A0 ?m] M by simp
  have ram: "m_ram (run_code tr (uservec ret_to) m) = store64 M (tf + 112) (rx m A0)"
    unfolding run using at [of 112] by simp
  have a112: "(tf + 112) mod 8 = 0" using at_aligned8 [OF tf, of 112] by simp
  have keep: "load64 (store64 M (tf + 112) v) (?at o') = load64 M (?at o')" if "o' < 4096" "8 dvd o'" "o' \<noteq> 112" for o' v
    using at_inj [of 112 o' tf] that by (intro load64_store64_other [OF a112] at_aligned8 [OF tf]) auto
  show "load64 (m_ram (run_code tr (uservec ret_to) m)) (tf + slot r) = rx m r" if r: "r \<noteq> Zero"
  proof (cases "r = A0")
    case False
    then obtain off where off: "of_nat off = slot r" "(r, off) \<in> set frame_regs" using frame_regs_slot [OF r] by blast
    then show ?thesis using keep [of off] new [OF off(2)] frame_regs_offset [OF off(2)] False by (simp add: ram)
  qed (simp add: ram)
  have "load64 (store64 M (tf + 112) v) (?at o') = load64 (m_ram m) (?at o')" if "o' < 40" "8 dvd o'" for o' v
    using keep [of o'] old [of o'] that by simp
  note this [of 0] this [of 8] this [of 16] this [of 32] 
  then show "rx (run_code tr (uservec ret_to) m) Sp = load64 (m_ram m) (tf + 8)"
    "rx (run_code tr (uservec ret_to) m) Tp = load64 (m_ram m) (tf + 32)"
    "m_pc (run_code tr (uservec ret_to) m) = load64 (m_ram m) (tf + 16)"
    "m_csr (run_code tr (uservec ret_to) m) Satp = load64 (m_ram m) tf"
    "rx (run_code tr (uservec ret_to) m) Ra = ret_to"
    unfolding run using at [of 0] at [of 8] at [of 16] at [of 32] at [of 112]
    by simp_all
qed


definition tr0 :: paging where
  "tr0 satp va = va - TRAPFRAME + 0x87000000"

definition m0 :: machine where
  "m0 = \<lparr>m_x = (\<lambda>_. 7), m_csr = (\<lambda>_. 0)(Satp := 5), m_pc = 0, m_ram = (\<lambda>_. 0)\<rparr>"


subsection \<open>Context switches\<close>

definition context_regs :: "(reg \<times> nat) list" where
  "context_regs =
     [(Ra, 0), (Sp, 8), (S0, 16), (S1, 24), (S2, 32), (S3, 40), (S4, 48), (S5, 56), (S6, 64), (S7, 72), (S8, 80), (S9, 88),
      (S10, 96), (S11, 104)]"

lemma swtch_code: "swtch = stores context_regs A0 @ loads context_regs A1 @ [Ret]"
  by (simp add: swtch_def stores_def loads_def context_regs_def)

lemma context_regs_facts:
  "A1 \<notin> fst ` set context_regs" "Zero \<notin> fst ` set context_regs" "distinct (map fst context_regs)" "distinct (map snd context_regs)"
  "(r, off) \<in> set context_regs \<Longrightarrow> off < 112 \<and> 8 dvd off"
  by (auto simp: context_regs_def)

text \<open>A \<^verbatim>\<open>struct context\<close> at \<open>ctx\<close>, in memory that the kernel maps one to one.\<close>

definition context_at :: "paging \<Rightarrow> u64 \<Rightarrow> u64 \<Rightarrow> bool" where
  "context_at tr satp ctx \<longleftrightarrow> ctx mod 8 = 0 \<and> (\<forall>off < 112. tr satp (ctx + of_nat off) = ctx + of_nat off)"

definition contexts_apart :: "u64 \<Rightarrow> u64 \<Rightarrow> bool" where
  "contexts_apart ctx ctx' \<longleftrightarrow> (\<forall>off < 112. \<forall>off' < 112. ctx + of_nat off \<noteq> ctx' + of_nat off')"

lemma contexts_apartI:
  assumes "unat ctx + 112 \<le> unat ctx'" "unat ctx' + 112 < 2 ^ 64"
  shows "contexts_apart ctx' ctx"
  unfolding contexts_apart_def
proof (intro allI impI notI)
  fix off off' :: nat
  assume o: "off < 112" "off' < 112" and eq: "ctx' + of_nat off = ctx + of_nat off'"
  have "unat (ctx' + of_nat off) = unat ctx' + off" "unat (ctx + of_nat off') = unat ctx + off'"
    using assms o by (simp_all add: unat_word_ariths unsigned_of_nat take_bit_nat_eq_self)
  then show False using eq assms(1) o by simp
qed

lemma aligned8_add: "(p :: u64) mod 8 = 0 \<Longrightarrow> 8 dvd off \<Longrightarrow> (p + of_nat off) mod 8 = 0"
proof -
  assume p: "p mod 8 = 0" "8 dvd off"
  have "(2 :: nat) ^ 64 = 8 * 2 ^ 61" by simp
  then have "8 dvd (2 :: nat) ^ 64" by (metis dvd_triv_left)
  moreover have "8 dvd unat p" using p(1) by (simp add: word_unat_eq_iff unat_mod mod_eq_0_iff_dvd)
  moreover have "8 dvd unat (of_nat off :: u64)" using p(2) calculation(1) by (simp add: unsigned_of_nat take_bit_eq_mod dvd_mod)
  ultimately have "8 dvd unat (p + of_nat off)" by (simp add: unat_word_ariths dvd_mod)
  then show ?thesis by (simp add: word_unat_eq_iff unat_mod mod_eq_0_iff_dvd)
qed

lemma stored_slot:
  assumes "(r, off) \<in> set rs" "base mod 8 = 0" "\<And>r off. (r, off) \<in> set rs \<Longrightarrow> off < 4096 \<and> 8 dvd off" "distinct (map snd rs)"
  shows "load64 (stored (\<lambda>off. base + of_nat off) rs v M) (base + of_nat off) = v r"
proof (rule stored_at [OF assms(1), where at = "\<lambda>off. base + of_nat off"])
  show "(base + of_nat off) mod 8 = 0" if "(r, off) \<in> set rs" for r off
    using assms(3) [OF that] by (intro aligned8_add [OF assms(2)]) simp
  have "inj_on (\<lambda>off. base + of_nat off) (snd ` set rs)"
    using assms(3) at_inj [of _ _ base] by (force simp: inj_on_def)
  then show "distinct (map ((\<lambda>off. base + of_nat off) \<circ> snd) rs)"
    using assms(4) distinct_map [of "\<lambda>off. base + of_nat off" "map snd rs"] by simp
qed

lemma swtch_run:
  assumes "context_at tr (m_csr m Satp) (rx m A0)" "context_at tr (m_csr m Satp) (rx m A1)"
  shows "run_code tr swtch m = (let M = stored (\<lambda>off. rx m A0 + of_nat off) context_regs (rx m) (m_ram m);
      xs = loaded (\<lambda>off. rx m A1 + of_nat off) context_regs M (m_x m) in m\<lparr>m_ram := M, m_x := xs, m_pc := xs Ra\<rparr>)"
proof -
  have at: "(r, off) \<in> set context_regs \<Longrightarrow> tr (m_csr m Satp) (rx m b + of_nat off) = rx m b + of_nat off" if "b = A0 \<or> b = A1" for r off b
    using assms that context_regs_facts(5) [of r off] by (auto simp: context_at_def)
  have st: "stored (\<lambda>off. tr (m_csr m Satp) (rx m A0 + of_nat off)) context_regs v M = stored (\<lambda>off. rx m A0 + of_nat off) context_regs v M" for v M
    by (rule stored_cong) (use at in simp)
  have "loaded (\<lambda>off. tr (m_csr m Satp) (rx m A1 + of_nat off)) context_regs M xs r = loaded (\<lambda>off. rx m A1 + of_nat off) context_regs M xs r" for M xs r
    unfolding loaded_def by (auto split: option.split dest!: map_of_SomeD simp: at)
  then have ld: "loaded (\<lambda>off. tr (m_csr m Satp) (rx m A1 + of_nat off)) context_regs = loaded (\<lambda>off. rx m A1 + of_nat off) context_regs"
    by (simp add: fun_eq_iff)
  show ?thesis unfolding swtch_code run_append run_stores st
    by (simp add: run_loads context_regs_facts ld Let_def)
qed

lemma swtch_saves:
  assumes "context_at tr (m_csr m Satp) (rx m A0)" "context_at tr (m_csr m Satp) (rx m A1)" "(r, off) \<in> set context_regs"
  shows "load64 (m_ram (run_code tr swtch m)) (rx m A0 + of_nat off) = rx m r"
proof -
  have "off < 4096 \<and> 8 dvd off" if "(r, off) \<in> set context_regs" for r off using context_regs_facts(5) [OF that] by simp
  then show ?thesis unfolding swtch_run [OF assms(1,2)] Let_def
    using stored_slot [OF assms(3) _ _ context_regs_facts(4)] assms(1) by (simp add: context_at_def)
qed

lemma swtch_loads:
  assumes "context_at tr (m_csr m Satp) (rx m A0)" "context_at tr (m_csr m Satp) (rx m A1)" "contexts_apart (rx m A0) (rx m A1)"
    and "(r, off) \<in> set context_regs"
  shows "rx (run_code tr swtch m) r = load64 (m_ram m) (rx m A1 + of_nat off)"
proof -
  have r: "map_of context_regs r = Some off" "r \<noteq> Zero" using assms(4) context_regs_facts(2,3) by force+
  have "load64 (stored (\<lambda>off. rx m A0 + of_nat off) context_regs (rx m) (m_ram m)) (rx m A1 + of_nat off) =
      load64 (m_ram m) (rx m A1 + of_nat off)"
  proof (rule stored_other)
    show "(rx m A0 + of_nat off') mod 8 = 0 \<and> rx m A0 + of_nat off' \<noteq> rx m A1 + of_nat off" if "(s, off') \<in> set context_regs" for s off'
      using assms(1,3) context_regs_facts(5) [OF that] context_regs_facts(5) [OF assms(4)] aligned8_add
      by (simp add: context_at_def contexts_apart_def)
    show "(rx m A1 + of_nat off) mod 8 = 0"
      using assms(2) context_regs_facts(5) [OF assms(4)] aligned8_add by (simp add: context_at_def)
  qed
  then show ?thesis using r by (simp add: swtch_run [OF assms(1,2)] Let_def rx_def loaded_def)
qed

text \<open>
  C5. A thread that leaves the processor goes on where it was: \<^verbatim>\<open>swtch\<close> (\<^verbatim>\<open>swtch.S\<close>) called in state \<open>m\<close> with the
  context of the thread in \<^verbatim>\<open>a0\<close>, and called again later, in a state \<open>k\<close> of another thread, with that
  context in \<^verbatim>\<open>a1\<close>, returns to the caller of the first one with its stack pointer and all of the registers that a
  C function keeps, whatever ran in between, as long as that left the saved context alone.
\<close>

theorem swtch_roundtrip:
  assumes "context_at tr (m_csr m Satp) (rx m A0)" "context_at tr (m_csr m Satp) (rx m A1)"
    and "context_at tr (m_csr k Satp) (rx k A0)" "context_at tr (m_csr k Satp) (rx k A1)" "contexts_apart (rx k A0) (rx k A1)"
    and "rx k A1 = rx m A0"
    and "\<And>off. off < 112 \<Longrightarrow> load64 (m_ram k) (rx m A0 + of_nat off) = load64 (m_ram (run_code tr swtch m)) (rx m A0 + of_nat off)"
    and "r \<in> {Ra, Sp, S0, S1, S2, S3, S4, S5, S6, S7, S8, S9, S10, S11}"
  shows "rx (run_code tr swtch k) r = rx m r \<and> m_pc (run_code tr swtch k) = rx m Ra"
proof -
  have "rx (run_code tr swtch k) q = rx m q" if "(q, off) \<in> set context_regs" for q off
    using swtch_loads [OF assms(3-5) that] swtch_saves [OF assms(1,2) that] assms(6,7) context_regs_facts(5) [OF that] by simp
  moreover have "\<exists>off. (r, off) \<in> set context_regs" "(Ra, 0) \<in> set context_regs" using assms(8) by (auto simp: context_regs_def)
  moreover have "m_pc (run_code tr swtch k) = rx (run_code tr swtch k) Ra"
    by (simp add: swtch_run [OF assms(3,4)] Let_def rx_def)
  ultimately show ?thesis by metis
qed

definition tr_id :: paging where
  "tr_id satp va = va"

definition thread0 :: machine where
  "thread0 = m0\<lparr>m_x := (\<lambda>_. 7)(A0 := 0x1000, A1 := 0x2000)\<rparr>"

definition thread1 :: machine where
  "thread1 = setx A0 0x3000 (setx A1 0x1000 (run_code tr_id swtch thread0))"

theorem swtch_roundtrip_witness: "rx (run_code tr_id swtch thread1) S3 = 7 \<and> m_pc (run_code tr_id swtch thread1) = 7"
proof -
  have a: "context_at tr_id s 0x1000" "context_at tr_id s 0x2000" "context_at tr_id s 0x3000" for s
    by (simp_all add: context_at_def tr_id_def)
  have r: "rx thread0 A0 = 0x1000" "rx thread0 A1 = 0x2000" "rx thread1 A0 = 0x3000" "rx thread1 A1 = 0x1000"
      "rx thread0 S3 = 7" "rx thread0 Ra = 7"
    by (simp_all add: thread0_def thread1_def)
  have "contexts_apart (rx thread1 A0) (rx thread1 A1)" unfolding r by (rule contexts_apartI) simp_all
  moreover have "m_ram thread1 = m_ram (run_code tr_id swtch thread0)" by (simp add: thread1_def)
  ultimately show ?thesis using swtch_roundtrip [of tr_id thread0 thread1 S3] a r by simp
qed

subsection \<open>Traps in the kernel\<close>

definition kernel_regs :: "(reg \<times> nat) list" where
  "kernel_regs =
     [(Ra, 0), (Gp, 16), (Tp, 24), (T0, 32), (T1, 40), (T2, 48), (A0, 72), (A1, 80), (A2, 88), (A3, 96), (A4, 104), (A5, 112),
      (A6, 120), (A7, 128), (T3, 216), (T4, 224), (T5, 232), (T6, 240)]"

definition kept_regs :: "(reg \<times> nat) list" where
  "kept_regs = filter (\<lambda>(r, off). r \<noteq> Tp) kernel_regs"

lemma kernelvec_code:
  "kernelvec_save kerneltrap ret_to = [Addi Sp Sp (- 256)] @ stores kernel_regs Sp @ [Call kerneltrap ret_to]"
  "kernelvec_restore = loads kept_regs Sp @ [Addi Sp Sp 256, Sret]"
  by (simp_all add: kernelvec_save_def kernelvec_restore_def stores_def loads_def kernel_regs_def kept_regs_def)

lemma kernel_regs_facts:
  "(r, off) \<in> set kernel_regs \<Longrightarrow> off < 256 \<and> 8 dvd off" "distinct (map snd kernel_regs)" "(r, off) \<in> set kept_regs \<Longrightarrow> (r, off) \<in> set kernel_regs"
  "Sp \<notin> fst ` set kept_regs" "Zero \<notin> fst ` set kept_regs" "distinct (map fst kept_regs)"
  by (auto simp: kernel_regs_def kept_regs_def)

text \<open>
  Kernel code that is interrupted finds its registers as they were: \<open>kerneltrap\<close> keeps the registers
  that a C function keeps, the page table and what lies above its stack pointer. Only \<^verbatim>\<open>tp\<close>, the number of the
  hart, is what \<open>kerneltrap\<close> has left there, since it may have yielded and gone on on another hart.
\<close>

theorem kernelvec_restores:
  fixes base :: u64 and tr :: paging and m :: machine and kerneltrap ret_to :: u64
  defines "m1 \<equiv> run_code tr (kernelvec_save kerneltrap ret_to) m"
  assumes frame: "base mod 8 = 0" "\<And>off. off < 256 \<Longrightarrow> tr (m_csr m Satp) (rx m Sp - 256 + of_nat off) = base + of_nat off"
    and body: "rx (body m1) Sp = rx m1 Sp" "m_csr (body m1) Satp = m_csr m1 Satp"
      "\<And>off. off < 256 \<Longrightarrow> load64 (m_ram (body m1)) (base + of_nat off) = load64 (m_ram m1) (base + of_nat off)"
      "\<And>r. r \<in> {S0, S1, S2, S3, S4, S5, S6, S7, S8, S9, S10, S11} \<Longrightarrow> rx (body m1) r = rx m1 r"
  shows "r \<noteq> Tp \<Longrightarrow> rx (kernelvec tr kerneltrap ret_to body m) r = rx m r"
    and "rx (kernelvec tr kerneltrap ret_to body m) Tp = rx (body m1) Tp"
    and "m_pc (kernelvec tr kerneltrap ret_to body m) = m_csr (body m1) Sepc"
proof -
  let ?m = "setx Sp (rx m Sp - 256) m" and ?at = "\<lambda>off. base + of_nat off :: u64" and ?k = "body m1"
  define M where "M = stored ?at kernel_regs (rx ?m) (m_ram m)"
  have at: "tr (m_csr m Satp) (rx m Sp - 256 + of_nat off) = ?at off" if "(r, off) \<in> set kernel_regs" for r off
    using frame(2) kernel_regs_facts(1) [OF that] by simp
  have "stored (\<lambda>off. tr (m_csr m Satp) (rx m Sp - 256 + of_nat off)) kernel_regs (rx ?m) (m_ram m) = M"
    unfolding M_def by (rule stored_cong) (rule at)
  then have m1: "m1 = (setx Ra ret_to (?m\<lparr>m_ram := M\<rparr>))\<lparr>m_pc := kerneltrap\<rparr>"
    unfolding m1_def kernelvec_code run_append using run_stores [of tr kernel_regs Sp ?m] by simp
  have saved: "load64 M (?at off) = rx ?m r" if "(r, off) \<in> set kernel_regs" for r off
    unfolding M_def by (rule stored_slot [OF that frame(1) _ kernel_regs_facts(2)]) (use kernel_regs_facts(1) in fastforce)
  have sp: "rx ?k Sp = rx m Sp - 256" and satp: "m_csr ?k Satp = m_csr m Satp" using body(1,2) by (simp_all add: m1)
  let ?xs = "loaded (\<lambda>off. tr (m_csr ?k Satp) (rx ?k Sp + of_nat off)) kept_regs (m_ram ?k) (m_x ?k)"
  have k: "kernelvec tr kerneltrap ret_to body m = run_code tr [Addi Sp Sp 256, Sret] (?k\<lparr>m_x := ?xs\<rparr>)"
    unfolding kernelvec_def m1_def [symmetric] kernelvec_code(2) run_append run_loads [OF kernel_regs_facts(4-6)] ..
  have ne: "map_of kept_regs Sp = None" "map_of kept_regs Tp = None" by (simp_all add: kept_regs_def kernel_regs_def)
  show "m_pc (kernelvec tr kerneltrap ret_to body m) = m_csr ?k Sepc"
    "rx (kernelvec tr kerneltrap ret_to body m) Tp = rx ?k Tp" unfolding k using ne by (simp_all add: loaded_def rx_def setx_def)
  show "rx (kernelvec tr kerneltrap ret_to body m) r = rx m r" if "r \<noteq> Tp"
  proof (cases "r = Zero \<or> r = Sp")
    case True
    then show ?thesis unfolding k using ne sp by (auto simp: loaded_def rx_def setx_def)
  next
    case False
    then have xs: "rx (kernelvec tr kerneltrap ret_to body m) r = ?xs r" unfolding k by simp
    show ?thesis
    proof (cases "map_of kept_regs r")
      case None
      then have "r \<in> {S0, S1, S2, S3, S4, S5, S6, S7, S8, S9, S10, S11}" using False that by (cases r) (simp_all add: kept_regs_def kernel_regs_def)
      then have "rx ?k r = rx m r" using body(4) [of r] False by (auto simp: m1)
      then show ?thesis using None xs False by (simp add: loaded_def rx_def)
    next
      case (Some off)
      then have r: "(r, off) \<in> set kernel_regs" using kernel_regs_facts(3) map_of_SomeD by metis
      then have "load64 (m_ram ?k) (?at off) = rx m r"
        using body(3) [of off] saved [OF r] kernel_regs_facts(1) [OF r] False by (simp add: m1)
      then show ?thesis using Some xs at [OF r] by (simp add: loaded_def sp satp)
    qed
  qed
qed

subsection \<open>The first stack\<close>

text \<open>Every hart starts on a page of its own: the stack pointers of two harts below \<open>NCPU\<close> differ by at least a page.\<close>

lemma entry_stack:
  "rx (run_code tr (entry_code stack0 start spin) m) Sp = stack0 + 4096 * (m_csr m Mhartid + 1)"
  "m_pc (run_code tr (entry_code stack0 start spin) m) = start"
  by (simp_all add: entry_code_def)

end
